(* ===== verification/Prelude.thy ===== *)
theory Prelude
  imports Complex_Main "HOL-Library.Signed_Division"
begin

text \<open>
  Shared vocabulary of the development: the Go machine integers and the
  \<^verbatim>\<open>time\<close> package as the gateway uses them, and the generic facts on lists and
  maps the component theories share.

  An \<open>int64\<close> (and \<open>int\<close>, which is 64 bits wide on the platforms the gateway
  targets) is a HOL \<^typ>\<open>int\<close>; where the source can overflow, the arithmetic is
  written through \<open>i64\<close>, the two's complement wrap-around.  A \<open>time.Duration\<close> is
  an \<open>int64\<close> count of nanoseconds, a \<open>time.Time\<close> the number of nanoseconds
  since Go's zero instant, so \<open>IsZero\<close> is equality with 0 and \<open>Sub\<close> saturates at
  the \<open>int64\<close> range as the library does.
\<close>

named_theorems go_arith \<open>facts on 64-bit wrap-around and saturating arithmetic\<close>

type_synonym instant = int
type_synonym duration = int

definition MaxInt64 :: int where
  "MaxInt64 = 9223372036854775807"

definition MinInt64 :: int where
  "MinInt64 = - 9223372036854775808"

definition i64 :: "int \<Rightarrow> int" where
  "i64 x = (x + 9223372036854775808) mod 18446744073709551616 - 9223372036854775808"

definition in64 :: "int \<Rightarrow> bool" where
  "in64 x \<longleftrightarrow> MinInt64 \<le> x \<and> x \<le> MaxInt64"

definition sat64 :: "int \<Rightarrow> int" where
  "sat64 x = max MinInt64 (min MaxInt64 x)"

definition time_sub :: "instant \<Rightarrow> instant \<Rightarrow> duration" where
  "time_sub t u = sat64 (t - u)"

definition is_zero :: "instant \<Rightarrow> bool" where
  "is_zero t \<longleftrightarrow> t = 0"

abbreviation Millisecond :: duration where "Millisecond \<equiv> 1000000"
abbreviation Second :: duration where "Second \<equiv> 1000000000"
abbreviation Minute :: duration where "Minute \<equiv> 60000000000"
abbreviation Hour :: duration where "Hour \<equiv> 3600000000000"

lemma i64_in_range [simp, go_arith]: "in64 x \<Longrightarrow> i64 x = x"
  by (simp add: i64_def in64_def MaxInt64_def MinInt64_def)

lemma i64_bounds [simp, go_arith]: "in64 (i64 x)"
proof -
  have "0 \<le> (x + 9223372036854775808) mod 18446744073709551616"
    and "(x + 9223372036854775808) mod 18446744073709551616 < 18446744073709551616"
    by simp_all
  then show ?thesis
    by (simp add: i64_def in64_def MaxInt64_def MinInt64_def)
qed

lemma in64_nonneg [intro]: "0 \<le> x \<Longrightarrow> x \<le> MaxInt64 \<Longrightarrow> in64 x"
  by (simp add: in64_def MinInt64_def)

lemma i64_over [go_arith]:
  assumes "MaxInt64 < x" and "x \<le> 2 * MaxInt64"
  shows "i64 x < 0"
proof -
  have "x + 9223372036854775808 \<ge> 18446744073709551616"
    and "x + 9223372036854775808 < 2 * 18446744073709551616"
    using assms by (simp_all add: MaxInt64_def)
  then have "(x + 9223372036854775808) mod 18446744073709551616
      = x + 9223372036854775808 - 18446744073709551616"
    by (simp add: mod_pos_geq)
  then show ?thesis
    using assms by (simp add: i64_def MaxInt64_def)
qed

lemma i64_diff [simp, go_arith]:
  "i64 (i64 a - b) = i64 (a - b)" "i64 (a - i64 b) = i64 (a - b)"
proof -
  let ?M = "18446744073709551616 :: int" and ?c = "9223372036854775808 :: int"
  have "((a + ?c) mod ?M - ?c - b + ?c) mod ?M = ((a + ?c) mod ?M - b) mod ?M" by simp
  also have "\<dots> = (a - b + ?c) mod ?M" by (simp add: mod_diff_left_eq algebra_simps)
  finally show "i64 (i64 a - b) = i64 (a - b)" by (simp add: i64_def)
  have "a - ((b + ?c) mod ?M - ?c) + ?c = a + 2 * ?c - (b + ?c) mod ?M" by simp
  then have "(a - ((b + ?c) mod ?M - ?c) + ?c) mod ?M = (a + 2 * ?c - (b + ?c)) mod ?M"
    by (simp only: mod_diff_right_eq)
  also have "a + 2 * ?c - (b + ?c) = a - b + ?c" by simp
  finally show "i64 (a - i64 b) = i64 (a - b)" by (simp add: i64_def)
qed

lemma i64_zero [simp]: "i64 0 = 0"
  by (simp add: i64_def)

lemma sat64_bounds [simp, go_arith]: "in64 (sat64 x)"
  by (simp add: sat64_def in64_def MaxInt64_def MinInt64_def)

lemma sat64_in_range [simp, go_arith]: "in64 x \<Longrightarrow> sat64 x = x"
  by (simp add: sat64_def in64_def)

lemma sat64_mono: "x \<le> y \<Longrightarrow> sat64 x \<le> sat64 y"
  by (auto simp: sat64_def)

text \<open>
  Comparing a saturated difference with a duration that is itself an \<open>int64\<close>
  agrees with comparing the exact difference: saturation never changes a verdict.
\<close>

lemma sat64_less_iff [go_arith]: "in64 d \<Longrightarrow> sat64 x < d \<longleftrightarrow> x < d \<and> d \<noteq> MinInt64"
  by (auto simp: sat64_def in64_def MaxInt64_def MinInt64_def)

lemma sat64_le_iff [go_arith]: "in64 d \<Longrightarrow> d \<le> sat64 x \<longleftrightarrow> d \<le> x \<or> d = MinInt64"
  by (auto simp: sat64_def in64_def MaxInt64_def MinInt64_def)

lemma time_sub_less:
  "0 < d \<Longrightarrow> d \<le> MaxInt64 \<Longrightarrow> time_sub t u < d \<longleftrightarrow> t < u + d"
  by (auto simp: time_sub_def sat64_def MaxInt64_def MinInt64_def)

lemma time_sub_ge:
  "0 < d \<Longrightarrow> d \<le> MaxInt64 \<Longrightarrow> d \<le> time_sub t u \<longleftrightarrow> u + d \<le> t"
  by (auto simp: time_sub_def sat64_def MaxInt64_def MinInt64_def)

lemma time_sub_self [simp]: "time_sub t t = 0"
  by (simp add: time_sub_def sat64_def MaxInt64_def MinInt64_def)

lemma time_sub_nonneg: "u \<le> t \<Longrightarrow> 0 \<le> time_sub t u"
  by (simp add: time_sub_def sat64_def MaxInt64_def MinInt64_def)

lemma time_sub_le: "u \<le> t \<Longrightarrow> time_sub t u \<le> t - u"
  by (auto simp: time_sub_def sat64_def MaxInt64_def MinInt64_def)

lemma time_sub_exact: "in64 (t - u) \<Longrightarrow> time_sub t u = t - u"
  by (simp add: time_sub_def)

lemma sdiv_nonneg_pos: "0 \<le> (a::int) \<Longrightarrow> 0 < b \<Longrightarrow> a sdiv b = a div b"
  by (simp add: signed_divide_int_def sgn_if)

lemma smod_nonneg_pos: "0 \<le> (a::int) \<Longrightarrow> 0 < b \<Longrightarrow> a smod b = a mod b"
  by (simp add: signed_modulo_int_def minus_div_mult_eq_mod sgn_if)

lemma sdiv_neg_pos: "(a::int) \<le> 0 \<Longrightarrow> 0 < b \<Longrightarrow> a sdiv b \<le> 0"
  by (auto simp: signed_divide_int_def sgn_if pos_imp_zdiv_nonneg_iff)

end
