(* ===== verification/Go_Strings.thy ===== *)
theory Go_Strings
  imports Prelude
begin

text \<open>
  The string functions of Go's standard library the gateway calls, on byte strings:
  \<open>strings.TrimSpace\<close> (with the white space \<open>unicode.IsSpace\<close> accepts, in UTF-8),
  \<open>strings.HasPrefix\<close> and \<open>strings.HasSuffix\<close>, and
  \<open>strconv.ParseInt\<close> in base 10; and \<open>http.Header.Get\<close> on a list of headers
  with canonical names.
\<close>

definition byte :: "char \<Rightarrow> nat" where "byte c = of_char c"

text \<open>
  The bytes a leading white-space character takes, 0 when there is none: the ASCII spaces
  and the UTF-8 encodings of the other characters \<open>unicode.IsSpace\<close> accepts.
\<close>

definition space_width :: "string \<Rightarrow> nat" where
  "space_width s =
     (let b = map byte (take 3 s) in
      if b = [] then 0
      else if hd b \<in> {9, 10, 11, 12, 13, 32} then 1
      else if take 2 b \<in> {[194, 133], [194, 160]} then 2
      else if b \<in> {[225, 154, 128], [226, 128, 168], [226, 128, 169], [226, 128, 175], [226, 129, 159], [227, 128, 128]} \<or>
              (take 2 b = [226, 128] \<and> length b = 3 \<and> 128 \<le> b ! 2 \<and> b ! 2 \<le> 138) then 3
      else 0)"

lemma space_width_le: "space_width s \<le> length s"
proof (cases "space_width s = 0")
  case False
  then show ?thesis
    by (cases s; cases "tl s"; cases "tl (tl s)") (auto simp: space_width_def Let_def split: if_splits)
qed simp

lemma space_width_drop: "0 < space_width s \<Longrightarrow> length s - space_width s < length s"
  using space_width_le [of s] by linarith

text \<open>The same at the end of a string, where Go decodes the last character.\<close>

definition last_space_width :: "string \<Rightarrow> nat" where
  "last_space_width s =
     (if s = [] then 0
      else if space_width [last s] = 1 then 1
      else if space_width (drop (length s - 2) s) = 2 then 2
      else if space_width (drop (length s - 3) s) = 3 then 3
      else 0)"

function trim_left :: "string \<Rightarrow> string" where
  "trim_left s = (if space_width s = 0 then s else trim_left (drop (space_width s) s))"
  by pat_completeness auto

termination by (relation "measure length") (auto simp: space_width_drop)

function trim_right :: "string \<Rightarrow> string" where
  "trim_right s = (if last_space_width s = 0 then s else trim_right (take (length s - last_space_width s) s))"
  by pat_completeness auto

termination by (relation "measure length") (auto simp: last_space_width_def split: if_splits)

declare trim_left.simps [simp del] trim_right.simps [simp del]

definition trim_space :: "string \<Rightarrow> string" where
  "trim_space s = trim_right (trim_left s)"

lemma trim_space_Nil [simp]: "trim_space [] = []"
  by (simp add: trim_space_def trim_left.simps trim_right.simps space_width_def last_space_width_def)

definition has_prefix :: "string \<Rightarrow> string \<Rightarrow> bool" where
  "has_prefix s p \<longleftrightarrow> take (length p) s = p"

definition has_suffix :: "string \<Rightarrow> string \<Rightarrow> bool" where
  "has_suffix s p \<longleftrightarrow> length p \<le> length s \<and> drop (length s - length p) s = p"

definition header_get :: "(string \<times> string) list \<Rightarrow> string \<Rightarrow> string" where
  "header_get hs name = (case map_of hs name of Some v \<Rightarrow> v | None \<Rightarrow> '''')"

definition digit_val :: "char \<Rightarrow> int option" where
  "digit_val c = (if 48 \<le> byte c \<and> byte c \<le> 57 then Some (int (byte c) - 48) else None)"

fun parse_digits :: "int \<Rightarrow> string \<Rightarrow> int option" where
  "parse_digits acc [] = Some acc"
| "parse_digits acc (c # cs) =
     (case digit_val c of None \<Rightarrow> None | Some d \<Rightarrow> parse_digits (10 * acc + d) cs)"

definition parse_int64 :: "string \<Rightarrow> int option" where
  "parse_int64 s =
     (let (neg, ds) = (case s of
            [] \<Rightarrow> (False, [])
          | c # cs \<Rightarrow> if c = CHR ''-'' then (True, cs) else if c = CHR ''+'' then (False, cs) else (False, s))
      in if ds = [] then None
         else case parse_digits 0 ds of
                None \<Rightarrow> None
              | Some n \<Rightarrow> (let v = (if neg then - n else n) in if in64 v then Some v else None))"

lemma parse_int64_range: "parse_int64 s = Some v \<Longrightarrow> in64 v"
  by (auto simp: parse_int64_def Let_def split: prod.splits if_splits option.splits)

text \<open>\<open>strconv.FormatInt\<close> in base 10.\<close>

fun decimal :: "nat \<Rightarrow> string" where
  "decimal n = (if n < 10 then [char_of (48 + n)] else decimal (n div 10) @ [char_of (48 + n mod 10)])"

declare decimal.simps [simp del]

definition format_int :: "int \<Rightarrow> string" where
  "format_int n = (if n < 0 then CHR ''-'' # decimal (nat (- n)) else decimal (nat n))"

end
