(* ===== verification/Float64.thy ===== *)
theory Float64
  imports Prelude "HOL-Library.Log_Nat"
begin

text \<open>
  The \<open>float64\<close> arithmetic the gateway uses for token buckets, sampling shares and
  jitter.  A \<open>float64\<close> is the rational number it denotes; every arithmetic operation
  of the source is the exact operation followed by \<open>fl\<close>, rounding to nearest with
  ties to even at 53 significant bits, as IEEE 754 prescribes.  The exponent range is
  not bounded: the magnitudes the gateway computes with (token counts, nanoseconds,
  ratios) stay inside 2^-1022 .. 2^1023, where neither overflow nor subnormals arise.
  NaN and infinities do not occur on these paths; the one place where the source
  tests for a non-finite value says so.
\<close>

definition rne :: "rat \<Rightarrow> int" where
  "rne y = (let f = \<lfloor>y\<rfloor>; r = y - of_int f in
     if r < 1 / 2 then f else if r > 1 / 2 then f + 1 else if even f then f else f + 1)"

definition flexp :: "rat \<Rightarrow> int" where
  "flexp x = (let (n, d) = quotient_of x; e = bitlen n - bitlen d - 53 in
     if 2 ^ 53 \<le> x / 2 powi e then e + 1 else e)"

definition flpos :: "rat \<Rightarrow> rat" where
  "flpos x = of_int (rne (x / 2 powi flexp x)) * 2 powi flexp x"

definition fl :: "rat \<Rightarrow> rat" where
  "fl x = (if x = 0 then 0 else if 0 < x then flpos x else - flpos (- x))"

named_theorems float \<open>order and sign facts on rounded arithmetic\<close>

lemma rne_bounds: "\<lfloor>y\<rfloor> \<le> rne y" "rne y \<le> \<lfloor>y\<rfloor> + 1"
  by (simp_all add: rne_def Let_def)

lemma rne_mono:
  assumes "x \<le> y" shows "rne x \<le> rne y"
proof (cases "\<lfloor>x\<rfloor> = \<lfloor>y\<rfloor>")
  case True
  then show ?thesis using assms by (auto simp: rne_def Let_def)
next
  case False
  then have "\<lfloor>x\<rfloor> + 1 \<le> \<lfloor>y\<rfloor>" using floor_mono [OF assms] by simp
  then show ?thesis using rne_bounds(2) [of x] rne_bounds(1) [of y] by simp
qed

lemma rne_int [simp]: "rne (of_int k) = k"
  by (simp add: rne_def Let_def)

lemma rne_error: "\<bar>of_int (rne y) - y\<bar> \<le> 1 / 2"
proof -
  have "of_int \<lfloor>y\<rfloor> \<le> y" "y < of_int \<lfloor>y\<rfloor> + 1" by linarith+
  then show ?thesis by (auto simp: rne_def Let_def abs_le_iff)
qed

lemma powi_mono_2: "a \<le> b \<Longrightarrow> (2::rat) powi a \<le> 2 powi b"
  by (simp add: power_int_increasing)

lemma bitlen_range:
  assumes "0 < n"
  shows "2 powi (bitlen n - 1) \<le> (of_int n :: rat)" and "(of_int n :: rat) < 2 powi bitlen n"
proof -
  have p: "0 < bitlen n" using assms bitlen_nonneg [of n] bitlen_eq_zero_iff [of n] by linarith
  have "2 ^ nat (bitlen n - 1) \<le> n" "n < 2 ^ nat (bitlen n)"
    using bitlen_bounds [OF assms] by simp_all
  then have "(2::rat) ^ nat (bitlen n - 1) \<le> of_int n" "(of_int n :: rat) < 2 ^ nat (bitlen n)"
    by (metis of_int_le_iff of_int_power of_int_numeral, metis of_int_less_iff of_int_power of_int_numeral)
  then show "2 powi (bitlen n - 1) \<le> (of_int n :: rat)" and "(of_int n :: rat) < 2 powi bitlen n"
    using p by (simp_all add: power_int_def)
qed

lemma flexp_bounds:
  assumes "0 < x"
  shows "2 ^ 52 \<le> x / 2 powi flexp x" and "x / 2 powi flexp x < 2 ^ 53"
proof -
  obtain n d where q: "quotient_of x = (n, d)" by fastforce
  have d: "0 < d" using q quotient_of_denom_pos by blast
  have x: "x = of_int n / of_int d" using q quotient_of_div by blast
  have n: "0 < n" using assms d by (simp add: x zero_less_divide_iff)
  define e where "e = bitlen n - bitlen d - 53"
  have dpos: "(0::rat) < of_int d" using d by simp
  have lo: "(2::rat) powi (e + 52) \<le> x"
  proof -
    have "(2::rat) powi (e + 52) * of_int d \<le> 2 powi (e + 52) * 2 powi bitlen d"
      using bitlen_range(2) [OF d] by (intro mult_left_mono) simp_all
    also have "\<dots> = 2 powi (bitlen n - 1)"
      by (simp add: e_def flip: power_int_add)
    also have "\<dots> \<le> of_int n" by (rule bitlen_range(1) [OF n])
    finally show ?thesis by (simp add: x pos_le_divide_eq [OF dpos])
  qed
  have hi: "x < (2::rat) powi (e + 54)"
  proof -
    have "of_int n < (2::rat) powi bitlen n" by (rule bitlen_range(2) [OF n])
    also have "\<dots> = 2 powi (e + 54) * 2 powi (bitlen d - 1)"
      by (simp add: e_def flip: power_int_add)
    also have "\<dots> \<le> 2 powi (e + 54) * of_int d"
      using bitlen_range(1) [OF d] by (intro mult_left_mono) simp_all
    finally show ?thesis by (simp add: x pos_divide_less_eq [OF dpos])
  qed
  have split: "(2::rat) powi (e + k) = 2 powi e * 2 powi k" for k
    by (simp add: power_int_add)
  have fe: "flexp x = (if 2 ^ 53 \<le> x / 2 powi e then e + 1 else e)"
    by (simp add: flexp_def q e_def)
  have pe: "(0::rat) < 2 powi e" by simp
  show "2 ^ 52 \<le> x / 2 powi flexp x" "x / 2 powi flexp x < 2 ^ 53"
    using lo hi pe unfolding fe split
    by (auto simp: pos_le_divide_eq pos_divide_less_eq power_int_add not_le mult.commute)
qed

lemma flexp_mono:
  assumes "0 < x" and "x \<le> y" shows "flexp x \<le> flexp y"
proof (rule ccontr)
  assume "\<not> flexp x \<le> flexp y"
  then have "flexp y + 1 \<le> flexp x" by simp
  then have p: "2 * (2::rat) powi flexp y \<le> 2 powi flexp x"
    using powi_mono_2 [of "flexp y + 1" "flexp x"] by (simp add: power_int_add)
  have "y < 2 ^ 53 * 2 powi flexp y"
    using flexp_bounds(2) [of y] assms by (simp add: pos_divide_less_eq)
  also have "\<dots> = 2 ^ 52 * (2 * 2 powi flexp y)" by simp
  also have "\<dots> \<le> 2 ^ 52 * 2 powi flexp x" using p by (intro mult_left_mono) simp_all
  also have "\<dots> \<le> x" using flexp_bounds(1) [OF assms(1)] by (simp add: pos_le_divide_eq)
  finally show False using assms(2) by simp
qed

lemma flpos_between:
  assumes "0 < x"
  shows "2 ^ 52 * 2 powi flexp x \<le> flpos x" and "flpos x \<le> 2 ^ 53 * 2 powi flexp x"
proof -
  have "rne (of_int (2 ^ 52)) \<le> rne (x / 2 powi flexp x)"
    using flexp_bounds(1) [OF assms] by (intro rne_mono) simp
  moreover have "rne (x / 2 powi flexp x) \<le> rne (of_int (2 ^ 53))"
    using flexp_bounds(2) [OF assms] by (intro rne_mono) simp
  ultimately have b: "2 ^ 52 \<le> rne (x / 2 powi flexp x)" "rne (x / 2 powi flexp x) \<le> 2 ^ 53"
    unfolding rne_int by simp_all
  have "(2::rat) ^ 52 \<le> of_int (rne (x / 2 powi flexp x))"
    using b(1) by (metis of_int_le_iff of_int_power of_int_numeral)
  moreover have "of_int (rne (x / 2 powi flexp x)) \<le> (2::rat) ^ 53"
    using b(2) by (metis of_int_le_iff of_int_power of_int_numeral)
  ultimately show "2 ^ 52 * 2 powi flexp x \<le> flpos x" "flpos x \<le> 2 ^ 53 * 2 powi flexp x"
    unfolding flpos_def by (intro mult_right_mono; simp)+
qed

lemma flpos_mono:
  assumes "0 < x" and "x \<le> y" shows "flpos x \<le> flpos y"
proof (cases "flexp x = flexp y")
  case True
  have "rne (x / 2 powi flexp y) \<le> rne (y / 2 powi flexp y)"
    using assms(2) by (intro rne_mono divide_right_mono) simp_all
  then show ?thesis
    unfolding flpos_def True by (intro mult_right_mono) simp_all
next
  case False
  then have "flexp x + 1 \<le> flexp y" using flexp_mono [OF assms] by simp
  then have p: "2 * (2::rat) powi flexp x \<le> 2 powi flexp y"
    using powi_mono_2 [of "flexp x + 1" "flexp y"] by (simp add: power_int_add)
  have "flpos x \<le> 2 ^ 53 * 2 powi flexp x" by (rule flpos_between [OF assms(1)])
  also have "\<dots> = 2 ^ 52 * (2 * 2 powi flexp x)" by simp
  also have "\<dots> \<le> 2 ^ 52 * 2 powi flexp y" using p by (intro mult_left_mono) simp_all
  also have "\<dots> \<le> flpos y" using flpos_between(1) [of y] assms by simp
  finally show ?thesis .
qed

lemma flpos_pos: "0 < x \<Longrightarrow> 0 < flpos x"
  using flpos_between(1) [of x] by (smt (verit) zero_less_mult_iff zero_less_power zero_less_power_int
      zero_less_numeral order.strict_trans2)

text \<open>Rounding never changes the order of two values, and keeps the sign.\<close>

lemma fl_zero [simp, float]: "fl 0 = 0"
  by (simp add: fl_def)

lemma fl_minus [float]: "fl (- x) = - fl x"
  by (simp add: fl_def)

lemma fl_mono [float]:
  assumes "x \<le> y" shows "fl x \<le> fl y"
proof -
  consider "0 < x" | "x \<le> 0" "0 \<le> y" | "y < 0" using assms by linarith
  then show ?thesis
  proof cases
    case 1
    then show ?thesis using assms flpos_mono by (simp add: fl_def)
  next
    case 2
    then show ?thesis using flpos_pos [of "- x"] flpos_pos [of y] by (auto simp: fl_def)
  next
    case 3
    then show ?thesis using assms flpos_mono [of "- y" "- x"] by (simp add: fl_def)
  qed
qed

lemma fl_nonneg [float]: "0 \<le> x \<Longrightarrow> 0 \<le> fl x"
  using fl_mono [of 0 x] by simp

lemma fl_pos [float]: "0 < x \<Longrightarrow> 0 < fl x"
  by (simp add: fl_def flpos_pos)

lemma fl_nonpos [float]: "x \<le> 0 \<Longrightarrow> fl x \<le> 0"
  using fl_mono [of x 0] by simp

text \<open>A number with at most 53 significant bits is represented exactly.\<close>

lemma flpos_exact:
  assumes "0 < k" and "k \<le> 2 ^ 53"
  shows "flpos (of_int k * 2 powi e) = of_int k * 2 powi e"
proof -
  let ?x = "(of_int k :: rat) * 2 powi e" and ?f = "flexp (of_int k * 2 powi e)"
  have px: "0 < ?x" using assms by simp
  have quot: "?x / 2 powi ?f = of_int k * 2 powi (e - ?f)"
    by (simp add: power_int_diff)
  have "\<exists>j. ?x / 2 powi ?f = of_int j"
  proof (cases "?f \<le> e")
    case True
    then have "(2::rat) powi (e - ?f) = of_int (2 ^ nat (e - ?f))"
      by (simp add: power_int_def)
    then show ?thesis unfolding quot by (metis of_int_mult)
  next
    case False
    then have "(2::rat) powi (e - ?f) \<le> 2 powi (- 1)" by (intro powi_mono_2) simp
    moreover have "(of_int k :: rat) \<le> 2 ^ 53" using assms(2)
      by (metis of_int_le_iff of_int_power of_int_numeral)
    ultimately have "(of_int k :: rat) * 2 powi (e - ?f) \<le> 2 ^ 53 * 2 powi (- 1)"
      using assms(1) by (intro mult_mono) simp_all
    then have "?x / 2 powi ?f = of_int (2 ^ 52)"
      using flexp_bounds(1) [OF px] unfolding quot by simp
    then show ?thesis by blast
  qed
  then obtain j where j: "?x / 2 powi ?f = of_int j" by blast
  then have "?x = of_int j * 2 powi ?f" by (simp add: nonzero_divide_eq_eq)
  then show ?thesis unfolding flpos_def j rne_int by (rule sym)
qed

lemma fl_exact [float]:
  assumes "\<bar>k\<bar> \<le> 2 ^ 53"
  shows "fl (of_int k * 2 powi e) = of_int k * 2 powi e"
proof -
  consider "k = 0" | "0 < k" | "0 < - k" by linarith
  then show ?thesis
  proof cases
    case 2
    then show ?thesis using assms flpos_exact [of k e] by (simp add: fl_def)
  next
    case 3
    then have "flpos (- (of_int k * 2 powi e)) = - (of_int k * 2 powi e)"
      using assms flpos_exact [of "- k" e] by simp
    moreover have "of_int k * (2::rat) powi e < 0" using 3 by (simp add: mult_neg_pos)
    ultimately show ?thesis by (simp add: fl_def)
  qed simp
qed

lemma fl_int [float]: "\<bar>k\<bar> \<le> 2 ^ 53 \<Longrightarrow> fl (of_int k) = of_int k"
  using fl_exact [of k 0] by simp

lemma fl_one [simp, float]: "fl 1 = 1"
  using fl_int [of 1] by simp

lemma fl_idem [simp, float]: "fl (fl x) = fl x"
proof -
  have p: "fl (flpos y) = flpos y" if "0 < y" for y
  proof -
    have "rne (y / 2 powi flexp y) \<le> rne (of_int (2 ^ 53))"
      using flexp_bounds(2) [OF that] by (intro rne_mono) simp
    moreover have "rne (of_int 0) \<le> rne (y / 2 powi flexp y)"
      using that by (intro rne_mono) simp
    ultimately have "\<bar>rne (y / 2 powi flexp y)\<bar> \<le> 2 ^ 53" unfolding rne_int by simp
    then show ?thesis unfolding flpos_def by (rule fl_exact)
  qed
  then show ?thesis using p [of x] p [of "- x"] by (simp add: fl_def [of x] fl_minus)
qed

text \<open>Rounding down to a representable bound and up from one.\<close>

lemma fl_le_fl [float]: "x \<le> y \<Longrightarrow> fl y = y \<Longrightarrow> fl x \<le> y"
  using fl_mono [of x y] by simp

lemma fl_ge_fl [float]: "y \<le> x \<Longrightarrow> fl y = y \<Longrightarrow> y \<le> fl x"
  using fl_mono [of y x] by simp

text \<open>The relative error is at most half a unit in the last place.\<close>

lemma fl_error: "\<bar>fl x - x\<bar> \<le> \<bar>x\<bar> / 2 ^ 53"
proof -
  have p: "\<bar>flpos y - y\<bar> \<le> y / 2 ^ 53" if "0 < y" for y
  proof -
    let ?u = "(2::rat) powi flexp y"
    have "flpos y - y = (of_int (rne (y / ?u)) - y / ?u) * ?u"
      by (simp add: flpos_def left_diff_distrib)
    then have "\<bar>flpos y - y\<bar> = \<bar>of_int (rne (y / ?u)) - y / ?u\<bar> * ?u"
      by (simp add: abs_mult)
    also have "\<dots> \<le> 1 / 2 * ?u" using rne_error [of "y / ?u"] by (intro mult_right_mono) simp_all
    also have "\<dots> \<le> y / 2 ^ 53"
      using flexp_bounds(1) [OF that] by (simp add: pos_le_divide_eq field_simps)
    finally show ?thesis .
  qed
  consider "x = 0" | "0 < x" | "0 < - x" by linarith
  then show ?thesis
  proof cases
    case 3
    then have "\<bar>fl x - x\<bar> = \<bar>flpos (- x) - (- x)\<bar>" by (simp add: fl_def abs_if)
    then show ?thesis using p [OF 3] 3 by simp
  qed (use p [of x] in \<open>simp_all add: fl_def\<close>)
qed

lemma fl_lower: assumes "0 \<le> x" shows "x * (1 - 1 / 2 ^ 53) \<le> fl x"
proof -
  have "\<bar>fl x - x\<bar> \<le> x / 2 ^ 53" using fl_error [of x] assms by simp
  moreover have "x * (1 - 1 / 2 ^ 53) = x - x / 2 ^ 53" by (simp add: right_diff_distrib)
  ultimately show ?thesis by linarith
qed

lemma fl_upper: assumes "0 \<le> x" shows "fl x \<le> x * (1 + 1 / 2 ^ 53)"
proof -
  have "\<bar>fl x - x\<bar> \<le> x / 2 ^ 53" using fl_error [of x] assms by simp
  moreover have "x * (1 + 1 / 2 ^ 53) = x + x / 2 ^ 53" by (simp add: distrib_left)
  ultimately show ?thesis by linarith
qed

text \<open>
  Code equations for evaluation: a small integer is its own rounding, and the exponent
  is computed once.
\<close>

lemma fl_code [code]:
  "fl x = (let (n, d) = quotient_of x in
     if d = 1 \<and> \<bar>n\<bar> \<le> 9007199254740992 then x
     else if 0 < x then flpos x else - flpos (- x))"
proof -
  obtain n d where q: "quotient_of x = (n, d)" by fastforce
  have x: "x = of_int n / of_int d" using q quotient_of_div by blast
  have "fl x = x" if "d = 1" "\<bar>n\<bar> \<le> 9007199254740992"
    using that fl_int [of n] by (simp add: x)
  moreover have "x \<noteq> 0" if "\<not> (d = 1 \<and> \<bar>n\<bar> \<le> 9007199254740992)"
    using that q by (auto simp: rat_zero_code)
  ultimately show ?thesis by (auto simp: q fl_def)
qed

lemma flpos_code [code]:
  "flpos x = (let u = 2 powi flexp x in of_int (rne (x / u)) * u)"
  by (simp add: flpos_def Let_def)

text \<open>Above a power of two, representable numbers are multiples of a fixed unit.\<close>

lemma flexp_powi: "flexp (2 powi (e + 52)) = e"
proof -
  let ?x = "(2::rat) powi (e + 52)" and ?f = "flexp (2 powi (e + 52))"
  have q: "?x / 2 powi ?f = 2 powi (e + 52 - ?f)" by (simp add: power_int_diff)
  have "\<not> e + 1 \<le> ?f"
  proof
    assume "e + 1 \<le> ?f"
    then have "(2::rat) powi (e + 52 - ?f) \<le> 2 powi 51" by (intro powi_mono_2) simp
    then show False using flexp_bounds(1) [of ?x] q by simp
  qed
  moreover have "\<not> ?f + 1 \<le> e"
  proof
    assume "?f + 1 \<le> e"
    then have "(2::rat) powi 53 \<le> 2 powi (e + 52 - ?f)" by (intro powi_mono_2) simp
    then show False using flexp_bounds(2) [of ?x] q by simp
  qed
  ultimately show ?thesis by linarith
qed

lemma fl_grid:
  assumes "2 powi (e + 52) \<le> x"
  shows "\<exists>k. fl x = of_int k * 2 powi e"
proof -
  have x: "0 < x" using assms by (smt (verit) zero_less_power_int zero_less_numeral order.strict_trans2)
  have "e \<le> flexp x" using flexp_mono [OF _ assms] by (simp add: flexp_powi)
  then have "of_int (2 ^ nat (flexp x - e)) = (2::rat) powi (flexp x - e)"
    by (simp add: power_int_def)
  then have "(2::rat) powi flexp x = of_int (2 ^ nat (flexp x - e)) * 2 powi e"
    by (simp flip: power_int_add)
  then have "fl x = of_int (rne (x / 2 powi flexp x) * 2 ^ nat (flexp x - e)) * 2 powi e"
    using x by (simp add: fl_def flpos_def)
  then show ?thesis by blast
qed

subsection \<open>Integers converted to float64\<close>

definition f64 :: "int \<Rightarrow> rat" where "f64 k = fl (of_int k)"

lemma f64_pos: "0 < k \<Longrightarrow> 1 \<le> f64 k"
  unfolding f64_def by (rule fl_ge_fl) simp_all

lemma f64_nonneg: "0 \<le> k \<Longrightarrow> 0 \<le> f64 k"
  by (simp add: f64_def fl_nonneg)

lemma f64_mono: "a \<le> b \<Longrightarrow> f64 a \<le> f64 b"
  by (simp add: f64_def fl_mono)

lemma fl_f64 [simp]: "fl (f64 k) = f64 k"
  by (simp add: f64_def)

lemma f64_exact [simp]: "\<bar>k\<bar> \<le> 2 ^ 53 \<Longrightarrow> f64 k = of_int k"
  by (simp add: f64_def fl_int)

subsection \<open>Durations as seconds\<close>

text \<open>
  \<open>time.Duration.Seconds\<close>: the whole seconds and the fractional part are converted
  and added, each step rounded.  Go's integer division truncates toward zero.
\<close>

definition seconds :: "duration \<Rightarrow> rat" where
  "seconds d =
     (let sec = d sdiv Second; nsec = d smod Second
      in fl (fl (of_int sec) + fl (fl (of_int nsec) / 1000000000)))"

lemma seconds_nonneg [float]: "0 \<le> d \<Longrightarrow> 0 \<le> seconds d"
  by (simp add: seconds_def Let_def sdiv_nonneg_pos smod_nonneg_pos fl_nonneg)

end
