(* ===== verification/Go_Json.thy ===== *)
theory Go_Json
  imports Go_Strings Float64 "HOL-Library.List_Lexorder"
begin

text \<open>
  The part of Go's \<open>encoding/json\<close> the gateway uses.  The syntax (bytes to a tree and a
  tree to bytes) stays an argument of the definitions that use it, \<open>dec\<close> and \<open>enc\<close>; what
  happens between a tree and a Go struct is modelled here.  A decoder takes a tree and the
  value in place and gives the new value with a flag: Go goes on decoding after a type
  mismatch and reports it at the end, so a caller that ignores the error reads what could
  be decoded.  A JSON \<open>null\<close> leaves a string, a number or a struct alone and clears a
  pointer or a slice; a member is matched to a field up to letter case, the last one wins.
  A number is kept with the shape of its literal, because an integer field rejects a
  fraction or an exponent.  A \<open>json.RawMessage\<close> is the tree itself.
\<close>

datatype json =
    JNull
  | JBool bool
  | JInt int
  | JReal rat
  | JStr string
  | JArr "json list"
  | JObj "(string \<times> json) list"

subsection \<open>Names\<close>

text \<open>
  Letter case is folded as \<open>bytes.EqualFold\<close> does against an ASCII name: ASCII letters,
  the long s and the Kelvin sign.
\<close>

definition upper :: "char \<Rightarrow> char" where
  "upper c = (if 97 \<le> byte c \<and> byte c \<le> 122 then char_of (byte c - 32) else c)"

fun fold_name :: "string \<Rightarrow> string" where
  "fold_name [] = []"
| "fold_name (c # s) =
     (if c = CHR 0xC5 \<and> take 1 s = [CHR 0xBF] then CHR ''S'' # fold_name (drop 1 s)
      else if c = CHR 0xE2 \<and> take 2 s = [CHR 0x84, CHR 0xAA] then CHR ''K'' # fold_name (drop 2 s)
      else upper c # fold_name s)"

subsection \<open>Decoders\<close>

type_synonym 'a decoder = "json \<Rightarrow> 'a \<Rightarrow> 'a \<times> bool"

definition dec_string :: "string decoder" where
  "dec_string j old = (case j of JStr s \<Rightarrow> (s, True) | JNull \<Rightarrow> (old, True) | _ \<Rightarrow> (old, False))"

definition dec_bool :: "bool decoder" where
  "dec_bool j old = (case j of JBool b \<Rightarrow> (b, True) | JNull \<Rightarrow> (old, True) | _ \<Rightarrow> (old, False))"

definition dec_int :: "int decoder" where
  "dec_int j old =
     (case j of JInt n \<Rightarrow> if MinInt64 \<le> n \<and> n \<le> MaxInt64 then (n, True) else (old, False)
      | JNull \<Rightarrow> (old, True) | _ \<Rightarrow> (old, False))"

text \<open>The double a decimal literal denotes, subnormal range included.\<close>

definition min_normal :: rat where "min_normal = 2 powi - 1022"
definition subnormal_unit :: rat where "subnormal_unit = 2 powi - 1074"

definition float_literal :: "rat \<Rightarrow> rat" where
  "float_literal q =
     (if \<bar>q\<bar> < min_normal then of_int (rne (q / subnormal_unit)) * subnormal_unit else fl q)"

definition float_in_range :: "rat \<Rightarrow> bool" where
  "float_in_range q \<longleftrightarrow> \<bar>float_literal q\<bar> < 2 powi 1024"

definition dec_float :: "rat decoder" where
  "dec_float j old =
     (case j of
        JInt n \<Rightarrow> if float_in_range (of_int n) then (float_literal (of_int n), True) else (old, False)
      | JReal q \<Rightarrow> if float_in_range q then (float_literal q, True) else (old, False)
      | JNull \<Rightarrow> (old, True) | _ \<Rightarrow> (old, False))"

definition dec_pointer :: "'a \<Rightarrow> 'a decoder \<Rightarrow> 'a option decoder" where
  "dec_pointer zero d j old =
     (case j of JNull \<Rightarrow> (None, True)
      | _ \<Rightarrow> case d j (case old of Some x \<Rightarrow> x | None \<Rightarrow> zero) of (x, ok) \<Rightarrow> (Some x, ok))"

definition dec_raw :: "json option decoder" where
  "dec_raw j old = (Some j, True)"

text \<open>
  An array is decoded over the slice that is there: an element lands on the old one at its
  index, and on a zero value past the old length.
\<close>

definition dec_slice :: "'a \<Rightarrow> 'a decoder \<Rightarrow> 'a list decoder" where
  "dec_slice zero d j old =
     (case j of
        JArr js \<Rightarrow> (let rs = map (\<lambda>(e, x). d e x) (zip js (old @ replicate (length js) zero))
                   in (map fst rs, list_all snd rs))
      | JNull \<Rightarrow> ([], True) | _ \<Rightarrow> (old, False))"

lemma dec_slice_fresh:
  "dec_slice zero d (JArr js) [] = (map (\<lambda>e. fst (d e zero)) js, list_all (\<lambda>e. snd (d e zero)) js)"
  by (simp add: dec_slice_def zip_replicate2 Let_def comp_def list_all_iff)

text \<open>A field of a struct: the name of its tag, and the decoder of the member it reads.\<close>

definition field :: "('s \<Rightarrow> 'a) \<Rightarrow> (('a \<Rightarrow> 'a) \<Rightarrow> 's \<Rightarrow> 's) \<Rightarrow> 'a decoder \<Rightarrow> 's decoder" where
  "field get upd d j s = (case d j (get s) of (x, ok) \<Rightarrow> (upd (\<lambda>_. x) s, ok))"

fun dec_members :: "(string \<times> 's decoder) list \<Rightarrow> (string \<times> json) list \<Rightarrow> 's \<Rightarrow> 's \<times> bool" where
  "dec_members fields [] s = (s, True)"
| "dec_members fields ((k, j) # ms) s =
     (case List.find (\<lambda>f. fold_name (fst f) = fold_name k) fields of
        None \<Rightarrow> dec_members fields ms s
      | Some (_, d) \<Rightarrow>
          (case d j s of (s1, ok1) \<Rightarrow>
             case dec_members fields ms s1 of (s2, ok2) \<Rightarrow> (s2, ok1 \<and> ok2)))"

definition dec_struct :: "(string \<times> 's decoder) list \<Rightarrow> 's decoder" where
  "dec_struct fields j s =
     (case j of JObj ms \<Rightarrow> dec_members fields ms s | JNull \<Rightarrow> (s, True) | _ \<Rightarrow> (s, False))"

definition Unmarshal :: "(string \<Rightarrow> json option) \<Rightarrow> 's decoder \<Rightarrow> string \<Rightarrow> 's \<Rightarrow> 's \<times> bool" where
  "Unmarshal dec d body zero = (case dec body of None \<Rightarrow> (zero, False) | Some j \<Rightarrow> d j zero)"

subsection \<open>Encoding\<close>

text \<open>A Go map is written with its keys in order, an \<open>omitempty\<close> pointer only when set.\<close>

definition go_map :: "(string \<times> json) list \<Rightarrow> json" where
  "go_map ms = JObj (sort_key (map byte \<circ> fst) ms)"

definition omitempty :: "string \<Rightarrow> ('a \<Rightarrow> json) \<Rightarrow> 'a option \<Rightarrow> (string \<times> json) list" where
  "omitempty name f x = (case x of None \<Rightarrow> [] | Some v \<Rightarrow> [(name, f v)])"

text \<open>
  What a tree may read as after it was written and parsed again: the same tree, except
  that a double is written as the shortest literal that denotes it, perhaps an integer.
\<close>

inductive reads_as :: "json \<Rightarrow> json \<Rightarrow> bool" where
  "reads_as JNull JNull"
| "reads_as (JBool b) (JBool b)"
| "reads_as (JInt n) (JInt n)"
| "float_literal y = float_literal x \<Longrightarrow> reads_as (JReal x) (JReal y)"
| "float_literal (of_int n) = float_literal x \<Longrightarrow> reads_as (JReal x) (JInt n)"
| "reads_as (JStr s) (JStr s)"
| "list_all2 reads_as js ks \<Longrightarrow> reads_as (JArr js) (JArr ks)"
| "list_all2 (\<lambda>a b. fst a = fst b \<and> reads_as (snd a) (snd b)) ms ns \<Longrightarrow> reads_as (JObj ms) (JObj ns)"

inductive_simps reads_as_simps [simp]:
  "reads_as JNull j" "reads_as (JBool b) j" "reads_as (JInt n) j" "reads_as (JReal x) j"
  "reads_as (JStr s) j" "reads_as (JArr js) j" "reads_as (JObj ms) j"

subsection \<open>Doubles survive a round trip\<close>

lemma min_normal_units: "min_normal = 2 ^ 52 * subnormal_unit" "0 < subnormal_unit"
  by (simp_all add: min_normal_def subnormal_unit_def)

lemma rne_small:
  assumes "\<bar>q\<bar> < min_normal"
  shows "\<bar>rne (q / subnormal_unit)\<bar> \<le> 2 ^ 53"
proof -
  have "\<bar>q / subnormal_unit\<bar> < 2 ^ 52"
    using assms min_normal_units by (simp add: field_simps)
  then have b: "of_int (- (2 ^ 53)) \<le> q / subnormal_unit" "q / subnormal_unit \<le> of_int (2 ^ 53)"
    unfolding abs_less_iff by simp_all
  show ?thesis
    using rne_mono [OF b(2)] rne_mono [OF b(1)] unfolding rne_int by linarith
qed

lemma fl_large:
  assumes "min_normal \<le> \<bar>q\<bar>"
  shows "min_normal \<le> \<bar>fl q\<bar>"
proof -
  have e: "fl min_normal = min_normal"
    using fl_exact [of 1 "- 1022"] unfolding min_normal_def of_int_1 mult_1 by simp
  have p: "min_normal \<le> fl y" if "min_normal \<le> y" for y
    using fl_mono [OF that] e by simp
  show ?thesis using assms p [of q] p [of "- q"] by (auto simp: fl_minus abs_if split: if_splits)
qed

lemma float_literal_idem [simp]: "float_literal (float_literal q) = float_literal q"
proof (cases "\<bar>q\<bar> < min_normal")
  case True
  let ?r = "rne (q / subnormal_unit)"
  have v: "float_literal q = of_int ?r * subnormal_unit" using True by (simp add: float_literal_def)
  have "fl (of_int ?r * subnormal_unit) = of_int ?r * subnormal_unit"
    unfolding subnormal_unit_def by (rule fl_exact) (rule rne_small [OF True, unfolded subnormal_unit_def])
  then show ?thesis
    using min_normal_units(2) unfolding v by (simp add: float_literal_def)
next
  case False
  then show ?thesis using fl_large [of q] by (simp add: float_literal_def)
qed

text \<open>A double written by the encoder reads as the same double.\<close>

lemma dec_float_reads:
  assumes "reads_as (JReal (float_literal q)) j" and "float_in_range q"
  shows "dec_float j old = (float_literal q, True)"
  using assms by (auto simp: dec_float_def float_in_range_def)

end
