(* ===== verification/Relay_Stream.thy ===== *)
theory Relay_Stream
  imports Go_Strings
begin

text \<open>
  The streaming pumps (\<^verbatim>\<open>internal/relay/stream.go\<close>) and the in-stream termination of
  the canonical wire (\<^verbatim>\<open>internal/protocol/sse.go\<close>).

  An upstream body is the bytes it delivers and how it then ends: end of file or a read
  error.  \<open>readLine\<close> is modelled down to the slices of \<open>bufio.Reader\<close>, whose default
  buffer holds 4096 bytes.  Writing to the client may fail: \<open>room\<close> is the number of
  writes that still succeed, \<open>None\<close> for no failure.  The JSON scan for a usage object
  (\<open>protocol.ParseUsage\<close>) and the transcoders of the other client formats are arguments.
\<close>

definition newline :: char where "newline = CHR 0x0A"

definition bufSize :: nat where "bufSize = 4096"

definition maxStreamLineBytes :: nat where "maxStreamLineBytes = 1048576"

subsection \<open>Lines\<close>

datatype slice_end = Delim | Full | Ended

definition ReadSlice :: "string \<Rightarrow> string \<times> string \<times> slice_end" where
  "ReadSlice body =
     (let w = take bufSize body in
      if newline \<in> set w
      then (let n = length (takeWhile (\<lambda>c. c \<noteq> newline) w) + 1 in (take n body, drop n body, Delim))
      else if length w = bufSize then (w, drop bufSize body, Full)
      else (body, [], Ended))"

text \<open>A line with what follows it, and whether the reader ended with it; or the cap.\<close>

datatype line_result = Line string string bool | LineTooLong

lemma ReadSlice_shrinks: "ReadSlice body = (s, rest, Full) \<Longrightarrow> length rest < length body"
  by (auto simp: ReadSlice_def Let_def bufSize_def split: if_splits)

function read_more :: "string \<Rightarrow> string \<Rightarrow> line_result" where
  "read_more whole body =
     (if length whole \<ge> maxStreamLineBytes then LineTooLong
      else case ReadSlice body of
             (s, rest, Full) \<Rightarrow> read_more (whole @ s) rest
           | (s, rest, st) \<Rightarrow> Line (whole @ s) rest (st = Ended))"
  by pat_completeness auto

termination
  by (relation "measure (\<lambda>(whole, body). length body)") (auto dest: ReadSlice_shrinks [OF sym])

declare read_more.simps [simp del]

definition readLine :: "string \<Rightarrow> line_result" where
  "readLine body =
     (case ReadSlice body of
        (s, rest, Full) \<Rightarrow> read_more s rest
      | (s, rest, st) \<Rightarrow> Line s rest (st = Ended))"

definition trimEOL :: "string \<Rightarrow> string" where
  "trimEOL line =
     (let l1 = (if line \<noteq> [] \<and> last line = newline then butlast line else line)
      in if l1 \<noteq> [] \<and> last l1 = CHR 0x0D then butlast l1 else l1)"

definition dataPayload :: "string \<Rightarrow> string option" where
  "dataPayload line =
     (if has_prefix line ''data:''
      then (let rest = drop 5 line in Some (if has_prefix rest '' '' then drop 1 rest else rest))
      else None)"

definition donePayload :: string where "donePayload = ''[DONE]''"

subsection \<open>The line reader and its reference\<close>

text \<open>The line as one scan for the terminator, and the cap as one comparison.\<close>

definition read_line_spec :: "string \<Rightarrow> line_result" where
  "read_line_spec body =
     (if newline \<notin> set (take maxStreamLineBytes body) \<and> maxStreamLineBytes \<le> length body then LineTooLong
      else if newline \<in> set body
      then (let n = length (takeWhile (\<lambda>c. c \<noteq> newline) body) + 1 in Line (take n body) (drop n body) False)
      else Line body [] True)"

lemma takeWhile_take:
  assumes "x \<in> set (take n xs)" and "\<not> P x"
  shows "takeWhile P (take n xs) = takeWhile P xs"
  using assms by (induction xs arbitrary: n) (auto simp: take_Cons split: nat.splits)

lemma takeWhile_before:
  "newline \<notin> set l \<Longrightarrow> takeWhile (\<lambda>c. c \<noteq> newline) (l @ r) = l @ takeWhile (\<lambda>c. c \<noteq> newline) r"
  by (rule takeWhile_append2) auto

lemma ReadSlice_cases:
  shows "newline \<in> set (take bufSize body) \<Longrightarrow> ReadSlice body =
      (let n = length (takeWhile (\<lambda>c. c \<noteq> newline) body) + 1 in (take n body, drop n body, Delim))"
    and "newline \<notin> set (take bufSize body) \<Longrightarrow> bufSize \<le> length body \<Longrightarrow>
      ReadSlice body = (take bufSize body, drop bufSize body, Full)"
    and "newline \<notin> set (take bufSize body) \<Longrightarrow> length body < bufSize \<Longrightarrow> ReadSlice body = (body, [], Ended)"
  using takeWhile_take [of newline bufSize body "\<lambda>c. c \<noteq> newline"]
  by (auto simp: ReadSlice_def Let_def min_def)

text \<open>
  Having consumed a prefix without a terminator, the accumulating loop reads what the
  reference reads of the whole: the cap is a multiple of the buffer size, so the check
  between two slices is the comparison the reference makes.
\<close>

lemma read_more_spec:
  assumes "newline \<notin> set whole" and "length whole = k * bufSize" and "length whole \<le> maxStreamLineBytes"
  shows "read_more whole body = read_line_spec (whole @ body)"
  using assms
proof (induction whole body arbitrary: k rule: read_more.induct)
  case (1 whole body)
  show ?case
  proof (cases "length whole \<ge> maxStreamLineBytes")
    case True
    then have "take maxStreamLineBytes (whole @ body) = whole" using "1.prems"(3) by simp
    then show ?thesis
      using True "1.prems" by (simp add: read_more.simps [of whole body] read_line_spec_def)
  next
    case short: False
    have fits: "length whole + bufSize \<le> maxStreamLineBytes"
      using short "1.prems"(2) by (simp add: bufSize_def maxStreamLineBytes_def)
    consider "newline \<in> set (take bufSize body)" | "newline \<notin> set (take bufSize body)" "bufSize \<le> length body"
      | "newline \<notin> set (take bufSize body)" "length body < bufSize"
      by force
    then show ?thesis
    proof cases
      case 1
      have "set (take bufSize body) \<subseteq> set (take (maxStreamLineBytes - length whole) body)"
        using fits by (intro set_take_subset_set_take) simp
      moreover have "newline \<in> set body" using 1 by (meson in_set_takeD)
      moreover have "takeWhile (\<lambda>c. c \<noteq> newline) (whole @ body) = whole @ takeWhile (\<lambda>c. c \<noteq> newline) body"
        using "1.prems"(1) by (rule takeWhile_before)
      ultimately show ?thesis
        using short 1 ReadSlice_cases(1) [OF 1]
        by (auto simp: read_more.simps [of whole body] read_line_spec_def Let_def)
    next
      case 2
      have "read_more (whole @ take bufSize body) (drop bufSize body) =
          read_line_spec ((whole @ take bufSize body) @ drop bufSize body)"
        by (rule "1.IH" [OF short ReadSlice_cases(2) [OF 2, symmetric] refl refl, of "Suc k"])
          (use "1.prems" 2 fits in auto)
      then show ?thesis
        using short ReadSlice_cases(2) [OF 2] by (simp add: read_more.simps [of whole body])
    next
      case 3
      then have "newline \<notin> set body" by simp
      then show ?thesis
        using short ReadSlice_cases(3) [OF 3] "1.prems"(1) 3 fits
        by (simp add: read_more.simps [of whole body] read_line_spec_def)
    qed
  qed
qed


lemma readLine_spec: "readLine body = read_line_spec body"
proof -
  have "readLine body = read_more [] body"
    by (simp add: readLine_def read_more.simps [of "[]" body] maxStreamLineBytes_def
        split: prod.split slice_end.split)
  then show ?thesis using read_more_spec [of "[]" 0 body] by simp
qed

lemma readLine_parts:
  assumes "readLine body = Line s rest ended"
  shows "body = s @ rest \<and> (ended \<longrightarrow> rest = [] \<and> newline \<notin> set s) \<and>
    (\<not> ended \<longrightarrow> (\<exists>l. s = l @ [newline] \<and> newline \<notin> set l) \<and> length rest < length body)"
proof (cases "newline \<in> set body")
  case True
  then obtain l r where b: "body = l @ newline # r" "newline \<notin> set l" by (meson split_list_first)
  then have "takeWhile (\<lambda>c. c \<noteq> newline) body = l" by (simp add: takeWhile_before)
  then show ?thesis
    using assms b by (auto simp: readLine_spec read_line_spec_def Let_def split: if_splits)
next
  case False
  then show ?thesis using assms by (auto simp: readLine_spec read_line_spec_def split: if_splits)
qed

subsection \<open>The passthrough pump\<close>

datatype pump_end = PumpOK | PumpTruncated | PumpTooLong | PumpReadError | PumpWriteError

record 'u pump =
  pusage :: "'u option"
  sentBytes :: int
  written :: string
  doneSeen :: bool
  sawData :: bool

definition pump_start :: "'u pump" where
  "pump_start = \<lparr>pusage = None, sentBytes = 0, written = [], doneSeen = False, sawData = False\<rparr>"

text \<open>What one non-empty line does before it is written, and the write.\<close>

definition scan_line :: "(string \<Rightarrow> 'u option) \<Rightarrow> string \<Rightarrow> 'u pump \<Rightarrow> 'u pump" where
  "scan_line parseUsage trimmed p =
     (case dataPayload trimmed of
        None \<Rightarrow> p
      | Some payload \<Rightarrow>
          p\<lparr>sawData := True, doneSeen := (doneSeen p \<or> payload = donePayload),
            pusage := (case parseUsage payload of Some u \<Rightarrow> Some u | None \<Rightarrow> pusage p)\<rparr>)"

definition write_line :: "string \<Rightarrow> 'u pump \<Rightarrow> 'u pump" where
  "write_line trimmed p =
     p\<lparr>written := written p @ trimmed @ [newline], sentBytes := sentBytes p + int (length trimmed) + 1\<rparr>"

definition take_room :: "nat option \<Rightarrow> nat option" where
  "take_room room = map_option (\<lambda>n. n - 1) room"

function pump_loop ::
  "(string \<Rightarrow> 'u option) \<Rightarrow> bool \<Rightarrow> nat option \<Rightarrow> string \<Rightarrow> 'u pump \<Rightarrow> 'u pump \<times> pump_end" where
  "pump_loop parseUsage eof room body p =
     (case readLine body of
        LineTooLong \<Rightarrow> (p, PumpTooLong)
      | Line line rest ended \<Rightarrow>
          let trimmed = trimEOL line;
              p1 = (if line \<noteq> [] then scan_line parseUsage trimmed p else p)
          in if line \<noteq> [] \<and> room = Some 0 then (p1, PumpWriteError)
             else let p2 = (if line \<noteq> [] then write_line trimmed p1 else p1);
                      room1 = (if line \<noteq> [] then take_room room else room)
                  in if ended
                     then (p2, if eof then (if sawData p2 \<and> \<not> doneSeen p2 then PumpTruncated else PumpOK)
                               else PumpReadError)
                     else pump_loop parseUsage eof room1 rest p2)"
  by pat_completeness auto

termination
  by (relation "measure (\<lambda>(parseUsage, eof, room, body, p). length body)") (auto dest: readLine_parts)

declare pump_loop.simps [simp del]

definition pumpStream ::
  "(string \<Rightarrow> 'u option) \<Rightarrow> bool \<Rightarrow> nat option \<Rightarrow> string \<Rightarrow> 'u pump \<times> pump_end" where
  "pumpStream parseUsage eof room body = pump_loop parseUsage eof room body pump_start"


subsection \<open>What the pump relays\<close>

text \<open>The lines of a body with their terminators, and what is sent for them.\<close>

function lines_of :: "string \<Rightarrow> string list" where
  "lines_of body =
     (if newline \<in> set body
      then (let n = length (takeWhile (\<lambda>c. c \<noteq> newline) body) + 1 in take n body # lines_of (drop n body))
      else if body = [] then [] else [body])"
  by pat_completeness auto

termination
proof (relation "measure length")
  fix body :: string and n
  assume "newline \<in> set body" "n = length (takeWhile (\<lambda>c. c \<noteq> newline) body) + 1"
  then show "(drop n body, body) \<in> measure length" by (cases body) simp_all
qed simp

declare lines_of.simps [simp del]

lemma lines_of_Nil [simp]: "lines_of [] = []"
  by (simp add: lines_of.simps)

lemma lines_of_Cons [simp]: "newline \<notin> set l \<Longrightarrow> lines_of (l @ newline # r) = (l @ [newline]) # lines_of r"
  by (subst lines_of.simps) (simp add: takeWhile_before)

lemma lines_of_blank [simp]: "lines_of (newline # r) = [newline] # lines_of r"
  using lines_of_Cons [of "[]" r] by simp

lemma lines_of_open: "newline \<notin> set l \<Longrightarrow> lines_of l = (if l = [] then [] else [l])"
  by (simp add: lines_of.simps)

lemma concat_lines_of: "concat (lines_of body) = body"
  by (induction body rule: lines_of.induct) (subst lines_of.simps, simp add: Let_def)

lemma lines_of_readLine:
  assumes "readLine body = Line s rest ended"
  shows "lines_of body = (if s = [] then [] else s # lines_of rest)"
proof (cases ended)
  case True
  then show ?thesis using readLine_parts [OF assms] by (simp add: lines_of_open)
next
  case False
  then obtain l where "s = l @ [newline]" "newline \<notin> set l" "body = s @ rest"
    using readLine_parts [OF assms] by auto
  then show ?thesis by simp
qed

definition line_fits :: "string \<Rightarrow> bool" where
  "line_fits l \<longleftrightarrow> l \<noteq> [] \<and>
     (if last l = newline then length l \<le> maxStreamLineBytes else length l < maxStreamLineBytes)"

lemma trimEOL_line: "l = [] \<or> last l \<noteq> CHR 0x0D \<Longrightarrow> trimEOL (l @ [newline]) = l"
  by (auto simp: trimEOL_def)

lemma short_line_fits: "l \<noteq> [] \<Longrightarrow> length l < 100 \<Longrightarrow> line_fits l"
  by (simp add: line_fits_def maxStreamLineBytes_def)

lemma readLine_fits:
  "readLine body = LineTooLong \<Longrightarrow> \<exists>l \<in> set (lines_of body). \<not> line_fits l"
proof -
  assume r: "readLine body = LineTooLong"
  then have t: "newline \<notin> set (take maxStreamLineBytes body)" "maxStreamLineBytes \<le> length body"
    by (auto simp: readLine_spec read_line_spec_def Let_def split: if_splits)
  show ?thesis
  proof (cases "newline \<in> set body")
    case True
    then obtain l s where b: "body = l @ newline # s" "newline \<notin> set l" by (meson split_list_first)
    then have "maxStreamLineBytes \<le> length l"
      using t(1) by (cases "maxStreamLineBytes - length l") auto
    then show ?thesis using b by (simp add: line_fits_def)
  next
    case False
    then have "body \<noteq> []" using t(2) by (auto simp: maxStreamLineBytes_def)
    then have "body \<noteq> []" "last body \<noteq> newline" using False last_in_set [of body] by metis+
    then show ?thesis using False t(2) by (simp add: lines_of_open line_fits_def)
  qed
qed

definition relay_line :: "(string \<Rightarrow> 'u option) \<Rightarrow> string \<Rightarrow> 'u pump \<Rightarrow> 'u pump" where
  "relay_line parseUsage line p = write_line (trimEOL line) (scan_line parseUsage (trimEOL line) p)"

definition relay_lines :: "(string \<Rightarrow> 'u option) \<Rightarrow> string list \<Rightarrow> 'u pump \<Rightarrow> 'u pump" where
  "relay_lines parseUsage ls p = fold (relay_line parseUsage) ls p"

lemma relay_lines_simps [simp]:
  "relay_lines pu [] p = p" "relay_lines pu (l # ls) p = relay_lines pu ls (relay_line pu l p)"
  by (simp_all add: relay_lines_def)

definition is_data :: "string \<Rightarrow> bool" where "is_data line \<longleftrightarrow> dataPayload (trimEOL line) \<noteq> None"
definition is_done :: "string \<Rightarrow> bool" where "is_done line \<longleftrightarrow> dataPayload (trimEOL line) = Some donePayload"

definition sent_for :: "string list \<Rightarrow> string" where
  "sent_for ls = concat (map (\<lambda>l. trimEOL l @ [newline]) ls)"

lemma scan_line_frame [simp]:
  "written (scan_line pu l p) = written p" "sentBytes (scan_line pu l p) = sentBytes p"
  by (simp_all add: scan_line_def split: option.split)

lemma relay_lines_state:
  "written (relay_lines pu ls p) = written p @ sent_for ls"
  "sentBytes (relay_lines pu ls p) = sentBytes p + int (length (sent_for ls))"
  "sawData (relay_lines pu ls p) \<longleftrightarrow> sawData p \<or> (\<exists>l \<in> set ls. is_data l)"
  "doneSeen (relay_lines pu ls p) \<longleftrightarrow> doneSeen p \<or> (\<exists>l \<in> set ls. is_done l)"
  by (induction ls arbitrary: p)
    (auto simp: relay_line_def write_line_def scan_line_def sent_for_def is_data_def is_done_def
      split: option.splits)

definition pump_ok ::
  "(string \<Rightarrow> 'u option) \<Rightarrow> bool \<Rightarrow> nat option \<Rightarrow> string \<Rightarrow> 'u pump \<Rightarrow> 'u pump \<Rightarrow> pump_end \<Rightarrow> nat \<Rightarrow> bool" where
  "pump_ok pu eof room body p p' e k \<longleftrightarrow> k \<le> length (lines_of body) \<and>
    (if e = PumpWriteError
     then room \<noteq> None \<and> (\<exists>l. p' = scan_line pu l (relay_lines pu (take k (lines_of body)) p))
     else p' = relay_lines pu (take k (lines_of body)) p) \<and>
    (e \<in> {PumpOK, PumpTruncated, PumpReadError} \<longrightarrow> k = length (lines_of body)) \<and>
    (e = PumpOK \<longrightarrow> eof \<and> (sawData p' \<longrightarrow> doneSeen p')) \<and>
    (e = PumpTruncated \<longrightarrow> eof \<and> sawData p' \<and> \<not> doneSeen p') \<and> (e = PumpReadError \<longrightarrow> \<not> eof) \<and>
    (e = PumpTooLong \<longrightarrow> (\<exists>l \<in> set (lines_of body). \<not> line_fits l))"

lemma pump_loop_spec:
  assumes "pump_loop pu eof room body p = (p', e)"
  shows "\<exists>k. pump_ok pu eof room body p p' e k"
  using assms
proof (induction pu eof room body p arbitrary: p' e rule: pump_loop.induct)
  case (1 pu eof room body p)
  show ?case
  proof (cases "readLine body")
    case LineTooLong
    then show ?thesis
      using "1.prems" readLine_fits [OF LineTooLong]
      by (intro exI [of _ 0]) (auto simp: pump_ok_def pump_loop.simps [of pu eof room body p])
  next
    case (Line s rest ended)
    note ls = lines_of_readLine [OF Line] and parts = readLine_parts [OF Line]
      and step = "1.prems" [unfolded pump_loop.simps [of pu eof room body p] Line line_result.case Let_def]
    consider "s \<noteq> []" "room = Some 0" | "s = []" | "s \<noteq> []" "room \<noteq> Some 0" ended
      | "s \<noteq> []" "room \<noteq> Some 0" "\<not> ended" by blast
    then show ?thesis
    proof cases
      case 1
      then show ?thesis
        using step by (intro exI [of _ 0]) (auto simp: pump_ok_def)
    next
      case 2
      then have "ended" using parts by auto
      then show ?thesis
        using step ls 2 by (auto simp: pump_ok_def split: if_splits)
    next
      case 3
      then show ?thesis
        using step ls parts
        by (intro exI [of _ 1]) (auto simp: pump_ok_def relay_line_def split: if_splits)
    next
      case 4
      have rec: "pump_loop pu eof (take_room room) rest (relay_line pu s p) = (p', e)"
        using step 4 by (simp add: relay_line_def)
      then have "\<exists>k. pump_ok pu eof (take_room room) rest (relay_line pu s p) p' e k"
        using "1.IH" [OF Line refl refl, of "relay_line pu s p" "take_room room" p' e] 4
        by (auto simp: relay_line_def)
      then obtain k where "pump_ok pu eof (take_room room) rest (relay_line pu s p) p' e k" ..
      then show ?thesis
        using ls 4 by (intro exI [of _ "Suc k"]) (auto simp: pump_ok_def take_room_def split: if_splits)
    qed
  qed
qed


subsection \<open>The transcoded pump\<close>

text \<open>
  A transcoder answers each call with its next state, what it rendered and whether a
  write failed.
\<close>

record ('t, 'u) transcoder =
  trStart :: "string \<Rightarrow> 't \<times> string \<times> bool"
  trDelta :: "'t \<Rightarrow> string \<Rightarrow> 't \<times> string \<times> bool"
  trFinish :: "'t \<Rightarrow> 'u option \<Rightarrow> 't \<times> string \<times> bool"
  trAbort :: "'t \<Rightarrow> string \<Rightarrow> string \<Rightarrow> 't \<times> string \<times> bool"

record ('t, 'u) tpump =
  trState :: 't
  trUsage :: "'u option"
  trWritten :: string
  trDone :: bool

definition trans_line ::
  "('t, 'u) transcoder \<Rightarrow> (string \<Rightarrow> 'u option) \<Rightarrow> string \<Rightarrow> ('t, 'u) tpump \<Rightarrow> ('t, 'u) tpump \<times> bool" where
  "trans_line tc parseUsage line p =
     (case dataPayload (trimEOL line) of
        None \<Rightarrow> (p, False)
      | Some payload \<Rightarrow>
          if payload = donePayload then (p\<lparr>trDone := True\<rparr>, False)
          else case trDelta tc (trState p) payload of
                 (t', out, failed) \<Rightarrow>
                   (p\<lparr>trState := t', trWritten := trWritten p @ out,
                      trUsage := (case parseUsage payload of Some u \<Rightarrow> Some u | None \<Rightarrow> trUsage p)\<rparr>, failed))"

definition trans_finish :: "('t, 'u) transcoder \<Rightarrow> ('t, 'u) tpump \<Rightarrow> ('t, 'u) tpump \<times> pump_end" where
  "trans_finish tc p =
     (case trFinish tc (trState p) (trUsage p) of
        (t', out, failed) \<Rightarrow>
          (p\<lparr>trState := t', trWritten := trWritten p @ out\<rparr>, if failed then PumpWriteError else PumpOK))"

function trans_loop ::
  "('t, 'u) transcoder \<Rightarrow> (string \<Rightarrow> 'u option) \<Rightarrow> bool \<Rightarrow> string \<Rightarrow> ('t, 'u) tpump \<Rightarrow> ('t, 'u) tpump \<times> pump_end" where
  "trans_loop tc parseUsage eof body p =
     (case readLine body of
        LineTooLong \<Rightarrow> (p, PumpTooLong)
      | Line line rest ended \<Rightarrow>
          (case (if line \<noteq> [] then trans_line tc parseUsage line p else (p, False)) of
             (p1, True) \<Rightarrow> (p1, PumpWriteError)
           | (p1, False) \<Rightarrow>
               if ended
               then (if eof then (if \<not> trDone p1 then (p1, PumpTruncated) else trans_finish tc p1)
                     else (p1, PumpReadError))
               else trans_loop tc parseUsage eof rest p1))"
  by pat_completeness auto

termination
  by (relation "measure (\<lambda>(tc, parseUsage, eof, body, p). length body)") (auto dest: readLine_parts)

declare trans_loop.simps [simp del]

definition pumpTranscoded ::
  "('t, 'u) transcoder \<Rightarrow> (string \<Rightarrow> 'u option) \<Rightarrow> bool \<Rightarrow> string \<Rightarrow> string \<Rightarrow> ('t, 'u) tpump \<times> pump_end" where
  "pumpTranscoded tc parseUsage eof model body =
     (case trStart tc model of
        (t0, out, failed) \<Rightarrow>
          let p = \<lparr>trState = t0, trUsage = None, trWritten = out, trDone = False\<rparr>
          in if failed then (p, PumpWriteError) else trans_loop tc parseUsage eof body p)"

text \<open>
  A translated stream is closed as complete only when the upstream sent its terminator
  and the body ended cleanly.
\<close>

lemma trans_loop_honest:
  "trans_loop tc pu eof body p = (p', PumpOK) \<Longrightarrow>
     eof \<and> (trDone p \<or> (\<exists>l \<in> set (lines_of body). is_done l))"
proof (induction tc pu eof body p rule: trans_loop.induct)
  case (1 tc pu eof body p)
  note step = "1.prems" [unfolded trans_loop.simps [of tc pu eof body p]]
  from step obtain s rest ended where r: "readLine body = Line s rest ended"
    by (cases "readLine body") auto
  obtain p1 failed where p1: "(if s \<noteq> [] then trans_line tc pu s p else (p, False)) = (p1, failed)" by fastforce
  have dn: "trDone p1 \<Longrightarrow> trDone p \<or> s \<noteq> [] \<and> is_done s"
    using p1 by (auto simp: trans_line_def is_done_def split: if_splits option.splits prod.splits)
  note ls = lines_of_readLine [OF r]
  have nf: "\<not> failed" using step r p1 by (cases failed) auto
  show ?case
  proof (cases ended)
    case True
    then have "eof" "trDone p1"
      using step r p1 nf by (auto split: if_splits)
    then show ?thesis using dn ls by auto
  next
    case False
    then have "trans_loop tc pu eof rest p1 = (p', PumpOK)" using step r p1 nf by simp
    then have "eof \<and> (trDone p1 \<or> (\<exists>l \<in> set (lines_of rest). is_done l))"
      using "1.IH" [OF r p1 [symmetric]] nf False by simp
    then show ?thesis using dn ls readLine_parts [OF r] False by auto
  qed
qed

subsection \<open>In-stream termination\<close>

text \<open>
  The events of the canonical wire over an encoder for the payload: \<open>enc\<close> stands for
  \<open>json.Marshal\<close>, whose output holds no raw line break.
\<close>

datatype stream_code = CodeUpstreamReset | CodeUpstreamTimeout | CodeBudgetExhausted

definition stream_code_string :: "stream_code \<Rightarrow> string" where
  "stream_code_string c =
     (case c of CodeUpstreamReset \<Rightarrow> ''upstream_reset'' | CodeUpstreamTimeout \<Rightarrow> ''upstream_timeout''
      | CodeBudgetExhausted \<Rightarrow> ''budget_exhausted'')"

definition doneSentinel :: string where
  "doneSentinel = ''data: [DONE]'' @ [newline, newline]"

record stream_error =
  seMessage :: string
  seType :: string
  seCode :: stream_code

definition NewStreamError :: "stream_code \<Rightarrow> string \<Rightarrow> stream_error" where
  "NewStreamError code message = \<lparr>seMessage = message, seType = ''gateway_error'', seCode = code\<rparr>"

definition writeEventData :: "('p \<Rightarrow> string) \<Rightarrow> string \<Rightarrow> 'p \<Rightarrow> string" where
  "writeEventData enc event payload =
     (if event \<noteq> []
      then ''event: '' @ event @ [newline] @ ''data: '' @ enc payload @ [newline, newline]
      else ''data: '' @ enc payload @ [newline, newline])"

definition WriteAbort :: "(stream_error \<Rightarrow> string) \<Rightarrow> stream_code \<Rightarrow> string \<Rightarrow> string" where
  "WriteAbort enc code message = writeEventData enc ''error'' (NewStreamError code message) @ doneSentinel"


lemma abort_lines:
  assumes "newline \<notin> set (enc (NewStreamError code message))"
  shows "lines_of (WriteAbort enc code message) =
    [''event: error'' @ [newline], ''data: '' @ enc (NewStreamError code message) @ [newline], [newline],
     ''data: [DONE]'' @ [newline], [newline]]"
proof -
  let ?d = "''data: '' @ enc (NewStreamError code message)"
  have n: "newline \<notin> set ''event: error''" "newline \<notin> set ?d" "newline \<notin> set ''data: [DONE]''"
    using assms by (simp_all add: newline_def)
  have eq: "WriteAbort enc code message =
      ''event: error'' @ newline # (?d @ newline # ([] @ newline # (''data: [DONE]'' @ newline # ([] @ newline # []))))"
    by (simp add: WriteAbort_def writeEventData_def doneSentinel_def)
  show ?thesis
    unfolding eq lines_of_Cons [OF n(1)] lines_of_Cons [OF n(2)] append_Nil lines_of_blank
      lines_of_Cons [OF n(3)] lines_of_Nil by (simp only: append_assoc)
qed

subsection \<open>Properties\<close>

definition demo_body :: string where
  "demo_body = ''data: {}'' @ [newline, newline] @ ''data: [DONE]'' @ [newline, newline]"

text \<open>
  C37: the passthrough pump relays the upstream's lines and nothing else.  What the
  client has received is, at every end of the pump, the first k lines of the body with
  their terminators normalized to a line feed, and the byte count reported for metering
  is exactly its length.  The pump reports success only when the body ended cleanly,
  every line was relayed and a stream that carried data lines also carried the
  terminator; conversely such a body, with every line within the line cap and a client
  that reads, is a success.  A body already in normal form arrives byte for byte.
\<close>

theorem pump_relays_verbatim:
  assumes "pumpStream parseUsage eof room body = (p, e)"
  shows "(\<exists>k \<le> length (lines_of body). written p = sent_for (take k (lines_of body)) \<and>
      (e = PumpOK \<longrightarrow> k = length (lines_of body))) \<and>
    sentBytes p = int (length (written p)) \<and>
    (e = PumpOK \<longrightarrow> eof \<and> ((\<exists>l \<in> set (lines_of body). is_data l) \<longrightarrow> (\<exists>l \<in> set (lines_of body). is_done l))) \<and>
    (room = None \<and> eof \<and> (\<forall>l \<in> set (lines_of body). line_fits l) \<and>
      ((\<exists>l \<in> set (lines_of body). is_data l) \<longrightarrow> (\<exists>l \<in> set (lines_of body). is_done l)) \<longrightarrow> e = PumpOK) \<and>
    (e = PumpOK \<and> (\<forall>l \<in> set (lines_of body). l = trimEOL l @ [newline]) \<longrightarrow> written p = body)"
proof -
  define ls where "ls = lines_of body"
  obtain k where k: "pump_ok parseUsage eof room body pump_start p e k"
    using pump_loop_spec [OF assms [unfolded pumpStream_def]] by blast
  define q where "q = relay_lines parseUsage (take k ls) (pump_start :: 'a pump)"
  have q: "written q = sent_for (take k ls)" "sentBytes q = int (length (sent_for (take k ls)))"
    "sawData q \<longleftrightarrow> (\<exists>l \<in> set (take k ls). is_data l)" "doneSeen q \<longleftrightarrow> (\<exists>l \<in> set (take k ls). is_done l)"
    by (simp_all add: q_def relay_lines_state pump_start_def)
  have p: "if e = PumpWriteError then room \<noteq> None \<and> (\<exists>l. p = scan_line parseUsage l q) else p = q"
    and kl: "k \<le> length ls" "e \<in> {PumpOK, PumpTruncated, PumpReadError} \<longrightarrow> k = length ls"
    and e: "e = PumpOK \<longrightarrow> eof \<and> (sawData p \<longrightarrow> doneSeen p)"
      "e = PumpTruncated \<longrightarrow> eof \<and> sawData p \<and> \<not> doneSeen p" "e = PumpReadError \<longrightarrow> \<not> eof"
      "e = PumpTooLong \<longrightarrow> (\<exists>l \<in> set ls. \<not> line_fits l)"
    using k by (auto simp: pump_ok_def q_def ls_def)
  have w: "written p = sent_for (take k ls)" "sentBytes p = int (length (written p))"
    using p q by (auto split: if_splits)
  have ok: "e = PumpOK" if "room = None" "eof" "\<forall>l \<in> set ls. line_fits l"
    "(\<exists>l \<in> set ls. is_data l) \<longrightarrow> (\<exists>l \<in> set ls. is_done l)"
    using that p e kl q by (cases e) auto
  have verb: "written p = body" if "e = PumpOK" "\<forall>l \<in> set ls. l = trimEOL l @ [newline]"
  proof -
    have "map (\<lambda>l. trimEOL l @ [newline]) ls = map id ls" using that(2) by (intro map_cong) auto
    then show ?thesis using w kl that(1) concat_lines_of [of body] by (simp add: sent_for_def ls_def)
  qed
  have "e = PumpOK \<longrightarrow> eof \<and> ((\<exists>l \<in> set ls. is_data l) \<longrightarrow> (\<exists>l \<in> set ls. is_done l))"
    using e(1) kl(2) p q by auto
  with w ok verb kl show ?thesis unfolding ls_def [symmetric] by (intro conjI exI [of _ k]) auto
qed

theorem pump_relays_verbatim_witness:
  "let (p, e) = pumpStream (\<lambda>_. None :: unit option) True None demo_body in
     e = PumpOK \<and> written p = demo_body \<and> sentBytes p = 24"
proof -
  let ?r = "pumpStream (\<lambda>_. None :: unit option) True None demo_body"
  have ls: "lines_of demo_body =
      [''data: {}'' @ [newline], [newline], ''data: [DONE]'' @ [newline], [newline]]"
  proof -
    have n: "newline \<notin> set ''data: {}''" "newline \<notin> set ''data: [DONE]''"
      by (simp_all add: newline_def)
    have eq: "demo_body = ''data: {}'' @ newline # ([] @ newline # (''data: [DONE]'' @ newline # ([] @ newline # [])))"
      by (simp add: demo_body_def)
    show ?thesis
      unfolding eq lines_of_Cons [OF n(1)] append_Nil lines_of_blank lines_of_Cons [OF n(2)] lines_of_Nil ..
  qed
  have t: "trimEOL (''data: {}'' @ [newline]) = ''data: {}''" "trimEOL [newline] = []"
    "trimEOL (''data: [DONE]'' @ [newline]) = ''data: [DONE]''"
    using trimEOL_line [of "''data: {}''"] trimEOL_line [of "[]"] trimEOL_line [of "''data: [DONE]''"]
    by simp_all
  have f: "line_fits (''data: {}'' @ [newline])" "line_fits [newline]" "line_fits (''data: [DONE]'' @ [newline])"
    by (simp_all add: short_line_fits)
  have "\<forall>l \<in> set (lines_of demo_body). line_fits l \<and> l = trimEOL l @ [newline]"
    unfolding ls list.set ball_simps t using f by blast
  moreover have "\<exists>l \<in> set (lines_of demo_body). is_done l"
    unfolding ls list.set bex_simps is_done_def t
    by (simp add: dataPayload_def has_prefix_def donePayload_def)
  moreover note pump_relays_verbatim [of "\<lambda>_. None" True None demo_body "fst ?r" "snd ?r", OF prod.collapse [symmetric]]
  ultimately have e: "snd ?r = PumpOK" and w: "written (fst ?r) = demo_body"
    and "sentBytes (fst ?r) = int (length (written (fst ?r)))"
    by blast+
  then have "sentBytes (fst ?r) = 24" by (simp only: w) (simp add: demo_body_def)
  with e w show ?thesis by (simp only: Let_def case_prod_beta simp_thms)
qed

end
