(* ===== verification/Protocol.thy ===== *)
theory Protocol
  imports Go_Json Relay_Stream
begin

text \<open>
  The client-facing wires (\<^verbatim>\<open>internal/protocol\<close>): the canonical request subset and the
  usage object (\<^verbatim>\<open>schema.go\<close>), the ingest of the Responses and Messages formats
  (\<^verbatim>\<open>responses.go\<close>, \<^verbatim>\<open>anthropic.go\<close>) and the rendering of replies
  (\<^verbatim>\<open>wire.go\<close>).  The stream translators are in \<open>Protocol_Stream\<close>.

  JSON syntax is the argument pair \<open>dec\<close>, \<open>enc\<close>; \<open>media\<close> is \<open>mime.ParseMediaType\<close>,
  the media type alone; \<open>iter\<close> is the order Go ranges over a map literal's keys in.
\<close>

subsection \<open>The canonical request\<close>

record chat_message =
  cmRole :: string
  cmContent :: string

record chat_request =
  chModel :: string
  chStream :: bool
  chMessages :: "chat_message list"
  chMaxTokens :: "int option"
  chTemperature :: "rat option"
  chTopP :: "rat option"
  chN :: "int option"
  chSeed :: "int option"
  chStreamOptions :: "bool option"

definition zero_message :: chat_message where
  "zero_message = \<lparr>cmRole = '''', cmContent = ''''\<rparr>"

definition zero_chat :: chat_request where
  "zero_chat = \<lparr>chModel = '''', chStream = False, chMessages = [], chMaxTokens = None, chTemperature = None,
     chTopP = None, chN = None, chSeed = None, chStreamOptions = None\<rparr>"

definition dec_message :: "chat_message decoder" where
  "dec_message = dec_struct
     [(''role'', field cmRole cmRole_update dec_string), (''content'', field cmContent cmContent_update dec_string)]"

definition dec_stream_options :: "bool decoder" where
  "dec_stream_options = dec_struct [(''include_usage'', dec_bool)]"

definition chat_fields :: "(string \<times> chat_request decoder) list" where
  "chat_fields =
     [(''model'', field chModel chModel_update dec_string),
      (''stream'', field chStream chStream_update dec_bool),
      (''messages'', field chMessages chMessages_update (dec_slice zero_message dec_message)),
      (''max_tokens'', field chMaxTokens chMaxTokens_update (dec_pointer 0 dec_int)),
      (''temperature'', field chTemperature chTemperature_update (dec_pointer 0 dec_float)),
      (''top_p'', field chTopP chTopP_update (dec_pointer 0 dec_float)),
      (''n'', field chN chN_update (dec_pointer 0 dec_int)),
      (''seed'', field chSeed chSeed_update (dec_pointer 0 dec_int)),
      (''stream_options'', field chStreamOptions chStreamOptions_update (dec_pointer False dec_stream_options))]"

definition dec_chat :: "chat_request decoder" where
  "dec_chat = dec_struct chat_fields"

definition ParseChatRequest :: "(string \<Rightarrow> json option) \<Rightarrow> string \<Rightarrow> chat_request option" where
  "ParseChatRequest dec body =
     (case Unmarshal dec dec_chat body zero_chat of (req, ok) \<Rightarrow> if ok then Some req else None)"

text \<open>The encoding of a request: a nil slice is \<open>null\<close>, absent pointers are left out.\<close>

definition message_json :: "chat_message \<Rightarrow> json" where
  "message_json m = JObj [(''role'', JStr (cmRole m)), (''content'', JStr (cmContent m))]"

definition chat_json :: "chat_request \<Rightarrow> json" where
  "chat_json req = JObj
     ([(''model'', JStr (chModel req)), (''stream'', JBool (chStream req)),
       (''messages'', if chMessages req = [] then JNull else JArr (map message_json (chMessages req)))] @
      omitempty ''max_tokens'' JInt (chMaxTokens req) @
      omitempty ''temperature'' JReal (chTemperature req) @
      omitempty ''top_p'' JReal (chTopP req) @
      omitempty ''n'' JInt (chN req) @
      omitempty ''seed'' JInt (chSeed req) @
      omitempty ''stream_options''
        (\<lambda>b. JObj (if b then [(''include_usage'', JBool True)] else [])) (chStreamOptions req))"

subsection \<open>Usage\<close>

record usage =
  uPrompt :: int
  uCompletion :: int
  uTotal :: int

definition zero_usage :: usage where "zero_usage = \<lparr>uPrompt = 0, uCompletion = 0, uTotal = 0\<rparr>"

definition dec_usage :: "usage decoder" where
  "dec_usage = dec_struct
     [(''prompt_tokens'', field uPrompt uPrompt_update dec_int),
      (''completion_tokens'', field uCompletion uCompletion_update dec_int),
      (''total_tokens'', field uTotal uTotal_update dec_int)]"

fun contains :: "string \<Rightarrow> string \<Rightarrow> bool" where
  "contains p [] \<longleftrightarrow> p = []"
| "contains p (c # s) \<longleftrightarrow> has_prefix (c # s) p \<or> contains p s"

definition quote :: char where "quote = CHR 0x22"

definition ParseUsage :: "(string \<Rightarrow> json option) \<Rightarrow> string \<Rightarrow> usage option" where
  "ParseUsage dec body =
     (if \<not> contains (quote # ''usage'' @ [quote]) body then None
      else case Unmarshal dec (dec_struct [(''usage'', dec_pointer zero_usage dec_usage)]) body None of
             (u, ok) \<Rightarrow> if ok then u else None)"

subsection \<open>Ingest\<close>

datatype format = FormatOpenAIChat | FormatOpenAIResponses | FormatAnthropicMessages

record ingest_result =
  inChat :: chat_request
  inBody :: string

datatype ingest_error =
    Malformed
  | ModelRequired
  | MaxTokensRequired
  | StopSequencesUnsupported
  | FieldUnsupported string
  | TopKUnsupported
  | PreviousResponseUnsupported
  | BadInput
  | BadContent
  | BadPart string

record anthropic_request =
  anModel :: string
  anStream :: bool
  anSystem :: "json option"
  anMessages :: "(string \<times> json option) list"
  anMaxTokens :: "int option"
  anTemperature :: "rat option"
  anTopP :: "rat option"
  anStopSequences :: "string list"
  anTools :: "json option"
  anToolChoice :: "json option"
  anThinking :: "json option"
  anTopK :: "int option"

definition zero_anthropic :: anthropic_request where
  "zero_anthropic = \<lparr>anModel = '''', anStream = False, anSystem = None, anMessages = [], anMaxTokens = None,
     anTemperature = None, anTopP = None, anStopSequences = [], anTools = None, anToolChoice = None,
     anThinking = None, anTopK = None\<rparr>"

definition dec_entry :: "(string \<times> json option) decoder" where
  "dec_entry = dec_struct [(''role'', field fst apfst dec_string), (''content'', field snd apsnd dec_raw)]"

definition dec_anthropic :: "anthropic_request decoder" where
  "dec_anthropic = dec_struct
     [(''model'', field anModel anModel_update dec_string),
      (''stream'', field anStream anStream_update dec_bool),
      (''system'', field anSystem anSystem_update dec_raw),
      (''messages'', field anMessages anMessages_update (dec_slice ('''', None) dec_entry)),
      (''max_tokens'', field anMaxTokens anMaxTokens_update (dec_pointer 0 dec_int)),
      (''temperature'', field anTemperature anTemperature_update (dec_pointer 0 dec_float)),
      (''top_p'', field anTopP anTopP_update (dec_pointer 0 dec_float)),
      (''stop_sequences'', field anStopSequences anStopSequences_update (dec_slice '''' dec_string)),
      (''tools'', field anTools anTools_update dec_raw),
      (''tool_choice'', field anToolChoice anToolChoice_update dec_raw),
      (''thinking'', field anThinking anThinking_update dec_raw),
      (''top_k'', field anTopK anTopK_update (dec_pointer 0 dec_int))]"

text \<open>Text of a content value: a string, or parts that all carry text.\<close>

fun join_parts :: "string list \<Rightarrow> (string \<times> string) list \<Rightarrow> ingest_error + string" where
  "join_parts kinds [] = Inr ''''"
| "join_parts kinds ((kind, t) # ps) =
     (if kind \<notin> set kinds then Inl (BadPart kind)
      else case join_parts kinds ps of Inl e \<Rightarrow> Inl e | Inr rest \<Rightarrow> Inr (t @ rest))"

definition dec_part :: "(string \<times> string) decoder" where
  "dec_part = dec_struct [(''type'', field fst apfst dec_string), (''text'', field snd apsnd dec_string)]"

definition content_text :: "string list \<Rightarrow> json option \<Rightarrow> ingest_error + string" where
  "content_text kinds raw =
     (case raw of
        None \<Rightarrow> Inl BadContent
      | Some j \<Rightarrow>
          (case dec_string j '''' of
             (t, True) \<Rightarrow> Inr t
           | _ \<Rightarrow> (case dec_slice ('''', '''') dec_part j [] of
                    (ps, True) \<Rightarrow> join_parts kinds ps
                  | _ \<Rightarrow> Inl BadContent)))"

definition anthropicText :: "json option \<Rightarrow> ingest_error + string" where
  "anthropicText = content_text [''text'']"

definition responsesText :: "json option \<Rightarrow> ingest_error + string" where
  "responsesText = content_text [''input_text'', ''output_text'']"

fun text_messages ::
  "(json option \<Rightarrow> ingest_error + string) \<Rightarrow> (string \<times> json option) list \<Rightarrow> ingest_error + chat_message list" where
  "text_messages text_of [] = Inr []"
| "text_messages text_of ((role, raw) # es) =
     (case text_of raw of
        Inl e \<Rightarrow> Inl e
      | Inr t \<Rightarrow> (case text_messages text_of es of
                   Inl e \<Rightarrow> Inl e
                 | Inr ms \<Rightarrow> Inr (\<lparr>cmRole = role, cmContent = t\<rparr> # ms)))"

text \<open>A raw field that is present and not \<open>null\<close>.\<close>

definition carries :: "json option \<Rightarrow> bool" where
  "carries raw \<longleftrightarrow> raw \<noteq> None \<and> raw \<noteq> Some JNull"

definition first_carried ::
  "(string list \<Rightarrow> string list) \<Rightarrow> (string \<times> json option) list \<Rightarrow> string option" where
  "first_carried iter fs =
     List.find (\<lambda>f. carries (the (map_of fs f))) (iter (map fst fs))"

definition with_usage :: "chat_request \<Rightarrow> chat_request" where
  "with_usage chat = (if chStream chat then chat\<lparr>chStreamOptions := Some True\<rparr> else chat)"

definition anthropic_system :: "json option \<Rightarrow> ingest_error + chat_message list" where
  "anthropic_system raw =
     (case raw of
        None \<Rightarrow> Inr []
      | Some j \<Rightarrow>
          (case anthropicText (Some j) of
             Inl e \<Rightarrow> Inl e
           | Inr s \<Rightarrow> Inr (if s \<noteq> '''' then [\<lparr>cmRole = ''system'', cmContent = s\<rparr>] else [])))"

definition ingestAnthropic ::
  "(string list \<Rightarrow> string list) \<Rightarrow> (string \<Rightarrow> json option) \<Rightarrow> (json \<Rightarrow> string) \<Rightarrow> string \<Rightarrow>
   ingest_error + ingest_result" where
  "ingestAnthropic iter dec enc body =
     (case Unmarshal dec dec_anthropic body zero_anthropic of (req, ok) \<Rightarrow>
      if \<not> ok then Inl Malformed
      else if anModel req = '''' then Inl ModelRequired
      else if anMaxTokens req = None \<or> the (anMaxTokens req) \<le> 0 then Inl MaxTokensRequired
      else if anStopSequences req \<noteq> [] then Inl StopSequencesUnsupported
      else case first_carried iter
             [(''tools'', anTools req), (''tool_choice'', anToolChoice req), (''thinking'', anThinking req)] of
        Some f \<Rightarrow> Inl (FieldUnsupported f)
      | None \<Rightarrow>
          if anTopK req \<noteq> None then Inl TopKUnsupported
          else case anthropic_system (anSystem req) of
            Inl e \<Rightarrow> Inl e
          | Inr sys \<Rightarrow>
              (case text_messages anthropicText (anMessages req) of
                 Inl e \<Rightarrow> Inl e
               | Inr ms \<Rightarrow>
                   let chat = with_usage (zero_chat\<lparr>chModel := anModel req, chStream := anStream req,
                         chMessages := sys @ ms, chMaxTokens := anMaxTokens req,
                         chTemperature := anTemperature req, chTopP := anTopP req\<rparr>)
                   in Inr \<lparr>inChat = chat, inBody = enc (chat_json chat)\<rparr>))"

record responses_request =
  reModel :: string
  reStream :: bool
  reInput :: "json option"
  reInstructions :: string
  reMaxOutputTokens :: "int option"
  reTemperature :: "rat option"
  reTopP :: "rat option"
  reTools :: "json option"
  reToolChoice :: "json option"
  rePreviousResponse :: string
  reReasoning :: "json option"
  reTextFormat :: "json option"

definition zero_responses :: responses_request where
  "zero_responses = \<lparr>reModel = '''', reStream = False, reInput = None, reInstructions = '''',
     reMaxOutputTokens = None, reTemperature = None, reTopP = None, reTools = None, reToolChoice = None,
     rePreviousResponse = '''', reReasoning = None, reTextFormat = None\<rparr>"

definition dec_responses :: "responses_request decoder" where
  "dec_responses = dec_struct
     [(''model'', field reModel reModel_update dec_string),
      (''stream'', field reStream reStream_update dec_bool),
      (''input'', field reInput reInput_update dec_raw),
      (''instructions'', field reInstructions reInstructions_update dec_string),
      (''max_output_tokens'', field reMaxOutputTokens reMaxOutputTokens_update (dec_pointer 0 dec_int)),
      (''temperature'', field reTemperature reTemperature_update (dec_pointer 0 dec_float)),
      (''top_p'', field reTopP reTopP_update (dec_pointer 0 dec_float)),
      (''tools'', field reTools reTools_update dec_raw),
      (''tool_choice'', field reToolChoice reToolChoice_update dec_raw),
      (''previous_response_id'', field rePreviousResponse rePreviousResponse_update dec_string),
      (''reasoning'', field reReasoning reReasoning_update dec_raw),
      (''text'', field reTextFormat reTextFormat_update dec_raw)]"

definition responses_input :: "json option \<Rightarrow> ingest_error + chat_message list" where
  "responses_input raw =
     (case raw of
        None \<Rightarrow> Inr []
      | Some j \<Rightarrow>
          (case dec_string j '''' of
             (t, True) \<Rightarrow> Inr [\<lparr>cmRole = ''user'', cmContent = t\<rparr>]
           | _ \<Rightarrow> (case dec_slice ('''', None) dec_entry j [] of
                    (es, True) \<Rightarrow> text_messages responsesText es
                  | _ \<Rightarrow> Inl BadInput)))"

definition ingestResponses ::
  "(string list \<Rightarrow> string list) \<Rightarrow> (string \<Rightarrow> json option) \<Rightarrow> (json \<Rightarrow> string) \<Rightarrow> string \<Rightarrow>
   ingest_error + ingest_result" where
  "ingestResponses iter dec enc body =
     (case Unmarshal dec dec_responses body zero_responses of (req, ok) \<Rightarrow>
      if \<not> ok then Inl Malformed
      else if reModel req = '''' then Inl ModelRequired
      else if reMaxOutputTokens req \<noteq> None \<and> the (reMaxOutputTokens req) \<le> 0 then Inl MaxTokensRequired
      else case first_carried iter
             [(''tools'', reTools req), (''tool_choice'', reToolChoice req), (''reasoning'', reReasoning req),
              (''text'', reTextFormat req)] of
        Some f \<Rightarrow> Inl (FieldUnsupported f)
      | None \<Rightarrow>
          if rePreviousResponse req \<noteq> '''' then Inl PreviousResponseUnsupported
          else case responses_input (reInput req) of
            Inl e \<Rightarrow> Inl e
          | Inr ms \<Rightarrow>
              let lead = (if reInstructions req \<noteq> ''''
                          then [\<lparr>cmRole = ''system'', cmContent = reInstructions req\<rparr>] else []);
                  chat = with_usage (zero_chat\<lparr>chModel := reModel req, chStream := reStream req,
                      chMessages := lead @ ms, chMaxTokens := reMaxOutputTokens req,
                      chTemperature := reTemperature req, chTopP := reTopP req\<rparr>)
              in Inr \<lparr>inChat = chat, inBody = enc (chat_json chat)\<rparr>)"

definition Ingest ::
  "(string list \<Rightarrow> string list) \<Rightarrow> (string \<Rightarrow> json option) \<Rightarrow> (json \<Rightarrow> string) \<Rightarrow> format \<Rightarrow> string \<Rightarrow>
   ingest_error + ingest_result" where
  "Ingest iter dec enc fmt body =
     (case fmt of
        FormatOpenAIResponses \<Rightarrow> ingestResponses iter dec enc body
      | FormatAnthropicMessages \<Rightarrow> ingestAnthropic iter dec enc body
      | FormatOpenAIChat \<Rightarrow>
          (case ParseChatRequest dec body of
             None \<Rightarrow> Inl Malformed
           | Some chat \<Rightarrow> Inr \<lparr>inChat = chat, inBody = body\<rparr>))"

subsection \<open>The canonical body reads back\<close>

definition chat_ok :: "chat_request \<Rightarrow> bool" where
  "chat_ok c \<longleftrightarrow>
     (\<forall>n \<in> set_option (chMaxTokens c) \<union> set_option (chN c) \<union> set_option (chSeed c). in64 n) \<and>
     (\<forall>x \<in> set_option (chTemperature c) \<union> set_option (chTopP c). float_literal x = x \<and> float_in_range x)"

declare fold_name.simps [simp del]

lemma folded_names [simp]:
  "fold_name ''model'' = ''MODEL''" "fold_name ''stream'' = ''STREAM''" "fold_name ''messages'' = ''MESSAGES''"
  "fold_name ''max_tokens'' = ''MAX_TOKENS''" "fold_name ''temperature'' = ''TEMPERATURE''"
  "fold_name ''top_p'' = ''TOP_P''" "fold_name ''n'' = ''N''" "fold_name ''seed'' = ''SEED''"
  "fold_name ''stream_options'' = ''STREAM_OPTIONS''" "fold_name ''include_usage'' = ''INCLUDE_USAGE''"
  "fold_name ''role'' = ''ROLE''" "fold_name ''content'' = ''CONTENT''"
  by code_simp+

lemma dec_members_append:
  "dec_members fs (ms @ ns) s =
     (let (s1, ok1) = dec_members fs ms s; (s2, ok2) = dec_members fs ns s1 in (s2, ok1 \<and> ok2))"
  by (induction ms arbitrary: s) (auto simp: split: prod.splits option.splits)

lemma dec_members_omitempty:
  assumes us: "list_all2 (\<lambda>a b. fst a = fst b \<and> reads_as (snd a) (snd b)) (omitempty name f x) us"
    and found: "List.find (\<lambda>g. fold_name (fst g) = fold_name name) fs = Some (n', field get upd d)"
    and reads: "\<And>v j. x = Some v \<Longrightarrow> reads_as (f v) j \<Longrightarrow> d j (get s) = (Some v, True)"
  shows "dec_members fs us s = (case x of None \<Rightarrow> s | Some v \<Rightarrow> upd (\<lambda>_. Some v) s, True)"
proof (cases x)
  case (Some v)
  then obtain j where "us = [(name, j)]" "reads_as (f v) j"
    using us by (auto simp: omitempty_def list_all2_Cons1)
  then show ?thesis using Some found reads [OF Some] by (simp add: field_def)
qed (use us in \<open>simp add: omitempty_def\<close>)

lemma dec_message_reads: "reads_as (message_json m) j \<Longrightarrow> dec_message j zero_message = (m, True)"
  by (auto simp: message_json_def dec_message_def dec_struct_def list_all2_Cons1 field_def dec_string_def
      zero_message_def)

lemma dec_slice_reads:
  assumes "list_all2 reads_as (map f xs) js" and "\<And>x j. reads_as (f x) j \<Longrightarrow> d j zero = (x, True)"
  shows "dec_slice zero d (JArr js) [] = (xs, True)"
proof -
  have "map (\<lambda>e. fst (d e zero)) js = xs \<and> list_all (\<lambda>e. snd (d e zero)) js"
    using assms(1)
  proof (induction xs arbitrary: js)
    case (Cons x xs)
    then show ?case using assms(2) [of x] by (fastforce simp: list_all2_Cons1)
  qed simp
  then show ?thesis by (simp add: dec_slice_fresh)
qed

lemma dec_int_reads: "in64 n \<Longrightarrow> reads_as (JInt n) j \<Longrightarrow> dec_pointer 0 dec_int j old = (Some n, True)"
  by (auto simp: dec_pointer_def dec_int_def in64_def split: option.splits)

lemma dec_float_pointer_reads:
  "float_literal x = x \<Longrightarrow> float_in_range x \<Longrightarrow> reads_as (JReal x) j \<Longrightarrow>
     dec_pointer 0 dec_float j old = (Some x, True)"
  using dec_float_reads [of x j] by (auto simp: dec_pointer_def split: option.splits)

lemma dec_options_reads:
  "reads_as (JObj (if b then [(''include_usage'', JBool True)] else [])) j \<Longrightarrow>
     dec_pointer False dec_stream_options j None = (Some b, True)"
  by (auto simp: dec_pointer_def dec_stream_options_def dec_struct_def dec_bool_def list_all2_Cons1
      split: if_splits)

lemma chat_values_read:
  assumes "chat_ok c"
  shows "chMaxTokens c = Some n \<Longrightarrow> reads_as (JInt n) j \<Longrightarrow> dec_pointer 0 dec_int j old = (Some n, True)"
    and "chN c = Some n \<Longrightarrow> reads_as (JInt n) j \<Longrightarrow> dec_pointer 0 dec_int j old = (Some n, True)"
    and "chSeed c = Some n \<Longrightarrow> reads_as (JInt n) j \<Longrightarrow> dec_pointer 0 dec_int j old = (Some n, True)"
    and "chTemperature c = Some x \<Longrightarrow> reads_as (JReal x) j \<Longrightarrow> dec_pointer 0 dec_float j old' = (Some x, True)"
    and "chTopP c = Some x \<Longrightarrow> reads_as (JReal x) j \<Longrightarrow> dec_pointer 0 dec_float j old' = (Some x, True)"
  using assms by (auto simp: chat_ok_def simp del: reads_as_simps intro: dec_int_reads dec_float_pointer_reads)

lemma chat_found:
  "List.find (\<lambda>g. fold_name (fst g) = fold_name ''max_tokens'') chat_fields =
     Some (''max_tokens'', field chMaxTokens chMaxTokens_update (dec_pointer 0 dec_int))"
  "List.find (\<lambda>g. fold_name (fst g) = fold_name ''temperature'') chat_fields =
     Some (''temperature'', field chTemperature chTemperature_update (dec_pointer 0 dec_float))"
  "List.find (\<lambda>g. fold_name (fst g) = fold_name ''top_p'') chat_fields =
     Some (''top_p'', field chTopP chTopP_update (dec_pointer 0 dec_float))"
  "List.find (\<lambda>g. fold_name (fst g) = fold_name ''n'') chat_fields =
     Some (''n'', field chN chN_update (dec_pointer 0 dec_int))"
  "List.find (\<lambda>g. fold_name (fst g) = fold_name ''seed'') chat_fields =
     Some (''seed'', field chSeed chSeed_update (dec_pointer 0 dec_int))"
  "List.find (\<lambda>g. fold_name (fst g) = fold_name ''stream_options'') chat_fields =
     Some (''stream_options'', field chStreamOptions chStreamOptions_update (dec_pointer False dec_stream_options))"
  by (simp_all add: chat_fields_def)

text \<open>The members an encoded request always has.\<close>

lemma chat_base_reads:
  assumes "list_all2 (\<lambda>a b. fst a = fst b \<and> reads_as (snd a) (snd b))
    [(''model'', JStr (chModel c)), (''stream'', JBool (chStream c)),
     (''messages'', if chMessages c = [] then JNull else JArr (map message_json (chMessages c)))] base"
  shows "dec_members chat_fields base zero_chat =
    (zero_chat\<lparr>chModel := chModel c, chStream := chStream c, chMessages := chMessages c\<rparr>, True)"
proof -
  obtain m s ms where b: "base = [(''model'', m), (''stream'', s), (''messages'', ms)]"
    and br: "reads_as (JStr (chModel c)) m" "reads_as (JBool (chStream c)) s"
      "reads_as (if chMessages c = [] then JNull else JArr (map message_json (chMessages c))) ms"
    using assms by (auto simp: list_all2_Cons1)
  have "dec_slice zero_message dec_message ms [] = (chMessages c, True)"
  proof (cases "chMessages c = []")
    case False
    then obtain js where "ms = JArr js" "list_all2 reads_as (map message_json (chMessages c)) js"
      using br(3) by auto
    then show ?thesis using dec_message_reads by (auto intro: dec_slice_reads [where f = message_json])
  qed (use br(3) in \<open>simp add: dec_slice_def\<close>)
  then show ?thesis
    using br(1,2) by (simp add: chat_fields_def b field_def dec_string_def dec_bool_def zero_chat_def)
qed

lemma dec_chat_reads:
  assumes "reads_as (chat_json c) j" and ok: "chat_ok c"
  shows "dec_chat j zero_chat = (c, True)"
proof -
  let ?R = "list_all2 (\<lambda>a b. fst a = fst b \<and> reads_as (snd a) (snd b))"
  obtain base mt te tp n sd so where j: "j = JObj (base @ mt @ te @ tp @ n @ sd @ so)"
    and base: "?R [(''model'', JStr (chModel c)), (''stream'', JBool (chStream c)),
       (''messages'', if chMessages c = [] then JNull else JArr (map message_json (chMessages c)))] base"
    and r: "?R (omitempty ''max_tokens'' JInt (chMaxTokens c)) mt"
      "?R (omitempty ''temperature'' JReal (chTemperature c)) te"
      "?R (omitempty ''top_p'' JReal (chTopP c)) tp" "?R (omitempty ''n'' JInt (chN c)) n"
      "?R (omitempty ''seed'' JInt (chSeed c)) sd"
      "?R (omitempty ''stream_options'' (\<lambda>b. JObj (if b then [(''include_usage'', JBool True)] else []))
          (chStreamOptions c)) so"
    using assms(1) unfolding chat_json_def by (auto simp: list_all2_append1 simp del: append_Cons)
  note omit = dec_members_omitempty [OF r(1) chat_found(1)] dec_members_omitempty [OF r(2) chat_found(2)]
    dec_members_omitempty [OF r(3) chat_found(3)] dec_members_omitempty [OF r(4) chat_found(4)]
    dec_members_omitempty [OF r(5) chat_found(5)]
  have f: "dec_members chat_fields mt st = (case chMaxTokens c of None \<Rightarrow> st | Some v \<Rightarrow> st\<lparr>chMaxTokens := Some v\<rparr>, True)"
    "dec_members chat_fields te st = (case chTemperature c of None \<Rightarrow> st | Some v \<Rightarrow> st\<lparr>chTemperature := Some v\<rparr>, True)"
    "dec_members chat_fields tp st = (case chTopP c of None \<Rightarrow> st | Some v \<Rightarrow> st\<lparr>chTopP := Some v\<rparr>, True)"
    "dec_members chat_fields n st = (case chN c of None \<Rightarrow> st | Some v \<Rightarrow> st\<lparr>chN := Some v\<rparr>, True)"
    "dec_members chat_fields sd st = (case chSeed c of None \<Rightarrow> st | Some v \<Rightarrow> st\<lparr>chSeed := Some v\<rparr>, True)" for st
    by - (rule omit, erule (1) chat_values_read [OF ok])+
  have f6: "dec_members chat_fields so st =
      (case chStreamOptions c of None \<Rightarrow> st | Some v \<Rightarrow> st\<lparr>chStreamOptions := Some v\<rparr>, True)"
    if "chStreamOptions st = None" for st
    by (rule dec_members_omitempty [OF r(6) chat_found(6)]; simp add: that dec_options_reads del: reads_as_simps)
  have "dec_members chat_fields (base @ mt @ te @ tp @ n @ sd @ so) zero_chat = (c, True)"
    by (simp add: dec_members_append chat_base_reads [OF base] f)
      (subst f6, auto simp: zero_chat_def split: option.splits)
  then show ?thesis by (simp add: dec_chat_def dec_struct_def j)
qed

text \<open>What a decoder leaves in a struct stays within the range of its Go type.\<close>

lemma dec_members_invar:
  assumes "\<And>n d j s. (n, d) \<in> set fs \<Longrightarrow> P s \<Longrightarrow> P (fst (d j s))" and "P s"
  shows "P (fst (dec_members fs ms s))"
  using assms(2)
proof (induction ms arbitrary: s)
  case (Cons m ms)
  obtain k j where m: "m = (k, j)" by fastforce
  show ?case
  proof (cases "List.find (\<lambda>f. fold_name (fst f) = fold_name k) fs")
    case (Some f)
    obtain n d where f: "f = (n, d)" by fastforce
    have "(n, d) \<in> set fs" using Some f by (auto simp: find_Some_iff)
    then have "P (fst (d j s))" using assms(1) Cons.prems by blast
    then show ?thesis using Cons.IH [of "fst (d j s)"] Some by (simp add: m f split_beta)
  qed (simp add: m Cons)
qed simp

lemma Unmarshal_invar:
  assumes "\<And>n d j s. (n, d) \<in> set fs \<Longrightarrow> P s \<Longrightarrow> P (fst (d j s))" and "P zero"
  shows "P (fst (Unmarshal dec (dec_struct fs) body zero))"
proof -
  have "P (fst (dec_members fs ms zero))" for ms
    by (rule dec_members_invar) (use assms in blast)+
  then show ?thesis
    using assms(2) by (auto simp: Unmarshal_def dec_struct_def split: option.splits json.splits)
qed

definition int_ptr_ok :: "int option \<Rightarrow> bool" where
  "int_ptr_ok x \<longleftrightarrow> (\<forall>n \<in> set_option x. in64 n)"

definition float_ptr_ok :: "rat option \<Rightarrow> bool" where
  "float_ptr_ok x \<longleftrightarrow> (\<forall>q \<in> set_option x. float_literal q = q \<and> float_in_range q)"

lemma dec_int_ptr_ok: "int_ptr_ok x \<Longrightarrow> int_ptr_ok (fst (dec_pointer 0 dec_int j x))"
  by (cases x; cases j) (auto simp: int_ptr_ok_def dec_pointer_def dec_int_def in64_def MinInt64_def MaxInt64_def)

lemma dec_float_ptr_ok:
  assumes "float_ptr_ok x" shows "float_ptr_ok (fst (dec_pointer 0 dec_float j x))"
proof -
  have "float_literal 0 = 0" using rne_int [of 0] by (simp add: float_literal_def min_normal_def)
  then have z: "float_literal 0 = 0 \<and> float_in_range 0" by (simp add: float_in_range_def)
  have i: "float_in_range q \<Longrightarrow> float_in_range (float_literal q)" for q by (simp add: float_in_range_def)
  show ?thesis using assms z i
    by (cases x; cases j) (auto simp: float_ptr_ok_def dec_pointer_def dec_float_def)
qed

lemma anthropic_ranges:
  assumes "Unmarshal dec dec_anthropic body zero_anthropic = (req, ok)"
  shows "int_ptr_ok (anMaxTokens req) \<and> float_ptr_ok (anTemperature req) \<and> float_ptr_ok (anTopP req)"
proof -
  have "(\<lambda>r. int_ptr_ok (anMaxTokens r) \<and> float_ptr_ok (anTemperature r) \<and> float_ptr_ok (anTopP r))
      (fst (Unmarshal dec dec_anthropic body zero_anthropic))"
    unfolding dec_anthropic_def
    by (rule Unmarshal_invar)
      (auto simp: field_def split_beta dec_int_ptr_ok dec_float_ptr_ok zero_anthropic_def
         int_ptr_ok_def [of None] float_ptr_ok_def [of None])
  then show ?thesis by (simp add: assms)
qed

lemma responses_ranges:
  assumes "Unmarshal dec dec_responses body zero_responses = (req, ok)"
  shows "int_ptr_ok (reMaxOutputTokens req) \<and> float_ptr_ok (reTemperature req) \<and> float_ptr_ok (reTopP req)"
proof -
  have "(\<lambda>r. int_ptr_ok (reMaxOutputTokens r) \<and> float_ptr_ok (reTemperature r) \<and> float_ptr_ok (reTopP r))
      (fst (Unmarshal dec dec_responses body zero_responses))"
    unfolding dec_responses_def
    by (rule Unmarshal_invar)
      (auto simp: field_def split_beta dec_int_ptr_ok dec_float_ptr_ok zero_responses_def
         int_ptr_ok_def [of None] float_ptr_ok_def [of None])
  then show ?thesis by (simp add: assms)
qed

lemma chat_ranges:
  assumes "ParseChatRequest dec body = Some req"
  shows "int_ptr_ok (chMaxTokens req)"
proof -
  have "(\<lambda>r. int_ptr_ok (chMaxTokens r)) (fst (Unmarshal dec dec_chat body zero_chat))"
    unfolding dec_chat_def chat_fields_def
    by (rule Unmarshal_invar) (auto simp: field_def split_beta dec_int_ptr_ok zero_chat_def int_ptr_ok_def [of None])
  then show ?thesis using assms by (auto simp: ParseChatRequest_def split: prod.splits if_splits)
qed

subsection \<open>What ingest accepts\<close>

lemma first_carried_None:
  assumes "first_carried iter fs = None" and "\<And>ks. set (iter ks) = set ks" and "distinct (map fst fs)"
  shows "list_all (\<lambda>(f, raw). \<not> carries raw) fs"
proof -
  have "\<not> carries raw" if "(f, raw) \<in> set fs" for f raw
  proof -
    have "f \<in> set (iter (map fst fs))" using assms(2) that by force
    then have "\<not> carries (the (map_of fs f))" using assms(1) by (auto simp: first_carried_def find_None_iff)
    then show ?thesis using map_of_is_SomeI [OF assms(3) that] by simp
  qed
  then show ?thesis by (auto simp: list_all_iff)
qed

text \<open>The fields an accepted request leaves unset, per format.\<close>

definition nothing_dropped :: "(string \<Rightarrow> json option) \<Rightarrow> format \<Rightarrow> string \<Rightarrow> bool" where
  "nothing_dropped dec fmt body \<longleftrightarrow>
     (case fmt of
        FormatOpenAIChat \<Rightarrow> True
      | FormatAnthropicMessages \<Rightarrow>
          (let req = fst (Unmarshal dec dec_anthropic body zero_anthropic)
           in \<not> carries (anTools req) \<and> \<not> carries (anToolChoice req) \<and> \<not> carries (anThinking req) \<and>
              anTopK req = None \<and> anStopSequences req = [])
      | FormatOpenAIResponses \<Rightarrow>
          (let req = fst (Unmarshal dec dec_responses body zero_responses)
           in \<not> carries (reTools req) \<and> \<not> carries (reToolChoice req) \<and> \<not> carries (reReasoning req) \<and>
              \<not> carries (reTextFormat req) \<and> rePreviousResponse req = ''''))"

definition translated_ok :: "(json \<Rightarrow> string) \<Rightarrow> format \<Rightarrow> ingest_result \<Rightarrow> bool" where
  "translated_ok enc fmt res \<longleftrightarrow>
     chat_ok (inChat res) \<and> inBody res = enc (chat_json (inChat res)) \<and> chModel (inChat res) \<noteq> '''' \<and>
     (chStream (inChat res) \<longrightarrow> chStreamOptions (inChat res) = Some True) \<and>
     (\<forall>n \<in> set_option (chMaxTokens (inChat res)). 0 < n) \<and>
     (fmt = FormatAnthropicMessages \<longrightarrow> chMaxTokens (inChat res) \<noteq> None)"

lemma with_usage_simps [simp]:
  "chModel (with_usage c) = chModel c" "chStream (with_usage c) = chStream c"
  "chMaxTokens (with_usage c) = chMaxTokens c" "chTemperature (with_usage c) = chTemperature c"
  "chTopP (with_usage c) = chTopP c" "chN (with_usage c) = chN c" "chSeed (with_usage c) = chSeed c"
  "chStream c \<Longrightarrow> chStreamOptions (with_usage c) = Some True"
  by (simp_all add: with_usage_def)

lemma ingestAnthropic_ok:
  assumes "ingestAnthropic iter dec enc body = Inr res" and iter: "\<And>ks. set (iter ks) = set ks"
  shows "translated_ok enc FormatAnthropicMessages res \<and> nothing_dropped dec FormatAnthropicMessages body"
proof -
  obtain req where req: "Unmarshal dec dec_anthropic body zero_anthropic = (req, True)"
    using assms(1) by (auto simp: ingestAnthropic_def split: prod.splits if_splits)
  note step = assms(1) [unfolded ingestAnthropic_def req prod.case]
  let ?fs = "[(''tools'', anTools req), (''tool_choice'', anToolChoice req), (''thinking'', anThinking req)]"
  have none: "first_carried iter ?fs = None" using step by (auto split: if_splits option.splits)
  have clean: "list_all (\<lambda>(f, raw). \<not> carries raw) ?fs"
    by (rule first_carried_None [OF none iter]) simp
  obtain sys ms where
    res: "res = (let chat = with_usage (zero_chat\<lparr>chModel := anModel req, chStream := anStream req,
                         chMessages := sys @ ms, chMaxTokens := anMaxTokens req,
                         chTemperature := anTemperature req, chTopP := anTopP req\<rparr>)
            in \<lparr>inChat = chat, inBody = enc (chat_json chat)\<rparr>)"
    using step none by (auto simp: Let_def split: if_splits sum.splits)
  have checks: "anModel req \<noteq> ''''" "anMaxTokens req \<noteq> None" "\<not> the (anMaxTokens req) \<le> 0"
      "anStopSequences req = []" "anTopK req = None"
    using step none by (auto split: if_splits)
  have "translated_ok enc FormatAnthropicMessages res"
    using anthropic_ranges [OF req] checks unfolding res translated_ok_def
    by (auto simp: Let_def chat_ok_def zero_chat_def int_ptr_ok_def float_ptr_ok_def)
  then show ?thesis using clean checks by (simp add: nothing_dropped_def req)
qed

lemma ingestResponses_ok:
  assumes "ingestResponses iter dec enc body = Inr res" and iter: "\<And>ks. set (iter ks) = set ks"
  shows "translated_ok enc FormatOpenAIResponses res \<and> nothing_dropped dec FormatOpenAIResponses body"
proof -
  obtain req where req: "Unmarshal dec dec_responses body zero_responses = (req, True)"
    using assms(1) by (auto simp: ingestResponses_def split: prod.splits if_splits)
  note step = assms(1) [unfolded ingestResponses_def req prod.case]
  let ?fs = "[(''tools'', reTools req), (''tool_choice'', reToolChoice req), (''reasoning'', reReasoning req),
              (''text'', reTextFormat req)]"
  have none: "first_carried iter ?fs = None" using step by (auto split: if_splits option.splits)
  have clean: "list_all (\<lambda>(f, raw). \<not> carries raw) ?fs"
    by (rule first_carried_None [OF none iter]) simp
  obtain msgs where
    res: "res = (let chat = with_usage (zero_chat\<lparr>chModel := reModel req, chStream := reStream req,
                      chMessages := msgs, chMaxTokens := reMaxOutputTokens req,
                      chTemperature := reTemperature req, chTopP := reTopP req\<rparr>)
            in \<lparr>inChat = chat, inBody = enc (chat_json chat)\<rparr>)"
    using step none by (auto simp: Let_def split: if_splits sum.splits)
  have checks: "reModel req \<noteq> ''''" "rePreviousResponse req = ''''"
      "reMaxOutputTokens req \<noteq> None \<longrightarrow> \<not> the (reMaxOutputTokens req) \<le> 0"
    using step none by (auto split: if_splits)
  have "translated_ok enc FormatOpenAIResponses res"
    using responses_ranges [OF req] checks unfolding res translated_ok_def
    by (auto simp: Let_def chat_ok_def zero_chat_def int_ptr_ok_def float_ptr_ok_def)
  then show ?thesis using clean checks by (simp add: nothing_dropped_def req)
qed

subsection \<open>Rendered replies\<close>

record http_reply =
  hrStatus :: int
  hrHeader :: "(string \<times> string) list"
  hrBody :: string

definition set_header :: "string \<Rightarrow> string \<Rightarrow> (string \<times> string) list \<Rightarrow> (string \<times> string) list" where
  "set_header name v hs = (name, v) # filter (\<lambda>h. fst h \<noteq> name) hs"

definition PassthroughHeaderNames :: "string list" where
  "PassthroughHeaderNames = [''Content-Type'', ''Retry-After'']"

definition ValidHeaderValue :: "string \<Rightarrow> bool" where
  "ValidHeaderValue v \<longleftrightarrow> list_all (\<lambda>b. \<not> ((byte b < 32 \<and> byte b \<noteq> 9) \<or> byte b = 127)) v"

definition PlainContentType :: string where "PlainContentType = ''text/plain; charset=utf-8''"

definition rendersAsDocument :: "string \<Rightarrow> bool" where
  "rendersAsDocument m \<longleftrightarrow>
     m \<in> set [''text/html'', ''application/xml'', ''text/xml'', ''multipart/x-mixed-replace'',
              ''unknown/unknown'', ''application/unknown'', ''*/*''] \<or> has_suffix m ''+xml''"

definition ForwardedContentType :: "(string \<Rightarrow> string option) \<Rightarrow> string \<Rightarrow> string \<Rightarrow> string" where
  "ForwardedContentType media v fallback =
     (if v = '''' \<or> \<not> ValidHeaderValue v then fallback
      else case media v of
             None \<Rightarrow> fallback
           | Some m \<Rightarrow> if \<not> contains ''/'' m \<or> rendersAsDocument m then fallback else v)"

fun forward_headers :: "(string \<times> string) list \<Rightarrow> string list \<Rightarrow> (string \<times> string) list \<Rightarrow> (string \<times> string) list" where
  "forward_headers header [] out = out"
| "forward_headers header (name # names) out =
     (if name = ''Content-Type'' then forward_headers header names out
      else let v = header_get header name
           in forward_headers header names
                (if v \<noteq> '''' \<and> ValidHeaderValue v then set_header name v out else out))"

definition renderExchangeBody ::
  "(string \<Rightarrow> string option) \<Rightarrow> int \<Rightarrow> (string \<times> string) list \<Rightarrow> string \<Rightarrow> string list \<Rightarrow> http_reply" where
  "renderExchangeBody media code header body names =
     \<lparr>hrStatus = (if code < 100 \<or> code > 599 then 502 else code),
      hrHeader = set_header ''Content-Type''
        (ForwardedContentType media (header_get header ''Content-Type'') PlainContentType)
        (forward_headers header names []),
      hrBody = body\<rparr>"

definition writeJSONResponse :: "(json \<Rightarrow> string) \<Rightarrow> (string \<times> string) list \<Rightarrow> int \<Rightarrow> json \<Rightarrow> http_reply" where
  "writeJSONResponse enc out code body =
     \<lparr>hrStatus = code, hrHeader = set_header ''Content-Type'' ''application/json'' out, hrBody = enc body @ [newline]\<rparr>"

definition WriteError :: "(json \<Rightarrow> string) \<Rightarrow> int \<Rightarrow> string \<Rightarrow> string \<Rightarrow> http_reply" where
  "WriteError enc code ecode message =
     writeJSONResponse enc [] code
       (JObj [(''error'', JObj [(''message'', JStr message), (''type'', JStr ''gateway_error''),
          (''code'', JStr ecode)])])"

record chat_response =
  crID :: string
  crModel :: string
  crChoices :: "(string \<times> string) list"
  crUsage :: "usage option"

definition zero_response :: chat_response where
  "zero_response = \<lparr>crID = '''', crModel = '''', crChoices = [], crUsage = None\<rparr>"

text \<open>A choice is its message's content and its finish reason.\<close>

definition dec_choice :: "(string \<times> string) decoder" where
  "dec_choice = dec_struct
     [(''message'', field fst apfst (dec_struct [(''content'', dec_string)])),
      (''finish_reason'', field snd apsnd dec_string)]"

definition dec_response :: "chat_response decoder" where
  "dec_response = dec_struct
     [(''id'', field crID crID_update dec_string), (''model'', field crModel crModel_update dec_string),
      (''choices'', field crChoices crChoices_update (dec_slice ('''', '''') dec_choice)),
      (''usage'', field crUsage crUsage_update (dec_pointer zero_usage dec_usage))]"

definition parseChatResponse :: "(string \<Rightarrow> json option) \<Rightarrow> string \<Rightarrow> chat_response option" where
  "parseChatResponse dec body =
     (case Unmarshal dec dec_response body zero_response of
        (resp, ok) \<Rightarrow> if \<not> ok \<or> crChoices resp = [] then None else Some resp)"

text \<open>The error of a decode is ignored here: what could be read stands.\<close>

definition parseUpstreamError :: "(string \<Rightarrow> json option) \<Rightarrow> string \<Rightarrow> string \<times> string" where
  "parseUpstreamError dec body =
     (let (message, code) = fst (Unmarshal dec (dec_struct [(''error'', dec_struct
            [(''message'', field fst apfst dec_string), (''code'', field snd apsnd dec_string)])]) body ('''', ''''))
      in (if message = '''' then ''upstream request failed'' else message,
          if code = '''' then ''upstream_error'' else code))"

definition responsesObject :: "string \<Rightarrow> string \<Rightarrow> string \<Rightarrow> usage option \<Rightarrow> json" where
  "responsesObject oid model t us = go_map
     ([(''id'', JStr oid), (''object'', JStr ''response''), (''status'', JStr ''completed''), (''model'', JStr model),
       (''output'', JArr [go_map [(''type'', JStr ''message''), (''role'', JStr ''assistant''),
          (''status'', JStr ''completed''),
          (''content'', JArr [go_map [(''type'', JStr ''output_text''), (''text'', JStr t), (''annotations'', JArr [])]])]])] @
      omitempty ''usage'' (\<lambda>u. go_map [(''input_tokens'', JInt (uPrompt u)), (''output_tokens'', JInt (uCompletion u)),
         (''total_tokens'', JInt (uTotal u))]) us)"

definition anthropicStopReason :: "string \<Rightarrow> string" where
  "anthropicStopReason finish =
     (if finish = ''length'' then ''max_tokens'' else if finish = ''tool_calls'' then ''tool_use'' else ''end_turn'')"

definition anthropicObject :: "string \<Rightarrow> string \<Rightarrow> string \<Rightarrow> string \<Rightarrow> usage option \<Rightarrow> json" where
  "anthropicObject oid model t why us = go_map
     ([(''id'', JStr oid), (''type'', JStr ''message''), (''role'', JStr ''assistant''), (''model'', JStr model),
       (''content'', JArr [go_map [(''type'', JStr ''text''), (''text'', JStr t)]]),
       (''stop_reason'', JStr why), (''stop_sequence'', JNull)] @
      omitempty ''usage'' (\<lambda>u. go_map [(''input_tokens'', JInt (uPrompt u)), (''output_tokens'', JInt (uCompletion u))]) us)"

definition anthropicUpstreamErrorType :: "int \<Rightarrow> string" where
  "anthropicUpstreamErrorType code = (if code = 429 then ''rate_limit_error'' else ''api_error'')"

definition anthropicErrorType :: "string \<Rightarrow> string" where
  "anthropicErrorType code =
     (if code = ''upstream_timeout'' then ''timeout_error''
      else if code = ''rate_limit_exceeded'' \<or> code = ''concurrency_limit_exceeded'' then ''rate_limit_error''
      else if code = ''insufficient_quota'' then ''billing_error''
      else ''api_error'')"

definition anthropicErrorBody :: "string \<Rightarrow> string \<Rightarrow> json" where
  "anthropicErrorBody errType message = go_map
     [(''type'', JStr ''error''), (''error'', go_map [(''type'', JStr errType), (''message'', JStr message)])]"

definition RenderSuccess ::
  "(string \<Rightarrow> string option) \<Rightarrow> (string \<Rightarrow> json option) \<Rightarrow> (json \<Rightarrow> string) \<Rightarrow> format \<Rightarrow>
   int \<Rightarrow> (string \<times> string) list \<Rightarrow> string \<Rightarrow> http_reply" where
  "RenderSuccess media dec enc fmt code header body =
     (let verbatim = renderExchangeBody media code header body PassthroughHeaderNames in
      case fmt of
        FormatOpenAIChat \<Rightarrow> verbatim
      | FormatOpenAIResponses \<Rightarrow>
          (case parseChatResponse dec body of
             None \<Rightarrow> verbatim
           | Some r \<Rightarrow> writeJSONResponse enc [] code
               (responsesObject (crID r) (crModel r) (fst (hd (crChoices r))) (crUsage r)))
      | FormatAnthropicMessages \<Rightarrow>
          (case parseChatResponse dec body of
             None \<Rightarrow> verbatim
           | Some r \<Rightarrow> writeJSONResponse enc [] code
               (anthropicObject (crID r) (crModel r) (fst (hd (crChoices r)))
                  (anthropicStopReason (snd (hd (crChoices r)))) (crUsage r))))"

definition RenderUpstreamError ::
  "(string \<Rightarrow> string option) \<Rightarrow> (string \<Rightarrow> json option) \<Rightarrow> (json \<Rightarrow> string) \<Rightarrow> format \<Rightarrow>
   int \<Rightarrow> (string \<times> string) list \<Rightarrow> string \<Rightarrow> http_reply" where
  "RenderUpstreamError media dec enc fmt code header body =
     (if fmt = FormatAnthropicMessages
      then let v = header_get header ''Retry-After'';
               out = (if v \<noteq> '''' \<and> ValidHeaderValue v then set_header ''Retry-After'' v [] else [])
           in writeJSONResponse enc out code
                (anthropicErrorBody (anthropicUpstreamErrorType code) (fst (parseUpstreamError dec body)))
      else renderExchangeBody media code header body PassthroughHeaderNames)"

definition RenderError :: "(json \<Rightarrow> string) \<Rightarrow> format \<Rightarrow> int \<Rightarrow> string \<Rightarrow> string \<Rightarrow> http_reply" where
  "RenderError enc fmt code ecode message =
     (if fmt = FormatAnthropicMessages
      then writeJSONResponse enc [] code (anthropicErrorBody (anthropicErrorType ecode) message)
      else WriteError enc code ecode message)"

subsection \<open>Properties\<close>

lemma set_header_set: "h \<in> set (set_header n v hs) \<Longrightarrow> h = (n, v) \<or> h \<in> set hs"
  by (auto simp: set_header_def)

lemma header_get_set_header [simp]: "header_get (set_header n v hs) n = v"
  by (simp add: header_get_def set_header_def)

definition forwarded :: "string list \<Rightarrow> string \<times> string \<Rightarrow> bool" where
  "forwarded names h \<longleftrightarrow> fst h \<in> set names \<and> ValidHeaderValue (snd h)"

lemma forwarded_pair [simp]: "forwarded names (n, v) \<longleftrightarrow> n \<in> set names \<and> ValidHeaderValue v"
  by (simp add: forwarded_def)

lemma forward_headers_valid:
  assumes "\<forall>h \<in> set out. forwarded all h" and "set names \<subseteq> set all"
    and "h \<in> set (forward_headers header names out)"
  shows "forwarded all h"
  using assms
proof (induction names arbitrary: out)
  case (Cons n ns)
  let ?v = "header_get header n"
  let ?out = "if n = ''Content-Type'' \<or> \<not> (?v \<noteq> '''' \<and> ValidHeaderValue ?v) then out else set_header n ?v out"
  have "forwarded all k" if k: "k \<in> set ?out" for k
  proof (cases "?out = out")
    case True
    then show ?thesis using k Cons.prems(1) by simp
  next
    case False
    then show ?thesis
      using k Cons.prems(1,2) set_header_set [of k n ?v out] by (auto split: if_splits)
  qed
  moreover have "forward_headers header (n # ns) out = forward_headers header ns ?out" by (simp add: Let_def)
  ultimately show ?case using Cons.IH [of ?out] Cons.prems(2,3) by simp
qed auto

definition inert_label :: "(string \<Rightarrow> string option) \<Rightarrow> string \<Rightarrow> bool" where
  "inert_label media ct \<longleftrightarrow>
     ct = PlainContentType \<or> ct = ''application/json'' \<or>
     (\<exists>m. media ct = Some m \<and> contains ''/'' m \<and> \<not> rendersAsDocument m)"

definition inert_reply :: "(string \<Rightarrow> string option) \<Rightarrow> http_reply \<Rightarrow> bool" where
  "inert_reply media r \<longleftrightarrow>
     inert_label media (header_get (hrHeader r) ''Content-Type'') \<and>
     (\<forall>h \<in> set (hrHeader r). forwarded PassthroughHeaderNames h)"

lemma valid_constants: "ValidHeaderValue PlainContentType" "ValidHeaderValue ''application/json''"
  by code_simp+

lemma ForwardedContentType_inert:
  "inert_label media (ForwardedContentType media v PlainContentType) \<and>
   ValidHeaderValue (ForwardedContentType media v PlainContentType)"
  by (auto simp: ForwardedContentType_def inert_label_def valid_constants split: option.splits)

lemma with_label_inert:
  assumes "\<forall>h \<in> set out. forwarded PassthroughHeaderNames h" and "inert_label media ct" and "ValidHeaderValue ct"
    and "hrHeader r = set_header ''Content-Type'' ct out"
  shows "inert_reply media r"
proof -
  have "forwarded PassthroughHeaderNames h" if "h \<in> set (hrHeader r)" for h
    using set_header_set [OF that [unfolded assms(4)]] assms(1,3)
    by (auto simp: PassthroughHeaderNames_def [THEN arg_cong [where f = set]])
  then show ?thesis using assms(2) by (simp add: inert_reply_def assms(4))
qed

lemma renderExchangeBody_inert: "inert_reply media (renderExchangeBody media code header body PassthroughHeaderNames)"
  by (rule with_label_inert [where out = "forward_headers header PassthroughHeaderNames []"])
    (use ForwardedContentType_inert forward_headers_valid [of "[]" PassthroughHeaderNames PassthroughHeaderNames]
      in \<open>auto simp: renderExchangeBody_def\<close>)

lemma writeJSONResponse_inert:
  assumes "\<forall>h \<in> set out. forwarded PassthroughHeaderNames h"
  shows "inert_reply media (writeJSONResponse enc out code body)"
  by (rule with_label_inert [OF assms])
    (simp_all add: writeJSONResponse_def inert_label_def valid_constants)

text \<open>
  A relayed reply is inert for a browser.  Whatever an upstream answers, the reply the
  gateway renders, on every client format and for successes and errors alike, carries only
  \<open>Content-Type\<close> and \<open>Retry-After\<close>, both legal field values, and a media type that is the
  gateway's own or one the upstream sent that parses and is not rendered as a document.  The
  passthrough formats also keep the status within what \<open>net/http\<close> can write, and the
  canonical one relays the body unchanged.
\<close>

theorem relayed_reply_inert:
  "inert_reply media (RenderSuccess media dec enc fmt code header body) \<and>
   inert_reply media (RenderUpstreamError media dec enc fmt code header body) \<and>
   hrBody (RenderSuccess media dec enc FormatOpenAIChat code header body) = body \<and>
   hrBody (RenderUpstreamError media dec enc FormatOpenAIChat code header body) = body \<and>
   hrStatus (RenderUpstreamError media dec enc FormatOpenAIChat code header body) \<in> {100..599} \<and>
   hrStatus (RenderUpstreamError media dec enc FormatOpenAIResponses code header body) \<in> {100..599}"
proof -
  have "inert_reply media (RenderSuccess media dec enc fmt code header body)"
    by (auto simp: RenderSuccess_def Let_def renderExchangeBody_inert
        intro!: writeJSONResponse_inert split: format.split option.split)
  moreover have "inert_reply media (RenderUpstreamError media dec enc fmt code header body)"
    by (auto simp: RenderUpstreamError_def Let_def renderExchangeBody_inert forwarded_def set_header_def
        PassthroughHeaderNames_def [THEN arg_cong [where f = set]] intro!: writeJSONResponse_inert)
  ultimately show ?thesis
    by (simp add: RenderSuccess_def RenderUpstreamError_def renderExchangeBody_def)
qed

text \<open>The Messages wire writes an upstream's status as it came, which \<open>net/http\<close> refuses below 100.\<close>

lemma messages_error_status_unclamped:
  "hrStatus (RenderUpstreamError media dec enc FormatAnthropicMessages 42 header body) = 42"
  by (simp add: RenderUpstreamError_def writeJSONResponse_def Let_def)

text \<open>
  The scan for the literal key is narrower than the decode behind it, which matches the
  member's name in any letter case.
\<close>

lemma usage_gate_misses_folded_name:
  defines "dec \<equiv> (\<lambda>_. Some (JObj [(''Usage'', JObj [(''total_tokens'', JInt 7)])]))"
    and "body \<equiv> ''{Usage}''"
  shows "ParseUsage dec body = None \<and>
    Unmarshal dec (dec_struct [(''usage'', dec_pointer zero_usage dec_usage)]) body None =
      (Some (zero_usage\<lparr>uTotal := 7\<rparr>), True)"
  unfolding assms by code_simp

text \<open>
  C17: A request translated from another format reaches the upstream as it was metered.
  When ingest accepts a request, parsing the body it forwards gives exactly the canonical
  request the limiter, the ledger, the cache and the router read, provided the encoder's
  output parses back to what was encoded.  For the two translated formats the model is named
  and every declared output bound is positive (and present, for Messages), a streamed
  request asks for the usage chunk, and no field the canonical form cannot express was set.
\<close>

theorem ingest_reads_back:
  assumes "Ingest iter dec enc fmt body = Inr res"
    and "\<And>ks. set (iter ks) = set ks"
    and "\<exists>j. dec (enc (chat_json (inChat res))) = Some j \<and> reads_as (chat_json (inChat res)) j"
  shows "ParseChatRequest dec (inBody res) = Some (inChat res) \<and> nothing_dropped dec fmt body \<and>
    (fmt \<noteq> FormatOpenAIChat \<longrightarrow> translated_ok enc fmt res)"
proof (cases "fmt = FormatOpenAIChat")
  case True
  then show ?thesis using assms(1) by (auto simp: Ingest_def nothing_dropped_def split: option.splits)
next
  case False
  then have "translated_ok enc fmt res \<and> nothing_dropped dec fmt body"
    using assms(1) ingestAnthropic_ok [OF _ assms(2)] ingestResponses_ok [OF _ assms(2)]
    by (cases fmt) (auto simp: Ingest_def)
  moreover from this have "inBody res = enc (chat_json (inChat res))" "chat_ok (inChat res)"
    by (simp_all add: translated_ok_def)
  ultimately show ?thesis
    using assms(3) dec_chat_reads False by (auto simp: ParseChatRequest_def Unmarshal_def)
qed

definition demo_messages :: json where
  "demo_messages = JObj [(''model'', JStr ''gpt''), (''max_tokens'', JInt 5), (''stream'', JBool True),
     (''system'', JStr ''be brief''),
     (''messages'', JArr [JObj [(''role'', JStr ''user''),
        (''content'', JArr [JObj [(''type'', JStr ''text''), (''text'', JStr ''hi'')]])]])]"

definition demo_chat :: chat_request where
  "demo_chat = zero_chat\<lparr>chModel := ''gpt'', chStream := True, chMaxTokens := Some 5,
     chMessages := [\<lparr>cmRole = ''system'', cmContent = ''be brief''\<rparr>, \<lparr>cmRole = ''user'', cmContent = ''hi''\<rparr>],
     chStreamOptions := Some True\<rparr>"

definition demo_dec :: "string \<Rightarrow> json option" where
  "demo_dec s = (if s = ''request'' then Some demo_messages else if s = ''canonical'' then Some (chat_json demo_chat) else None)"

definition demo_enc :: "json \<Rightarrow> string" where
  "demo_enc j = (if j = chat_json demo_chat then ''canonical'' else '''')"

lemma demo_ingest:
  "Ingest id demo_dec demo_enc FormatAnthropicMessages ''request'' =
     Inr \<lparr>inChat = demo_chat, inBody = ''canonical''\<rparr>"
  by code_simp

lemma reads_as_demo: "reads_as (chat_json demo_chat) (chat_json demo_chat)"
  by (simp add: chat_json_def demo_chat_def zero_chat_def omitempty_def message_json_def)

theorem ingest_reads_back_witness:
  "ParseChatRequest demo_dec ''canonical'' = Some demo_chat \<and>
   nothing_dropped demo_dec FormatAnthropicMessages ''request''"
  using ingest_reads_back [OF demo_ingest, simplified] reads_as_demo
  by (auto simp: demo_enc_def demo_dec_def)

end
