(* ===== verification/Auth.thy ===== *)
theory Auth
  imports Go_Strings "HOL-Library.Char_ord" "HOL-Library.List_Lexorder"
begin

text \<open>
  Identities and their limits: the entitlement snapshot and the model check
  (\<^verbatim>\<open>internal/auth/auth.go\<close>), the merge of tier, user and key layers
  (\<^verbatim>\<open>limits.go\<close>) and the configured identity set (\<^verbatim>\<open>static.go\<close>).

  A Go slice that may be nil and a Go map are a list and a map here: nothing in these
  files tells nil from empty, except the pointer to an allow list, which is an option.
  HMAC-SHA256 is the argument \<open>hmac\<close>; hexadecimal encoding is modelled.
\<close>

subsection \<open>The snapshot and the model check\<close>

record tier =
  tierID :: string
  tierRPM :: int
  tierTPM :: int
  tierMaxTokens :: int
  tierMonthlyQuota :: int
  AllowedModels :: "string list"
  DeniedModels :: "string list"
  ModelQuotas :: "string \<rightharpoonup> int"
  tierConcurrency :: int

record tenant =
  tenantID :: string
  tenantName :: string
  tenantRole :: string
  tenantKeyID :: string
  tenantTier :: tier

definition anyModel :: string where "anyModel = ''*''"

fun names_model :: "string list \<Rightarrow> string \<Rightarrow> bool" where
  "names_model [] model = False"
| "names_model (entry # rest) model =
     (if entry = anyModel \<or> entry = model then True else names_model rest model)"

definition AllowsModel :: "tier \<Rightarrow> string \<Rightarrow> bool" where
  "AllowsModel t model =
     (if names_model (DeniedModels t) model then False else names_model (AllowedModels t) model)"

subsection \<open>Layers\<close>

record limit_override =
  ovRPM :: "int option"
  ovTPM :: "int option"
  ovMaxTokens :: "int option"
  ovMonthlyQuota :: "int option"
  ovConcurrency :: "int option"
  ovAllowed :: "string list option"
  ovDenied :: "string list"
  ovQuotas :: "string \<rightharpoonup> int"

definition override_Empty :: "limit_override \<Rightarrow> bool" where
  "override_Empty lo \<longleftrightarrow> ovRPM lo = None \<and> ovTPM lo = None \<and> ovMaxTokens lo = None \<and>
     ovMonthlyQuota lo = None \<and> ovConcurrency lo = None \<and> ovAllowed lo = None \<and>
     ovDenied lo = [] \<and> dom (ovQuotas lo) = {}"

definition containsWildcard :: "string list \<Rightarrow> bool" where
  "containsWildcard models = list_ex (\<lambda>m. m = anyModel) models"

fun unseen :: "string list \<Rightarrow> string list \<Rightarrow> string list" where
  "unseen seen [] = []"
| "unseen seen (m # child) = (if m \<in> set seen then unseen seen child else m # unseen (m # seen) child)"

definition intersect :: "string list \<Rightarrow> string list \<Rightarrow> string list" where
  "intersect parent child =
     (if child = [] then []
      else if list_ex (\<lambda>m. m = anyModel) child then parent
      else filter (\<lambda>m. m \<in> set child) parent @
        (if containsWildcard parent then unseen parent child else []))"

definition merge_layer :: "tier \<Rightarrow> limit_override \<Rightarrow> tier" where
  "merge_layer t lo =
     t\<lparr>tierRPM := (case ovRPM lo of Some v \<Rightarrow> v | None \<Rightarrow> tierRPM t),
       tierTPM := (case ovTPM lo of Some v \<Rightarrow> v | None \<Rightarrow> tierTPM t),
       tierMaxTokens := (case ovMaxTokens lo of Some v \<Rightarrow> v | None \<Rightarrow> tierMaxTokens t),
       tierMonthlyQuota := (case ovMonthlyQuota lo of Some v \<Rightarrow> v | None \<Rightarrow> tierMonthlyQuota t),
       tierConcurrency := (case ovConcurrency lo of Some v \<Rightarrow> v | None \<Rightarrow> tierConcurrency t),
       DeniedModels := DeniedModels t @ ovDenied lo,
       AllowedModels := (case ovAllowed lo of Some l \<Rightarrow> intersect (AllowedModels t) l | None \<Rightarrow> AllowedModels t),
       ModelQuotas := ModelQuotas t ++ ovQuotas lo\<rparr>"

definition MergeTier :: "tier \<Rightarrow> limit_override list \<Rightarrow> tier" where
  "MergeTier base overrides = foldl merge_layer base overrides"

subsection \<open>The configured identity set\<close>

record static_tenant =
  stID :: string
  stName :: string
  stTier :: string
  stRole :: string
  stOverrides :: limit_override
  stKeys :: "string list"

record static_config =
  Tiers :: "tier list"
  Tenants_cfg :: "static_tenant list"

datatype auth_error = ErrUnauthorized | ErrBackend

datatype static_error =
    TierWithoutID
  | TenantWithoutID
  | InvalidTenantID string
  | UnknownTier string string
  | UnknownRole string string
  | EmptyKey string
  | DuplicateKey string

record static_store =
  keyPepper :: string
  byKey :: "(string \<times> tenant) list"

definition hex_digit :: "nat \<Rightarrow> char" where
  "hex_digit n = ''0123456789abcdef'' ! n"

definition hex_encode :: "string \<Rightarrow> string" where
  "hex_encode s = concat (map (\<lambda>c. [hex_digit (byte c div 16), hex_digit (byte c mod 16)]) s)"

definition hashKey :: "(string \<Rightarrow> string \<Rightarrow> string) \<Rightarrow> string \<Rightarrow> string \<Rightarrow> string" where
  "hashKey hmac indexKey raw = hex_encode (hmac indexKey raw)"

definition tenant_id_char :: "char \<Rightarrow> bool" where
  "tenant_id_char c \<longleftrightarrow> 65 \<le> byte c \<and> byte c \<le> 90 \<or> 97 \<le> byte c \<and> byte c \<le> 122 \<or>
     48 \<le> byte c \<and> byte c \<le> 57 \<or> c = CHR ''.'' \<or> c = CHR ''_'' \<or> c = CHR ''-''"

definition validTenantID :: "string \<Rightarrow> bool" where
  "validTenantID s \<longleftrightarrow> 1 \<le> length s \<and> length s \<le> 128 \<and> list_all tenant_id_char s"

fun tier_table :: "(string \<rightharpoonup> tier) \<Rightarrow> tier list \<Rightarrow> static_error + (string \<rightharpoonup> tier)" where
  "tier_table tab [] = Inr tab"
| "tier_table tab (t # ts) =
     (if tierID t = '''' then Inl TierWithoutID else tier_table (tab(tierID t \<mapsto> t)) ts)"

definition RoleUser :: string where "RoleUser = ''user''"
definition RoleAdmin :: string where "RoleAdmin = ''admin''"

definition snapshot_tenant :: "tier \<Rightarrow> static_tenant \<Rightarrow> tenant" where
  "snapshot_tenant t tn =
     \<lparr>tenantID = stID tn, tenantName = stName tn,
      tenantRole = (if stRole tn = '''' then RoleUser else stRole tn), tenantKeyID = '''',
      tenantTier = (MergeTier t [stOverrides tn])\<lparr>tierID := tierID t\<rparr>\<rparr>"

fun add_keys ::
  "(string \<Rightarrow> string \<Rightarrow> string) \<Rightarrow> string \<Rightarrow> tenant \<Rightarrow> (string \<times> tenant) list \<Rightarrow> string list
    \<Rightarrow> static_error + (string \<times> tenant) list" where
  "add_keys hmac pepper tn tab [] = Inr tab"
| "add_keys hmac pepper tn tab (raw # ks) =
     (if raw = '''' then Inl (EmptyKey (tenantID tn))
      else let h = hashKey hmac pepper raw
           in if map_of tab h \<noteq> None then Inl (DuplicateKey (tenantID tn))
              else add_keys hmac pepper tn ((h, tn) # tab) ks)"

fun add_tenants ::
  "(string \<Rightarrow> string \<Rightarrow> string) \<Rightarrow> string \<Rightarrow> (string \<rightharpoonup> tier) \<Rightarrow> (string \<times> tenant) list
    \<Rightarrow> static_tenant list \<Rightarrow> static_error + (string \<times> tenant) list" where
  "add_tenants hmac pepper tiers tab [] = Inr tab"
| "add_tenants hmac pepper tiers tab (tn # tns) =
     (if stID tn = '''' then Inl TenantWithoutID
      else if \<not> validTenantID (stID tn) then Inl (InvalidTenantID (stID tn))
      else case tiers (stTier tn) of
        None \<Rightarrow> Inl (UnknownTier (stID tn) (stTier tn))
      | Some t \<Rightarrow>
          let role = (if stRole tn = '''' then RoleUser else stRole tn)
          in if role \<noteq> RoleUser \<and> role \<noteq> RoleAdmin then Inl (UnknownRole (stID tn) role)
             else case add_keys hmac pepper (snapshot_tenant t tn) tab (stKeys tn) of
                    Inl err \<Rightarrow> Inl err
                  | Inr tab1 \<Rightarrow> add_tenants hmac pepper tiers tab1 tns)"

definition NewStatic ::
  "(string \<Rightarrow> string \<Rightarrow> string) \<Rightarrow> static_config \<Rightarrow> string \<Rightarrow> static_error + static_store" where
  "NewStatic hmac cfg pepper =
     (case tier_table Map.empty (Tiers cfg) of
        Inl err \<Rightarrow> Inl err
      | Inr tiers \<Rightarrow>
          (case add_tenants hmac pepper tiers [] (Tenants_cfg cfg) of
             Inl err \<Rightarrow> Inl err
           | Inr tab \<Rightarrow> Inr \<lparr>keyPepper = pepper, byKey = tab\<rparr>))"

definition static_Resolve ::
  "(string \<Rightarrow> string \<Rightarrow> string) \<Rightarrow> static_store \<Rightarrow> string \<Rightarrow> auth_error + tenant" where
  "static_Resolve hmac s apiKey =
     (case map_of (byKey s) (hashKey hmac (keyPepper s) apiKey) of
        None \<Rightarrow> Inl ErrUnauthorized
      | Some tn \<Rightarrow> Inr tn)"

text \<open>Map iteration has no fixed order: \<open>TenantByID\<close> walks the entries as \<open>order\<close> permutes them.\<close>

definition static_Tenants :: "static_store \<Rightarrow> string list" where
  "static_Tenants s = sort (remdups (map (\<lambda>(_, tn). tenantID tn) (byKey s)))"

definition TenantByID ::
  "((string \<times> tenant) list \<Rightarrow> (string \<times> tenant) list) \<Rightarrow> static_store \<Rightarrow> string \<Rightarrow> tenant option" where
  "TenantByID order s i = map_option snd (List.find (\<lambda>(_, tn). tenantID tn = i) (order (byKey s)))"

subsection \<open>Layers only tighten\<close>

lemma names_model_iff: "names_model l m \<longleftrightarrow> anyModel \<in> set l \<or> m \<in> set l"
  by (induction l) auto

lemma unseen_set [simp]: "set (unseen seen child) = set child - set seen"
  by (induction seen child rule: unseen.induct) auto

lemma containsWildcard_iff [simp]: "containsWildcard l \<longleftrightarrow> anyModel \<in> set l"
  by (auto simp: containsWildcard_def list_ex_iff)

lemma intersect_names:
  "names_model (intersect parent child) m \<longleftrightarrow> names_model parent m \<and> names_model child m"
  by (auto simp: intersect_def names_model_iff list_ex_iff)

text \<open>
  What one layer lets through, and the value the nearest layer sets, counted from the
  end of the list.
\<close>

definition layer_allows :: "limit_override \<Rightarrow> string \<Rightarrow> bool" where
  "layer_allows lo m \<longleftrightarrow> anyModel \<notin> set (ovDenied lo) \<and> m \<notin> set (ovDenied lo) \<and>
     (\<forall>l. ovAllowed lo = Some l \<longrightarrow> anyModel \<in> set l \<or> m \<in> set l)"

definition nearest :: "('o \<Rightarrow> 'v option) \<Rightarrow> 'v \<Rightarrow> 'o list \<Rightarrow> 'v" where
  "nearest f d los = (case List.map_filter f (rev los) of [] \<Rightarrow> d | v # _ \<Rightarrow> v)"

lemma MergeTier_Nil [simp]: "MergeTier t [] = t"
  and MergeTier_snoc [simp]: "MergeTier t (los @ [lo]) = merge_layer (MergeTier t los) lo"
  by (simp_all add: MergeTier_def)

lemma nearest_Nil [simp]: "nearest f d [] = d"
  and nearest_snoc [simp]: "nearest f d (los @ [lo]) = (case f lo of Some v \<Rightarrow> v | None \<Rightarrow> nearest f d los)"
  by (simp_all add: nearest_def List.map_filter_def split: option.split)

lemma names_model_append [simp]: "names_model (xs @ ys) m \<longleftrightarrow> names_model xs m \<or> names_model ys m"
  by (auto simp: names_model_iff)

lemma layer_allows_iff:
  "layer_allows lo m \<longleftrightarrow> \<not> names_model (ovDenied lo) m \<and> (\<forall>l. ovAllowed lo = Some l \<longrightarrow> names_model l m)"
  by (simp add: layer_allows_def names_model_iff)

lemma merge_layer_allows: "AllowsModel (merge_layer t lo) m \<longleftrightarrow> AllowsModel t m \<and> layer_allows lo m"
  by (auto simp: AllowsModel_def merge_layer_def layer_allows_iff intersect_names split: option.splits)

lemma MergeTier_allows:
  "AllowsModel (MergeTier t los) m \<longleftrightarrow> AllowsModel t m \<and> (\<forall>lo \<in> set los. layer_allows lo m)"
  by (induction los rule: rev_induct) (auto simp: merge_layer_allows)

lemma MergeTier_values:
  "tierRPM (MergeTier t los) = nearest ovRPM (tierRPM t) los"
  "tierTPM (MergeTier t los) = nearest ovTPM (tierTPM t) los"
  "tierMaxTokens (MergeTier t los) = nearest ovMaxTokens (tierMaxTokens t) los"
  "tierMonthlyQuota (MergeTier t los) = nearest ovMonthlyQuota (tierMonthlyQuota t) los"
  "tierConcurrency (MergeTier t los) = nearest ovConcurrency (tierConcurrency t) los"
  "ModelQuotas (MergeTier t los) m = nearest (\<lambda>lo. map_option Some (ovQuotas lo m)) (ModelQuotas t m) los"
  by (induction los rule: rev_induct) (auto simp: merge_layer_def map_add_def split: option.split)

lemma override_Empty_merge:
  assumes "override_Empty lo"
  shows "merge_layer t lo = t"
proof -
  have "ovQuotas lo = Map.empty" using assms by (simp add: override_Empty_def)
  then show ?thesis using assms by (simp add: override_Empty_def merge_layer_def)
qed

subsection \<open>The configured set\<close>

lemma byte_less: "byte c < 256"
  using nat_of_char_less_256 [of c] by (simp add: byte_def)

lemma hex_digit_inj: "i < 16 \<Longrightarrow> j < 16 \<Longrightarrow> hex_digit i = hex_digit j \<Longrightarrow> i = j"
  using nth_eq_iff_index_eq [of "''0123456789abcdef''" i j] by (simp add: hex_digit_def)

lemma hex_encode_inj: "hex_encode s = hex_encode t \<Longrightarrow> s = t"
proof (induction s arbitrary: t)
  case Nil
  then show ?case by (cases t) (simp_all add: hex_encode_def)
next
  case (Cons c s)
  then obtain d u where t: "t = d # u" by (cases t) (simp_all add: hex_encode_def)
  have "byte c div 16 = byte d div 16" "byte c mod 16 = byte d mod 16"
    using Cons.prems byte_less [of c] byte_less [of d]
    by (auto simp: t hex_encode_def intro!: hex_digit_inj)
  then have "byte c = byte d" by (metis div_mult_mod_eq)
  moreover have "s = u" using Cons by (simp add: t hex_encode_def)
  ultimately show ?case by (simp add: t byte_def)
qed

lemma hashKey_eq_iff:
  "inj_on (hmac key) A \<Longrightarrow> x \<in> A \<Longrightarrow> y \<in> A \<Longrightarrow> hashKey hmac key x = hashKey hmac key y \<longleftrightarrow> x = y"
  unfolding hashKey_def using hex_encode_inj inj_on_eq_iff by metis

text \<open>
  What a table built from the configuration holds: for every tenant processed, each of
  its keys under its digest, and nothing else.
\<close>

definition key_table :: "(string \<Rightarrow> string \<Rightarrow> string) \<Rightarrow> string \<Rightarrow> (tenant \<times> string list) list \<Rightarrow> (string \<times> tenant) list" where
  "key_table hmac pepper ts = rev (concat (map (\<lambda>(tn, ks). map (\<lambda>k. (hashKey hmac pepper k, tn)) ks) ts))"

lemma add_keys_distinct:
  "add_keys hmac pepper tn tab ks = Inr tab' \<Longrightarrow> distinct (map fst tab) \<Longrightarrow> distinct (map fst tab')"
  by (induction hmac pepper tn tab ks rule: add_keys.induct)
    (auto simp: Let_def map_of_eq_None_iff split: if_splits)

lemma add_keys_table:
  "add_keys hmac pepper tn tab ks = Inr tab' \<Longrightarrow>
     tab' = key_table hmac pepper [(tn, ks)] @ tab \<and> [] \<notin> set ks"
  by (induction hmac pepper tn tab ks rule: add_keys.induct)
    (auto simp: key_table_def Let_def split: if_splits)

definition valid_tenant :: "(string \<rightharpoonup> tier) \<Rightarrow> static_tenant \<Rightarrow> bool" where
  "valid_tenant tiers tn \<longleftrightarrow> validTenantID (stID tn) \<and> stTier tn \<in> dom tiers \<and>
     stRole tn \<in> {[], RoleUser, RoleAdmin} \<and> [] \<notin> set (stKeys tn)"

definition tenant_keys :: "(string \<rightharpoonup> tier) \<Rightarrow> static_tenant \<Rightarrow> tenant \<times> string list" where
  "tenant_keys tiers tn = (snapshot_tenant (the (tiers (stTier tn))) tn, stKeys tn)"

lemma add_tenants_table:
  "add_tenants hmac pepper tiers tab tns = Inr tab' \<Longrightarrow> distinct (map fst tab) \<Longrightarrow>
     tab' = key_table hmac pepper (map (tenant_keys tiers) tns) @ tab \<and> distinct (map fst tab') \<and>
     list_all (valid_tenant tiers) tns"
proof (induction tns arbitrary: tab)
  case Nil
  then show ?case by (simp add: key_table_def)
next
  case (Cons tn tns)
  from Cons.prems(1) obtain t tab1 where t: "tiers (stTier tn) = Some t"
    and keys: "add_keys hmac pepper (snapshot_tenant t tn) tab (stKeys tn) = Inr tab1"
    and rest: "add_tenants hmac pepper tiers tab1 tns = Inr tab'"
    and ok: "validTenantID (stID tn)" "stRole tn \<in> {[], RoleUser, RoleAdmin}"
    by (auto simp: Let_def split: if_splits option.splits sum.splits)
  note k = add_keys_table [OF keys] and IH = Cons.IH [OF rest add_keys_distinct [OF keys Cons.prems(2)]]
  have "valid_tenant tiers tn" using k t ok by (auto simp: valid_tenant_def)
  then have "list_all (valid_tenant tiers) (tn # tns)" using IH by simp
  moreover have "tab' = key_table hmac pepper (map (tenant_keys tiers) (tn # tns)) @ tab"
    using IH k tenant_keys_def [of tiers tn] t by (simp add: key_table_def)
  ultimately show ?case using IH by blast
qed

lemma NewStatic_table:
  assumes "NewStatic hmac cfg pepper = Inr s"
  obtains tiers where "tier_table Map.empty (Tiers cfg) = Inr tiers" and "keyPepper s = pepper"
    and "byKey s = key_table hmac pepper (map (tenant_keys tiers) (Tenants_cfg cfg))"
    and "distinct (map fst (byKey s))" and "list_all (valid_tenant tiers) (Tenants_cfg cfg)"
  using assms add_tenants_table [of hmac pepper _ "[]" "Tenants_cfg cfg"]
  by (auto simp: NewStatic_def split: sum.splits)


definition configured_keys :: "static_config \<Rightarrow> string set" where
  "configured_keys cfg = (\<Union>tn \<in> set (Tenants_cfg cfg). set (stKeys tn))"

lemma key_table_entries:
  "(h, t) \<in> set (key_table hmac pepper (map (tenant_keys tiers) tns)) \<longleftrightarrow>
     (\<exists>tn \<in> set tns. t = snapshot_tenant (the (tiers (stTier tn))) tn \<and>
        (\<exists>k \<in> set (stKeys tn). h = hashKey hmac pepper k))"
  by (auto simp: key_table_def tenant_keys_def)

lemma static_Resolve_iff:
  assumes new: "NewStatic hmac cfg pepper = Inr s" and tiers: "tier_table Map.empty (Tiers cfg) = Inr tiers"
    and inj: "inj_on (hmac pepper) (insert k (configured_keys cfg))"
  shows "static_Resolve hmac s k = Inr t \<longleftrightarrow>
    (\<exists>tn \<in> set (Tenants_cfg cfg). k \<in> set (stKeys tn) \<and> t = snapshot_tenant (the (tiers (stTier tn))) tn)"
proof -
  from new obtain tiers' where "tier_table Map.empty (Tiers cfg) = Inr tiers'" and p: "keyPepper s = pepper"
    and tab: "byKey s = key_table hmac pepper (map (tenant_keys tiers') (Tenants_cfg cfg))"
    and d: "distinct (map fst (byKey s))"
    by (rule NewStatic_table)
  with tiers have [simp]: "tiers' = tiers" by simp
  have "static_Resolve hmac s k = Inr t \<longleftrightarrow> (hashKey hmac pepper k, t) \<in> set (byKey s)"
    by (auto simp: static_Resolve_def p map_of_eq_Some_iff [OF d, symmetric] split: option.splits)
  also have "\<dots> \<longleftrightarrow> (\<exists>tn \<in> set (Tenants_cfg cfg). k \<in> set (stKeys tn) \<and>
      t = snapshot_tenant (the (tiers (stTier tn))) tn)"
  proof -
    have "hashKey hmac pepper k = hashKey hmac pepper j \<longleftrightarrow> k = j"
      if "tn \<in> set (Tenants_cfg cfg)" "j \<in> set (stKeys tn)" for tn j
      using that inj
      by (intro hashKey_eq_iff [where A = "insert k (configured_keys cfg)"]) (auto simp: configured_keys_def)
    then show ?thesis by (simp add: tab key_table_entries) blast
  qed
  finally show ?thesis .
qed

lemma static_Resolve_error: "static_Resolve hmac s k = Inl e \<Longrightarrow> e = ErrUnauthorized"
  by (auto simp: static_Resolve_def split: option.splits)

lemma static_Tenants_props:
  "sorted (static_Tenants s)" "distinct (static_Tenants s)"
  "set (static_Tenants s) = tenantID ` snd ` set (byKey s)"
  by (force simp: static_Tenants_def)+

lemma TenantByID_sound:
  "set (order (byKey s)) = set (byKey s) \<Longrightarrow> TenantByID order s i = Some t \<Longrightarrow>
     tenantID t = i \<and> i \<in> set (static_Tenants s)"
  by (auto simp: TenantByID_def static_Tenants_props find_Some_iff case_prod_beta)
    (metis snd_conv, metis image_eqI nth_mem)


subsection \<open>Properties\<close>

definition no_override :: limit_override where
  "no_override = \<lparr>ovRPM = None, ovTPM = None, ovMaxTokens = None, ovMonthlyQuota = None,
     ovConcurrency = None, ovAllowed = None, ovDenied = [], ovQuotas = Map.empty\<rparr>"

definition demo_tier :: tier where
  "demo_tier = \<lparr>tierID = ''pro'', tierRPM = 60, tierTPM = 1000, tierMaxTokens = 0, tierMonthlyQuota = 0,
     AllowedModels = [''*''], DeniedModels = [], ModelQuotas = Map.empty, tierConcurrency = 4\<rparr>"

definition demo_layers :: "limit_override list" where
  "demo_layers = [no_override\<lparr>ovRPM := Some 30, ovAllowed := Some [''a'', ''b'']\<rparr>,
     no_override\<lparr>ovAllowed := Some [''*''], ovDenied := [''b'']\<rparr>]"

text \<open>
  C33: layers only tighten.  A model is allowed by the merged snapshot exactly when the
  tier allows it and every layer lets it through: no layer can widen what another
  narrowed, a deny anywhere wins, and a wildcard in a layer's allow list never adds a
  model.  Every scalar limit and every model's quota is the value of the last layer
  that sets one, and the tier's when none does.
\<close>

theorem merge_only_tightens:
  "(AllowsModel (MergeTier t los) m \<longleftrightarrow> AllowsModel t m \<and> (\<forall>lo \<in> set los. layer_allows lo m)) \<and>
   tierRPM (MergeTier t los) = nearest ovRPM (tierRPM t) los \<and>
   tierTPM (MergeTier t los) = nearest ovTPM (tierTPM t) los \<and>
   tierMaxTokens (MergeTier t los) = nearest ovMaxTokens (tierMaxTokens t) los \<and>
   tierMonthlyQuota (MergeTier t los) = nearest ovMonthlyQuota (tierMonthlyQuota t) los \<and>
   tierConcurrency (MergeTier t los) = nearest ovConcurrency (tierConcurrency t) los \<and>
   ModelQuotas (MergeTier t los) m = nearest (\<lambda>lo. map_option Some (ovQuotas lo m)) (ModelQuotas t m) los"
  by (simp add: MergeTier_allows MergeTier_values)

theorem merge_only_tightens_witness:
  "AllowsModel demo_tier ''c'' \<and> AllowsModel (MergeTier demo_tier demo_layers) ''a'' \<and>
   \<not> AllowsModel (MergeTier demo_tier demo_layers) ''b'' \<and>
   \<not> AllowsModel (MergeTier demo_tier demo_layers) ''c'' \<and>
   tierRPM (MergeTier demo_tier demo_layers) = 30"
proof -
  have t: "AllowsModel demo_tier m" for m by (simp add: AllowsModel_def demo_tier_def anyModel_def)
  have l: "layer_allows lo ''a''" if "lo \<in> set demo_layers" for lo
    using that by (auto simp: demo_layers_def no_override_def layer_allows_def anyModel_def)
  have b: "\<exists>lo \<in> set demo_layers. \<not> layer_allows lo m" if "m \<noteq> ''a''" for m
    using that by (auto simp: demo_layers_def no_override_def layer_allows_def anyModel_def)
  have "nearest ovRPM (tierRPM demo_tier) demo_layers = 30"
    by (simp add: demo_layers_def no_override_def nearest_def List.map_filter_def)
  then show ?thesis
    using merge_only_tightens [of demo_tier demo_layers "''a''"]
      merge_only_tightens [of demo_tier demo_layers "''b''"]
      merge_only_tightens [of demo_tier demo_layers "''c''"] t l b [of "''b''"] b [of "''c''"] by auto
qed

definition demo_hmac :: "string \<Rightarrow> string \<Rightarrow> string" where
  "demo_hmac key raw = key @ raw"

definition demo_identity :: static_config where
  "demo_identity = \<lparr>Tiers = [demo_tier],
     Tenants_cfg = [\<lparr>stID = ''t1'', stName = ''One'', stTier = ''pro'', stRole = '''',
       stOverrides = no_override\<lparr>ovRPM := Some 5\<rparr>, stKeys = [''k1'', ''k2'']\<rparr>]\<rparr>"

text \<open>
  C34: the configured set resolves exactly its own keys.  When the set is accepted,
  every tenant's id is in the legal character set and none of its keys is empty, a key
  resolves to a tenant exactly when that tenant's configuration lists it, with the
  snapshot merged from its tier and its overrides, and every other key is unauthorized.
  The digests of the keys in play must not collide.
\<close>

theorem static_roundtrip:
  assumes "NewStatic hmac cfg pepper = Inr s"
    and "inj_on (hmac pepper) (insert k (configured_keys cfg))"
  shows "\<exists>tiers. tier_table Map.empty (Tiers cfg) = Inr tiers \<and>
    (\<forall>tn \<in> set (Tenants_cfg cfg). validTenantID (stID tn) \<and> stTier tn \<in> dom tiers \<and> [] \<notin> set (stKeys tn)) \<and>
    (\<forall>t. static_Resolve hmac s k = Inr t \<longleftrightarrow>
      (\<exists>tn \<in> set (Tenants_cfg cfg). k \<in> set (stKeys tn) \<and> t = snapshot_tenant (the (tiers (stTier tn))) tn)) \<and>
    (k \<notin> configured_keys cfg \<longrightarrow> static_Resolve hmac s k = Inl ErrUnauthorized)"
proof -
  from assms(1) obtain tiers where t: "tier_table Map.empty (Tiers cfg) = Inr tiers"
    and ok: "list_all (valid_tenant tiers) (Tenants_cfg cfg)"
    by (rule NewStatic_table)
  note iff = static_Resolve_iff [OF assms(1) t assms(2)]
  have "static_Resolve hmac s k = Inl ErrUnauthorized" if "k \<notin> configured_keys cfg"
    using that iff static_Resolve_error [of hmac s k]
    by (cases "static_Resolve hmac s k") (auto simp: configured_keys_def)
  then show ?thesis using t ok iff by (auto simp: list_all_iff valid_tenant_def)
qed

theorem static_roundtrip_witness:
  "\<exists>s t. NewStatic demo_hmac demo_identity ''p'' = Inr s \<and> static_Resolve demo_hmac s ''k2'' = Inr t \<and>
     tenantID t = ''t1'' \<and> tenantRole t = ''user'' \<and> tierRPM (tenantTier t) = 5 \<and>
     static_Resolve demo_hmac s ''k3'' = Inl ErrUnauthorized"
proof -
  obtain s where s: "NewStatic demo_hmac demo_identity ''p'' = Inr s"
    by (simp add: NewStatic_def demo_identity_def demo_tier_def demo_hmac_def hashKey_def hex_encode_def
        hex_digit_def byte_def validTenantID_def tenant_id_char_def Let_def)
  have inj: "inj_on (demo_hmac ''p'') A" for A by (simp add: demo_hmac_def inj_on_def)
  show ?thesis
    using static_roundtrip [OF s inj, of "''k2''"] static_roundtrip [OF s inj, of "''k3''"] s
    by (auto simp: demo_identity_def demo_tier_def configured_keys_def snapshot_tenant_def RoleUser_def
        no_override_def MergeTier_def merge_layer_def)
qed

end
