(* ===== verification/Pipeline.thy ===== *)
theory Pipeline
  imports Protocol Auth
begin

text \<open>
  The request pipeline (\<^verbatim>\<open>internal/pipeline\<close>): the carrier every stage shares
  (\<^verbatim>\<open>carrier.go\<close>), the single body read (\<^verbatim>\<open>body.go\<close>), the token measure
  (\<^verbatim>\<open>internal/protocol/tokens.go\<close>, \<^verbatim>\<open>estimate.go\<close>), the request id
  (\<^verbatim>\<open>requestid.go\<close>), the authentication and authorization stages
  (\<^verbatim>\<open>authstage.go\<close>, \<^verbatim>\<open>authzstage.go\<close>), the prompt text (\<^verbatim>\<open>prompttext.go\<close>) and
  the composition of stages (\<^verbatim>\<open>chain.go\<close>).

  The carrier is a record passed along and returned; \<open>'r\<close> is what the relay leaves on it.
  A stage is a function from handler to handler, a handler a function of the request, the
  carrier and the state \<open>'s\<close> of the process.  A reply is either a refusal the chain
  renders or the answer \<open>'a\<close> of the endpoint behind it.
\<close>

subsection \<open>The token measure\<close>

definition BytesPerToken :: int where "BytesPerToken = 4"

text \<open>
  A byte that starts no white space, a continuation byte of a longer character included,
  is part of a word.
\<close>

function count_from :: "bool \<Rightarrow> string \<Rightarrow> int" where
  "count_from inWord s =
     (if s = [] then 0
      else if space_width s > 0 then count_from False (drop (space_width s) s)
      else (if inWord then 0 else 1) + count_from True (tl s))"
  by pat_completeness auto

termination by (relation "measure (\<lambda>(w, s). length s)") auto

declare count_from.simps [simp del]

definition countWords :: "string \<Rightarrow> int" where "countWords s = count_from False s"

definition EstimateContentTokens :: "string \<Rightarrow> int" where
  "EstimateContentTokens content = max (countWords content) (int (length content) sdiv BytesPerToken)"

definition DefaultCompletionReserve :: int where "DefaultCompletionReserve = 256"

definition promptEstimate :: "chat_request \<Rightarrow> int" where
  "promptEstimate req =
     (let n = foldl (\<lambda>n m. i64 (n + EstimateContentTokens (cmContent m))) 0 (chMessages req)
      in if n = 0 then 1 else n)"

definition completionEstimate :: "chat_request \<Rightarrow> int \<Rightarrow> int" where
  "completionEstimate req maxRequestTokens =
     (let c = (if chMaxTokens req \<noteq> None \<and> the (chMaxTokens req) > 0 then the (chMaxTokens req)
               else DefaultCompletionReserve)
      in if maxRequestTokens \<ge> 1 \<and> c > maxRequestTokens then maxRequestTokens else c)"

definition addSaturating :: "int \<Rightarrow> int \<Rightarrow> int" where
  "addSaturating a b = (let n = i64 (a + b) in if n < 0 then MaxInt64 else n)"

definition EstimateTokens :: "chat_request \<Rightarrow> int \<Rightarrow> int" where
  "EstimateTokens req maxRequestTokens =
     addSaturating (promptEstimate req) (completionEstimate req maxRequestTokens)"

definition EstimatePartialTokens :: "chat_request \<Rightarrow> int \<Rightarrow> int" where
  "EstimatePartialTokens req n = i64 (promptEstimate req + n sdiv BytesPerToken)"

text \<open>The affinity key: the non-empty contents, joined with line feeds.\<close>

fun join_lines :: "string list \<Rightarrow> string" where
  "join_lines [] = []"
| "join_lines [s] = s"
| "join_lines (s # ss) = s @ [newline] @ join_lines ss"

definition PromptText :: "chat_request \<Rightarrow> string" where
  "PromptText req = join_lines (filter (\<lambda>c. c \<noteq> '''') (map cmContent (chMessages req)))"

subsection \<open>The carrier\<close>

record 'r carrier =
  caTenant :: tenant
  caRequestID :: string
  caFormat :: format
  caBody :: string
  caChat :: chat_request
  caChatErr :: "ingest_error option"
  caChatSet :: bool
  caUpstreamBody :: string
  caTokens :: int
  caPromptTokens :: int
  caPromptKnown :: bool
  caConsumed :: int
  caCacheHit :: bool
  caServedBy :: string
  caRejectCode :: string
  caRelay :: "'r option"

definition zero_tier :: tier where
  "zero_tier = \<lparr>tierID = '''', tierRPM = 0, tierTPM = 0, tierMaxTokens = 0, tierMonthlyQuota = 0,
     AllowedModels = [], DeniedModels = [], ModelQuotas = Map.empty, tierConcurrency = 0\<rparr>"

definition zero_tenant :: tenant where
  "zero_tenant = \<lparr>tenantID = '''', tenantName = '''', tenantRole = '''', tenantKeyID = '''', tenantTier = zero_tier\<rparr>"

definition new_carrier :: "'r carrier" where
  "new_carrier = \<lparr>caTenant = zero_tenant, caRequestID = '''', caFormat = FormatOpenAIChat, caBody = '''',
     caChat = zero_chat, caChatErr = None, caChatSet = False, caUpstreamBody = '''', caTokens = 0,
     caPromptTokens = 0, caPromptKnown = False, caConsumed = 0, caCacheHit = False, caServedBy = '''',
     caRejectCode = '''', caRelay = None\<rparr>"

definition SetBody :: "string \<Rightarrow> chat_request \<Rightarrow> string \<Rightarrow> ingest_error option \<Rightarrow> 'r carrier \<Rightarrow> 'r carrier" where
  "SetBody body chat upstreamBody err c =
     (if caChatSet c then c
      else c\<lparr>caChatSet := True, caBody := body, caChat := chat, caUpstreamBody := upstreamBody, caChatErr := err\<rparr>)"

definition carrier_PromptTokens :: "'r carrier \<Rightarrow> 'r carrier \<times> int" where
  "carrier_PromptTokens c =
     (let c1 = (if caPromptKnown c then c
                else c\<lparr>caPromptTokens := promptEstimate (caChat c), caPromptKnown := True\<rparr>)
      in (c1, caPromptTokens c1))"

definition ReserveTokens :: "int \<Rightarrow> 'r carrier \<Rightarrow> 'r carrier \<times> int" where
  "ReserveTokens maxRequestTokens c =
     (case carrier_PromptTokens c of (c1, n) \<Rightarrow> (c1, addSaturating n (completionEstimate (caChat c1) maxRequestTokens)))"

definition carrier_EstimatePartialTokens :: "int \<Rightarrow> 'r carrier \<Rightarrow> 'r carrier \<times> int" where
  "carrier_EstimatePartialTokens streamed c =
     (case carrier_PromptTokens c of (c1, n) \<Rightarrow> (c1, i64 (n + streamed sdiv BytesPerToken)))"

subsection \<open>Requests, replies and stages\<close>

record request =
  rqHeader :: "(string \<times> string) list"
  rqBody :: string
  rqUnreadable :: bool

datatype 'a reply = Refused http_reply | Answered 'a

type_synonym ('s, 'r, 'a) handler = "request \<Rightarrow> 'r carrier \<Rightarrow> 's \<Rightarrow> 'r carrier \<times> 's \<times> 'a reply"

type_synonym ('s, 'r, 'a) middleware = "('s, 'r, 'a) handler \<Rightarrow> ('s, 'r, 'a) handler"

definition Chain :: "('s, 'r, 'a) middleware list \<Rightarrow> ('s, 'r, 'a) handler \<Rightarrow> ('s, 'r, 'a) handler" where
  "Chain stages final = foldr (\<lambda>stage h. stage h) stages final"

text \<open>The codec and the map order of the ingest.\<close>

record wire_libs =
  wlIter :: "string list \<Rightarrow> string list"
  wlDec :: "string \<Rightarrow> json option"
  wlEnc :: "json \<Rightarrow> string"
  wlErr :: "string \<Rightarrow> string"

definition MaxBodyBytes :: int where "MaxBodyBytes = 4194304"

definition refuse :: "wire_libs \<Rightarrow> 'r carrier \<Rightarrow> int \<Rightarrow> string \<Rightarrow> string \<Rightarrow> http_reply" where
  "refuse lib c code ecode message = RenderError (wlEnc lib) (caFormat c) code ecode message"

text \<open>The text of a failed decode is the library's, \<open>wlErr\<close>.\<close>

definition ingest_message :: "wire_libs \<Rightarrow> format \<Rightarrow> string \<Rightarrow> ingest_error \<Rightarrow> string" where
  "ingest_message lib fmt body e =
     (let rsp = (fmt = FormatOpenAIResponses) in
      case e of
        Malformed \<Rightarrow>
          (case fmt of FormatOpenAIChat \<Rightarrow> '''' | FormatOpenAIResponses \<Rightarrow> ''malformed responses request: ''
           | FormatAnthropicMessages \<Rightarrow> ''malformed messages request: '') @ wlErr lib body
      | ModelRequired \<Rightarrow> ''model is required''
      | MaxTokensRequired \<Rightarrow>
          (if rsp then ''max_output_tokens must be positive'' else ''max_tokens is required and must be positive'')
      | StopSequencesUnsupported \<Rightarrow> ''stop_sequences is not supported by this gateway''
      | FieldUnsupported f \<Rightarrow> f @ '' is not supported by this gateway''
      | TopKUnsupported \<Rightarrow> ''top_k is not supported by this gateway''
      | PreviousResponseUnsupported \<Rightarrow> ''previous_response_id is not supported by this gateway''
      | BadInput \<Rightarrow> ''input must be a string or a message array''
      | BadContent \<Rightarrow> ''content must be a string or a '' @ (if rsp then ''part'' else ''block'') @ '' array''
      | BadPart kind \<Rightarrow>
          (if rsp then ''unsupported input part type '' else ''unsupported content block type '') @
          quote # kind @ quote # (if rsp then '': text parts only'' else '': text blocks only''))"

definition EnsureBody :: "wire_libs \<Rightarrow> request \<Rightarrow> 'r carrier \<Rightarrow> 'r carrier \<times> http_reply option" where
  "EnsureBody lib rq c =
     (if caChatSet c
      then (c, case caChatErr c of None \<Rightarrow> None | Some e \<Rightarrow> Some (refuse lib c 400 ''invalid_request'' (ingest_message lib (caFormat c) (caBody c) e)))
      else if int (length (rqBody rq)) > MaxBodyBytes
      then (c, Some (refuse lib c 413 ''request_too_large'' ''request body exceeds the accepted size''))
      else if rqUnreadable rq
      then (c, Some (refuse lib c 400 ''invalid_request'' ''unreadable request body''))
      else case Ingest (wlIter lib) (wlDec lib) (wlEnc lib) (caFormat c) (rqBody rq) of
             Inr res \<Rightarrow> (SetBody (rqBody rq) (inChat res) (inBody res) None c, None)
           | Inl e \<Rightarrow> (SetBody (rqBody rq) zero_chat '''' (Some e) c,
                       Some (refuse lib c 400 ''invalid_request'' (ingest_message lib (caFormat c) (rqBody rq) e))))"

definition AuthorizeModel :: "wire_libs \<Rightarrow> request \<Rightarrow> 'r carrier \<Rightarrow> 'r carrier \<times> http_reply option" where
  "AuthorizeModel lib rq c =
     (case EnsureBody lib rq c of
        (c1, Some r) \<Rightarrow> (c1, Some r)
      | (c1, None) \<Rightarrow>
          if chModel (caChat c1) = '''' then (c1, Some (refuse lib c1 400 ''invalid_request'' ''model is required''))
          else if tenantID (caTenant c1) \<noteq> '''' \<and> \<not> AllowsModel (tenantTier (caTenant c1)) (chModel (caChat c1))
          then (c1\<lparr>caRejectCode := ''model_not_allowed''\<rparr>,
                Some (refuse lib c1 403 ''model_not_allowed''
                  (''the tenant tier does not allow model '' @ chModel (caChat c1))))
          else (c1, None))"

definition FormatStage :: "format \<Rightarrow> ('s, 'r, 'a) middleware" where
  "FormatStage fmt next rq c s = next rq (c\<lparr>caFormat := fmt\<rparr>) s"

definition CarrierStage :: "('s, 'r, 'a) middleware" where
  "CarrierStage next rq c s = next rq new_carrier s"

definition ModelAuthzStage :: "wire_libs \<Rightarrow> ('s, 'r, 'a) middleware" where
  "ModelAuthzStage lib next rq c s =
     (case AuthorizeModel lib rq c of
        (c1, Some r) \<Rightarrow> (c1, s, Refused r)
      | (c1, None) \<Rightarrow> next rq c1 s)"

subsection \<open>The request id\<close>

definition well_formed_id :: "string \<Rightarrow> bool" where
  "well_formed_id s \<longleftrightarrow> 8 \<le> length s \<and> length s \<le> 128 \<and> list_all (\<lambda>c. 33 \<le> byte c \<and> byte c \<le> 126) s"

text \<open>The random bytes of a minted id are an argument, \<open>None\<close> when the entropy source fails.\<close>

definition mintRequestID :: "string option \<Rightarrow> string" where
  "mintRequestID entropy =
     (case entropy of None \<Rightarrow> ''req-entropy-fallback'' | Some buf \<Rightarrow> ''req-'' @ hex_encode buf)"

definition adoptRequestID :: "string option \<Rightarrow> string \<Rightarrow> string" where
  "adoptRequestID entropy candidate =
     (if well_formed_id candidate then candidate else mintRequestID entropy)"

definition RequestIDStage :: "string option \<Rightarrow> ('s, 'r, 'a) middleware" where
  "RequestIDStage entropy next rq c s =
     next rq (c\<lparr>caRequestID := adoptRequestID entropy (header_get (rqHeader rq) ''X-Request-Id'')\<rparr>) s"

subsection \<open>Authentication\<close>

definition bearerPrefix :: string where "bearerPrefix = ''Bearer ''"

definition apiKeyOf :: "request \<Rightarrow> string option" where
  "apiKeyOf rq =
     (let raw = header_get (rqHeader rq) ''Authorization'';
          xkey = trim_space (header_get (rqHeader rq) ''X-Api-Key'')
      in if has_prefix raw bearerPrefix
         then let key = trim_space (drop (length bearerPrefix) raw) in if key \<noteq> '''' then Some key else None
         else if xkey \<noteq> '''' then Some xkey else None)"

definition AuthStage ::
  "wire_libs \<Rightarrow> (string \<Rightarrow> 's \<Rightarrow> 's \<times> (auth_error + tenant)) \<Rightarrow> ('s, 'r, 'a) middleware" where
  "AuthStage lib resolve next rq c s =
     (let reject = (\<lambda>s1 code ecode message.
            (c\<lparr>caRejectCode := ecode\<rparr>, s1, Refused (refuse lib c code ecode message)))
      in case apiKeyOf rq of
           None \<Rightarrow> reject s 401 ''missing_api_key'' ''expected an Authorization: Bearer <key> or x-api-key header''
         | Some key \<Rightarrow>
             (case resolve key s of
                (s1, Inl ErrUnauthorized) \<Rightarrow> reject s1 401 ''invalid_api_key'' ''unknown or revoked api key''
              | (s1, Inl _) \<Rightarrow> reject s1 503 ''identity_unavailable'' ''identity store unavailable''
              | (s1, Inr tn) \<Rightarrow> next rq (c\<lparr>caTenant := tn\<rparr>) s1))"

subsection \<open>The estimate\<close>

lemma count_from_bounds: "0 \<le> count_from w s \<and> count_from w s \<le> int (length s)"
proof (induction w s rule: count_from.induct)
  case (1 w s)
  show ?case
  proof (cases "s = []")
    case False
    then have "int (length (tl s)) = int (length s) - 1" by (cases s) auto
    then show ?thesis
      using "1.IH" False space_width_le [of s] by (subst (1 2) count_from.simps) (auto simp: of_nat_diff)
  qed (simp add: count_from.simps)
qed

lemma EstimateContentTokens_bounds:
  "0 \<le> EstimateContentTokens s \<and> EstimateContentTokens s \<le> int (length s) \<and>
   int (length s) div 4 \<le> EstimateContentTokens s"
  using count_from_bounds [of False s]
  by (auto simp: EstimateContentTokens_def countWords_def BytesPerToken_def sdiv_nonneg_pos max_def)

definition content_bytes :: "chat_request \<Rightarrow> int" where
  "content_bytes req = (\<Sum>m \<leftarrow> chMessages req. int (length (cmContent m)))"

text \<open>The prompt of a request that fits the body cap: its contents, summed without wrap-around.\<close>

lemma prompt_sum:
  assumes "0 \<le> n" and "n + (\<Sum>m \<leftarrow> ms. int (length (cmContent m))) \<le> MaxInt64"
  shows "foldl (\<lambda>n m. i64 (n + EstimateContentTokens (cmContent m))) n ms =
      n + (\<Sum>m \<leftarrow> ms. EstimateContentTokens (cmContent m)) \<and>
    (\<Sum>m \<leftarrow> ms. EstimateContentTokens (cmContent m)) \<le> (\<Sum>m \<leftarrow> ms. int (length (cmContent m)))"
  using assms
proof (induction ms arbitrary: n)
  case (Cons m ms)
  let ?e = "EstimateContentTokens (cmContent m)"
  note b = EstimateContentTokens_bounds [of "cmContent m"]
  have nn: "0 \<le> (\<Sum>m \<leftarrow> ms. int (length (cmContent m)))" by (induction ms) auto
  have "i64 (n + ?e) = n + ?e" using Cons.prems b nn by (intro i64_in_range in64_nonneg) auto
  moreover have "n + ?e + (\<Sum>m \<leftarrow> ms. int (length (cmContent m))) \<le> MaxInt64" using Cons.prems b by simp
  ultimately show ?case using Cons.IH [of "n + ?e"] Cons.prems(1) b by simp
qed simp

lemma promptEstimate_bounds:
  assumes "content_bytes req \<le> MaxInt64"
  shows "promptEstimate req = max 1 (\<Sum>m \<leftarrow> chMessages req. EstimateContentTokens (cmContent m)) \<and>
    promptEstimate req \<le> max 1 (content_bytes req)"
proof -
  have nn: "0 \<le> (\<Sum>m \<leftarrow> ms. EstimateContentTokens (cmContent m))" for ms
    using EstimateContentTokens_bounds by (induction ms) (auto simp: add_nonneg_nonneg)
  show ?thesis
    using prompt_sum [of 0 "chMessages req"] assms nn [of "chMessages req"]
    by (auto simp: promptEstimate_def content_bytes_def Let_def)
qed

lemma addSaturating_eq:
  assumes "0 \<le> a" and "a \<le> MaxInt64" and "0 \<le> b" and "b \<le> MaxInt64"
  shows "addSaturating a b = min MaxInt64 (a + b)"
proof (cases "a + b \<le> MaxInt64")
  case True
  then have "i64 (a + b) = a + b" using assms by (intro i64_in_range in64_nonneg) auto
  then show ?thesis using True assms by (simp add: addSaturating_def Let_def)
next
  case False
  then have "i64 (a + b) < 0" using assms by (simp add: i64_over MaxInt64_def)
  then show ?thesis using False by (simp add: addSaturating_def Let_def)
qed

definition prompt_cached :: "'r carrier \<Rightarrow> bool" where
  "prompt_cached c \<longleftrightarrow> (caPromptKnown c \<longrightarrow> caPromptTokens c = promptEstimate (caChat c))"

lemma carrier_PromptTokens_eq:
  assumes "prompt_cached c"
  shows "carrier_PromptTokens c =
    (c\<lparr>caPromptTokens := promptEstimate (caChat c), caPromptKnown := True\<rparr>, promptEstimate (caChat c))"
  using assms by (cases c) (auto simp: carrier_PromptTokens_def prompt_cached_def Let_def)

lemma completionEstimate_bounds:
  assumes "int_ptr_ok (chMaxTokens req)"
  shows "1 \<le> completionEstimate req cap \<and> completionEstimate req cap \<le> MaxInt64 \<and>
    (1 \<le> cap \<longrightarrow> completionEstimate req cap \<le> cap) \<and>
    (\<forall>n \<in> set_option (chMaxTokens req). 0 < n \<longrightarrow> completionEstimate req cap \<le> n)"
  using assms by (auto simp: completionEstimate_def Let_def int_ptr_ok_def in64_def DefaultCompletionReserve_def MaxInt64_def)

lemma ReserveTokens_spec:
  fixes c :: "'r carrier" and cap :: int
  assumes "content_bytes (caChat c) \<le> MaxInt64" and "int_ptr_ok (chMaxTokens (caChat c))" and "prompt_cached c"
  defines "p \<equiv> promptEstimate (caChat c)" and "q \<equiv> completionEstimate (caChat c) cap"
  shows "ReserveTokens cap c = (c\<lparr>caPromptTokens := p, caPromptKnown := True\<rparr>, min MaxInt64 (p + q))"
    and "EstimateTokens (caChat c) cap = min MaxInt64 (p + q)" and "1 \<le> p" and "1 \<le> min MaxInt64 (p + q)"
proof -
  note p = promptEstimate_bounds [OF assms(1)]
  have p1: "1 \<le> p" "p \<le> MaxInt64" using p assms(1) by (auto simp: MaxInt64_def p_def)
  have "addSaturating p q = min MaxInt64 (p + q)"
    using addSaturating_eq p1 completionEstimate_bounds [OF assms(2), of cap] by (simp add: q_def)
  then show "ReserveTokens cap c = (c\<lparr>caPromptTokens := p, caPromptKnown := True\<rparr>, min MaxInt64 (p + q))"
    "EstimateTokens (caChat c) cap = min MaxInt64 (p + q)"
    by (simp_all add: ReserveTokens_def EstimateTokens_def carrier_PromptTokens_eq [OF assms(3)] p_def q_def)
  show "1 \<le> p" "1 \<le> min MaxInt64 (p + q)"
    using p1 completionEstimate_bounds [OF assms(2), of cap] by (simp_all add: q_def MaxInt64_def)
qed

subsection \<open>Properties\<close>

text \<open>
  C38: A reservation never prices below what a request can spend, and never wraps.  For a
  request whose contents have a length Go can count, the amount a stage reserves is the prompt measure
  plus the completion budget, saturated at the largest integer; it is at least one token and
  at least a quarter of the prompt's bytes, and the completion part is at most the tenant's
  per-request cap and at most the declared maximum.  The number the carrier caches is the
  one a fresh scan would give, so the limiter, the ledger and the context check see the
  same prompt.
\<close>

theorem reservation_bounds:
  assumes "content_bytes (caChat c) \<le> MaxInt64" and "int_ptr_ok (chMaxTokens (caChat c))"
    and "prompt_cached c"
  shows "snd (ReserveTokens cap c) = EstimateTokens (caChat c) cap \<and>
    EstimateTokens (caChat c) cap = min MaxInt64 (promptEstimate (caChat c) + completionEstimate (caChat c) cap) \<and>
    1 \<le> snd (ReserveTokens cap c) \<and>
    (\<forall>m \<in> set (chMessages (caChat c)). int (length (cmContent m)) div 4 \<le> promptEstimate (caChat c)) \<and>
    promptEstimate (caChat c) \<le> max 1 (content_bytes (caChat c)) \<and>
    (1 \<le> cap \<longrightarrow> snd (ReserveTokens cap c) \<le> promptEstimate (caChat c) + cap) \<and>
    (\<forall>n \<in> set_option (chMaxTokens (caChat c)). 0 < n \<longrightarrow> snd (ReserveTokens cap c) \<le> promptEstimate (caChat c) + n) \<and>
    prompt_cached (fst (ReserveTokens cap c)) \<and> caChat (fst (ReserveTokens cap c)) = caChat c"
proof -
  let ?p = "promptEstimate (caChat c)"
  note p = promptEstimate_bounds [OF assms(1)] and q = completionEstimate_bounds [OF assms(2), of cap]
    and r = ReserveTokens_spec [OF assms]
  have "int (length (cmContent m)) div 4 \<le> ?p" if "m \<in> set (chMessages (caChat c))" for m
  proof -
    have "EstimateContentTokens (cmContent m) \<le> (\<Sum>m \<leftarrow> chMessages (caChat c). EstimateContentTokens (cmContent m))"
      using that EstimateContentTokens_bounds by (intro member_le_sum_list) (auto intro!: image_eqI)
    then show ?thesis using p EstimateContentTokens_bounds [of "cmContent m"] by linarith
  qed
  then show ?thesis using p q r by (auto simp: prompt_cached_def)
qed

definition demo_prompt :: "unit carrier" where
  "demo_prompt = new_carrier\<lparr>caChat := zero_chat\<lparr>chMaxTokens := Some 1000,
     chMessages := [\<lparr>cmRole = ''user'', cmContent = ''count these words''\<rparr>]\<rparr>\<rparr>"

theorem reservation_bounds_witness:
  "snd (ReserveTokens 100 demo_prompt) = 104 \<and> snd (ReserveTokens 100 demo_prompt) \<le> promptEstimate (caChat demo_prompt) + 100"
proof -
  have "content_bytes (caChat demo_prompt) \<le> MaxInt64" "int_ptr_ok (chMaxTokens (caChat demo_prompt))"
    "prompt_cached demo_prompt" "snd (ReserveTokens 100 demo_prompt) = 104"
    by (code_simp, simp add: demo_prompt_def new_carrier_def int_ptr_ok_def in64_def MinInt64_def MaxInt64_def, code_simp, code_simp)
  then show ?thesis using reservation_bounds [of demo_prompt 100] by simp
qed

end
