(* ===== verification/Auth_Cache.thy ===== *)
theory Auth_Cache
  imports Auth
begin

text \<open>
  The process-local identity cache (\<^verbatim>\<open>internal/auth/lru.go\<close>): a map from key digests
  to elements of a doubly linked list, most recently used first.

  The list is modelled with its elements' addresses, so that the map holds pointers as
  the source's does: \<open>items\<close> maps a digest to an element, \<open>order\<close> lists the elements
  with their entries.  \<open>Resolve\<close> holds the lock twice, around the lookup and around the
  backfill, and reads the system of record in between: the two are separate steps here,
  and \<open>cs_Resolve\<close> composes them.  The answer of the system of record and the clock
  readings are arguments.
\<close>

type_synonym answer = "auth_error + tenant"

record lru_entry =
  ekey :: string
  eanswer :: answer
  expires :: instant

record cached_store =
  items :: "string \<rightharpoonup> nat"
  order :: "(nat \<times> lru_entry) list"
  fresh :: nat
  cmax :: int
  posTTL :: duration
  negTTL :: duration
  indexKey :: string

definition NewCachedStore :: "int option \<Rightarrow> duration \<Rightarrow> duration \<Rightarrow> string \<Rightarrow> cached_store" where
  "NewCachedStore capacity pos neg secret =
     \<lparr>items = Map.empty, order = [], fresh = 0,
      cmax = (case capacity of Some n \<Rightarrow> if n \<ge> 1 then n else 4096 | None \<Rightarrow> 4096),
      posTTL = pos, negTTL = neg, indexKey = secret\<rparr>"

definition cs_index :: "(string \<Rightarrow> string \<Rightarrow> string) \<Rightarrow> cached_store \<Rightarrow> string \<Rightarrow> string" where
  "cs_index hmac c apiKey = hashKey hmac (indexKey c) apiKey"

text \<open>\<open>Remove\<close> and \<open>MoveToFront\<close> of the linked list, by the element's address.\<close>

definition remove_elem :: "nat \<Rightarrow> (nat \<times> lru_entry) list \<Rightarrow> (nat \<times> lru_entry) list" where
  "remove_elem x l = filter (\<lambda>p. fst p \<noteq> x) l"

definition move_front :: "nat \<Rightarrow> (nat \<times> lru_entry) list \<Rightarrow> (nat \<times> lru_entry) list" where
  "move_front x l = filter (\<lambda>p. fst p = x) l @ remove_elem x l"

definition cs_lookup ::
  "(string \<Rightarrow> string \<Rightarrow> string) \<Rightarrow> cached_store \<Rightarrow> string \<Rightarrow> instant \<Rightarrow> cached_store \<times> answer option" where
  "cs_lookup hmac c apiKey t =
     (let key = cs_index hmac c apiKey in
      case items c key of
        None \<Rightarrow> (c, None)
      | Some x \<Rightarrow>
          (case map_of (order c) x of
             None \<Rightarrow> (c, None)
           | Some ent \<Rightarrow>
               if t > expires ent
               then (c\<lparr>order := remove_elem x (order c), items := (items c)(key := None)\<rparr>, None)
               else (c\<lparr>order := move_front x (order c)\<rparr>, Some (eanswer ent))))"

text \<open>The eviction loop: drop the tail while the list is longer than the capacity.\<close>

function evict :: "int \<Rightarrow> (string \<rightharpoonup> nat) \<Rightarrow> (nat \<times> lru_entry) list \<Rightarrow> (string \<rightharpoonup> nat) \<times> (nat \<times> lru_entry) list" where
  "evict mx its l =
     (if int (length l) > mx
      then (if l = [] then (its, l) else evict mx (its(ekey (snd (last l)) := None)) (butlast l))
      else (its, l))"
  by pat_completeness auto

termination by (relation "measure (\<lambda>(mx, its, l). length l)") auto

declare evict.simps [simp del]

definition cs_put ::
  "(string \<Rightarrow> string \<Rightarrow> string) \<Rightarrow> cached_store \<Rightarrow> string \<Rightarrow> answer \<Rightarrow> instant \<Rightarrow> cached_store" where
  "cs_put hmac c apiKey ans until =
     (let key = cs_index hmac c apiKey in
      case items c key of
        Some x \<Rightarrow>
          c\<lparr>order := move_front x
              (map (\<lambda>(y, ent). (y, if y = x then ent\<lparr>eanswer := ans, expires := until\<rparr> else ent)) (order c))\<rparr>
      | None \<Rightarrow>
          let (its, l) = evict (cmax c) ((items c)(key \<mapsto> fresh c))
                (((fresh c), \<lparr>ekey = key, eanswer = ans, expires = until\<rparr>) # order c)
          in c\<lparr>items := its, order := l, fresh := fresh c + 1\<rparr>)"

definition cs_backfill ::
  "(string \<Rightarrow> string \<Rightarrow> string) \<Rightarrow> cached_store \<Rightarrow> string \<Rightarrow> answer \<Rightarrow> instant \<Rightarrow> cached_store" where
  "cs_backfill hmac c apiKey ans t =
     (case ans of
        Inr tn \<Rightarrow> cs_put hmac c apiKey (Inr tn) (t + posTTL c)
      | Inl ErrUnauthorized \<Rightarrow> cs_put hmac c apiKey (Inl ErrUnauthorized) (t + negTTL c)
      | Inl _ \<Rightarrow> c)"

definition cs_Resolve ::
  "(string \<Rightarrow> string \<Rightarrow> string) \<Rightarrow> cached_store \<Rightarrow> string \<Rightarrow> instant \<Rightarrow> answer \<Rightarrow> instant \<Rightarrow> cached_store \<times> answer" where
  "cs_Resolve hmac c apiKey t inner t' =
     (case cs_lookup hmac c apiKey t of
        (c1, Some ans) \<Rightarrow> (c1, ans)
      | (c1, None) \<Rightarrow> (cs_backfill hmac c1 apiKey inner t', inner))"

subsection \<open>The invariant and the abstract cache\<close>

text \<open>
  The map and the list describe the same set of elements: the map sends a digest to
  the one element that carries it.
\<close>

definition linked :: "(string \<rightharpoonup> nat) \<Rightarrow> (nat \<times> lru_entry) list \<Rightarrow> bool" where
  "linked its l \<longleftrightarrow> distinct (map fst l) \<and> (\<forall>k x. its k = Some x \<longleftrightarrow> (\<exists>e. (x, e) \<in> set l \<and> ekey e = k))"

definition cs_ok :: "cached_store \<Rightarrow> bool" where
  "cs_ok c \<longleftrightarrow> linked (items c) (order c) \<and> (\<forall>p \<in> set (order c). fst p < fresh c) \<and>
     1 \<le> cmax c \<and> int (length (order c)) \<le> cmax c"

text \<open>The abstract cache: digests with their answers and expiries, most recent first.\<close>

type_synonym lru = "(string \<times> answer \<times> instant) list"

definition abs_lru :: "(nat \<times> lru_entry) list \<Rightarrow> lru" where
  "abs_lru l = map (\<lambda>p. (ekey (snd p), eanswer (snd p), expires (snd p))) l"

definition lru_drop :: "string \<Rightarrow> lru \<Rightarrow> lru" where
  "lru_drop k l = filter (\<lambda>p. fst p \<noteq> k) l"

definition lru_get :: "string \<Rightarrow> instant \<Rightarrow> lru \<Rightarrow> lru \<times> answer option" where
  "lru_get k t l =
     (case map_of l k of
        None \<Rightarrow> (l, None)
      | Some (a, until) \<Rightarrow> if t > until then (lru_drop k l, None) else ((k, a, until) # lru_drop k l, Some a))"

definition lru_put :: "int \<Rightarrow> string \<Rightarrow> answer \<Rightarrow> instant \<Rightarrow> lru \<Rightarrow> lru" where
  "lru_put mx k a until l = take (nat mx) ((k, a, until) # lru_drop k l)"

lemma linked_elem:
  assumes "linked its l" and "its k = Some x" and "(y, e) \<in> set l"
  shows "y = x \<longleftrightarrow> ekey e = k"
  using assms unfolding linked_def by (metis distinct_map eq_key_imp_eq_value option.inject)

lemma linked_lookup:
  assumes "linked its l"
  shows "its k = Some x \<longleftrightarrow> (\<exists>e. map_of l x = Some e \<and> ekey e = k)"
proof -
  have "map_of l x = Some e \<longleftrightarrow> (x, e) \<in> set l" for e
    using assms by (auto simp: linked_def)
  then show ?thesis using assms by (simp add: linked_def)
qed

lemma linked_keys: "linked its l \<Longrightarrow> distinct (map ekey (map snd l))"
proof (induction l arbitrary: its)
  case (Cons p l)
  obtain x e where p: "p = (x, e)" by fastforce
  have its: "its (ekey e) = Some x" using Cons.prems by (auto simp: linked_def p)
  have "ekey e \<noteq> ekey f" if "(y, f) \<in> set l" for y f
  proof
    assume "ekey e = ekey f"
    then have "y = x" using linked_elem [OF Cons.prems its, of y f] that by simp
    then show False using Cons.prems that by (force simp: linked_def p)
  qed
  moreover have "linked (its(ekey e := None)) l"
    using Cons.prems calculation unfolding linked_def p by auto metis
  ultimately show ?case using Cons.IH by (force simp: p)
qed simp

lemma abs_lru_length: "length (abs_lru l) = length l"
  by (simp add: abs_lru_def)

lemma abs_lru_keys: "map fst (abs_lru l) = map ekey (map snd l)"
  by (simp add: abs_lru_def case_prod_beta)

lemma remove_elem_abs:
  assumes "linked its l" and "its k = Some x"
  shows "abs_lru (remove_elem x l) = lru_drop k (abs_lru l)"
proof -
  have "filter (\<lambda>p. fst p \<noteq> x) l = filter (\<lambda>p. ekey (snd p) \<noteq> k) l"
    using linked_elem [OF assms] by (intro filter_cong) auto
  then show ?thesis by (simp add: remove_elem_def lru_drop_def abs_lru_def filter_map o_def)
qed

lemma front_elem:
  "distinct (map fst l) \<Longrightarrow> map_of l x = Some e \<Longrightarrow> filter (\<lambda>p. fst p = x) l = [(x, e)]"
proof (induction l)
  case (Cons p l)
  show ?case
  proof (cases "fst p = x")
    case True
    then have "filter (\<lambda>p. fst p = x) l = []"
      using Cons.prems by (auto simp: filter_empty_conv image_iff)
    then show ?thesis using True Cons.prems by (cases p) auto
  next
    case False
    then show ?thesis using Cons by (cases p) auto
  qed
qed simp

lemma move_front_abs:
  assumes "linked its l" and "its k = Some x" and "map_of l x = Some e"
  shows "abs_lru (move_front x l) = (k, eanswer e, expires e) # lru_drop k (abs_lru l)"
proof -
  have "filter (\<lambda>p. fst p = x) l = [(x, e)]" using assms by (intro front_elem) (simp_all add: linked_def)
  moreover have "ekey e = k" using assms linked_lookup by fastforce
  ultimately show ?thesis
    using remove_elem_abs [OF assms(1,2)] by (simp add: move_front_def abs_lru_def)
qed

lemma linked_remove:
  assumes "linked its l" and "its k = Some x"
  shows "linked (its(k := None)) (remove_elem x l)"
  using assms linked_elem [OF assms] unfolding linked_def remove_elem_def
  by (auto simp: distinct_map_filter)

lemma set_move_front: "set (move_front x l) = set l"
  by (auto simp: move_front_def remove_elem_def)

lemma move_front_distinct: "distinct (map fst l) \<Longrightarrow> distinct (map fst (move_front x l))"
  by (auto simp: move_front_def remove_elem_def distinct_map_filter)

lemma linked_move_front: "linked its l \<Longrightarrow> linked its (move_front x l)"
  by (simp add: linked_def set_move_front move_front_distinct)

lemma length_move_front: "length (move_front x l) = length l"
  unfolding move_front_def remove_elem_def
  by (simp add: sum_length_filter_compl)


lemma linked_butlast:
  assumes "linked its l" and "l \<noteq> []"
  shows "linked (its(ekey (snd (last l)) := None)) (butlast l)"
proof -
  define q where "q = last l"
  have l: "l = butlast l @ [q]" using assms(2) by (simp add: q_def)
  have link: "its (ekey (snd q)) = Some (fst q)"
    using assms l unfolding linked_def by (metis last_in_set prod.collapse q_def)
  have "fst q \<notin> fst ` set (butlast l)"
    using assms(1) unfolding linked_def by (subst (asm) l) auto
  then have "remove_elem (fst q) l = butlast l"
    unfolding remove_elem_def by (subst l) (auto simp: filter_id_conv rev_image_eqI)
  then show ?thesis using linked_remove [OF assms(1) link] by (simp add: q_def)
qed

lemma evict_spec:
  assumes "linked its l" and "0 \<le> mx"
  shows "linked (fst (evict mx its l)) (snd (evict mx its l)) \<and> snd (evict mx its l) = take (nat mx) l"
  using assms
proof (induction mx its l rule: evict.induct)
  case (1 mx its l)
  show ?case
  proof (cases "int (length l) > mx")
    case True
    then have ne: "l \<noteq> []" using "1.prems" by auto
    have "take (nat mx) (butlast l) = take (nat mx) l"
      using True "1.prems"(2) by (intro take_butlast) linarith
    moreover have "evict mx its l = evict mx (its(ekey (snd (last l)) := None)) (butlast l)"
      using True ne by (subst evict.simps) simp
    ultimately show ?thesis
      using "1.IH" [OF True ne linked_butlast [OF "1.prems"(1) ne] "1.prems"(2)] by metis
  next
    case False
    then show ?thesis using "1.prems" by (simp add: evict.simps [of mx its l])
  qed
qed

lemma abs_lru_map_of:
  assumes "linked its l"
  shows "map_of (abs_lru l) k =
    (case its k of None \<Rightarrow> None | Some x \<Rightarrow> map_option (\<lambda>e. (eanswer e, expires e)) (map_of l x))"
proof (cases "its k")
  case None
  then have "k \<notin> fst ` set (abs_lru l)"
    using assms by (auto simp: abs_lru_def linked_def) (metis None option.distinct(1))
  then show ?thesis using None by (simp add: map_of_eq_None_iff)
next
  case (Some x)
  then obtain e where e: "map_of l x = Some e" "ekey e = k" using linked_lookup [OF assms] by blast
  have "(k, eanswer e, expires e) \<in> set (abs_lru l)"
    using map_of_SomeD [OF e(1)] e(2) by (force simp: abs_lru_def)
  moreover have "distinct (map fst (abs_lru l))"
    using linked_keys [OF assms] by (simp add: abs_lru_keys)
  ultimately show ?thesis using Some e by simp
qed

lemma lru_drop_absent: "map_of l k = None \<Longrightarrow> lru_drop k l = l"
  by (auto simp: lru_drop_def filter_id_conv map_of_eq_None_iff)

subsection \<open>Refinement\<close>

lemma cs_lookup_refines:
  assumes "cs_ok c" and "cs_lookup hmac c k t = (c', r)"
  shows "cs_ok c' \<and> lru_get (cs_index hmac c k) t (abs_lru (order c)) = (abs_lru (order c'), r) \<and>
    cmax c' = cmax c \<and> indexKey c' = indexKey c \<and> posTTL c' = posTTL c \<and> negTTL c' = negTTL c"
proof -
  define key where "key = cs_index hmac c k"
  have l: "linked (items c) (order c)" using assms(1) by (simp add: cs_ok_def)
  show ?thesis
  proof (cases "items c key")
    case None
    then show ?thesis
      using assms abs_lru_map_of [OF l, of key]
      by (auto simp: cs_lookup_def Let_def key_def lru_get_def)
  next
    case (Some x)
    then obtain e where e: "map_of (order c) x = Some e" "ekey e = key" using linked_lookup [OF l] by blast
    have get: "map_of (abs_lru (order c)) key = Some (eanswer e, expires e)"
      using abs_lru_map_of [OF l, of key] Some e by simp
    show ?thesis
    proof (cases "t > expires e")
      case True
      have "length (remove_elem x (order c)) \<le> length (order c)" by (simp add: remove_elem_def)
      moreover have "\<forall>p \<in> set (remove_elem x (order c)). fst p < fresh c"
        using assms(1) by (simp add: remove_elem_def cs_ok_def)
      ultimately show ?thesis
        using assms True Some e get linked_remove [OF l Some] remove_elem_abs [OF l Some]
        by (clarsimp simp: cs_lookup_def Let_def key_def [symmetric] lru_get_def cs_ok_def)
    next
      case False
      then show ?thesis
        using assms Some e get linked_move_front [OF l, of x] move_front_abs [OF l Some e(1)]
        by (clarsimp simp: cs_lookup_def Let_def key_def [symmetric] lru_get_def cs_ok_def set_move_front
            length_move_front)
    qed
  qed
qed


lemma linked_push:
  assumes "linked its l" and "its k = None" and "fst q \<notin> fst ` set l" and "ekey (snd q) = k"
  shows "linked (its(k \<mapsto> fst q)) (q # l)"
proof -
  have "ekey e \<noteq> k" if "(x, e) \<in> set l" for x e
    using assms(1,2) that unfolding linked_def by (metis option.distinct(1))
  then show ?thesis using assms unfolding linked_def by (cases q) auto
qed

lemma map_of_refresh:
  "map_of l x = Some e \<Longrightarrow> map_of (map (\<lambda>(y, ent). (y, if y = x then f ent else ent)) l) x = Some (f e)"
  by (induction l) (auto split: if_splits)

lemma remove_refresh: "remove_elem x (map (\<lambda>(y, ent). (y, if y = x then f ent else ent)) l) = remove_elem x l"
  by (induction l) (auto simp: remove_elem_def)

lemma cs_put_refines:
  assumes "cs_ok c"
  shows "cs_ok (cs_put hmac c k a until) \<and>
    abs_lru (order (cs_put hmac c k a until)) =
      lru_put (cmax c) (cs_index hmac c k) a until (abs_lru (order c)) \<and>
    cmax (cs_put hmac c k a until) = cmax c \<and> indexKey (cs_put hmac c k a until) = indexKey c \<and>
    posTTL (cs_put hmac c k a until) = posTTL c \<and> negTTL (cs_put hmac c k a until) = negTTL c"
proof -
  define key where "key = cs_index hmac c k"
  have l: "linked (items c) (order c)" and mx: "1 \<le> cmax c" using assms by (simp_all add: cs_ok_def)
  show ?thesis
  proof (cases "items c key")
    case None
    define q where "q = (fresh c, \<lparr>ekey = key, eanswer = a, expires = until\<rparr>)"
    have "fst q \<notin> fst ` set (order c)" using assms by (force simp: cs_ok_def q_def)
    then have "linked ((items c)(key \<mapsto> fresh c)) (q # order c)"
      using linked_push [OF l None, of q] by (simp add: q_def)
    note ev = evict_spec [OF this, of "cmax c"]
    have p: "cs_put hmac c k a until = c\<lparr>items := fst (evict (cmax c) ((items c)(key \<mapsto> fresh c)) (q # order c)),
        order := take (nat (cmax c)) (q # order c), fresh := fresh c + 1\<rparr>"
      using None ev mx by (simp add: cs_put_def Let_def key_def [symmetric] q_def case_prod_beta)
    have "map_of (abs_lru (order c)) key = None" using abs_lru_map_of [OF l, of key] None by simp
    then have "abs_lru (take (nat (cmax c)) (q # order c)) = lru_put (cmax c) key a until (abs_lru (order c))"
      by (simp add: lru_put_def lru_drop_absent abs_lru_def take_map [symmetric] q_def)
    moreover have "fst x < fresh c + 1" if "x \<in> set (take (nat (cmax c)) (q # order c))" for x
    proof -
      have "x = q \<or> x \<in> set (order c)" using in_set_takeD [OF that] by auto
      then show ?thesis using assms by (auto simp: cs_ok_def q_def less_Suc_eq)
    qed
    moreover have "linked (fst (evict (cmax c) ((items c)(key \<mapsto> fresh c)) (q # order c)))
        (take (nat (cmax c)) (q # order c))"
      using ev [OF order_trans [OF zero_le_one mx]] by (elim conjE) (simp only:)
    moreover have "int (length (take (nat (cmax c)) (q # order c))) \<le> cmax c" using mx by auto
    ultimately show ?thesis using mx unfolding p cs_ok_def by (simp add: key_def)
  next
    case (Some x)
    then obtain e where e: "map_of (order c) x = Some e" "ekey e = key" using linked_lookup [OF l] by blast
    define l2 where "l2 = map (\<lambda>(y, ent). (y, if y = x then ent\<lparr>eanswer := a, expires := until\<rparr> else ent)) (order c)"
    have fst2: "map fst l2 = map fst (order c)" by (simp add: l2_def case_prod_beta)
    have l2: "linked (items c) l2"
      using l unfolding linked_def fst2 by (auto simp: l2_def)
    have e2: "map_of l2 x = Some (e\<lparr>eanswer := a, expires := until\<rparr>)"
      unfolding l2_def by (rule map_of_refresh [OF e(1)])
    have "remove_elem x l2 = remove_elem x (order c)"
      by (simp add: l2_def remove_refresh)
    then have "abs_lru (move_front x l2) = (key, a, until) # lru_drop key (abs_lru (order c))"
      using move_front_abs [OF l2 Some e2] remove_elem_abs [OF l2 Some] remove_elem_abs [OF l Some] by simp
    moreover have "length (lru_drop key (abs_lru (order c))) < nat (cmax c)"
    proof -
      have "length (remove_elem x (order c)) < length (order c)"
        using map_of_SomeD [OF e(1)] unfolding remove_elem_def by (intro length_filter_less) auto
      moreover have "length (lru_drop key (abs_lru (order c))) = length (remove_elem x (order c))"
        using arg_cong [OF remove_elem_abs [OF l Some], of length] by (simp add: abs_lru_length)
      moreover have "length (order c) \<le> nat (cmax c)" using assms by (simp add: cs_ok_def le_nat_iff)
      ultimately show ?thesis by simp
    qed
    moreover have "cs_put hmac c k a until = c\<lparr>order := move_front x l2\<rparr>"
      using Some by (simp add: cs_put_def key_def [symmetric] l2_def)
    moreover have "fst p < fresh c" if "p \<in> set l2" for p
      using that assms unfolding cs_ok_def l2_def by auto
    moreover have "length l2 = length (order c)" by (simp add: l2_def)
    ultimately show ?thesis
      using assms linked_move_front [OF l2, of x]
      by (simp add: cs_ok_def lru_put_def key_def set_move_front length_move_front)
  qed
qed


subsection \<open>Histories\<close>

text \<open>
  The steps of concurrent \<open>Resolve\<close> calls, in the order they take the lock: lookups,
  and backfills with what the system of record answered.
\<close>

datatype cs_op = OpLookup string instant | OpBackfill string answer instant

primrec op_key :: "cs_op \<Rightarrow> string" where
  "op_key (OpLookup k t) = k"
| "op_key (OpBackfill k a t) = k"

primrec cs_step :: "(string \<Rightarrow> string \<Rightarrow> string) \<Rightarrow> cs_op \<Rightarrow> cached_store \<Rightarrow> cached_store" where
  "cs_step hmac (OpLookup k t) c = fst (cs_lookup hmac c k t)"
| "cs_step hmac (OpBackfill k a t) c = cs_backfill hmac c k a t"

definition cs_run :: "(string \<Rightarrow> string \<Rightarrow> string) \<Rightarrow> cached_store \<Rightarrow> cs_op list \<Rightarrow> cached_store" where
  "cs_run hmac c ops = fold (cs_step hmac) ops c"

text \<open>
  The definite answer stored last for a key, and when it was stored.  The system of record
  is read outside the lock, so the answers of two overlapping lookups may be stored in
  another order than they were given.
\<close>

fun last_fill :: "string \<Rightarrow> cs_op list \<Rightarrow> (answer \<times> instant) option \<Rightarrow> (answer \<times> instant) option" where
  "last_fill k [] r = r"
| "last_fill k (OpBackfill j a t # ops) r =
     last_fill k ops (if j = k \<and> a \<noteq> Inl ErrBackend then Some (a, t) else r)"
| "last_fill k (OpLookup j t # ops) r = last_fill k ops r"

definition ttl_of :: "duration \<Rightarrow> duration \<Rightarrow> answer \<Rightarrow> duration" where
  "ttl_of pos neg a = (case a of Inr _ \<Rightarrow> pos | Inl _ \<Rightarrow> neg)"

lemma last_fill_snoc:
  "last_fill k (ops @ [op]) r =
     (case op of OpBackfill j a t \<Rightarrow> if j = k \<and> a \<noteq> Inl ErrBackend then Some (a, t) else last_fill k ops r
               | OpLookup j t \<Rightarrow> last_fill k ops r)"
  by (induction k ops r rule: last_fill.induct) (auto split: cs_op.split)

lemma cs_backfill_eq:
  "cs_backfill hmac c k a t =
     (if a = Inl ErrBackend then c else cs_put hmac c k a (t + ttl_of (posTTL c) (negTTL c) a))"
  by (auto simp: cs_backfill_def ttl_of_def split: sum.split auth_error.split)

definition entry_true ::
  "(string \<Rightarrow> string) \<Rightarrow> duration \<Rightarrow> duration \<Rightarrow> cs_op list \<Rightarrow> string \<times> answer \<times> instant \<Rightarrow> bool" where
  "entry_true dig pos neg ops p \<longleftrightarrow>
     (\<exists>k \<in> op_key ` set ops. \<exists>t. fst p = dig k \<and> last_fill k ops None = Some (fst (snd p), t) \<and>
        snd (snd p) = t + ttl_of pos neg (fst (snd p)) \<and> fst (snd p) \<noteq> Inl ErrBackend)"

lemma lru_get_subset:
  "lru_get k t l = (l', r) \<Longrightarrow> set l' \<subseteq> set l"
  using map_of_SomeD [of l k] by (auto simp: lru_get_def lru_drop_def split: option.splits if_splits)

lemma entry_true_step:
  assumes "entry_true dig pos neg ops p" and "fst p \<noteq> dig (op_key op) \<or> (\<exists>t. op = OpLookup (op_key op) t)
      \<or> (\<exists>t. op = OpBackfill (op_key op) (Inl ErrBackend) t)"
  shows "entry_true dig pos neg (ops @ [op]) p"
  using assms unfolding entry_true_def by (cases op) (fastforce simp: last_fill_snoc)+


lemma cs_run_snoc [simp]: "cs_run hmac c (ops @ [op]) = cs_step hmac op (cs_run hmac c ops)"
  and cs_run_Nil [simp]: "cs_run hmac c [] = c"
  by (simp_all add: cs_run_def)

lemma NewCachedStore_ok: "cs_ok (NewCachedStore cap pos neg secret)"
  by (auto simp: cs_ok_def NewCachedStore_def linked_def split: option.split)

lemma cs_step_frame:
  "cs_ok c \<Longrightarrow> cs_ok (cs_step hmac op c) \<and> indexKey (cs_step hmac op c) = indexKey c \<and>
     cmax (cs_step hmac op c) = cmax c \<and> posTTL (cs_step hmac op c) = posTTL c \<and>
     negTTL (cs_step hmac op c) = negTTL c"
  using cs_lookup_refines [of c hmac] cs_put_refines [of c hmac]
  by (cases op) (simp_all add: cs_backfill_eq prod_eq_iff)

lemma cs_run_frame:
  "let c = cs_run hmac (NewCachedStore cap pos neg secret) ops in
     cs_ok c \<and> indexKey c = secret \<and> posTTL c = pos \<and> negTTL c = neg \<and>
     cmax c = cmax (NewCachedStore cap pos neg secret)"
proof (induction ops rule: rev_induct)
  case Nil
  then show ?case using NewCachedStore_ok by (simp add: NewCachedStore_def)
next
  case (snoc op ops)
  then show ?case using cs_step_frame [of "cs_run hmac (NewCachedStore cap pos neg secret) ops" hmac op]
    by (simp add: Let_def)
qed

lemma cs_run_entries:
  assumes "p \<in> set (abs_lru (order (cs_run hmac (NewCachedStore cap pos neg secret) ops)))"
  shows "entry_true (hashKey hmac secret) pos neg ops p"
  using assms
proof (induction ops arbitrary: p rule: rev_induct)
  case Nil
  then show ?case by (simp add: NewCachedStore_def abs_lru_def)
next
  case (snoc op ops)
  define c where "c = cs_run hmac (NewCachedStore cap pos neg secret) ops"
  have f: "cs_ok c" "indexKey c = secret" "posTTL c = pos" "negTTL c = neg"
    using cs_run_frame [of hmac cap pos neg secret ops] by (simp_all add: c_def Let_def)
  note IH = snoc.IH [folded c_def]
  show ?case
  proof (cases op)
    case (OpLookup k t)
    obtain c' r where cr: "cs_lookup hmac c k t = (c', r)" by fastforce
    then have "p \<in> set (abs_lru (order c))"
      using snoc.prems cs_lookup_refines [OF f(1) cr] lru_get_subset by (fastforce simp: OpLookup c_def [symmetric])
    then show ?thesis using entry_true_step [OF IH] OpLookup by simp
  next
    case (OpBackfill k a t)
    show ?thesis
    proof (cases "a = Inl ErrBackend")
      case True
      then have "p \<in> set (abs_lru (order c))"
        using snoc.prems by (simp add: OpBackfill c_def [symmetric] cs_backfill_eq)
      then show ?thesis using entry_true_step [OF IH] OpBackfill True by simp
    next
      case False
      have "p \<in> set (take (nat (cmax c)) ((hashKey hmac secret k, a, t + ttl_of pos neg a) #
          lru_drop (hashKey hmac secret k) (abs_lru (order c))))"
        using snoc.prems False cs_put_refines [OF f(1)]
        by (simp add: OpBackfill c_def [symmetric] cs_backfill_eq f cs_index_def lru_put_def)
      then consider "p = (hashKey hmac secret k, a, t + ttl_of pos neg a)"
        | "p \<in> set (abs_lru (order c))" "fst p \<noteq> hashKey hmac secret k"
        by (auto simp: lru_drop_def dest!: in_set_takeD)
      then show ?thesis
      proof cases
        case 1
        then show ?thesis using False by (auto simp: entry_true_def last_fill_snoc OpBackfill)
      next
        case 2
        then show ?thesis using entry_true_step [OF IH] OpBackfill by simp
      qed
    qed
  qed
qed

subsection \<open>Properties\<close>

definition demo_tenant :: tenant where
  "demo_tenant = snapshot_tenant demo_tier
     \<lparr>stID = ''t1'', stName = '''', stTier = ''pro'', stRole = '''', stOverrides = no_override, stKeys = []\<rparr>"

definition demo_history :: "cs_op list" where
  "demo_history = [OpLookup ''k'' 0, OpBackfill ''k'' (Inr demo_tenant) 1,
     OpBackfill ''j'' (Inl ErrUnauthorized) 2, OpBackfill ''j'' (Inl ErrBackend) 3]"

text \<open>
  C35: a cached identity is never staler than its TTL.  After any interleaving of
  lookups and backfills of concurrent requests, an answer served from memory is the
  last definite answer stored for that very key, stored no longer ago
  than the positive TTL for a tenant and the negative TTL for a refusal: a revoked key
  stops working within the positive TTL of its last backfill, and a backend failure is
  never remembered.  The list never outgrows its capacity, and holds exactly the
  elements the map points at.  The digests of the keys in play must not collide.
\<close>

theorem cached_identity_fresh:
  assumes "cs_lookup hmac (cs_run hmac (NewCachedStore cap pos neg secret) ops) k t = (c', Some ans)"
    and "inj_on (hmac secret) (insert k (op_key ` set ops))"
  shows "\<exists>t0. last_fill k ops None = Some (ans, t0) \<and> ans \<noteq> Inl ErrBackend \<and> t \<le> t0 + ttl_of pos neg ans \<and>
    int (length (order c')) \<le> cmax c' \<and> linked (items c') (order c')"
proof -
  define c where "c = cs_run hmac (NewCachedStore cap pos neg secret) ops"
  have f: "cs_ok c" "indexKey c = secret"
    using cs_run_frame [of hmac cap pos neg secret ops] by (simp_all add: c_def Let_def)
  note ref = cs_lookup_refines [OF f(1) assms(1) [folded c_def]]
  then obtain until where e: "map_of (abs_lru (order c)) (hashKey hmac secret k) = Some (ans, until)" "t \<le> until"
    by (auto simp: lru_get_def cs_index_def f split: option.splits if_splits)
  obtain j t0 where j: "j \<in> op_key ` set ops" "hashKey hmac secret k = hashKey hmac secret j"
    "last_fill j ops None = Some (ans, t0)" "until = t0 + ttl_of pos neg ans" "ans \<noteq> Inl ErrBackend"
    using cs_run_entries [OF map_of_SomeD [OF e(1), unfolded c_def]] by (auto simp: entry_true_def)
  have "k = j"
    using hashKey_eq_iff [where A = "insert k (op_key ` set ops)"] assms(2) j(1,2) by blast
  then show ?thesis using ref j e(2) by (auto simp: cs_ok_def)
qed

theorem cached_identity_fresh_witness:
  "let c = cs_run demo_hmac (NewCachedStore (Some 2) 60 5 ''s'') demo_history in
   snd (cs_lookup demo_hmac c ''k'' 61) = Some (Inr demo_tenant) \<and>
   last_fill ''k'' demo_history None = Some (Inr demo_tenant, 1) \<and>
   snd (cs_lookup demo_hmac c ''j'' 8) = None"
proof -
  let ?c = "cs_run demo_hmac (NewCachedStore (Some 2) 60 5 ''s'') demo_history"
  have "map_option isl (snd (cs_lookup demo_hmac ?c ''k'' 61)) = Some False"
    and j: "map_option isl (snd (cs_lookup demo_hmac ?c ''j'' 8)) = None"
    by code_simp+
  then obtain a where a: "snd (cs_lookup demo_hmac ?c ''k'' 61) = Some a" by blast
  have inj: "inj_on (demo_hmac ''s'') A" for A by (simp add: demo_hmac_def inj_on_def)
  have "\<exists>t0. last_fill ''k'' demo_history None = Some (a, t0)"
    using cached_identity_fresh [of demo_hmac "Some 2" 60 5 "''s''" demo_history "''k''" 61 _ a]
      a inj prod.collapse by metis
  moreover have l: "last_fill ''k'' demo_history None = Some (Inr demo_tenant, 1)"
    by (simp add: demo_history_def)
  ultimately show ?thesis using a j by (simp add: Let_def)
qed

end
