(* ===== verification/Limiter.thy ===== *)
theory Limiter
  imports Float64
begin

text \<open>
  The in-process rate limiter, \<^verbatim>\<open>internal/limiter/memory.go\<close>, with the port types
  of \<^verbatim>\<open>limiter.go\<close>: one RPM and one TPM token bucket per tenant, continuous refill
  in \<open>float64\<close>, and the sweep that drops idle buckets.  A bucket the source mutates
  through its pointer is written back under its key.
\<close>

record decision =
  Allowed :: bool
  RetryAfter :: duration

record limits =
  RPM :: int
  TPM :: int

record bucket =
  tokens :: rat
  lastRefill :: instant

type_synonym buckets = "string \<rightharpoonup> bucket"

record mem_limiter =
  rpm :: buckets
  tpm :: buckets
  sweptAt :: instant

definition bucketIdleTTL :: duration where "bucketIdleTTL = 120 * Second"

definition NewMemLimiter :: mem_limiter where
  "NewMemLimiter = \<lparr>rpm = Map.empty, tpm = Map.empty, sweptAt = 0\<rparr>"

definition refillOne :: "buckets \<Rightarrow> string \<Rightarrow> int \<Rightarrow> instant \<Rightarrow> bucket" where
  "refillOne bs key capacity t =
     (case bs key of
        None \<Rightarrow> \<lparr>tokens = f64 capacity, lastRefill = t\<rparr>
      | Some b \<Rightarrow>
          if capacity > 0
          then let rate = fl (f64 capacity / 60)
               in \<lparr>tokens = min (f64 capacity)
                     (fl (tokens b + fl (seconds (time_sub t (lastRefill b)) * rate))), lastRefill = t\<rparr>
          else b\<lparr>lastRefill := t\<rparr>)"

definition rpm_key :: "string \<Rightarrow> string" where "rpm_key tenant = tenant @ '':rpm''"
definition tpm_key :: "string \<Rightarrow> string" where "tpm_key tenant = tenant @ '':tpm''"

definition refilled :: "mem_limiter \<Rightarrow> string \<Rightarrow> limits \<Rightarrow> instant \<Rightarrow> bucket \<times> bucket" where
  "refilled m tenant ls t =
     (refillOne (rpm m) (rpm_key tenant) (RPM ls) t, refillOne (tpm m) (tpm_key tenant) (TPM ls) t)"

definition put_buckets :: "mem_limiter \<Rightarrow> string \<Rightarrow> bucket \<times> bucket \<Rightarrow> mem_limiter" where
  "put_buckets m tenant bb =
     m\<lparr>rpm := (rpm m)(rpm_key tenant \<mapsto> fst bb), tpm := (tpm m)(tpm_key tenant \<mapsto> snd bb)\<rparr>"

definition sweepIdleBuckets :: "buckets \<Rightarrow> instant \<Rightarrow> buckets" where
  "sweepIdleBuckets bs cutoff =
     (\<lambda>key. case bs key of None \<Rightarrow> None | Some b \<Rightarrow> if \<not> lastRefill b > cutoff then None else Some b)"

definition sweepLocked :: "mem_limiter \<Rightarrow> instant \<Rightarrow> mem_limiter" where
  "sweepLocked m t =
     (let cutoff = t - bucketIdleTTL
      in m\<lparr>rpm := sweepIdleBuckets (rpm m) cutoff, tpm := sweepIdleBuckets (tpm m) cutoff\<rparr>)"

definition sweepIfDue :: "mem_limiter \<Rightarrow> instant \<Rightarrow> mem_limiter" where
  "sweepIfDue m t =
     (if is_zero (sweptAt m) \<or> \<not> sweptAt m > t \<or> sweptAt m > t + bucketIdleTTL
      then (sweepLocked m t)\<lparr>sweptAt := t + bucketIdleTTL\<rparr>
      else m)"

text \<open>
  The conversion \<open>time.Duration(f)\<close> of a \<open>float64\<close> truncates toward zero;
  \<open>maxDurationSeconds\<close> is a constant expression, evaluated exactly and rounded once.
\<close>

definition maxDurationSeconds :: rat where
  "maxDurationSeconds = fl (of_int MaxInt64 / 1000000000)"

definition truncate_rat :: "rat \<Rightarrow> int" where
  "truncate_rat x = (if 0 \<le> x then \<lfloor>x\<rfloor> else \<lceil>x\<rceil>)"

definition deficitWait :: "rat \<Rightarrow> int \<Rightarrow> duration" where
  "deficitWait deficit capacity =
     (if capacity \<le> 0 \<or> deficit \<le> 0 then 0
      else let secs = fl (deficit / fl (f64 capacity / 60))
           in if secs \<ge> maxDurationSeconds then MaxInt64
              else let wait = truncate_rat (fl (secs * 1000000000))
                   in if wait < Millisecond then Millisecond else wait)"

text \<open>The decision on the two refilled buckets: the body of \<open>Allow\<close> after the sweep.\<close>

definition allow_locked ::
  "mem_limiter \<Rightarrow> string \<Rightarrow> limits \<Rightarrow> int \<Rightarrow> instant \<Rightarrow> mem_limiter \<times> decision" where
  "allow_locked m tenant ls n t =
     (let (rb, tb) = refilled m tenant ls t;
          rpmOK = (RPM ls \<le> 0 \<or> tokens rb \<ge> 1);
          tpmOK = (TPM ls \<le> 0 \<or> tokens tb \<ge> f64 n)
      in if rpmOK \<and> tpmOK
         then let rb1 = (if RPM ls > 0 then rb\<lparr>tokens := fl (tokens rb - 1)\<rparr> else rb);
                  tb1 = (if TPM ls > 0 then tb\<lparr>tokens := fl (tokens tb - f64 n)\<rparr> else tb)
              in (put_buckets m tenant (rb1, tb1), \<lparr>Allowed = True, RetryAfter = 0\<rparr>)
         else let w1 = (if \<not> rpmOK then deficitWait (fl (1 - tokens rb)) (RPM ls) else 0);
                  w2 = (if \<not> tpmOK
                        then let tpmWait = deficitWait (fl (f64 n - tokens tb)) (TPM ls)
                             in if tpmWait > w1 then tpmWait else w1
                        else w1)
              in (put_buckets m tenant (rb, tb), \<lparr>Allowed = False, RetryAfter = w2\<rparr>))"

definition limiter_Allow ::
  "mem_limiter \<Rightarrow> string \<Rightarrow> limits \<Rightarrow> int \<Rightarrow> instant \<Rightarrow> mem_limiter \<times> decision" where
  "limiter_Allow m tenant ls n t = allow_locked (sweepIfDue m t) tenant ls n t"

definition limiter_Refund ::
  "mem_limiter \<Rightarrow> string \<Rightarrow> limits \<Rightarrow> int \<Rightarrow> instant \<Rightarrow> mem_limiter" where
  "limiter_Refund m tenant ls n t =
     (if n \<le> 0 \<or> TPM ls \<le> 0 then m
      else let (rb, tb) = refilled m tenant ls t
           in put_buckets m tenant
                (rb, tb\<lparr>tokens := min (fl (tokens tb + f64 n)) (f64 (TPM ls))\<rparr>))"

text \<open>The \<open>Retry-After\<close> value of the rate-limiting stage (\<^verbatim>\<open>middleware.go\<close>).\<close>

definition retry_after_seconds :: "duration \<Rightarrow> int" where
  "retry_after_seconds d =
     (let s = d sdiv Second;
          s1 = (if d smod Second > 0 then s + 1 else s)
      in if s1 < 1 then 1 else s1)"

subsection \<open>Refill\<close>

lemma refillOne_last [simp]: "lastRefill (refillOne bs key cap t) = t"
  by (simp add: refillOne_def Let_def split: option.splits)

lemma refillOne_le_cap: "0 < cap \<Longrightarrow> tokens (refillOne bs key cap t) \<le> f64 cap"
  by (simp add: refillOne_def Let_def split: option.splits)

text \<open>
  A bucket is sound at a time when it was touched no later and holds between nothing
  and its capacity.  The clock never runs backwards between two calls: the source
  reads \<open>time.Now\<close>, whose differences use the monotonic reading.
\<close>

definition bucket_ok :: "int \<Rightarrow> instant \<Rightarrow> bucket option \<Rightarrow> bool" where
  "bucket_ok cap t x \<longleftrightarrow>
     (case x of None \<Rightarrow> True | Some b \<Rightarrow> lastRefill b \<le> t \<and> 0 \<le> tokens b \<and> tokens b \<le> f64 cap)"

definition limiter_ok :: "(string \<Rightarrow> limits) \<Rightarrow> mem_limiter \<Rightarrow> instant \<Rightarrow> bool" where
  "limiter_ok L m t \<longleftrightarrow>
     (\<forall>u. (RPM (L u) > 0 \<longrightarrow> bucket_ok (RPM (L u)) t (rpm m (rpm_key u))) \<and>
          (TPM (L u) > 0 \<longrightarrow> bucket_ok (TPM (L u)) t (tpm m (tpm_key u))))"

lemma rpm_key_inj [simp]: "rpm_key u = rpm_key v \<longleftrightarrow> u = v"
  by (simp add: rpm_key_def)

lemma tpm_key_inj [simp]: "tpm_key u = tpm_key v \<longleftrightarrow> u = v"
  by (simp add: tpm_key_def)

lemma put_buckets_simps [simp]:
  "rpm (put_buckets m u bb) = (rpm m)(rpm_key u \<mapsto> fst bb)"
  "tpm (put_buckets m u bb) = (tpm m)(tpm_key u \<mapsto> snd bb)"
  by (simp_all add: put_buckets_def)

lemma bucket_ok_later: "bucket_ok cap t x \<Longrightarrow> t \<le> t' \<Longrightarrow> bucket_ok cap t' x"
  by (auto simp: bucket_ok_def split: option.splits)

lemma refillOne_nonneg:
  assumes "\<And>b. bs key = Some b \<Longrightarrow> lastRefill b \<le> t \<and> 0 \<le> tokens b" and "0 < cap"
  shows "0 \<le> tokens (refillOne bs key cap t)"
proof (cases "bs key")
  case None
  then show ?thesis using assms(2) by (simp add: refillOne_def f64_nonneg)
next
  case (Some b)
  have "0 \<le> time_sub t (lastRefill b)"
    using assms(1) [OF Some] by (simp add: time_sub_nonneg)
  then have "0 \<le> fl (seconds (time_sub t (lastRefill b)) * fl (f64 cap / 60))"
    using assms(2) by (intro fl_nonneg mult_nonneg_nonneg seconds_nonneg) (simp_all add: f64_nonneg)
  then show ?thesis
    using assms Some by (simp add: refillOne_def Let_def f64_nonneg fl_nonneg)
qed

text \<open>
  After the idle horizon a refilled bucket stands at exactly its capacity, the
  rounding of the rate and of the product notwithstanding: the horizon covers twice
  the capacity.
\<close>

lemma seconds_ge:
  assumes "k * Second \<le> d" and "0 \<le> k" and "k \<le> 2 ^ 53"
  shows "of_int k \<le> seconds d"
proof -
  have d: "0 \<le> d" using assms by simp
  have "k \<le> d div Second" using assms(1) by (simp add: zdiv_mono1 [of "k * Second" d Second, simplified])
  then have "of_int k \<le> fl (of_int (d div Second))"
    using fl_int [of k] assms by (intro fl_ge_fl) simp_all
  moreover have "0 \<le> fl (fl (of_int (d mod Second)) / 1000000000)"
    by (simp add: fl_nonneg)
  ultimately have "of_int k \<le> fl (fl (of_int (d div Second)) + fl (fl (of_int (d mod Second)) / 1000000000))"
    using fl_int [of k] assms by (intro fl_ge_fl) simp_all
  then show ?thesis using d by (simp add: seconds_def Let_def sdiv_nonneg_pos smod_nonneg_pos)
qed

lemma refillOne_idle_full:
  assumes "bs key = Some b" and "lastRefill b + bucketIdleTTL \<le> t" and "0 \<le> tokens b" and "0 < cap"
  shows "refillOne bs key cap t = \<lparr>tokens = f64 cap, lastRefill = t\<rparr>"
proof -
  let ?rate = "fl (f64 cap / 60)"
  have c: "1 \<le> f64 cap" using assms(4) by (rule f64_pos)
  have "120 * Second \<le> time_sub t (lastRefill b)"
    using assms(2) time_sub_ge [of "120 * Second" t "lastRefill b"]
    by (simp add: bucketIdleTTL_def MaxInt64_def)
  then have s: "120 \<le> seconds (time_sub t (lastRefill b))"
    using seconds_ge [of 120] by simp
  have "f64 cap / 60 * (1 - 1 / 2 ^ 53) \<le> ?rate" using c by (intro fl_lower) simp
  moreover have "f64 cap / 120 \<le> f64 cap / 60 * (1 - 1 / 2 ^ 53)" using c by (simp add: field_simps)
  ultimately have r: "f64 cap / 120 \<le> ?rate" by simp
  have "120 * (f64 cap / 120) \<le> seconds (time_sub t (lastRefill b)) * ?rate"
    using s r c by (intro mult_mono) simp_all
  then have "f64 cap \<le> fl (seconds (time_sub t (lastRefill b)) * ?rate)"
    by (intro fl_ge_fl) simp_all
  then have "f64 cap \<le> fl (tokens b + fl (seconds (time_sub t (lastRefill b)) * ?rate))"
    using assms(3) by (intro fl_ge_fl) simp_all
  then show ?thesis using assms(1,4) by (simp add: refillOne_def Let_def)
qed

lemma refillOne_ok:
  assumes "bucket_ok cap t (bs key)" and "0 < cap"
  shows "bucket_ok cap t (Some (refillOne bs key cap t))"
  using assms refillOne_nonneg [of bs key t cap] refillOne_le_cap [of cap bs key t]
  by (simp add: bucket_ok_def split: option.splits)

lemma bucket_ok_deduct:
  assumes "bucket_ok cap t (Some b)" and "0 \<le> c" and "c \<le> tokens b"
  shows "bucket_ok cap t (Some (b\<lparr>tokens := fl (tokens b - c)\<rparr>))"
  using assms by (auto simp: bucket_ok_def fl_nonneg intro: fl_le_fl)

lemma bucket_ok_refund:
  assumes "bucket_ok cap t (Some b)" and "0 \<le> c" and "0 < cap"
  shows "bucket_ok cap t (Some (b\<lparr>tokens := min (fl (tokens b + c)) (f64 cap)\<rparr>))"
  using assms by (auto simp: bucket_ok_def fl_nonneg f64_nonneg)

lemma allow_locked_ok:
  assumes "limiter_ok L m t" and "0 \<le> n"
  shows "limiter_ok L (fst (allow_locked m u (L u) n t)) t"
proof -
  obtain rb tb where r: "refilled m u (L u) t = (rb, tb)" by fastforce
  have rok: "RPM (L u) > 0 \<Longrightarrow> bucket_ok (RPM (L u)) t (Some rb)"
    and tok: "TPM (L u) > 0 \<Longrightarrow> bucket_ok (TPM (L u)) t (Some tb)"
    using r assms(1) refillOne_ok by (auto simp: refilled_def limiter_ok_def)
  show ?thesis
    using assms(1) rok tok bucket_ok_deduct [OF rok, of 1] bucket_ok_deduct [OF tok, of "f64 n"] assms(2)
    by (auto simp: allow_locked_def r Let_def limiter_ok_def f64_nonneg)
qed

lemma refund_ok:
  assumes "limiter_ok L m t"
  shows "limiter_ok L (limiter_Refund m u (L u) n t) t"
proof -
  obtain rb tb where r: "refilled m u (L u) t = (rb, tb)" by fastforce
  have rok: "RPM (L u) > 0 \<Longrightarrow> bucket_ok (RPM (L u)) t (Some rb)"
    and tok: "TPM (L u) > 0 \<Longrightarrow> bucket_ok (TPM (L u)) t (Some tb)"
    using r assms(1) refillOne_ok by (auto simp: refilled_def limiter_ok_def)
  show ?thesis
    using assms(1) rok bucket_ok_refund [OF tok, of "f64 n"]
    by (auto simp: limiter_Refund_def r limiter_ok_def f64_nonneg)
qed

subsection \<open>Dropping idle buckets is invisible\<close>

text \<open>
  The reference limiter never sweeps.  The two are related at a time when, in every
  enforced dimension, a bucket is the same in both, or gone from the swept one and
  idle for at least the horizon in the other.
\<close>

datatype lim_op = OpAllow string int instant | OpRefund string int instant

fun op_time :: "lim_op \<Rightarrow> instant" where
  "op_time (OpAllow u n t) = t"
| "op_time (OpRefund u n t) = t"

fun op_amount :: "lim_op \<Rightarrow> int" where
  "op_amount (OpAllow u n t) = n"
| "op_amount (OpRefund u n t) = n"

fun lim_step :: "(string \<Rightarrow> limits) \<Rightarrow> mem_limiter \<Rightarrow> lim_op \<Rightarrow> mem_limiter \<times> decision option" where
  "lim_step L m (OpAllow u n t) =
     (case limiter_Allow m u (L u) n t of (m', d) \<Rightarrow> (m', Some d))"
| "lim_step L m (OpRefund u n t) = (limiter_Refund m u (L u) n t, None)"

fun ref_step :: "(string \<Rightarrow> limits) \<Rightarrow> mem_limiter \<Rightarrow> lim_op \<Rightarrow> mem_limiter \<times> decision option" where
  "ref_step L m (OpAllow u n t) =
     (case allow_locked m u (L u) n t of (m', d) \<Rightarrow> (m', Some d))"
| "ref_step L m (OpRefund u n t) = (limiter_Refund m u (L u) n t, None)"

fun run_ops ::
  "(mem_limiter \<Rightarrow> lim_op \<Rightarrow> mem_limiter \<times> decision option) \<Rightarrow> mem_limiter \<Rightarrow> lim_op list
    \<Rightarrow> mem_limiter \<times> decision option list" where
  "run_ops step m [] = (m, [])"
| "run_ops step m (x # xs) =
     (case step m x of (m1, d) \<Rightarrow> (case run_ops step m1 xs of (m2, ds) \<Rightarrow> (m2, d # ds)))"

text \<open>A trace is timed from \<open>t\<close> when its clock readings never decrease.\<close>

fun timed :: "instant \<Rightarrow> lim_op list \<Rightarrow> bool" where
  "timed t [] \<longleftrightarrow> True"
| "timed t (x # xs) \<longleftrightarrow> t \<le> op_time x \<and> 0 \<le> op_amount x \<and> timed (op_time x) xs"

definition bucket_rel :: "instant \<Rightarrow> bucket option \<Rightarrow> bucket option \<Rightarrow> bool" where
  "bucket_rel t x y \<longleftrightarrow>
     y = x \<or> (y = None \<and> (case x of None \<Rightarrow> False | Some b \<Rightarrow> lastRefill b + bucketIdleTTL \<le> t))"

definition limiter_rel :: "(string \<Rightarrow> limits) \<Rightarrow> instant \<Rightarrow> mem_limiter \<Rightarrow> mem_limiter \<Rightarrow> bool" where
  "limiter_rel L t m m' \<longleftrightarrow>
     (\<forall>u. (RPM (L u) > 0 \<longrightarrow> bucket_rel t (rpm m (rpm_key u)) (rpm m' (rpm_key u))) \<and>
          (TPM (L u) > 0 \<longrightarrow> bucket_rel t (tpm m (tpm_key u)) (tpm m' (tpm_key u))))"

lemma bucket_rel_later: "bucket_rel t x y \<Longrightarrow> t \<le> t' \<Longrightarrow> bucket_rel t' x y"
  by (auto simp: bucket_rel_def split: option.splits)

lemma limiter_later:
  assumes "t \<le> t'"
  shows "limiter_ok L m t \<Longrightarrow> limiter_ok L m t'" and "limiter_rel L t m m' \<Longrightarrow> limiter_rel L t' m m'"
  using assms bucket_ok_later bucket_rel_later by (fastforce simp: limiter_ok_def limiter_rel_def)+

lemma bucket_rel_sweep:
  "bucket_rel t (bs key) (bs' key) \<Longrightarrow>
     bucket_rel t (bs key) (sweepIdleBuckets bs' (t - bucketIdleTTL) key)"
  by (auto simp: bucket_rel_def sweepIdleBuckets_def split: option.splits)

lemma limiter_rel_sweep: "limiter_rel L t m m' \<Longrightarrow> limiter_rel L t m (sweepIfDue m' t)"
  by (simp add: limiter_rel_def sweepIfDue_def sweepLocked_def Let_def bucket_rel_sweep)

lemma refillOne_rel:
  assumes "bucket_rel t (bs key) (bs' key)" and "bucket_ok cap t (bs key)" and "0 < cap"
  shows "refillOne bs' key cap t = refillOne bs key cap t"
proof (cases "bs' key = bs key")
  case True
  then show ?thesis by (simp add: refillOne_def)
next
  case False
  then obtain b where "bs' key = None" "bs key = Some b" "lastRefill b + bucketIdleTTL \<le> t"
    using assms(1) by (auto simp: bucket_rel_def split: option.splits)
  then show ?thesis
    using refillOne_idle_full [of bs key b t cap] assms(2,3)
    by (simp add: refillOne_def [of bs'] bucket_ok_def)
qed

lemma allow_locked_rel:
  assumes "limiter_rel L t m m'" and "limiter_ok L m t"
  shows "snd (allow_locked m' u (L u) n t) = snd (allow_locked m u (L u) n t) \<and>
    limiter_rel L t (fst (allow_locked m u (L u) n t)) (fst (allow_locked m' u (L u) n t))"
proof -
  obtain rb tb rb' tb' where r: "refilled m u (L u) t = (rb, tb)" "refilled m' u (L u) t = (rb', tb')"
    by fastforce
  have eq: "RPM (L u) > 0 \<Longrightarrow> rb' = rb" "TPM (L u) > 0 \<Longrightarrow> tb' = tb"
    using r assms refillOne_rel by (auto simp: refilled_def limiter_rel_def limiter_ok_def)
  then show ?thesis
    using assms(1)
    by (cases "RPM (L u) > 0"; cases "TPM (L u) > 0")
      (auto simp: allow_locked_def r Let_def limiter_rel_def bucket_rel_def)
qed

lemma refund_rel:
  assumes "limiter_rel L t m m'" and "limiter_ok L m t"
  shows "limiter_rel L t (limiter_Refund m u (L u) n t) (limiter_Refund m' u (L u) n t)"
proof -
  obtain rb tb rb' tb' where r: "refilled m u (L u) t = (rb, tb)" "refilled m' u (L u) t = (rb', tb')"
    by fastforce
  have eq: "RPM (L u) > 0 \<Longrightarrow> rb' = rb" "TPM (L u) > 0 \<Longrightarrow> tb' = tb"
    using r assms refillOne_rel by (auto simp: refilled_def limiter_rel_def limiter_ok_def)
  then show ?thesis
    using assms(1)
    by (auto simp: limiter_Refund_def r limiter_rel_def bucket_rel_def)
qed

lemma ref_step_ok:
  assumes "limiter_ok L m (op_time x)" and "0 \<le> op_amount x"
  shows "limiter_ok L (fst (ref_step L m x)) (op_time x)"
  using assms allow_locked_ok refund_ok by (cases x) (auto simp: case_prod_beta)

lemma step_rel:
  assumes "limiter_rel L (op_time x) m m'" and "limiter_ok L m (op_time x)"
  shows "snd (lim_step L m' x) = snd (ref_step L m x) \<and>
    limiter_rel L (op_time x) (fst (ref_step L m x)) (fst (lim_step L m' x))"
  using assms allow_locked_rel limiter_rel_sweep refund_rel
  by (cases x) (auto simp: limiter_Allow_def case_prod_beta)

lemma run_rel:
  assumes "limiter_rel L t m m'" and "limiter_ok L m t" and "timed t xs"
  shows "snd (run_ops (lim_step L) m' xs) = snd (run_ops (ref_step L) m xs)"
  using assms
proof (induction xs arbitrary: t m m')
  case (Cons x xs)
  then have x: "t \<le> op_time x" "0 \<le> op_amount x" "timed (op_time x) xs" by simp_all
  have rel: "limiter_rel L (op_time x) m m'" "limiter_ok L m (op_time x)"
    using limiter_later [OF x(1)] Cons.prems by auto
  show ?case
    using step_rel [OF rel] Cons.IH [OF _ ref_step_ok [OF rel(2) x(2)] x(3)]
    by (auto simp: case_prod_beta)
qed simp

subsection \<open>The rate a tenant can reach\<close>

text \<open>
  The level of a bucket at a time: what it would hold if refilled then, with the
  worst rounding of the refill, capped.  Every operation moves the level by what it
  charges or returns, up to two roundings of at most the capacity each.
\<close>

definition eps :: rat where "eps = 1 / 2 ^ 53"

definition gain :: "int \<Rightarrow> duration \<Rightarrow> rat" where
  "gain cap d = of_int d / 1000000000 * (f64 cap / 60) * (1 + eps) ^ 5"

definition level :: "int \<Rightarrow> instant \<Rightarrow> bucket option \<Rightarrow> rat" where
  "level cap t x =
     (case x of None \<Rightarrow> f64 cap
      | Some b \<Rightarrow> min (f64 cap) (tokens b + gain cap (t - lastRefill b)))"

lemma eps_pos: "0 < eps" "0 \<le> eps"
  by (simp_all add: eps_def)

lemma gain_mono: "0 < cap \<Longrightarrow> d \<le> d' \<Longrightarrow> gain cap d \<le> gain cap d'"
  unfolding gain_def using eps_pos
  by (intro mult_right_mono) (simp_all add: f64_nonneg divide_right_mono)

lemma gain_add: "gain cap (a + b) = gain cap a + gain cap b"
  by (simp add: gain_def field_simps)

lemma gain_nonneg: "0 < cap \<Longrightarrow> 0 \<le> d \<Longrightarrow> 0 \<le> gain cap d"
  using gain_mono [of cap 0 d] by (simp add: gain_def)

lemma level_grow:
  assumes "t \<le> t'" and "0 < cap"
  shows "level cap t' x \<le> level cap t x + gain cap (t' - t)"
proof (cases x)
  case (Some b)
  have "gain cap (t' - lastRefill b) = gain cap (t - lastRefill b) + gain cap (t' - t)"
    using gain_add [of cap "t - lastRefill b" "t' - t"] by simp
  then show ?thesis using Some gain_nonneg [of cap "t' - t"] assms by (simp add: level_def min_def)
qed (use gain_nonneg [of cap "t' - t"] assms in \<open>simp add: level_def\<close>)

lemma seconds_upper:
  assumes "0 \<le> d"
  shows "seconds d \<le> of_int d / 1000000000 * (1 + eps) ^ 2"
proof -
  let ?s = "d div Second" and ?n = "d mod Second"
  have n: "0 \<le> ?n" "?n < Second" by simp_all
  have s0: "0 \<le> ?s" using assms by simp
  have fn: "fl (of_int ?n) = of_int ?n" using n by (intro fl_int) simp
  have a: "fl (of_int ?s) \<le> of_int ?s * (1 + eps)"
    unfolding eps_def using s0 by (intro fl_upper) simp
  have b: "fl (of_int ?n / 1000000000) \<le> of_int ?n / 1000000000 * (1 + eps)"
    unfolding eps_def using n by (intro fl_upper) simp
  have ab: "0 \<le> fl (of_int ?s)" "0 \<le> fl (of_int ?n / 1000000000)"
    using s0 n by (simp_all add: fl_nonneg)
  have "seconds d = fl (fl (of_int ?s) + fl (of_int ?n / 1000000000))"
    using assms by (simp add: seconds_def Let_def sdiv_nonneg_pos smod_nonneg_pos fn)
  also have "\<dots> \<le> (fl (of_int ?s) + fl (of_int ?n / 1000000000)) * (1 + eps)"
    unfolding eps_def using ab by (intro fl_upper) simp
  also have "\<dots> \<le> (of_int ?s * (1 + eps) + of_int ?n / 1000000000 * (1 + eps)) * (1 + eps)"
    using a b eps_pos by (intro mult_right_mono) simp_all
  also have "\<dots> = (of_int ?s + of_int ?n / 1000000000) * (1 + eps) ^ 2"
    by (simp add: power2_eq_square algebra_simps)
  also have "of_int ?s + of_int ?n / 1000000000 = (of_int d / 1000000000 :: rat)"
  proof -
    have "(of_int d :: rat) = of_int (?s * Second + ?n)" by (simp only: div_mult_mod_eq)
    also have "\<dots> = of_int ?s * 1000000000 + of_int ?n"
      by (simp only: of_int_add of_int_mult of_int_numeral)
    finally show ?thesis by (simp add: add_divide_distrib)
  qed
  finally show ?thesis .
qed

lemma refill_gain:
  assumes "0 \<le> d" and "0 < cap"
  shows "fl (seconds d * fl (f64 cap / 60)) * (1 + eps) \<le> gain cap d"
proof -
  let ?r = "fl (f64 cap / 60)"
  have c: "0 \<le> f64 cap" using assms by (simp add: f64_nonneg)
  have "?r \<le> f64 cap / 60 * (1 + eps)"
    unfolding eps_def using c by (intro fl_upper) simp
  then have "seconds d * ?r \<le> (of_int d / 1000000000 * (1 + eps) ^ 2) * (f64 cap / 60 * (1 + eps))"
    using seconds_upper [OF assms(1)] seconds_nonneg [OF assms(1)] assms c eps_pos
    by (intro mult_mono) (simp_all add: fl_nonneg)
  moreover have "fl (seconds d * ?r) \<le> seconds d * ?r * (1 + eps)"
    unfolding eps_def using c by (intro fl_upper mult_nonneg_nonneg seconds_nonneg assms fl_nonneg) simp
  moreover have "0 \<le> 1 + eps" using eps_pos by simp
  ultimately have "fl (seconds d * ?r) \<le>
      (of_int d / 1000000000 * (1 + eps) ^ 2) * (f64 cap / 60 * (1 + eps)) * (1 + eps)"
    by (meson mult_right_mono order_trans)
  then have "fl (seconds d * ?r) * (1 + eps) \<le>
      (of_int d / 1000000000 * (1 + eps) ^ 2) * (f64 cap / 60 * (1 + eps)) * (1 + eps) * (1 + eps)"
    using eps_pos by (intro mult_right_mono) simp_all
  also have "\<dots> = gain cap d"
    by (simp add: gain_def power_numeral_reduce)
  finally show ?thesis .
qed

lemma refill_level:
  assumes "bucket_ok cap t (bs key)" and "0 < cap"
  shows "tokens (refillOne bs key cap t) \<le> level cap t (bs key) + eps * f64 cap"
proof (cases "bs key")
  case None
  then show ?thesis using eps_pos assms(2) by (simp add: refillOne_def level_def f64_nonneg)
next
  case (Some b)
  let ?d = "time_sub t (lastRefill b)"
  have b: "lastRefill b \<le> t" "0 \<le> tokens b" "tokens b \<le> f64 cap"
    using assms(1) Some by (simp_all add: bucket_ok_def)
  have d: "0 \<le> ?d" "?d \<le> t - lastRefill b" using b by (simp_all add: time_sub_nonneg time_sub_le)
  let ?p = "fl (seconds ?d * fl (f64 cap / 60))"
  have p: "0 \<le> ?p"
    using assms(2) by (intro fl_nonneg mult_nonneg_nonneg seconds_nonneg d) (simp add: f64_nonneg)
  have "fl (tokens b + ?p) \<le> (tokens b + ?p) * (1 + eps)"
    unfolding eps_def using b p by (intro fl_upper) simp
  also have "\<dots> = tokens b + eps * tokens b + ?p * (1 + eps)" by (simp add: algebra_simps)
  also have "\<dots> \<le> tokens b + eps * f64 cap + gain cap (t - lastRefill b)"
    using refill_gain [OF d(1) assms(2)] gain_mono [OF assms(2) d(2)] b eps_pos
    by (intro add_mono mult_left_mono) simp_all
  finally have "fl (tokens b + ?p) \<le> tokens b + gain cap (t - lastRefill b) + eps * f64 cap" by simp
  moreover have "0 \<le> eps * f64 cap" using eps_pos assms(2) by (simp add: f64_nonneg)
  ultimately show ?thesis
    using Some assms(2) by (simp add: refillOne_def level_def Let_def min_def)
qed

lemma level_now: "level cap t (Some \<lparr>tokens = k, lastRefill = t\<rparr>) \<le> k"
  by (simp add: level_def gain_def)

text \<open>Tokens charged by the admitted calls of a tenant, and tokens it got back.\<close>

fun charged :: "string \<Rightarrow> lim_op list \<Rightarrow> decision option list \<Rightarrow> rat" where
  "charged u (OpAllow v n t # xs) (Some d # ds) =
     (if v = u \<and> Allowed d then f64 n else 0) + charged u xs ds"
| "charged u (_ # xs) (_ # ds) = charged u xs ds"
| "charged u _ _ = 0"

fun returned :: "string \<Rightarrow> lim_op list \<Rightarrow> rat" where
  "returned u (OpRefund v n t # xs) = (if v = u then f64 n else 0) + returned u xs"
| "returned u (_ # xs) = returned u xs"
| "returned u [] = 0"

lemma allow_locked_other: "v \<noteq> u \<Longrightarrow> tpm (fst (allow_locked m v ls n t)) (tpm_key u) = tpm m (tpm_key u)"
  by (simp add: allow_locked_def Let_def case_prod_beta)

lemma refund_other: "v \<noteq> u \<Longrightarrow> tpm (limiter_Refund m v ls n t) (tpm_key u) = tpm m (tpm_key u)"
  by (simp add: limiter_Refund_def Let_def case_prod_beta)

lemma allow_locked_level:
  assumes "limiter_ok L m t" and "0 \<le> n" and cap: "0 < TPM (L u)"
    and "allow_locked m u (L u) n t = (m', d)"
  shows "level (TPM (L u)) t (tpm m' (tpm_key u)) + (if Allowed d then f64 n else 0)
    \<le> level (TPM (L u)) t (tpm m (tpm_key u)) + 2 * eps * f64 (TPM (L u))"
proof -
  let ?cap = "TPM (L u)"
  define tb where "tb = refillOne (tpm m) (tpm_key u) ?cap t"
  have c: "0 \<le> eps * f64 ?cap" using eps_pos cap by (simp add: f64_nonneg)
  have ok: "bucket_ok ?cap t (tpm m (tpm_key u))"
    using assms(1) cap by (simp add: limiter_ok_def)
  have tb: "tokens tb \<le> level ?cap t (tpm m (tpm_key u)) + eps * f64 ?cap" "lastRefill tb = t"
    using refill_level [of ?cap t "tpm m" "tpm_key u", OF ok cap] by (simp_all add: tb_def)
  have tbc: "tokens tb \<le> f64 ?cap" using refillOne_le_cap [OF cap] by (simp add: tb_def)
  have n: "0 \<le> f64 n" using assms(2) by (rule f64_nonneg)
  show ?thesis
  proof (cases "Allowed d")
    case True
    then have m': "tpm m' (tpm_key u) = Some (tb\<lparr>tokens := fl (tokens tb - f64 n)\<rparr>)"
      and enough: "f64 n \<le> tokens tb"
      using assms(4) cap by (auto simp: allow_locked_def refilled_def tb_def Let_def split: if_splits)
    have "fl (tokens tb - f64 n) \<le> (tokens tb - f64 n) * (1 + eps)"
      unfolding eps_def using enough by (intro fl_upper) simp
    also have "\<dots> = (tokens tb - f64 n) + eps * (tokens tb - f64 n)" by (simp add: algebra_simps)
    also have "\<dots> \<le> (tokens tb - f64 n) + eps * f64 ?cap"
      using eps_pos tbc n by (intro add_left_mono mult_left_mono) simp_all
    finally show ?thesis
      using True tb c by (simp add: m' level_def gain_def min_def)
  next
    case False
    then have "tpm m' (tpm_key u) = Some tb"
      using assms(4) by (auto simp: allow_locked_def refilled_def tb_def Let_def split: if_splits)
    then show ?thesis
      using False tb c by (simp add: level_def gain_def min_def)
  qed
qed

lemma refund_level:
  assumes "limiter_ok L m t" and "0 \<le> n" and cap: "0 < TPM (L u)"
  shows "level (TPM (L u)) t (tpm (limiter_Refund m u (L u) n t) (tpm_key u))
    \<le> level (TPM (L u)) t (tpm m (tpm_key u)) + f64 n + 2 * eps * f64 (TPM (L u))"
proof (cases "n \<le> 0")
  case True
  have "0 \<le> eps * f64 (TPM (L u))" using eps_pos cap by (simp add: f64_nonneg)
  then show ?thesis using True assms(2) by (simp add: limiter_Refund_def f64_def)
next
  case False
  let ?cap = "TPM (L u)"
  define tb where "tb = refillOne (tpm m) (tpm_key u) ?cap t"
  have c: "0 \<le> eps * f64 ?cap" using eps_pos cap by (simp add: f64_nonneg)
  have ok: "bucket_ok ?cap t (tpm m (tpm_key u))"
    using assms(1) cap by (simp add: limiter_ok_def)
  have tb: "tokens tb \<le> level ?cap t (tpm m (tpm_key u)) + eps * f64 ?cap" "lastRefill tb = t"
    "0 \<le> tokens tb"
    using refill_level [of ?cap t "tpm m" "tpm_key u", OF ok cap] refillOne_ok [of ?cap t "tpm m" "tpm_key u", OF ok cap] by (simp_all add: tb_def bucket_ok_def)
  have n: "0 \<le> f64 n" using assms(2) by (rule f64_nonneg)
  have "min (fl (tokens tb + f64 n)) (f64 ?cap) \<le> tokens tb + f64 n + eps * f64 ?cap"
  proof (cases "tokens tb + f64 n \<le> f64 ?cap")
    case True
    have "fl (tokens tb + f64 n) \<le> (tokens tb + f64 n) * (1 + eps)"
      unfolding eps_def using tb n by (intro fl_upper) simp
    also have "\<dots> = (tokens tb + f64 n) + eps * (tokens tb + f64 n)" by (simp add: algebra_simps)
    also have "\<dots> \<le> (tokens tb + f64 n) + eps * f64 ?cap"
      using eps_pos True by (intro add_left_mono mult_left_mono) simp_all
    finally show ?thesis by simp
  qed (use c in \<open>simp add: min_def\<close>)
  moreover have "tpm (limiter_Refund m u (L u) n t) (tpm_key u) =
      Some (tb\<lparr>tokens := min (fl (tokens tb + f64 n)) (f64 ?cap)\<rparr>)"
    using False cap by (simp add: limiter_Refund_def refilled_def tb_def)
  ultimately show ?thesis
    using tb by (simp add: level_def gain_def)
qed

lemma run_level:
  assumes "limiter_ok L m t" and "timed t xs" and "\<forall>x \<in> set xs. op_time x \<le> t'" and "t \<le> t'"
    and cap: "0 < TPM (L u)"
  shows "charged u xs (snd (run_ops (ref_step L) m xs)) \<le>
    level (TPM (L u)) t (tpm m (tpm_key u)) + gain (TPM (L u)) (t' - t) + returned u xs
      + of_nat (length xs) * (2 * eps * f64 (TPM (L u)))"
  using assms(1-4)
proof (induction xs arbitrary: t m)
  case Nil
  have "0 \<le> level (TPM (L u)) t (tpm m (tpm_key u))"
    using Nil.prems cap gain_nonneg [OF cap]
    by (auto simp: level_def limiter_ok_def bucket_ok_def f64_nonneg split: option.splits)
  then show ?case using gain_nonneg [OF cap, of "t' - t"] Nil by simp
next
  case (Cons x xs)
  let ?cap = "TPM (L u)" and ?s = "op_time x"
  have x: "t \<le> ?s" "0 \<le> op_amount x" "timed ?s xs" "?s \<le> t'" using Cons.prems by simp_all
  have ok: "limiter_ok L m ?s" using limiter_later(1) [OF x(1) Cons.prems(1)] .
  let ?m = "fst (ref_step L m x)"
  have IH: "charged u xs (snd (run_ops (ref_step L) ?m xs)) \<le>
      level ?cap ?s (tpm ?m (tpm_key u)) + gain ?cap (t' - ?s) + returned u xs
      + of_nat (length xs) * (2 * eps * f64 ?cap)"
    using Cons.IH [OF ref_step_ok [OF ok x(2)] x(3) _ x(4)] Cons.prems(3) by simp
  have grow: "level ?cap ?s (tpm m (tpm_key u)) \<le> level ?cap t (tpm m (tpm_key u)) + gain ?cap (?s - t)"
    by (rule level_grow [OF x(1) cap])
  have g: "gain ?cap (t' - t) = gain ?cap (t' - ?s) + gain ?cap (?s - t)"
    using gain_add [of ?cap "t' - ?s" "?s - t"] by simp
  have e: "0 \<le> 2 * eps * f64 ?cap" using eps_pos cap by (simp add: f64_nonneg)
  show ?case
  proof (cases x)
    case (OpAllow v n s)
    obtain m1 d where a: "allow_locked m v (L v) n s = (m1, d)" by fastforce
    have "level ?cap s (tpm m1 (tpm_key u)) + (if v = u \<and> Allowed d then f64 n else 0)
        \<le> level ?cap s (tpm m (tpm_key u)) + 2 * eps * f64 ?cap"
    proof (cases "v = u")
      case True
      then show ?thesis using allow_locked_level [of L m s n u m1 d] cap ok x(2) a OpAllow by simp
    next
      case False
      then show ?thesis using allow_locked_other [OF False, of m "L v" n s] a e by simp
    qed
    then show ?thesis
      using IH grow g a OpAllow by (simp add: case_prod_beta distrib_right)
  next
    case (OpRefund v n s)
    have "level ?cap s (tpm ?m (tpm_key u))
        \<le> level ?cap s (tpm m (tpm_key u)) + (if v = u then f64 n else 0) + 2 * eps * f64 ?cap"
    proof (cases "v = u")
      case True
      then show ?thesis using refund_level [of L m s n u] cap ok x(2) OpRefund by simp
    next
      case False
      then show ?thesis using refund_other [OF False, of m "L v" n s] OpRefund e by simp
    qed
    then show ?thesis
      using IH grow g OpRefund by (simp add: case_prod_beta distrib_right)
  qed
qed

subsection \<open>The advertised wait\<close>

text \<open>
  \<open>maxDurationSeconds\<close> rounds above the exact quotient, so comparing against it does
  not by itself keep the product in range; the grid of the representable values below
  it does.
\<close>

lemma maxDurationSeconds_code [code]: "maxDurationSeconds = 4835703278458517 / 524288"
  unfolding maxDurationSeconds_def MaxInt64_def by code_simp

lemma maxDurationSeconds_eq: "maxDurationSeconds = of_int 4835703278458517 * 2 powi (- 19)"
  unfolding maxDurationSeconds_code by (simp add: power_int_minus)

lemma wait_in_range:
  assumes "fl x < maxDurationSeconds" and "0 \<le> x"
  shows "fl (fl x * 1000000000) < 2 ^ 63"
proof -
  have "fl x \<le> of_int 4835703278458516 * 2 powi (- 19)"
  proof (cases "2 powi (- 19 + 52) \<le> x")
    case True
    then obtain k where k: "fl x = of_int k * 2 powi (- 19)" using fl_grid by blast
    then have "k < 4835703278458517"
      using assms(1) unfolding maxDurationSeconds_eq
      by (metis mult_right_less_imp_less of_int_less_iff zero_le_numeral zero_le_power_int)
    then have "k \<le> 4835703278458516" by simp
    then show ?thesis unfolding k by (intro mult_right_mono) simp_all
  next
    case False
    then have "fl x \<le> fl (2 powi 33)" by (intro fl_mono) simp
    also have "\<dots> = 2 powi 33" using fl_exact [of 1 33] by simp
    also have "\<dots> \<le> of_int 4835703278458516 * 2 powi (- 19)" by code_simp
    finally show ?thesis .
  qed
  then have "fl (fl x * 1000000000) \<le> fl (of_int 4835703278458516 * 2 powi (- 19) * 1000000000)"
    by (intro fl_mono mult_right_mono) simp_all
  also have "\<dots> < 2 ^ 63" by code_simp
  finally show ?thesis .
qed

lemma deficitWait_range:
  assumes "0 < deficit" and "0 < cap"
  shows "Millisecond \<le> deficitWait deficit cap \<and> deficitWait deficit cap \<le> MaxInt64"
proof -
  let ?q = "deficit / fl (f64 cap / 60)"
  have q: "0 \<le> ?q" using assms f64_pos [of cap] by (intro divide_nonneg_nonneg fl_nonneg) simp_all
  show ?thesis
  proof (cases "maxDurationSeconds \<le> fl ?q")
    case True
    then show ?thesis using assms by (simp add: deficitWait_def MaxInt64_def)
  next
    case False
    then have "fl (fl ?q * 1000000000) < 2 ^ 63" using wait_in_range q by simp
    then have "\<lfloor>fl (fl ?q * 1000000000)\<rfloor> < 2 ^ 63" by (simp add: floor_less_iff)
    moreover have "0 \<le> fl (fl ?q * 1000000000)" using q by (simp add: fl_nonneg)
    ultimately show ?thesis
      using False assms by (auto simp: deficitWait_def Let_def truncate_rat_def MaxInt64_def)
  qed
qed

lemma retry_after_ceiling:
  assumes "0 \<le> d"
  shows "d \<le> retry_after_seconds d * Second \<and> 1 \<le> retry_after_seconds d \<and>
    (1 < retry_after_seconds d \<longrightarrow> (retry_after_seconds d - 1) * Second < d) \<and>
    (in64 d \<longrightarrow> in64 (retry_after_seconds d))"
proof -
  define q r where qr: "q = d div Second" "r = d mod Second"
  have d: "d = q * Second + r" "0 \<le> r" "r < Second" "0 \<le> q"
    using assms by (simp_all add: qr)
  have s: "retry_after_seconds d = (let s1 = if r > 0 then q + 1 else q in if s1 < 1 then 1 else s1)"
    using assms by (simp add: retry_after_seconds_def sdiv_nonneg_pos smod_nonneg_pos qr)
  show ?thesis
    unfolding s using d by (auto simp: Let_def in64_def MaxInt64_def MinInt64_def)
qed

subsection \<open>Properties\<close>

lemma limiter_ok_sweep: "limiter_ok L m t \<Longrightarrow> limiter_ok L (sweepIfDue m t) t"
  by (auto simp: limiter_ok_def sweepIfDue_def sweepLocked_def sweepIdleBuckets_def Let_def
      bucket_ok_def split: option.splits)

lemma lim_step_ok:
  assumes "limiter_ok L m (op_time x)" and "0 \<le> op_amount x"
  shows "limiter_ok L (fst (lim_step L m x)) (op_time x)"
  using assms allow_locked_ok [OF limiter_ok_sweep] refund_ok
  by (cases x) (auto simp: limiter_Allow_def case_prod_beta)

definition demo_limits :: "string \<Rightarrow> limits" where
  "demo_limits u = \<lparr>RPM = 2, TPM = 60\<rparr>"

definition demo_ops :: "lim_op list" where
  "demo_ops =
     [OpAllow ''t'' 40 Second, OpAllow ''t'' 40 Second, OpRefund ''t'' 10 (2 * Second),
      OpAllow ''t'' 30 (3 * Second), OpAllow ''t'' 1 (200 * Second)]"

text \<open>
  A bucket holds between nothing and its capacity.  Over any sequence of \<open>Allow\<close>
  and \<open>Refund\<close> calls with a clock that does not run backwards, every bucket of an
  enforced dimension stays within zero and the capacity: rounding, refunds larger
  than what was charged and sweeps never leave that range.
\<close>

theorem bucket_range:
  assumes "limiter_ok L m t" and "timed t xs"
  shows "\<exists>t'. t \<le> t' \<and> limiter_ok L (fst (run_ops (lim_step L) m xs)) t'"
  using assms
proof (induction xs arbitrary: t m)
  case (Cons x xs)
  then have x: "t \<le> op_time x" "0 \<le> op_amount x" "timed (op_time x) xs" by simp_all
  have "limiter_ok L (fst (lim_step L m x)) (op_time x)"
    using lim_step_ok [OF limiter_later(1) [OF x(1) Cons.prems(1)] x(2)] .
  from Cons.IH [OF this x(3)] show ?case
    using x(1) by (auto simp: case_prod_beta intro: order_trans)
qed auto

theorem bucket_range_witness:
  "\<exists>t'. 0 \<le> t' \<and> limiter_ok demo_limits (fst (run_ops (lim_step demo_limits) NewMemLimiter demo_ops)) t'"
proof -
  have "limiter_ok demo_limits NewMemLimiter 0"
    by (simp add: limiter_ok_def NewMemLimiter_def bucket_ok_def)
  moreover have "timed 0 demo_ops" by code_simp
  ultimately show ?thesis by (rule bucket_range)
qed

text \<open>
  C20: dropping idle buckets is invisible.  With fixed limits and a clock that does not
  run backwards, the limiter that sweeps buckets idle for the horizon gives exactly the
  decisions, waits included, of one that keeps every bucket for ever.
\<close>

theorem sweep_invisible:
  assumes "limiter_ok L m t" and "timed t xs"
  shows "snd (run_ops (lim_step L) m xs) = snd (run_ops (ref_step L) m xs)"
  using run_rel [OF _ assms] by (simp add: limiter_rel_def bucket_rel_def)

theorem sweep_invisible_witness:
  "snd (run_ops (lim_step demo_limits) NewMemLimiter demo_ops) =
     snd (run_ops (ref_step demo_limits) NewMemLimiter demo_ops)"
proof -
  have "limiter_ok demo_limits NewMemLimiter 0"
    by (simp add: limiter_ok_def NewMemLimiter_def bucket_ok_def)
  moreover have "timed 0 demo_ops" by code_simp
  ultimately show ?thesis by (rule sweep_invisible)
qed

text \<open>
  C5: the rate a tenant can reach, net of refunds.  In any window of a run, from any sound
  state, the tokens charged by the admitted calls of one tenant are at most what its refunds
  returned in the window, plus one bucket and its refill: the capacity, the capacity per
  minute elapsed, and a rounding term of a few units in the last place per call.  The
  charges alone have no such bound, since every refund makes room for another charge; a
  window without refunds has it.
\<close>

theorem admitted_rate_bound:
  assumes "limiter_ok L m t" and "timed t xs" and "\<forall>x \<in> set xs. op_time x \<le> t'" and "t \<le> t'"
    and "0 < TPM (L u)"
  shows "charged u xs (snd (run_ops (lim_step L) m xs)) \<le>
    returned u xs + f64 (TPM (L u)) *
      (1 + of_int (t' - t) / (60 * 1000000000) * (1 + eps) ^ 5 + of_nat (length xs) * (2 * eps))"
proof -
  have "level (TPM (L u)) t (tpm m (tpm_key u)) \<le> f64 (TPM (L u))"
    by (simp add: level_def split: option.splits)
  moreover have "snd (run_ops (lim_step L) m xs) = snd (run_ops (ref_step L) m xs)"
    using run_rel [OF _ assms(1,2)] by (simp add: limiter_rel_def bucket_rel_def)
  ultimately show ?thesis
    using run_level [OF assms] by (simp add: gain_def algebra_simps)
qed

theorem admitted_rate_bound_witness:
  "charged ''t'' demo_ops (snd (run_ops (lim_step demo_limits) NewMemLimiter demo_ops))
     \<le> returned ''t'' demo_ops + 60 * (1 + 200 / 60 * (1 + eps) ^ 5 + 10 * eps)"
proof -
  have "limiter_ok demo_limits NewMemLimiter 0"
    by (simp add: limiter_ok_def NewMemLimiter_def bucket_ok_def)
  moreover have "timed 0 demo_ops" "\<forall>x \<in> set demo_ops. op_time x \<le> 200 * Second"
    by code_simp+
  moreover have "f64 (TPM (demo_limits ''t'')) = 60" "length demo_ops = 5" by code_simp+
  ultimately show ?thesis
    using admitted_rate_bound [of demo_limits NewMemLimiter 0 demo_ops "200 * Second" "''t''"]
    by (simp add: demo_limits_def)
qed

text \<open>
  The advertised wait.  A denial for lack of tokens asks for at least a
  millisecond and never overflows the duration, and the header carries the ceiling in
  seconds of that wait: enough to cover it, less than a second too long, at least one
  second, and within an \<open>int64\<close> for a saturated wait too.
\<close>

theorem retry_after_honest:
  assumes "0 < deficit" and "0 < cap"
  shows "let w = deficitWait deficit cap; s = retry_after_seconds w in
    Millisecond \<le> w \<and> w \<le> MaxInt64 \<and> w \<le> s * Second \<and> 1 \<le> s \<and> s \<le> MaxInt64 \<and>
    (s = 1 \<or> (s - 1) * Second < w)"
proof -
  let ?w = "deficitWait deficit cap"
  have w: "Millisecond \<le> ?w" "?w \<le> MaxInt64" using deficitWait_range [OF assms] by simp_all
  then have "in64 ?w" by (simp add: in64_nonneg)
  then show ?thesis
    using w retry_after_ceiling [of ?w] by (auto simp: Let_def in64_def)
qed

theorem retry_after_honest_witness:
  "deficitWait (3 / 2) 60 = 1500000000 \<and> retry_after_seconds (deficitWait (3 / 2) 60) = 2 \<and>
   (let w = deficitWait (3 / 2) 60; s = retry_after_seconds w in
     w \<le> s * Second \<and> (s = 1 \<or> (s - 1) * Second < w))"
proof -
  have "deficitWait (3 / 2) 60 = 1500000000 \<and> retry_after_seconds (deficitWait (3 / 2) 60) = 2"
    by code_simp
  moreover have "let w = deficitWait (3 / 2) 60; s = retry_after_seconds w in
      w \<le> s * Second \<and> (s = 1 \<or> (s - 1) * Second < w)"
    using retry_after_honest [of "3 / 2" 60] unfolding Let_def by simp
  ultimately show ?thesis by blast
qed

text \<open>
  A dimension enabled on a live tenant does not start full.  A bucket created
  while the ceiling is disabled is created empty, so the first request after the
  ceiling is switched on is refused, although a tenant never seen before would be
  admitted.
\<close>

lemma enabled_dimension_starts_empty:
  "let off = \<lparr>RPM = 0, TPM = 0\<rparr>; on = \<lparr>RPM = 60, TPM = 0\<rparr>;
       m = fst (limiter_Allow NewMemLimiter ''t'' off 1 Second)
   in Allowed (snd (limiter_Allow m ''t'' on 1 Second)) = False \<and>
      Allowed (snd (limiter_Allow NewMemLimiter ''t'' on 1 Second)) = True"
  by code_simp

end
