(* ===== verification/Limiter_Gate.thy ===== *)
theory Limiter_Gate
  imports Limiter
begin

text \<open>
  The per-tenant in-flight gate (\<^verbatim>\<open>internal/limiter/concurrency.go\<close>) and the part of
  the Redis backend (\<^verbatim>\<open>redis.go\<close>, \<^verbatim>\<open>tokenbucket.lua\<close>) that computes the wait.

  A release function is a closure over a flag: a slot is the tenant it was taken for,
  whether the ceiling was disabled (its release does nothing) and the flag.
\<close>

type_synonym gate = "string \<rightharpoonup> int"

record slot =
  stenant :: string
  sfree :: bool
  released :: bool

definition inflight :: "gate \<Rightarrow> string \<Rightarrow> int" where
  "inflight c u = (case c u of None \<Rightarrow> 0 | Some v \<Rightarrow> v)"

definition NewConcurrency :: gate where "NewConcurrency = Map.empty"

definition Acquire :: "gate \<Rightarrow> string \<Rightarrow> int \<Rightarrow> gate \<times> slot option" where
  "Acquire c u lmt =
     (if lmt \<le> 0 then (c, Some \<lparr>stenant = u, sfree = True, released = False\<rparr>)
      else if inflight c u \<ge> lmt then (c, None)
      else (c(u \<mapsto> inflight c u + 1), Some \<lparr>stenant = u, sfree = False, released = False\<rparr>))"

definition release :: "gate \<Rightarrow> slot \<Rightarrow> gate \<times> slot" where
  "release c s =
     (if sfree s then (c, s)
      else if \<not> released s
      then let v = inflight c (stenant s) - 1
           in (if v > 0 then c(stenant s \<mapsto> v) else c(stenant s := None), s\<lparr>released := True\<rparr>)
      else (c, s))"

definition InFlight :: "gate \<Rightarrow> string \<Rightarrow> int" where
  "InFlight c u = inflight c u"

subsection \<open>Runs of the gate\<close>

text \<open>
  The gate with the slots handed out so far: a slot may be released at any time, any
  number of times or never, and the ceiling may differ from call to call.
\<close>

inductive gate_reach :: "int \<Rightarrow> gate \<Rightarrow> slot list \<Rightarrow> bool" for ceil where
  gate_init: "gate_reach ceil NewConcurrency []"
| gate_admit: "gate_reach ceil c ss \<Longrightarrow> k \<le> ceil \<Longrightarrow> Acquire c u k = (c', Some s) \<Longrightarrow>
    gate_reach ceil c' (ss @ [s])"
| gate_refuse: "gate_reach ceil c ss \<Longrightarrow> Acquire c u k = (c', None) \<Longrightarrow> gate_reach ceil c' ss"
| gate_release: "gate_reach ceil c ss \<Longrightarrow> i < length ss \<Longrightarrow> release c (ss ! i) = (c', s) \<Longrightarrow>
    gate_reach ceil c' (ss[i := s])"

definition live_slot :: "string \<Rightarrow> slot \<Rightarrow> bool" where
  "live_slot u s \<longleftrightarrow> stenant s = u \<and> \<not> sfree s \<and> \<not> released s"

definition live_count :: "string \<Rightarrow> slot list \<Rightarrow> nat" where
  "live_count u ss = length (filter (live_slot u) ss)"

lemma live_count_snoc [simp]:
  "live_count u (ss @ [s]) = live_count u ss + (if live_slot u s then 1 else 0)"
  by (simp add: live_count_def)

lemma live_count_update:
  assumes "i < length ss"
  shows "live_count u (ss[i := s]) + (if live_slot u (ss ! i) then 1 else 0) =
    live_count u ss + (if live_slot u s then 1 else 0)"
  using assms
proof (induction ss arbitrary: i)
  case (Cons x ss)
  then show ?case by (cases i) (auto simp: live_count_def)
qed simp

lemma gate_invar:
  assumes "gate_reach ceil c ss"
  shows "inflight c u = int (live_count u ss) \<and> (c u = None \<longleftrightarrow> live_count u ss = 0) \<and>
    inflight c u \<le> max 0 ceil"
  using assms
proof (induction arbitrary: u rule: gate_reach.induct)
  case gate_init
  then show ?case by (simp add: NewConcurrency_def inflight_def live_count_def)
next
  case (gate_admit c ss k v c' s)
  note IH = gate_admit.IH [of u] gate_admit.IH [of v]
  show ?case
    using IH gate_admit.hyps
    by (auto simp: Acquire_def live_slot_def inflight_def split: if_splits)
next
  case (gate_refuse c ss k v c')
  then have "c' = c" by (auto simp: Acquire_def split: if_splits)
  then show ?case using gate_refuse.IH [of u] by simp
next
  case (gate_release c ss i c' s)
  note IH = gate_release.IH [of u] gate_release.IH [of "stenant (ss ! i)"]
  note upd = live_count_update [OF gate_release.hyps(2), of u s]
  show ?case
  proof (cases "live_slot u (ss ! i)")
    case True
    then have live: "\<not> sfree (ss ! i)" "\<not> released (ss ! i)" "stenant (ss ! i) = u"
      by (simp_all add: live_slot_def)
    then have s: "\<not> live_slot u s"
      using gate_release.hyps(3) by (auto simp: release_def live_slot_def Let_def)
    have "Suc (live_count u (ss[i := s])) = live_count u ss" using upd True s by simp
    then show ?thesis
      using IH live gate_release.hyps(3)
      by (auto simp: release_def Let_def inflight_def split: if_splits)
  next
    case False
    have "\<not> live_slot u s"
      using False gate_release.hyps(3)
      by (auto simp: release_def live_slot_def Let_def split: if_splits)
    then have "live_count u (ss[i := s]) = live_count u ss" using upd False by simp
    moreover have "c' u = c u"
      using False gate_release.hyps(3)
      by (auto simp: release_def live_slot_def Let_def split: if_splits)
    ultimately show ?thesis using IH by (simp add: inflight_def)
  qed
qed

subsection \<open>The Redis backend's wait\<close>

text \<open>
  The end of \<^verbatim>\<open>tokenbucket.lua\<close>, reached when a dimension does not afford the
  request: \<open>rpm\<close> and \<open>tpm\<close> are the refilled levels (-1 for a disabled dimension),
  Lua numbers being doubles, and \<open>math.ceil\<close> and the reply narrow the wait to an
  integer number of milliseconds.
\<close>

definition lua_wait :: "rat \<Rightarrow> rat \<Rightarrow> int \<Rightarrow> int \<Rightarrow> int \<Rightarrow> int" where
  "lua_wait rpmv tpmv rpm_cap tpm_cap want =
     (let rpm_ok = (rpmv = -1 \<or> rpmv \<ge> 1); tpm_ok = (tpmv = -1 \<or> tpmv \<ge> f64 want);
          w0 = 0 :: rat;
          w1 = (if rpmv \<noteq> -1 \<and> \<not> rpm_ok
                then max w0 (fl (fl (fl (1 - rpmv) / fl (f64 rpm_cap / 60000)) * 1000)) else w0);
          w2 = (if tpmv \<noteq> -1 \<and> \<not> tpm_ok
                then max w1 (fl (fl (fl (f64 want - tpmv) / fl (f64 tpm_cap / 60000)) * 1000)) else w1);
          w3 = (if w2 < 1 then 1 else w2)
      in \<lceil>w3\<rceil>)"

definition retryAfterDuration :: "int \<Rightarrow> duration" where
  "retryAfterDuration retryMs =
     (if retryMs < 0 \<or> retryMs > MaxInt64 sdiv Millisecond then MaxInt64 else retryMs * Millisecond)"

definition limiter_keyPrefix :: string where "limiter_keyPrefix = ''bw:limiter:''"

definition limiter_namespacedKeyPrefix :: "string \<Rightarrow> string" where
  "limiter_namespacedKeyPrefix ns =
     (if ns = [] then limiter_keyPrefix else ns @ '':'' @ limiter_keyPrefix)"

definition redis_rpmKey :: "string \<Rightarrow> string \<Rightarrow> string" where
  "redis_rpmKey prefix u = prefix @ u @ '':rpm''"

definition redis_tpmKey :: "string \<Rightarrow> string \<Rightarrow> string" where
  "redis_tpmKey prefix u = prefix @ u @ '':tpm''"

lemma retryAfterDuration_range:
  assumes "in64 ms"
  shows "0 \<le> retryAfterDuration ms \<and> retryAfterDuration ms \<le> MaxInt64 \<and>
    (0 \<le> ms \<and> ms * Millisecond \<le> MaxInt64 \<longrightarrow> retryAfterDuration ms = ms * Millisecond)"
proof -
  have "MaxInt64 sdiv Millisecond = 9223372036854"
    by (simp add: MaxInt64_def sdiv_nonneg_pos)
  then show ?thesis using assms by (auto simp: retryAfterDuration_def MaxInt64_def)
qed

subsection \<open>Properties\<close>

definition demo_gate :: "gate \<times> slot list" where
  "demo_gate =
     (let (c1, s1) = Acquire NewConcurrency ''t'' 2; (c2, s2) = Acquire c1 ''t'' 2;
          (c3, s1') = release c2 (the s1)
      in (c3, [s1', the s2]))"

lemma demo_gate_reach: "gate_reach 2 (fst demo_gate) (snd demo_gate)"
proof -
  let ?s = "\<lparr>stenant = ''t'', sfree = False, released = False\<rparr>"
  have "gate_reach 2 [''t'' \<mapsto> 1] ([] @ [?s])"
    by (rule gate_admit [OF gate_init, of 2 _ "''t''"])
      (simp_all add: Acquire_def NewConcurrency_def inflight_def)
  then have "gate_reach 2 [''t'' \<mapsto> 2] (([] @ [?s]) @ [?s])"
    by (rule gate_admit [where k = 2 and u = "''t''"]) (simp_all add: Acquire_def inflight_def)
  then have "gate_reach 2 (fst demo_gate) ((([] @ [?s]) @ [?s])[0 := ?s\<lparr>released := True\<rparr>])"
    by (rule gate_release)
      (simp_all add: demo_gate_def Acquire_def NewConcurrency_def inflight_def release_def)
  then show ?thesis
    by (simp add: demo_gate_def Acquire_def NewConcurrency_def inflight_def release_def)
qed

text \<open>
  C21: the concurrency gate counts exactly the slots in use.  In every reachable gate,
  with slots released in any order, twice or never, the in-flight count of a tenant is
  the number of its slots not yet released, it never exceeds the largest ceiling any
  call was made with, and a tenant with no slot in use has no entry at all.
\<close>

theorem in_flight_exact:
  assumes "gate_reach ceil c ss"
  shows "InFlight c u = int (live_count u ss) \<and> InFlight c u \<le> max 0 ceil \<and>
    (c u = None \<longleftrightarrow> live_count u ss = 0)"
  using gate_invar [OF assms, of u] by (simp add: InFlight_def)

theorem in_flight_exact_witness:
  "InFlight (fst demo_gate) ''t'' = int (live_count ''t'' (snd demo_gate)) \<and>
   live_count ''t'' (snd demo_gate) = 1 \<and> InFlight (fst demo_gate) ''t'' \<le> 2"
proof -
  have "live_count ''t'' (snd demo_gate) = 1" by code_simp
  then show ?thesis using in_flight_exact [OF demo_gate_reach, of "''t''"] by simp
qed

text \<open>
  The two backends disagree on the wait.  For the same deficit of one request
  against a ceiling of 60 a minute the in-process limiter asks for one second, and
  the Redis script, whose rate is already per millisecond, multiplies once more by
  1000 and asks for a thousand seconds.
\<close>

theorem redis_wait_thousandfold:
  "deficitWait (fl (1 - 0)) 60 = Second \<and>
   retryAfterDuration (lua_wait 0 (-1) 60 0 1) = 1000 * Second"
  by code_simp

end
