(* ===== verification/Quota_Port.thy ===== *)
theory Quota_Port
  imports Prelude
begin

text \<open>
  The quota account port (\<^verbatim>\<open>internal/quota/quota.go\<close>, interface \<open>Ledger\<close>) as a
  locale, and the quota stage (\<^verbatim>\<open>middleware.go\<close>) as its client.

  A ledger is abstracted by its balances and its live reservations.  The laws are the
  port's contract: a reservation deducts exactly its amount or changes nothing, a
  live lease ends once, giving back what was not used and never more than it
  reserved, and a lease that is not live is a no-op to settle or cancel.

  A backend may fail in the middle of an operation.  \<open>room\<close> says that a reservation the
  balance covers can be recorded; without it the call reports a backend error, and the
  amount it deducted is lost.  A live lease ends by a settle or a cancel also when the call
  reports an error.
\<close>

datatype lease_state =
    LeaseStateReserved
  | LeaseStateSettled
  | LeaseStateExpired
  | LeaseStateCancelled

record lease =
  ID :: string
  TenantID :: string
  Amount :: int
  State :: lease_state
  CreatedAt :: instant

datatype quota_error =
    ErrInsufficientBalance
  | ErrUnknownTenant
  | ErrUnknownLease
  | ErrBackend

type_synonym reservations = "string \<rightharpoonup> string \<times> int"

definition leaseAuditTTL :: duration where "leaseAuditTTL = Hour"

text \<open>What the live reservations of one tenant hold.\<close>

definition held :: "(string \<times> int) option \<Rightarrow> string \<Rightarrow> int" where
  "held x t = (case x of None \<Rightarrow> 0 | Some (u, a) \<Rightarrow> if u = t then a else 0)"

definition outstanding :: "reservations \<Rightarrow> string \<Rightarrow> int" where
  "outstanding lv t = (\<Sum>i \<in> dom lv. held (lv i) t)"

lemma outstanding_add:
  assumes "finite (dom lv)" and "lv i = None"
  shows "outstanding (lv(i \<mapsto> (u, a))) t = outstanding lv t + (if u = t then a else 0)"
proof -
  have "(\<Sum>j \<in> dom lv. held ((lv(i \<mapsto> (u, a))) j) t) = outstanding lv t"
    unfolding outstanding_def using assms(2) by (intro sum.cong) auto
  then show ?thesis
    using assms by (simp add: outstanding_def domIff) (simp add: held_def)
qed

lemma outstanding_del:
  assumes "finite (dom lv)" and "lv i = Some (u, a)"
  shows "outstanding (lv(i := None)) t = outstanding lv t - (if u = t then a else 0)"
proof -
  have "outstanding ((lv(i := None))(i \<mapsto> (u, a))) t =
      outstanding (lv(i := None)) t + (if u = t then a else 0)"
    using assms by (intro outstanding_add) simp_all
  moreover have "(lv(i := None))(i \<mapsto> (u, a)) = lv" using assms(2) by auto
  ultimately show ?thesis by simp
qed

lemma outstanding_ge:
  assumes "finite (dom lv)" and "\<And>j u a. lv j = Some (u, a) \<Longrightarrow> 0 \<le> a" and "lv i = Some (t, a)"
  shows "a \<le> outstanding lv t"
proof -
  have "held (lv i) t \<le> outstanding lv t"
    unfolding outstanding_def using assms
    by (intro member_le_sum) (auto simp: held_def split: option.splits)
  then show ?thesis using assms(3) by (simp add: held_def)
qed

lemma outstanding_nonneg:
  assumes "\<And>j u a. lv j = Some (u, a) \<Longrightarrow> 0 \<le> a"
  shows "0 \<le> outstanding lv t"
  unfolding outstanding_def
  by (intro sum_nonneg) (use assms in \<open>auto simp: held_def split: option.splits\<close>)

text \<open>What a request is charged for a reservation of \<open>a\<close> of which \<open>used\<close> was consumed.\<close>

definition charge :: "int \<Rightarrow> int \<Rightarrow> int" where
  "charge a used = min a (max used 0)"

locale ledger =
  fixes reserve :: "'l \<Rightarrow> string \<Rightarrow> string \<Rightarrow> int \<Rightarrow> instant \<Rightarrow> 'l \<times> (quota_error + lease)"
    and settle :: "'l \<Rightarrow> string \<Rightarrow> int \<Rightarrow> instant \<Rightarrow> 'l \<times> quota_error option"
    and cancel :: "'l \<Rightarrow> string \<Rightarrow> instant \<Rightarrow> 'l \<times> quota_error option"
    and bal :: "'l \<Rightarrow> string \<rightharpoonup> int"
    and live :: "'l \<Rightarrow> reservations"
    and fresh :: "'l \<Rightarrow> string \<Rightarrow> bool"
    and room :: "'l \<Rightarrow> string \<Rightarrow> int \<Rightarrow> bool"
    and invar :: "'l \<Rightarrow> bool"
  assumes invarD: "invar l \<Longrightarrow> finite (dom (live l)) \<and>
      (\<forall>i t a. live l i = Some (t, a) \<longrightarrow> 0 \<le> a \<and> bal l t \<noteq> None) \<and>
      (\<forall>t b. bal l t = Some b \<longrightarrow> 0 \<le> b)"
    and fresh_dead: "fresh l i \<Longrightarrow> live l i = None"
    and reserve_ok: "invar l \<Longrightarrow> fresh l i \<Longrightarrow> 0 \<le> a \<Longrightarrow> bal l t = Some b \<Longrightarrow> a \<le> b \<Longrightarrow> room l t a \<Longrightarrow>
      \<exists>l' ls. reserve l i t a now = (l', Inr ls) \<and> ID ls = i \<and> invar l' \<and>
        bal l' = (bal l)(t \<mapsto> b - a) \<and> live l' = (live l)(i \<mapsto> (t, a))"
    and reserve_fails: "invar l \<Longrightarrow> 0 \<le> a \<Longrightarrow> bal l t = Some b \<Longrightarrow> a \<le> b \<Longrightarrow> \<not> room l t a \<Longrightarrow>
      \<exists>l'. reserve l i t a now = (l', Inl ErrBackend) \<and> invar l' \<and>
        bal l' = (bal l)(t \<mapsto> b - a) \<and> live l' = live l"
    and reserve_insufficient: "invar l \<Longrightarrow> bal l t = Some b \<Longrightarrow> b < a \<Longrightarrow>
      reserve l i t a now = (l, Inl ErrInsufficientBalance)"
    and reserve_unknown: "invar l \<Longrightarrow> bal l t = None \<Longrightarrow>
      reserve l i t a now = (l, Inl ErrUnknownTenant)"
    and settle_live: "invar l \<Longrightarrow> in64 used \<Longrightarrow> live l i = Some (t, a) \<Longrightarrow> bal l t = Some b \<Longrightarrow>
      \<exists>l' r. settle l i used now = (l', r) \<and> invar l' \<and>
        bal l' = (bal l)(t \<mapsto> b + (a - charge a used)) \<and> live l' = (live l)(i := None)"
    and settle_dead: "invar l \<Longrightarrow> live l i = None \<Longrightarrow>
      invar (fst (settle l i used now)) \<and> bal (fst (settle l i used now)) = bal l \<and>
      live (fst (settle l i used now)) = live l"
    and cancel_live: "invar l \<Longrightarrow> live l i = Some (t, a) \<Longrightarrow> bal l t = Some b \<Longrightarrow>
      \<exists>l' r. cancel l i now = (l', r) \<and> invar l' \<and>
        bal l' = (bal l)(t \<mapsto> b + a) \<and> live l' = (live l)(i := None)"
    and cancel_dead: "invar l \<Longrightarrow> live l i = None \<Longrightarrow>
      invar (fst (cancel l i now)) \<and> bal (fst (cancel l i now)) = bal l \<and>
      live (fst (cancel l i now)) = live l"

subsection \<open>The quota stage\<close>

datatype quota_reply =
    InsufficientQuota
  | QuotaNotProvisioned
  | GovernanceUnavailable
  | QuotaServed int

text \<open>
  The stage around the rest of the chain.  \<open>estimate\<close> is \<open>ReserveTokens\<close>, \<open>serve\<close>
  the rest of the chain: it sees the amount reserved, may let any other ledger
  operations happen meanwhile and leaves the consumed count on the carrier.  The
  deferred settlement runs on every exit.
\<close>

definition quota_stage ::
  "('l \<Rightarrow> string \<Rightarrow> string \<Rightarrow> int \<Rightarrow> instant \<Rightarrow> 'l \<times> (quota_error + lease))
    \<Rightarrow> ('l \<Rightarrow> string \<Rightarrow> int \<Rightarrow> instant \<Rightarrow> 'l \<times> quota_error option)
    \<Rightarrow> ('l \<Rightarrow> string \<Rightarrow> instant \<Rightarrow> 'l \<times> quota_error option)
    \<Rightarrow> 'l \<Rightarrow> string \<Rightarrow> string \<Rightarrow> int \<Rightarrow> int \<Rightarrow> ('l \<Rightarrow> int \<Rightarrow> 'l \<times> int) \<Rightarrow> instant \<Rightarrow> instant
    \<Rightarrow> 'l \<times> quota_reply" where
  "quota_stage rsv stl cnc l i tenant carried estimate serve t0 t1 =
     (let amount = (if carried \<le> 0 then estimate else carried)
      in case rsv l i tenant amount t0 of
           (l1, Inl ErrInsufficientBalance) \<Rightarrow> (l1, InsufficientQuota)
         | (l1, Inl ErrUnknownTenant) \<Rightarrow> (l1, QuotaNotProvisioned)
         | (l1, Inl _) \<Rightarrow> (l1, GovernanceUnavailable)
         | (l1, Inr ls) \<Rightarrow>
             let (l2, consumed) = serve l1 amount
             in if consumed \<le> 0 then (fst (cnc l2 (ID ls) t1), QuotaServed consumed)
                else (fst (stl l2 (ID ls) consumed t1), QuotaServed consumed))"

context ledger
begin

abbreviation total :: "'l \<Rightarrow> string \<Rightarrow> int" where
  "total l t \<equiv> (case bal l t of None \<Rightarrow> 0 | Some b \<Rightarrow> b) + outstanding (live l) t"

lemma charge_bounds: "0 \<le> a \<Longrightarrow> 0 \<le> charge a used \<and> charge a used \<le> a"
  by (simp add: charge_def)

lemma reserve_total:
  assumes "invar l" and "fresh l i" and "0 \<le> a" and "room l t a"
  shows "invar (fst (reserve l i t a now)) \<and> total (fst (reserve l i t a now)) u = total l u"
proof (cases "bal l t")
  case None
  then show ?thesis using assms reserve_unknown by simp
next
  case (Some b)
  show ?thesis
  proof (cases "b < a")
    case True
    then show ?thesis using assms Some reserve_insufficient by simp
  next
    case False
    then obtain l' ls where r: "reserve l i t a now = (l', Inr ls)" "invar l'"
      "bal l' = (bal l)(t \<mapsto> b - a)" "live l' = (live l)(i \<mapsto> (t, a))"
      using reserve_ok [OF assms(1-3) Some _ assms(4), of now] by auto
    have "outstanding (live l') u = outstanding (live l) u + (if t = u then a else 0)"
      using outstanding_add [of "live l" i t a u] invarD [OF assms(1)] fresh_dead [OF assms(2)] r(4)
      by simp
    then show ?thesis using r Some by (cases "t = u") simp_all
  qed
qed

lemma settle_total:
  assumes "invar l" and "in64 used"
  shows "invar (fst (settle l i used now)) \<and>
    total (fst (settle l i used now)) u = total l u
      - (case live l i of None \<Rightarrow> 0 | Some (t, a) \<Rightarrow> if t = u then charge a used else 0)"
proof (cases "live l i")
  case None
  then show ?thesis using assms settle_dead by simp
next
  case (Some ta)
  then obtain t a where ta: "live l i = Some (t, a)" by (cases ta) simp
  then obtain b where b: "bal l t = Some b" using invarD [OF assms(1)] by fastforce
  obtain l' r where s: "settle l i used now = (l', r)" "invar l'"
    "bal l' = (bal l)(t \<mapsto> b + (a - charge a used))" "live l' = (live l)(i := None)"
    using settle_live [OF assms ta b] by blast
  have "outstanding (live l') u = outstanding (live l) u - (if t = u then a else 0)"
    using outstanding_del [of "live l" i t a u, OF _ ta] invarD [OF assms(1)] s(4) by simp
  then show ?thesis using s ta b by (cases "t = u") simp_all
qed

lemma cancel_total:
  assumes "invar l"
  shows "invar (fst (cancel l i now)) \<and> total (fst (cancel l i now)) u = total l u"
proof (cases "live l i")
  case None
  then show ?thesis using assms cancel_dead by simp
next
  case (Some ta)
  then obtain t a where ta: "live l i = Some (t, a)" by (cases ta) simp
  then obtain b where b: "bal l t = Some b" using invarD [OF assms] by fastforce
  obtain l' r where s: "cancel l i now = (l', r)" "invar l'"
    "bal l' = (bal l)(t \<mapsto> b + a)" "live l' = (live l)(i := None)"
    using cancel_live [OF assms ta b] by blast
  have "outstanding (live l') u = outstanding (live l) u - (if t = u then a else 0)"
    using outstanding_del [of "live l" i t a u, OF _ ta] invarD [OF assms] s(4) by simp
  then show ?thesis using s ta b by (cases "t = u") simp_all
qed

text \<open>
  The stage charges what was consumed, and never more than was reserved: whatever
  happens to the ledger while the request is served, as long as nobody ends its lease.
\<close>

lemma quota_stage_served:
  assumes "invar l" and "fresh l i" and "0 \<le> a" and "bal l t = Some b" and "a \<le> b" and "room l t a" and "0 < a"
    and "\<And>l1. invar l1 \<Longrightarrow> live l1 i = Some (t, a) \<Longrightarrow>
      invar (fst (serve l1 a)) \<and> live (fst (serve l1 a)) i = Some (t, a) \<and>
      in64 (snd (serve l1 a))"
    and "quota_stage reserve settle cancel l i t a est serve t0 t1 = (l', rep)"
  shows "\<exists>l1 l2 used b2. reserve l i t a t0 = (l1, Inr l2) \<and> rep = QuotaServed used \<and>
    used = snd (serve l1 a) \<and> bal (fst (serve l1 a)) t = Some b2 \<and> invar l' \<and>
    bal l' t = Some (b2 + a - charge a used) \<and> live l' i = None"
proof -
  obtain l1 ls where r: "reserve l i t a t0 = (l1, Inr ls)" "ID ls = i" "invar l1"
    "live l1 = (live l)(i \<mapsto> (t, a))"
    using reserve_ok [OF assms(1-6), of t0] by blast
  let ?l2 = "fst (serve l1 a)" and ?used = "snd (serve l1 a)"
  have l2: "invar ?l2" "live ?l2 i = Some (t, a)" "in64 ?used" using assms(8) [OF r(3)] r(4) by simp_all
  then obtain b2 where b2: "bal ?l2 t = Some b2" using invarD by fastforce
  have "invar l' \<and> bal l' t = Some (b2 + a - charge a ?used) \<and> live l' i = None \<and> rep = QuotaServed ?used"
  proof (cases "?used \<le> 0")
    case True
    obtain l3 e where "cancel ?l2 i t1 = (l3, e)" "invar l3" "bal l3 = (bal ?l2)(t \<mapsto> b2 + a)"
      "live l3 = (live ?l2)(i := None)"
      using cancel_live [OF l2(1,2) b2, of t1] by blast
    then show ?thesis
      using assms(7,9) True r by (auto simp: quota_stage_def charge_def case_prod_beta Let_def)
  next
    case False
    obtain l3 e where "settle ?l2 i ?used t1 = (l3, e)" "invar l3"
      "bal l3 = (bal ?l2)(t \<mapsto> b2 + (a - charge a ?used))" "live l3 = (live ?l2)(i := None)"
      using settle_live [OF l2(1,3,2) b2, of t1] by blast
    then show ?thesis
      using assms(7,9) False r by (auto simp: quota_stage_def case_prod_beta Let_def)
  qed
  then show ?thesis using r b2 by blast
qed

text \<open>A reservation the backend could not record: the request is refused and its amount gone.\<close>

lemma quota_stage_fails:
  assumes "invar l" and "0 < a" and "bal l t = Some b" and "a \<le> b" and "\<not> room l t a"
    and "quota_stage reserve settle cancel l i t a est serve t0 t1 = (l', rep)"
  shows "rep = GovernanceUnavailable \<and> invar l' \<and> bal l' = (bal l)(t \<mapsto> b - a) \<and> live l' = live l"
proof -
  obtain l1 where "reserve l i t a t0 = (l1, Inl ErrBackend)" "invar l1" "bal l1 = (bal l)(t \<mapsto> b - a)" "live l1 = live l"
    using reserve_fails [OF assms(1) less_imp_le [OF assms(2)] assms(3-5), of i t0] by blast
  then show ?thesis using assms(2,6) by (auto simp: quota_stage_def)
qed

lemma quota_stage_refused:
  assumes "invar l" and "0 < a" and "case bal l t of None \<Rightarrow> True | Some b \<Rightarrow> b < a"
  shows "quota_stage reserve settle cancel l i t a est serve t0 t1 =
    (l, if bal l t = None then QuotaNotProvisioned else InsufficientQuota)"
  using assms reserve_unknown [of l t i a t0] reserve_insufficient [of l t _ a i t0]
  by (auto simp: quota_stage_def Let_def split: option.splits)

end

end
