(* ===== verification/Quota_Memory.thy ===== *)
theory Quota_Memory
  imports Quota_Port
begin

text \<open>
  The in-process ledger, \<^verbatim>\<open>internal/quota/memory.go\<close>.  Balances are \<open>int64\<close>: every
  sum is written with its wrap-around, and the invariant is what keeps it from
  happening.  A lease is stored under its id; a new id is an argument of \<open>Reserve\<close>
  (128 random bits in the source).  The sweep visits the leases in the order Go's map
  iteration happens to give, which is an argument too.
\<close>

record mem_lease = lease +
  terminalAt :: instant

record mem_ledger =
  balances :: "string \<rightharpoonup> int"
  leases :: "string \<rightharpoonup> mem_lease"
  leaseTTL :: duration

definition defaultLeaseTTL :: duration where "defaultLeaseTTL = 10 * Minute"

definition NewMemory :: mem_ledger where
  "NewMemory = \<lparr>balances = Map.empty, leases = Map.empty, leaseTTL = defaultLeaseTTL\<rparr>"

definition WithLeaseTTL :: "mem_ledger \<Rightarrow> duration \<Rightarrow> mem_ledger" where
  "WithLeaseTTL m d = (if d > 0 then m\<lparr>leaseTTL := d\<rparr> else m)"

definition mem_SetBalance :: "mem_ledger \<Rightarrow> string \<Rightarrow> int \<Rightarrow> mem_ledger" where
  "mem_SetBalance m t b = m\<lparr>balances := (balances m)(t \<mapsto> b)\<rparr>"

definition mem_EnsureBalance :: "mem_ledger \<Rightarrow> string \<Rightarrow> int \<Rightarrow> mem_ledger \<times> bool" where
  "mem_EnsureBalance m t initial =
     (case balances m t of
        Some _ \<Rightarrow> (m, False)
      | None \<Rightarrow> (m\<lparr>balances := (balances m)(t \<mapsto> initial)\<rparr>, True))"

definition mem_Reserve ::
  "mem_ledger \<Rightarrow> string \<Rightarrow> string \<Rightarrow> int \<Rightarrow> instant \<Rightarrow> mem_ledger \<times> (quota_error + lease)" where
  "mem_Reserve m i t amount now =
     (case balances m t of
        None \<Rightarrow> (m, Inl ErrUnknownTenant)
      | Some balance \<Rightarrow>
          if balance < amount then (m, Inl ErrInsufficientBalance)
          else let ls = \<lparr>ID = i, TenantID = t, Amount = amount, State = LeaseStateReserved,
                         CreatedAt = now\<rparr>
               in (m\<lparr>balances := (balances m)(t \<mapsto> i64 (balance - amount)),
                     leases := (leases m)(i \<mapsto> lease.extend ls \<lparr>terminalAt = 0\<rparr>)\<rparr>,
                   Inr ls))"

text \<open>\<open>m.balances[t] += x\<close>: a missing entry reads as zero.\<close>

definition add_balance :: "mem_ledger \<Rightarrow> string \<Rightarrow> int \<Rightarrow> mem_ledger" where
  "add_balance m t x =
     m\<lparr>balances := (balances m)(t \<mapsto>
         i64 ((case balances m t of None \<Rightarrow> 0 | Some b \<Rightarrow> b) + x))\<rparr>"

definition end_lease :: "mem_ledger \<Rightarrow> string \<Rightarrow> mem_lease \<Rightarrow> lease_state \<Rightarrow> instant \<Rightarrow> mem_ledger" where
  "end_lease m i l st now = m\<lparr>leases := (leases m)(i \<mapsto> l\<lparr>State := st, terminalAt := now\<rparr>)\<rparr>"

definition mem_Settle ::
  "mem_ledger \<Rightarrow> string \<Rightarrow> int \<Rightarrow> instant \<Rightarrow> mem_ledger \<times> quota_error option" where
  "mem_Settle m i usedTokens now =
     (case leases m i of
        None \<Rightarrow> (m, Some ErrUnknownLease)
      | Some l \<Rightarrow>
          if State l \<noteq> LeaseStateReserved then (m, None)
          else let used = max usedTokens 0;
                   refund = i64 (Amount l - used);
                   m1 = (if refund > 0 then add_balance m (TenantID l) refund else m)
               in (end_lease m1 i l LeaseStateSettled now, None))"

definition mem_Cancel :: "mem_ledger \<Rightarrow> string \<Rightarrow> instant \<Rightarrow> mem_ledger \<times> quota_error option" where
  "mem_Cancel m i now =
     (case leases m i of
        None \<Rightarrow> (m, Some ErrUnknownLease)
      | Some l \<Rightarrow>
          if State l \<noteq> LeaseStateReserved then (m, None)
          else (end_lease (add_balance m (TenantID l) (Amount l)) i l LeaseStateCancelled now, None))"

definition mem_Balance :: "mem_ledger \<Rightarrow> string \<Rightarrow> quota_error + int" where
  "mem_Balance m t = (case balances m t of None \<Rightarrow> Inl ErrUnknownTenant | Some b \<Rightarrow> Inr b)"

definition scanBatch :: int where "scanBatch = 8192"

text \<open>
  The body of the sweep's loop, over the ids still to visit.  An id that is no longer
  in the map is not visited.
\<close>

fun sweep_walk ::
  "instant \<Rightarrow> instant \<Rightarrow> instant \<Rightarrow> int \<Rightarrow> string list \<Rightarrow> mem_ledger \<Rightarrow> int \<Rightarrow> int \<Rightarrow> mem_ledger \<times> int" where
  "sweep_walk rc tc now lmt [] m expired scanned = (m, expired)"
| "sweep_walk rc tc now lmt (i # is) m expired scanned =
     (case leases m i of
        None \<Rightarrow> sweep_walk rc tc now lmt is m expired scanned
      | Some l \<Rightarrow>
          if scanned \<ge> scanBatch then (m, expired)
          else if State l \<noteq> LeaseStateReserved
          then sweep_walk rc tc now lmt is
                 (if terminalAt l < tc then m\<lparr>leases := (leases m)(i := None)\<rparr> else m)
                 expired (scanned + 1)
          else if expired \<ge> lmt \<or> \<not> CreatedAt l < rc
          then sweep_walk rc tc now lmt is m expired (scanned + 1)
          else sweep_walk rc tc now lmt is
                 (end_lease (add_balance m (TenantID l) (Amount l)) i l LeaseStateExpired now)
                 (expired + 1) (scanned + 1))"

definition mem_SweepOnce :: "mem_ledger \<Rightarrow> string list \<Rightarrow> instant \<Rightarrow> int \<Rightarrow> mem_ledger \<times> int" where
  "mem_SweepOnce m order now lmt =
     sweep_walk (now - leaseTTL m) (now - leaseAuditTTL) now lmt order m 0 0"

subsection \<open>Abstraction and invariant\<close>

definition mem_live :: "mem_ledger \<Rightarrow> reservations" where
  "mem_live m i =
     (case leases m i of
        None \<Rightarrow> None
      | Some l \<Rightarrow> if State l = LeaseStateReserved then Some (TenantID l, Amount l) else None)"

definition mem_fresh :: "mem_ledger \<Rightarrow> string \<Rightarrow> bool" where
  "mem_fresh m i \<longleftrightarrow> leases m i = None"

text \<open>
  Balances are not negative, every live reservation belongs to a provisioned tenant
  and reserves no negative amount, and a balance with everything reserved from it
  fits an \<open>int64\<close>, so giving it all back cannot wrap.
\<close>

definition mem_ok :: "mem_ledger \<Rightarrow> bool" where
  "mem_ok m \<longleftrightarrow> finite (dom (leases m)) \<and>
     (\<forall>i t a. mem_live m i = Some (t, a) \<longrightarrow> 0 \<le> a \<and> balances m t \<noteq> None) \<and>
     (\<forall>t b. balances m t = Some b \<longrightarrow> 0 \<le> b \<and> b + outstanding (mem_live m) t \<le> MaxInt64)"

lemma mem_live_finite: "finite (dom (leases m)) \<Longrightarrow> finite (dom (mem_live m))"
  by (erule finite_subset [rotated]) (auto simp: mem_live_def split: option.splits)

lemma mem_okD:
  assumes "mem_ok m"
  shows "finite (dom (mem_live m))" and "mem_live m i = Some (t, a) \<Longrightarrow> 0 \<le> a"
    and "mem_live m i = Some (t, a) \<Longrightarrow> \<exists>b. balances m t = Some b"
    and "balances m t = Some b \<Longrightarrow> 0 \<le> b"
    and "balances m t = Some b \<Longrightarrow> b + outstanding (mem_live m) t \<le> MaxInt64"
    and "0 \<le> outstanding (mem_live m) t"
  using assms mem_live_finite outstanding_nonneg by (auto simp: mem_ok_def)

lemma mem_live_end:
  "st \<noteq> LeaseStateReserved \<Longrightarrow> mem_live (end_lease m i l st now) = (mem_live m)(i := None)"
  by (auto simp: mem_live_def end_lease_def)

lemma mem_live_add [simp]: "mem_live (add_balance m t x) = mem_live m"
  by (rule ext) (simp add: mem_live_def add_balance_def)

lemma end_lease_fields [simp]:
  "balances (end_lease m i l st now) = balances m"
  "leases (end_lease m i l st now) = (leases m)(i \<mapsto> l\<lparr>State := st, terminalAt := now\<rparr>)"
  by (simp_all add: end_lease_def)

lemma add_balance_leases [simp]: "leases (add_balance m t x) = leases m"
  by (simp add: add_balance_def)

lemma add_balance_exact:
  assumes "balances m t = Some b" and "0 \<le> b" and "0 \<le> x" and "b + x \<le> MaxInt64"
  shows "balances (add_balance m t x) = (balances m)(t \<mapsto> b + x)"
proof -
  have "in64 (b + x)" using assms by (intro in64_nonneg) simp_all
  then show ?thesis using assms(1) by (simp add: add_balance_def)
qed

text \<open>
  Ending a live lease with a refund of part of it: the one step settling, cancelling
  and expiring share.
\<close>

lemma end_live_lease:
  assumes "mem_ok m" and "leases m i = Some l" and "State l = LeaseStateReserved"
    and "0 \<le> x" and "x \<le> Amount l" and "st \<noteq> LeaseStateReserved"
    and "balances m (TenantID l) = Some b"
    and "m' = end_lease (if x > 0 then add_balance m (TenantID l) x else m) i l st now"
  shows "mem_ok m' \<and> balances m' = (balances m)(TenantID l \<mapsto> b + x) \<and>
    mem_live m' = (mem_live m)(i := None)"
proof -
  have lv: "mem_live m i = Some (TenantID l, Amount l)" using assms(2,3) by (simp add: mem_live_def)
  note ok = mem_okD [OF assms(1)]
  have b: "0 \<le> b" "b + outstanding (mem_live m) (TenantID l) \<le> MaxInt64"
    using ok(4,5) [OF assms(7)] by simp_all
  have ge: "Amount l \<le> outstanding (mem_live m) (TenantID l)"
    using ok(1,2) lv by (intro outstanding_ge) auto
  have bal: "balances m' = (balances m)(TenantID l \<mapsto> b + x)"
    using assms(4,5,7,8) b ge add_balance_exact [OF assms(7), of x] by auto
  have live': "mem_live m' = (mem_live m)(i := None)"
    using assms(6,8) by (simp add: mem_live_end)
  have fin: "finite (dom (leases m'))"
    using assms(1,8) by (auto simp: mem_ok_def)
  have "0 \<le> b' \<and> b' + outstanding (mem_live m') t \<le> MaxInt64" if "balances m' t = Some b'" for t b'
    using that b bal assms(4,5) ok(4,5) [of t] outstanding_del [of "mem_live m" i _ _ t, OF ok(1) lv]
    by (auto simp: live' split: if_splits)
  moreover have "0 \<le> a \<and> balances m' t \<noteq> None" if "mem_live m' j = Some (t, a)" for j t a
    using that live' bal ok(2,3) [of j t a] by (auto split: if_splits)
  ultimately show ?thesis using fin bal live' by (simp add: mem_ok_def)
qed

lemma refund_charge:
  assumes "0 \<le> a" and "a \<le> MaxInt64"
  shows "(if 0 < i64 (a - max used 0) then i64 (a - max used 0) else 0) = a - charge a used
    \<or> MaxInt64 < max used 0"
proof (cases "MaxInt64 < max used 0")
  case False
  then have "in64 (a - max used 0)"
    using assms by (auto simp: in64_def MaxInt64_def MinInt64_def)
  then show ?thesis by (auto simp: charge_def)
qed simp

lemma mem_Settle_live:
  assumes "mem_ok m" and "mem_live m i = Some (t, a)" and "balances m t = Some b" and "in64 used"
  shows "\<exists>m'. mem_Settle m i used now = (m', None) \<and> mem_ok m' \<and>
    balances m' = (balances m)(t \<mapsto> b + (a - charge a used)) \<and>
    mem_live m' = (mem_live m)(i := None)"
proof -
  from assms(2) obtain l where l: "leases m i = Some l" "State l = LeaseStateReserved"
    "TenantID l = t" "Amount l = a"
    by (auto simp: mem_live_def split: option.splits if_splits)
  have a: "0 \<le> a" "a \<le> MaxInt64"
    using mem_okD(2) [OF assms(1,2)] mem_okD(4,5) [OF assms(1,3)]
      outstanding_ge [of "mem_live m" i t a] mem_okD(1,2) [OF assms(1)] assms(2)
    by fastforce+
  let ?x = "a - charge a used"
  have used: "(if 0 < i64 (a - max used 0) then i64 (a - max used 0) else 0) = ?x"
    using refund_charge [OF a, of used] assms(4) by (auto simp: in64_def MaxInt64_def)
  have x: "0 \<le> ?x" "?x \<le> a" using a by (simp_all add: charge_def)
  let ?m = "end_lease (if ?x > 0 then add_balance m (TenantID l) ?x else m) i l LeaseStateSettled now"
  have "mem_Settle m i used now = (?m, None)"
    using l used by (auto simp: mem_Settle_def Let_def split: if_splits)
  moreover have "mem_ok ?m \<and> balances ?m = (balances m)(TenantID l \<mapsto> b + ?x) \<and>
      mem_live ?m = (mem_live m)(i := None)"
    by (rule end_live_lease [OF assms(1) l(1,2)]) (use x l assms(3) in auto)
  ultimately show ?thesis using l by auto
qed

lemma mem_Cancel_live:
  assumes "mem_ok m" and "mem_live m i = Some (t, a)" and "balances m t = Some b"
  shows "\<exists>m'. mem_Cancel m i now = (m', None) \<and> mem_ok m' \<and>
    balances m' = (balances m)(t \<mapsto> b + a) \<and> mem_live m' = (mem_live m)(i := None)"
proof -
  from assms(2) obtain l where l: "leases m i = Some l" "State l = LeaseStateReserved"
    "TenantID l = t" "Amount l = a"
    by (auto simp: mem_live_def split: option.splits if_splits)
  have a: "0 \<le> a" using mem_okD(2) [OF assms(1,2)] .
  let ?m = "end_lease (add_balance m (TenantID l) a) i l LeaseStateCancelled now"
  have "mem_Cancel m i now = (?m, None)" using l by (simp add: mem_Cancel_def)
  moreover have "mem_ok ?m \<and> balances ?m = (balances m)(TenantID l \<mapsto> b + a) \<and>
      mem_live ?m = (mem_live m)(i := None)"
  proof (cases "a > 0")
    case True
    then show ?thesis
      using end_live_lease [OF assms(1) l(1,2), of a LeaseStateCancelled b ?m now] l a assms(3) by simp
  next
    case False
    have "add_balance m t 0 = m"
    proof -
      have "in64 b"
        using mem_okD(4,5) [OF assms(1,3)] mem_okD(6) [OF assms(1), of t] by (intro in64_nonneg) simp_all
      then have "(balances m)(t \<mapsto> i64 (b + 0)) = balances m" using assms(3) by auto
      then show ?thesis using assms(3) by (simp add: add_balance_def)
    qed
    then show ?thesis
      using end_live_lease [OF assms(1) l(1,2), of 0 LeaseStateCancelled b ?m now] False l a assms(3)
      by simp
  qed
  ultimately show ?thesis using l by auto
qed

lemma mem_Reserve_ok:
  assumes "mem_ok m" and "mem_fresh m i" and "0 \<le> a" and "balances m t = Some b" and "a \<le> b"
  shows "\<exists>m' ls. mem_Reserve m i t a now = (m', Inr ls) \<and> ID ls = i \<and> mem_ok m' \<and>
    balances m' = (balances m)(t \<mapsto> b - a) \<and> mem_live m' = (mem_live m)(i \<mapsto> (t, a))"
proof -
  let ?ls = "\<lparr>ID = i, TenantID = t, Amount = a, State = LeaseStateReserved, CreatedAt = now\<rparr>"
  define m' where "m' = m\<lparr>balances := (balances m)(t \<mapsto> b - a),
    leases := (leases m)(i \<mapsto> lease.extend ?ls \<lparr>terminalAt = 0\<rparr>)\<rparr>"
  note ok = mem_okD [OF assms(1)]
  have "in64 (b - a)"
    using assms(3,5) ok(5) [OF assms(4)] ok(6) [of t] by (intro in64_nonneg) simp_all
  then have r: "mem_Reserve m i t a now = (m', Inr ?ls)"
    using assms(4,5) by (simp add: mem_Reserve_def m'_def Let_def)
  have dead: "mem_live m i = None" using assms(2) by (simp add: mem_fresh_def mem_live_def)
  have lv: "mem_live m' = (mem_live m)(i \<mapsto> (t, a))"
    by (auto simp: mem_live_def m'_def lease.extend_def)
  have out: "outstanding (mem_live m') u = outstanding (mem_live m) u + (if t = u then a else 0)" for u
    using outstanding_add [of "mem_live m" i t a u] ok(1) dead lv by simp
  have bal: "balances m' = (balances m)(t \<mapsto> b - a)" by (simp add: m'_def)
  have "0 \<le> b' \<and> b' + outstanding (mem_live m') u \<le> MaxInt64" if "balances m' u = Some b'" for u b'
    using that bal out ok(4,5) [of u] assms(3-5) by (auto split: if_splits)
  moreover have "0 \<le> a' \<and> balances m' u \<noteq> None" if "mem_live m' j = Some (u, a')" for j u a'
    using that lv bal ok(2,3) [of j u a'] assms(3) by (auto split: if_splits)
  moreover have "finite (dom (leases m'))" using assms(1) by (simp add: mem_ok_def m'_def)
  ultimately have "mem_ok m'" by (simp add: mem_ok_def)
  then show ?thesis using r bal lv by auto
qed

lemma mem_Settle_dead: "mem_live m i = None \<Longrightarrow> fst (mem_Settle m i used now) = m"
  by (auto simp: mem_Settle_def mem_live_def split: option.splits if_splits)

lemma mem_Cancel_dead: "mem_live m i = None \<Longrightarrow> fst (mem_Cancel m i now) = m"
  by (auto simp: mem_Cancel_def mem_live_def split: option.splits if_splits)

text \<open>The in-process ledger has room for every reservation.\<close>

interpretation mem: ledger mem_Reserve mem_Settle mem_Cancel balances mem_live mem_fresh "\<lambda>_ _ _. True" mem_ok
proof (unfold_locales, goal_cases)
  case (1 l)
  then show ?case by (auto simp: mem_ok_def mem_live_finite)
next
  case (3 l i a t b now)
  then show ?case using mem_Reserve_ok by blast
next
  case (7 l used i t a b now)
  then show ?case using mem_Settle_live by blast
next
  case (9 l i t a b now)
  then show ?case using mem_Cancel_live by blast
qed (auto simp: mem_fresh_def mem_live_def mem_Reserve_def
    mem_Settle_dead [unfolded mem_live_def] mem_Cancel_dead [unfolded mem_live_def])

subsection \<open>The sweep\<close>

lemma mem_ok_purge:
  assumes "mem_ok m" and "mem_live m i = None"
  shows "mem_ok (m\<lparr>leases := (leases m)(i := None)\<rparr>)"
    and "mem_live (m\<lparr>leases := (leases m)(i := None)\<rparr>) = mem_live m"
proof -
  show lv: "mem_live (m\<lparr>leases := (leases m)(i := None)\<rparr>) = mem_live m"
    using assms(2) by (auto simp: mem_live_def)
  show "mem_ok (m\<lparr>leases := (leases m)(i := None)\<rparr>)"
    using assms(1) by (simp add: mem_ok_def lv)
qed

lemma expire_live:
  assumes "mem_ok m" and "leases m i = Some l" and "State l = LeaseStateReserved"
    and "m' = end_lease (add_balance m (TenantID l) (Amount l)) i l LeaseStateExpired now"
  shows "mem_ok m' \<and> mem_live m' = (mem_live m)(i := None) \<and> mem.total m' t = mem.total m t"
proof -
  have lv: "mem_live m i = Some (TenantID l, Amount l)" using assms(2,3) by (simp add: mem_live_def)
  note ok = mem_okD [OF assms(1)]
  obtain b where b: "balances m (TenantID l) = Some b" using ok(3) [OF lv] by blast
  have ge: "Amount l \<le> outstanding (mem_live m) (TenantID l)"
    using ok(1,2) lv by (intro outstanding_ge) auto
  have noop: "add_balance m (TenantID l) 0 = m"
  proof -
    have "in64 b" using ok(4,5) [OF b] ok(6) [of "TenantID l"] by (intro in64_nonneg) simp_all
    then have "(balances m)(TenantID l \<mapsto> i64 (b + 0)) = balances m" using b by auto
    then show ?thesis using b by (simp add: add_balance_def)
  qed
  have m': "m' = end_lease (if Amount l > 0 then add_balance m (TenantID l) (Amount l) else m)
      i l LeaseStateExpired now"
    using assms(4) noop ok(2) [OF lv] by (cases "Amount l = 0") auto
  have e: "mem_ok m'" "balances m' = (balances m)(TenantID l \<mapsto> b + Amount l)"
    "mem_live m' = (mem_live m)(i := None)"
    using end_live_lease [OF assms(1-3) ok(2) [OF lv] order_refl _ b m'] by simp_all
  show ?thesis
    using e b outstanding_del [of "mem_live m" i _ _ t, OF ok(1) lv]
    by (cases "TenantID l = t") simp_all
qed

lemma map_le_deleted:
  assumes "f \<subseteq>\<^sub>m g(i := None)" shows "f \<subseteq>\<^sub>m g \<and> f i = None"
proof -
  have eq: "f j = (g(i := None)) j" if "f j \<noteq> None" for j
    using assms that unfolding map_le_def by (metis domIff)
  then have "f i = None" by fastforce
  moreover have "f j = g j" if "f j \<noteq> None" for j
    using eq [OF that] that \<open>f i = None\<close> by (cases "j = i") simp_all
  ultimately show ?thesis unfolding map_le_def by blast
qed

text \<open>
  What a pass does, whatever the order it visits the leases in: the ledger stays
  sound, every tenant's balance together with its reservations is untouched, and the
  leases that stop being live are reserved ones past the cutoff, as many as reported.
\<close>

lemma sweep_walk_spec:
  assumes "mem_ok m" and "sweep_walk rc tc now lmt order m e0 sc = (m', e1)"
  shows "mem_ok m' \<and> (\<forall>t. mem.total m' t = mem.total m t) \<and> mem_live m' \<subseteq>\<^sub>m mem_live m \<and>
    int (card (dom (mem_live m) - dom (mem_live m'))) = e1 - e0 \<and> (e0 \<le> lmt \<longrightarrow> e1 \<le> lmt) \<and>
    (\<forall>i l. leases m i = Some l \<and> mem_live m i \<noteq> None \<and> mem_live m' i = None \<longrightarrow> CreatedAt l < rc)"
  using assms
proof (induction rc tc now lmt order m e0 sc arbitrary: m' e1 rule: sweep_walk.induct)
  case (1 rc tc now lmt m expired scanned)
  then show ?case by auto
next
  case (2 rc tc now lmt i "is" m expired scanned)
  show ?case
  proof (cases "leases m i")
    case None
    then show ?thesis using "2.IH"(1) "2.prems" by simp
  next
    case (Some l)
    consider "scanBatch \<le> scanned"
      | "scanned < scanBatch" "State l \<noteq> LeaseStateReserved"
      | "scanned < scanBatch" "State l = LeaseStateReserved" "lmt \<le> expired \<or> \<not> CreatedAt l < rc"
      | "scanned < scanBatch" "State l = LeaseStateReserved" "expired < lmt" "CreatedAt l < rc"
      by linarith
    then show ?thesis
    proof cases
      case 1
      then show ?thesis using "2.prems" Some by auto
    next
      case 2
      define m1 where "m1 = (if terminalAt l < tc then m\<lparr>leases := (leases m)(i := None)\<rparr> else m)"
      have dead: "mem_live m i = None" using Some 2 by (simp add: mem_live_def)
      have m1: "mem_ok m1" "mem_live m1 = mem_live m" "balances m1 = balances m"
        using "2.prems"(1) mem_ok_purge [OF _ dead] by (auto simp: m1_def)
      have w: "sweep_walk rc tc now lmt is m1 expired (scanned + 1) = (m', e1)"
        using "2.prems"(2) Some 2 by (simp add: m1_def)
      have old: "leases m1 j = Some k" if "leases m j = Some k" "mem_live m j \<noteq> None" for j k
        using that dead by (auto simp: m1_def)
      note IH = "2.IH"(2) [OF Some _ _ m1(1) [unfolded m1_def] w [unfolded m1_def], folded m1_def]
      have "CreatedAt k < rc"
        if "leases m j = Some k" "mem_live m j \<noteq> None" "mem_live m' j = None" for j k
        using that IH 2 old [OF that(1,2)] m1(2) by simp
      then show ?thesis using IH 2 m1(2,3) by (simp only: simp_thms not_le) blast
    next
      case 3
      have w: "sweep_walk rc tc now lmt is m expired (scanned + 1) = (m', e1)"
        using "2.prems"(2) Some 3 by simp
      show ?thesis using "2.IH"(3) [OF Some _ _ 3(3) "2.prems"(1) w] 3 by simp
    next
      case 4
      define m1 where "m1 = end_lease (add_balance m (TenantID l) (Amount l)) i l LeaseStateExpired now"
      have x: "mem_ok m1" "mem_live m1 = (mem_live m)(i := None)" "\<And>t. mem.total m1 t = mem.total m t"
        using expire_live [OF "2.prems"(1) Some 4(2) m1_def] by blast+
      have w: "sweep_walk rc tc now lmt is m1 (expired + 1) (scanned + 1) = (m', e1)"
        using "2.prems"(2) Some 4 by (simp add: m1_def)
      have lv: "mem_live m i \<noteq> None" using Some 4 by (simp add: mem_live_def)
      note IH = "2.IH"(4) [OF Some _ _ _ x(1) [unfolded m1_def] w [unfolded m1_def], folded m1_def]
      have IH': "mem_ok m'" "\<And>t. mem.total m' t = mem.total m1 t" "mem_live m' \<subseteq>\<^sub>m mem_live m1"
        "int (card (dom (mem_live m1) - dom (mem_live m'))) = e1 - (expired + 1)"
        "expired + 1 \<le> lmt \<Longrightarrow> e1 \<le> lmt"
        "\<And>j k. leases m1 j = Some k \<Longrightarrow> mem_live m1 j \<noteq> None \<Longrightarrow> mem_live m' j = None \<Longrightarrow> CreatedAt k < rc"
        using IH 4 by auto
      have sub: "mem_live m' \<subseteq>\<^sub>m mem_live m" "mem_live m' i = None"
        using map_le_deleted [of "mem_live m'" "mem_live m" i] IH'(3) x(2) by simp_all
      have "dom (mem_live m) - dom (mem_live m') = insert i (dom (mem_live m1) - dom (mem_live m'))"
        using x(2) lv sub(2) by auto
      moreover have "i \<notin> dom (mem_live m1)" "finite (dom (mem_live m1))"
        using x(2) mem_okD(1) [OF x(1)] by auto
      ultimately have "int (card (dom (mem_live m) - dom (mem_live m'))) = e1 - expired"
        using IH'(4) by simp
      moreover have "CreatedAt k < rc"
        if "leases m j = Some k" "mem_live m j \<noteq> None" "mem_live m' j = None" for j k
        using that IH'(6) [of j k] x(2) 4(4) Some by (cases "j = i") (auto simp: m1_def)
      ultimately show ?thesis using IH' x(3) sub(1) 4(3) by auto
    qed
  qed
qed

subsection \<open>Traces\<close>

datatype ledger_op =
    OpReserve string string int instant
  | OpSettle string int instant
  | OpCancel string instant
  | OpSweep "string list" instant int

fun ledger_step :: "mem_ledger \<Rightarrow> ledger_op \<Rightarrow> mem_ledger" where
  "ledger_step m (OpReserve i t a now) = fst (mem_Reserve m i t a now)"
| "ledger_step m (OpSettle i used now) = fst (mem_Settle m i used now)"
| "ledger_step m (OpCancel i now) = fst (mem_Cancel m i now)"
| "ledger_step m (OpSweep order now lmt) = fst (mem_SweepOnce m order now lmt)"

text \<open>
  The calls the gateway makes: a reservation of a non-negative amount under an id not
  in the ledger, and usage counts that fit the parameter.
\<close>

fun op_valid :: "mem_ledger \<Rightarrow> ledger_op \<Rightarrow> bool" where
  "op_valid m (OpReserve i t a now) \<longleftrightarrow> mem_fresh m i \<and> 0 \<le> a"
| "op_valid m (OpSettle i used now) \<longleftrightarrow> in64 used"
| "op_valid m _ \<longleftrightarrow> True"

fun op_charge :: "mem_ledger \<Rightarrow> ledger_op \<Rightarrow> string \<Rightarrow> int" where
  "op_charge m (OpSettle i used now) u =
     (case mem_live m i of None \<Rightarrow> 0 | Some (t, a) \<Rightarrow> if t = u then charge a used else 0)"
| "op_charge m _ u = 0"

fun ops_valid :: "mem_ledger \<Rightarrow> ledger_op list \<Rightarrow> bool" where
  "ops_valid m [] \<longleftrightarrow> True"
| "ops_valid m (x # xs) \<longleftrightarrow> op_valid m x \<and> ops_valid (ledger_step m x) xs"

fun ops_charge :: "mem_ledger \<Rightarrow> ledger_op list \<Rightarrow> string \<Rightarrow> int" where
  "ops_charge m [] u = 0"
| "ops_charge m (x # xs) u = op_charge m x u + ops_charge (ledger_step m x) xs u"

definition mem_total :: "mem_ledger \<Rightarrow> string \<Rightarrow> int" where
  "mem_total m u = (case balances m u of None \<Rightarrow> 0 | Some b \<Rightarrow> b) + outstanding (mem_live m) u"

lemma ledger_step_total:
  assumes "mem_ok m" and "op_valid m x"
  shows "mem_ok (ledger_step m x) \<and> mem_total (ledger_step m x) u = mem_total m u - op_charge m x u"
proof (cases x)
  case (OpReserve i t a now)
  then show ?thesis
    using mem.reserve_total [of m i a t now u] assms by (simp add: mem_total_def)
next
  case (OpSettle i used now)
  then show ?thesis
    using mem.settle_total [of m used i now u] assms by (simp add: mem_total_def)
next
  case (OpCancel i now)
  then show ?thesis
    using mem.cancel_total [of m i now u] assms by (simp add: mem_total_def)
next
  case (OpSweep order now lmt)
  obtain m' e where s: "mem_SweepOnce m order now lmt = (m', e)" by fastforce
  then show ?thesis
    using sweep_walk_spec [OF assms(1) s [unfolded mem_SweepOnce_def]] OpSweep
    by (simp add: mem_total_def)
qed

lemma NewMemory_ok: "mem_ok NewMemory"
  by (simp add: mem_ok_def NewMemory_def mem_live_def)

lemma SetBalance_ok:
  assumes "mem_ok m" and "0 \<le> b" and "b + outstanding (mem_live m) t \<le> MaxInt64"
  shows "mem_ok (mem_SetBalance m t b)"
proof -
  have "mem_live (mem_SetBalance m t b) = mem_live m"
    by (rule ext) (simp add: mem_live_def mem_SetBalance_def)
  then show ?thesis using assms by (auto simp: mem_ok_def mem_SetBalance_def)
qed

definition demo_ledger :: mem_ledger where
  "demo_ledger = mem_SetBalance NewMemory ''t'' 100"

lemma demo_ledger_ok: "mem_ok demo_ledger"
  unfolding demo_ledger_def
  by (rule SetBalance_ok [OF NewMemory_ok])
    (simp_all add: outstanding_def mem_live_def NewMemory_def MaxInt64_def dom_def)

definition demo_ledger_ops :: "ledger_op list" where
  "demo_ledger_ops =
     [OpReserve ''l1'' ''t'' 40 1, OpReserve ''l2'' ''t'' 70 2, OpReserve ''l3'' ''t'' 50 3,
      OpSettle ''l1'' 30 4, OpSettle ''l1'' 0 5, OpCancel ''l1'' 6,
      OpSweep [''l3'', ''l1''] (4 * Hour) 10, OpSettle ''l3'' 50 (5 * Hour)]"

lemma demo_ledger_ops_valid: "ops_valid demo_ledger demo_ledger_ops"
  unfolding demo_ledger_ops_def demo_ledger_def NewMemory_def by code_simp

subsection \<open>Properties\<close>

text \<open>
  C6: tokens are conserved and no balance is over-drafted.  Over any sequence of
  reservations, settlements, cancellations and sweep passes, in any order and with
  duplicates, a tenant's balance plus its live reservations falls by exactly what the
  settlements of live leases charge; no balance becomes negative and no sum wraps.
\<close>

theorem ledger_conservation:
  assumes "mem_ok m" and "ops_valid m xs"
  shows "mem_ok (foldl ledger_step m xs) \<and>
    mem_total (foldl ledger_step m xs) u = mem_total m u - ops_charge m xs u"
  using assms
proof (induction xs arbitrary: m)
  case (Cons x xs)
  then show ?case
    using ledger_step_total [of m x u] Cons.IH [of "ledger_step m x"] by simp
qed simp

theorem ledger_conservation_witness:
  "mem_ok (foldl ledger_step demo_ledger demo_ledger_ops) \<and>
   mem_total (foldl ledger_step demo_ledger demo_ledger_ops) ''t'' = mem_total demo_ledger ''t'' - 30"
proof -
  have "ops_charge demo_ledger demo_ledger_ops ''t'' = 30"
    unfolding demo_ledger_ops_def demo_ledger_def NewMemory_def by code_simp
  then show ?thesis
    using ledger_conservation [OF demo_ledger_ok demo_ledger_ops_valid, of "''t''"] by simp
qed

text \<open>
  A lease ends once.  Settling a live lease gives back what was not used, never
  less than nothing and never more than it reserved, whatever usage the upstream
  claims; from then on settling, cancelling and sweeping it move no balance at all.
\<close>

theorem lease_ends_once:
  assumes "mem_ok m" and "mem_live m i = Some (t, a)" and "balances m t = Some b" and "in64 used"
  shows "let m1 = fst (mem_Settle m i used now) in
    balances m1 t = Some (b + (a - charge a used)) \<and> 0 \<le> a - charge a used \<and> a - charge a used \<le> a \<and>
    fst (mem_Settle m1 i used' now') = m1 \<and> fst (mem_Cancel m1 i now') = m1 \<and>
    balances (fst (mem_SweepOnce m1 [i] now' lmt)) = balances m1"
proof -
  obtain m1 where m1: "mem_Settle m i used now = (m1, None)" "mem_ok m1"
    "balances m1 = (balances m)(t \<mapsto> b + (a - charge a used))" "mem_live m1 = (mem_live m)(i := None)"
    using mem_Settle_live [OF assms] by blast
  have a: "0 \<le> a" using mem_okD(2) [OF assms(1,2)] .
  have dead: "mem_live m1 i = None" using m1(4) by simp
  then have "balances (fst (mem_SweepOnce m1 [i] now' lmt)) = balances m1"
    by (auto simp: mem_SweepOnce_def mem_live_def split: option.splits if_splits)
  then show ?thesis
    using m1 a mem_Settle_dead [OF dead] mem_Cancel_dead [OF dead] by (simp add: charge_def)
qed

theorem lease_ends_once_witness:
  "let m = fst (mem_Reserve demo_ledger ''l1'' ''t'' 40 1);
       m1 = fst (mem_Settle m ''l1'' (-7) 2)
   in balances m1 ''t'' = Some 100 \<and> fst (mem_Cancel m1 ''l1'' 3) = m1"
proof -
  let ?m = "fst (mem_Reserve demo_ledger ''l1'' ''t'' 40 1)"
  have "mem_ok ?m"
    using mem.reserve_total [OF demo_ledger_ok, of "''l1''" 40] by (simp add: mem_fresh_def demo_ledger_def
        mem_SetBalance_def NewMemory_def)
  moreover have "mem_live ?m ''l1'' = Some (''t'', 40)" "balances ?m ''t'' = Some 60" "in64 (-7)"
    unfolding demo_ledger_def NewMemory_def by code_simp+
  ultimately show ?thesis
    using lease_ends_once [of ?m "''l1''" "''t''" 40 60 "-7" 2 _ 3] by (simp add: Let_def charge_def)
qed

text \<open>
  The sweep gives back only what is overdue.  A pass, whatever order it visits
  the leases in, moves no token between tenants or out of the ledger; the leases it
  ends are reserved ones older than the reclaim horizon, it ends exactly as many as it
  reports, and never more than its limit.
\<close>

theorem sweep_reclaims_overdue:
  assumes "mem_ok m" and "0 \<le> lmt" and "mem_SweepOnce m order now lmt = (m', n)"
  shows "mem_ok m' \<and> mem_total m' t = mem_total m t \<and> mem_live m' \<subseteq>\<^sub>m mem_live m \<and>
    int (card (dom (mem_live m) - dom (mem_live m'))) = n \<and> n \<le> lmt \<and>
    (leases m i = Some l \<and> mem_live m i \<noteq> None \<and> mem_live m' i = None \<longrightarrow>
      CreatedAt l < now - leaseTTL m)"
  using sweep_walk_spec [OF assms(1) assms(3) [unfolded mem_SweepOnce_def]] assms(2)
  by (auto simp: mem_total_def)

definition demo_two_leases :: mem_ledger where
  "demo_two_leases =
     ledger_step (ledger_step demo_ledger (OpReserve ''l1'' ''t'' 40 1)) (OpReserve ''l2'' ''t'' 50 Hour)"

lemma demo_two_leases_ok: "mem_ok demo_two_leases"
proof -
  let ?x = "OpReserve ''l1'' ''t'' 40 1" and ?y = "OpReserve ''l2'' ''t'' 50 Hour"
  have "op_valid demo_ledger ?x" "op_valid (ledger_step demo_ledger ?x) ?y"
    unfolding demo_ledger_def NewMemory_def by code_simp+
  then show ?thesis
    unfolding demo_two_leases_def using ledger_step_total demo_ledger_ok by blast
qed

theorem sweep_reclaims_overdue_witness:
  "let (m', n) = mem_SweepOnce demo_two_leases [''l2'', ''l1''] (Hour + 2) 10
   in n = 1 \<and> mem_total m' ''t'' = mem_total demo_two_leases ''t'' \<and>
      int (card (dom (mem_live demo_two_leases) - dom (mem_live m'))) = n"
proof -
  let ?r = "mem_SweepOnce demo_two_leases [''l2'', ''l1''] (Hour + 2) 10"
  have "snd ?r = 1" unfolding demo_two_leases_def demo_ledger_def NewMemory_def by code_simp
  moreover have "mem_total (fst ?r) ''t'' = mem_total demo_two_leases ''t'' \<and>
      int (card (dom (mem_live demo_two_leases) - dom (mem_live (fst ?r)))) = snd ?r"
    using sweep_reclaims_overdue [OF demo_two_leases_ok _ prod.collapse [symmetric],
        of 10 "[''l2'', ''l1'']" "Hour + 2" "''t''"] by simp
  ultimately show ?thesis by (simp add: case_prod_beta)
qed

text \<open>
  The quota stage charges what was consumed and never more than it reserved.
  For a tenant that can afford the request, and whatever else happens to the ledger
  while it is served short of ending this lease, the settlement on the way out leaves
  the tenant with its balance of that moment plus the reservation less the charge:
  everything for a request that consumed nothing, the unused part otherwise.  A tenant
  that cannot afford it, or has no ledger, is refused with the ledger untouched.
\<close>

theorem quota_stage_charges:
  assumes "mem_ok m" and "mem_fresh m i" and "0 < a"
    and "\<And>m1. mem_ok m1 \<Longrightarrow> mem_live m1 i = Some (t, a) \<Longrightarrow>
      mem_ok (fst (serve m1 a)) \<and> mem_live (fst (serve m1 a)) i = Some (t, a) \<and>
      in64 (snd (serve m1 a))"
    and "quota_stage mem_Reserve mem_Settle mem_Cancel m i t a est serve t0 t1 = (m', rep)"
  shows "case balances m t of
      None \<Rightarrow> m' = m \<and> rep = QuotaNotProvisioned
    | Some b \<Rightarrow>
        if b < a then m' = m \<and> rep = InsufficientQuota
        else let (m2, used) = serve (fst (mem_Reserve m i t a t0)) a in
          rep = QuotaServed used \<and> mem_ok m' \<and> mem_live m' i = None \<and>
          balances m' t = Some (the (balances m2 t) + a - charge a used)"
proof (cases "balances m t")
  case None
  then show ?thesis
    using mem.quota_stage_refused [OF assms(1,3), of t i est serve t0 t1] assms(5) by simp
next
  case (Some b)
  show ?thesis
  proof (cases "b < a")
    case True
    then show ?thesis
      using Some mem.quota_stage_refused [OF assms(1,3), of t i est serve t0 t1] assms(5) by simp
  next
    case False
    have a: "0 \<le> a" "a \<le> b" using False assms(3) by simp_all
    obtain l1 ls used b2 where "mem_Reserve m i t a t0 = (l1, Inr ls)" "rep = QuotaServed used"
      "used = snd (serve l1 a)" "balances (fst (serve l1 a)) t = Some b2" "mem_ok m'"
      "balances m' t = Some (b2 + a - charge a used)" "mem_live m' i = None"
      using mem.quota_stage_served [OF assms(1,2) a(1) Some a(2) TrueI assms(3,4,5)] by blast
    then show ?thesis using Some False by (simp add: case_prod_beta)
  qed
qed

theorem quota_stage_charges_witness:
  "quota_stage mem_Reserve mem_Settle mem_Cancel demo_ledger ''l1'' ''t'' 40 0 (\<lambda>m a. (m, 25)) 1 2 =
     (fst (quota_stage mem_Reserve mem_Settle mem_Cancel demo_ledger ''l1'' ''t'' 40 0 (\<lambda>m a. (m, 25)) 1 2),
      QuotaServed 25) \<and>
   balances (fst (quota_stage mem_Reserve mem_Settle mem_Cancel demo_ledger ''l1'' ''t'' 40 0
     (\<lambda>m a. (m, 25)) 1 2)) ''t'' = Some 75"
proof -
  let ?r = "quota_stage mem_Reserve mem_Settle mem_Cancel demo_ledger ''l1'' ''t'' 40 0 (\<lambda>m a. (m, 25)) 1 2"
  have f: "mem_fresh demo_ledger ''l1''" "balances demo_ledger ''t'' = Some 100"
    by (simp_all add: mem_fresh_def demo_ledger_def mem_SetBalance_def NewMemory_def)
  have b: "balances (fst (mem_Reserve demo_ledger ''l1'' ''t'' 40 1)) ''t'' = Some 60"
    unfolding demo_ledger_def NewMemory_def by code_simp
  have c: "charge 40 25 = 25" "in64 25" by code_simp+
  have "case balances demo_ledger ''t'' of
      None \<Rightarrow> fst ?r = demo_ledger \<and> snd ?r = QuotaNotProvisioned
    | Some b \<Rightarrow>
        if b < 40 then fst ?r = demo_ledger \<and> snd ?r = InsufficientQuota
        else let (m2, used) = (\<lambda>m a. (m, 25)) (fst (mem_Reserve demo_ledger ''l1'' ''t'' 40 1)) (40 :: int) in
          snd ?r = QuotaServed used \<and> mem_ok (fst ?r) \<and> mem_live (fst ?r) ''l1'' = None \<and>
          balances (fst ?r) ''t'' = Some (the (balances m2 ''t'') + 40 - charge 40 used)"
    by (rule quota_stage_charges [OF demo_ledger_ok f(1)]) (simp_all add: c)
  then show ?thesis using f b c by (cases ?r) (simp del: charge_def)
qed

end
