(* ===== verification/Quota_Redis.thy ===== *)
theory Quota_Redis
  imports Quota_Port Float64 "HOL-Library.List_Lexorder" "HOL-Library.Char_ord"
    "HOL-Library.Product_Lexorder"
begin

text \<open>
  The Redis ledger: \<^verbatim>\<open>internal/quota/redis.go\<close> with the three scripts it runs
  (\<^verbatim>\<open>reserve.lua\<close>, \<^verbatim>\<open>settle.lua\<close>, \<^verbatim>\<open>release.lua\<close>), and the reconciler
  (\<^verbatim>\<open>reconcile.go\<close>).

  The key families the source separates by prefix are separate maps.  A script is one
  isolated step; a Lua number is a double, so a value read from a key is rounded, and
  \<open>%d\<close> writes an integral double back through a C \<open>long\<close>.  \<open>INCRBY\<close> fails when the sum leaves
  the 64-bit range; the error ends the script, and what the script wrote before stays, so a
  script answers \<open>None\<close> with the state it had reached.  A lease hash past its audit
  expiry reads as missing; the server's clock is the instant of the call.  Failures of the
  connection are not modelled: a call reports \<open>ErrBackend\<close> when its script or transaction did.
\<close>

record redis_lease =
  rtenant :: string
  ramount :: int
  rstate :: lease_state
  rexpire :: "int option"

record redis_ledger =
  rbal :: "string \<rightharpoonup> int"
  rlease :: "string \<rightharpoonup> redis_lease"
  rsweep :: "(int \<times> string) list"
  rdebited :: "string \<rightharpoonup> int"
  rrefunded :: "string \<rightharpoonup> int"
  rconsumed :: "string \<rightharpoonup> int"
  repoch :: "string \<rightharpoonup> int"
  rttl :: duration

definition unix_milli :: "instant \<Rightarrow> int" where
  "unix_milli t = (t - 62135596800 * Second) div Millisecond"

definition milliseconds :: "duration \<Rightarrow> int" where
  "milliseconds d = d sdiv Millisecond"

definition neverProvisioned :: int where "neverProvisioned = -1"

definition quota_keyPrefix :: string where "quota_keyPrefix = ''bw:quota:''"

definition quota_namespacedKeyPrefix :: "string \<Rightarrow> string" where
  "quota_namespacedKeyPrefix ns =
     (if ns = [] then quota_keyPrefix else ns @ '':'' @ quota_keyPrefix)"

text \<open>
  \<open>INCRBY\<close> on a missing key starts from zero, and is an error when it would overflow.
  A double outside the range of a \<open>long\<close> has no defined conversion in C; on amd64 it is the
  least integer.
\<close>

definition incrby :: "(string \<rightharpoonup> int) \<Rightarrow> string \<Rightarrow> int \<Rightarrow> (string \<rightharpoonup> int) option" where
  "incrby f k x =
     (let n = (case f k of None \<Rightarrow> 0 | Some v \<Rightarrow> v) + x
      in if in64 n then Some (f(k \<mapsto> n)) else None)"

definition to_long :: "rat \<Rightarrow> int" where
  "to_long x = (if in64 \<lfloor>x\<rfloor> then \<lfloor>x\<rfloor> else MinInt64)"

definition zrem :: "(int \<times> string) list \<Rightarrow> string \<Rightarrow> (int \<times> string) list" where
  "zrem z i = filter (\<lambda>(_, j). j \<noteq> i) z"

definition zadd :: "(int \<times> string) list \<Rightarrow> int \<Rightarrow> string \<Rightarrow> (int \<times> string) list" where
  "zadd z score i = insort (score, i) (zrem z i)"

definition rget :: "redis_ledger \<Rightarrow> string \<Rightarrow> int \<Rightarrow> redis_lease option" where
  "rget s i ms =
     (case rlease s i of
        None \<Rightarrow> None
      | Some l \<Rightarrow> (case rexpire l of None \<Rightarrow> Some l | Some x \<Rightarrow> if x \<le> ms then None else Some l))"

definition reserve_lua ::
  "redis_ledger \<Rightarrow> string \<Rightarrow> string \<Rightarrow> int \<Rightarrow> int \<Rightarrow> int \<Rightarrow> redis_ledger \<times> (int \<times> int) option" where
  "reserve_lua s i t ms amt ttl_ms =
     (case rbal s t of
        None \<Rightarrow> (s, Some (0, -1))
      | Some b \<Rightarrow>
          let bal = f64 b; amount = f64 amt
          in if bal < amount then (s, Some (0, to_long bal))
             else let bal1 = fl (bal - amount);
                      s1 = s\<lparr>rbal := (rbal s)(t \<mapsto> to_long bal1)\<rparr>
                  in case incrby (rdebited s1) t (to_long amount) of
                       None \<Rightarrow> (s1, None)
                     | Some d \<Rightarrow>
                         (s1\<lparr>rdebited := d,
                            rlease := (rlease s1)(i \<mapsto> \<lparr>rtenant = t, ramount = to_long amount,
                               rstate = LeaseStateReserved, rexpire = None\<rparr>),
                            rsweep := zadd (rsweep s1) (ms + ttl_ms) i\<rparr>, Some (1, to_long bal1)))"

definition redis_Reserve ::
  "redis_ledger \<Rightarrow> string \<Rightarrow> string \<Rightarrow> int \<Rightarrow> instant \<Rightarrow> redis_ledger \<times> (quota_error + lease)" where
  "redis_Reserve s i t amount now =
     (case reserve_lua s i t (unix_milli now) amount (milliseconds (rttl s)) of
        (s', None) \<Rightarrow> (s', Inl ErrBackend)
      | (s', Some (ok, bal)) \<Rightarrow>
          if ok \<noteq> 1
          then (s', Inl (if bal = neverProvisioned then ErrUnknownTenant else ErrInsufficientBalance))
          else (s', Inr \<lparr>ID = i, TenantID = t, Amount = amount, State = LeaseStateReserved,
                         CreatedAt = now\<rparr>))"

text \<open>The writes of a settlement in their order: balance, state, consumed, refunded, expiry, sweep set.\<close>

definition settle_lua :: "redis_ledger \<Rightarrow> string \<Rightarrow> string \<Rightarrow> int \<Rightarrow> int \<Rightarrow> redis_ledger \<times> int option" where
  "settle_lua s i t ms usedTokens =
     (case rget s i ms of
        None \<Rightarrow> (s, Some 0)
      | Some l \<Rightarrow>
          if rstate l \<noteq> LeaseStateReserved then (s, Some 0)
          else let amount = f64 (ramount l);
                   used = max (f64 usedTokens) 0;
                   refund = fl (amount - used)
               in case (if refund > 0 then incrby (rbal s) t (to_long refund) else Some (rbal s)) of
                    None \<Rightarrow> (s, None)
                  | Some bal \<Rightarrow>
                      let l1 = l\<lparr>rstate := LeaseStateSettled\<rparr>;
                          s1 = s\<lparr>rbal := bal, rlease := (rlease s)(i \<mapsto> l1)\<rparr>
                      in case incrby (rconsumed s1) t (to_long used) of
                           None \<Rightarrow> (s1, None)
                         | Some con \<Rightarrow>
                             let s2 = s1\<lparr>rconsumed := con\<rparr>
                             in case (if refund > 0 then incrby (rrefunded s2) t (to_long refund)
                                      else Some (rrefunded s2)) of
                                  None \<Rightarrow> (s2, None)
                                | Some ref \<Rightarrow>
                                    (s2\<lparr>rrefunded := ref,
                                       rlease := (rlease s2)(i \<mapsto> l1\<lparr>rexpire := Some (ms + milliseconds leaseAuditTTL)\<rparr>),
                                       rsweep := zrem (rsweep s2) i\<rparr>, Some 1))"

definition redis_Settle ::
  "redis_ledger \<Rightarrow> string \<Rightarrow> int \<Rightarrow> instant \<Rightarrow> redis_ledger \<times> quota_error option" where
  "redis_Settle s i usedTokens now =
     (case rget s i (unix_milli now) of
        None \<Rightarrow> (s, None)
      | Some l \<Rightarrow>
          (case settle_lua s i (rtenant l) (unix_milli now) usedTokens of
             (s', None) \<Rightarrow> (s', Some ErrBackend)
           | (s', Some _) \<Rightarrow> (s', None)))"

definition release_lua ::
  "redis_ledger \<Rightarrow> string \<Rightarrow> string \<Rightarrow> int \<Rightarrow> lease_state \<Rightarrow> redis_ledger \<times> int option" where
  "release_lua s i t ms st =
     (let s0 = s\<lparr>rsweep := zrem (rsweep s) i\<rparr>
      in case rget s i ms of
           None \<Rightarrow> (s0, Some 0)
         | Some l \<Rightarrow>
             if rstate l \<noteq> LeaseStateReserved then (s0, Some 0)
             else let amount = f64 (ramount l)
                  in case incrby (rbal s0) t (to_long amount) of
                       None \<Rightarrow> (s0, None)
                     | Some bal \<Rightarrow>
                         let l1 = l\<lparr>rstate := st\<rparr>;
                             s1 = s0\<lparr>rbal := bal, rlease := (rlease s0)(i \<mapsto> l1)\<rparr>
                         in case incrby (rrefunded s1) t (to_long amount) of
                              None \<Rightarrow> (s1, None)
                            | Some ref \<Rightarrow>
                                (s1\<lparr>rrefunded := ref,
                                   rlease := (rlease s1)(i \<mapsto> l1\<lparr>rexpire := Some (ms + milliseconds leaseAuditTTL)\<rparr>)\<rparr>,
                                 Some 1))"

definition redis_release ::
  "redis_ledger \<Rightarrow> string \<Rightarrow> instant \<Rightarrow> lease_state \<Rightarrow> redis_ledger \<times> (quota_error + bool)" where
  "redis_release s i now st =
     (case rget s i (unix_milli now) of
        None \<Rightarrow> (s\<lparr>rsweep := zrem (rsweep s) i\<rparr>, Inr False)
      | Some l \<Rightarrow>
          (case release_lua s i (rtenant l) (unix_milli now) st of
             (s', None) \<Rightarrow> (s', Inl ErrBackend)
           | (s', Some r) \<Rightarrow> (s', Inr (r = 1))))"

definition redis_Cancel :: "redis_ledger \<Rightarrow> string \<Rightarrow> instant \<Rightarrow> redis_ledger \<times> quota_error option" where
  "redis_Cancel s i now =
     (case redis_release s i now LeaseStateCancelled of
        (s', Inl err) \<Rightarrow> (s', Some err)
      | (s', Inr _) \<Rightarrow> (s', None))"

definition redis_Balance :: "redis_ledger \<Rightarrow> string \<Rightarrow> quota_error + int" where
  "redis_Balance s t = (case rbal s t of None \<Rightarrow> Inl ErrUnknownTenant | Some b \<Rightarrow> Inr b)"

text \<open>A transaction runs both commands; the failure of the second does not undo the first.\<close>

definition redis_SetBalance :: "redis_ledger \<Rightarrow> string \<Rightarrow> int \<Rightarrow> redis_ledger \<times> quota_error option" where
  "redis_SetBalance s t b =
     (let s1 = s\<lparr>rbal := (rbal s)(t \<mapsto> b)\<rparr>
      in case incrby (repoch s1) t 1 of
           None \<Rightarrow> (s1, Some ErrBackend)
         | Some e \<Rightarrow> (s1\<lparr>repoch := e\<rparr>, None))"

definition redis_EnsureBalance :: "redis_ledger \<Rightarrow> string \<Rightarrow> int \<Rightarrow> redis_ledger \<times> bool" where
  "redis_EnsureBalance s t initial =
     (case rbal s t of
        Some _ \<Rightarrow> (s, False)
      | None \<Rightarrow> (s\<lparr>rbal := (rbal s)(t \<mapsto> initial)\<rparr>, True))"

fun release_all :: "redis_ledger \<Rightarrow> string list \<Rightarrow> instant \<Rightarrow> int \<Rightarrow> redis_ledger \<times> int \<times> quota_error option" where
  "release_all s [] now n = (s, n, None)"
| "release_all s (i # is) now n =
     (case redis_release s i now LeaseStateExpired of
        (s', Inl err) \<Rightarrow> (s', n, Some err)
      | (s', Inr moved) \<Rightarrow> release_all s' is now (if moved then n + 1 else n))"

definition redis_SweepOnce :: "redis_ledger \<Rightarrow> instant \<Rightarrow> int \<Rightarrow> redis_ledger \<times> int \<times> quota_error option" where
  "redis_SweepOnce s now lmt =
     release_all s
       (map snd (take (nat lmt) (filter (\<lambda>(score, _). score \<le> unix_milli now) (rsweep s)))) now 0"

subsection \<open>Reconciliation\<close>

record snapshot =
  sTenant :: string
  sBalance :: int
  sConsumed :: int
  sRefunded :: int
  sDebited :: int
  sEpoch :: int
  sTakenAt :: instant

definition counterValue :: "int option \<Rightarrow> int" where
  "counterValue c = (case c of None \<Rightarrow> 0 | Some v \<Rightarrow> v)"

text \<open>
  The five reads travel in one pipeline, which is not a transaction: each is answered
  by the state the server has when it reaches it, and other clients' scripts may run
  in between.
\<close>

definition TenantSnapshot ::
  "redis_ledger \<Rightarrow> redis_ledger \<Rightarrow> redis_ledger \<Rightarrow> redis_ledger \<Rightarrow> redis_ledger \<Rightarrow> string \<Rightarrow> instant
    \<Rightarrow> snapshot option" where
  "TenantSnapshot s1 s2 s3 s4 s5 t takenAt =
     (case rbal s1 t of
        None \<Rightarrow> None
      | Some b \<Rightarrow> Some \<lparr>sTenant = t, sBalance = b, sConsumed = counterValue (rconsumed s2 t),
          sRefunded = counterValue (rrefunded s3 t), sDebited = counterValue (rdebited s4 t),
          sEpoch = counterValue (repoch s5 t), sTakenAt = takenAt\<rparr>)"

definition debitedDelta :: "snapshot \<Rightarrow> snapshot \<Rightarrow> int" where
  "debitedDelta prev snap = i64 (sDebited snap - sDebited prev)"

definition refundedDelta :: "snapshot \<Rightarrow> snapshot \<Rightarrow> int" where
  "refundedDelta prev snap = i64 (sRefunded snap - sRefunded prev)"

definition balanceDrop :: "snapshot \<Rightarrow> snapshot \<Rightarrow> int" where
  "balanceDrop prev snap = i64 (sBalance prev - sBalance snap)"

definition drift :: "snapshot \<Rightarrow> snapshot \<Rightarrow> int" where
  "drift prev snap =
     i64 (i64 (debitedDelta prev snap - refundedDelta prev snap) - balanceDrop prev snap)"

record reconcile_report =
  checked :: int
  drifted :: int
  drifts :: "(string \<times> int) list"
  failures :: "string list"

text \<open>
  One round over the tenants: \<open>src\<close> is the source's answer per tenant, \<open>lat\<close> and
  \<open>app\<close> say whether the store's read and append succeed for it, and the store keeps
  the appended snapshots, the latest first.
\<close>

fun reconcile_loop ::
  "(string \<Rightarrow> quota_error + snapshot option) \<Rightarrow> (string \<Rightarrow> bool) \<Rightarrow> (string \<Rightarrow> bool) \<Rightarrow> string list
    \<Rightarrow> (string \<Rightarrow> snapshot list) \<Rightarrow> reconcile_report
    \<Rightarrow> (string \<Rightarrow> snapshot list) \<times> reconcile_report" where
  "reconcile_loop src lat app [] st r = (st, r)"
| "reconcile_loop src lat app (t # ts) st r =
     (case src t of
        Inl _ \<Rightarrow> reconcile_loop src lat app ts st (r\<lparr>failures := failures r @ [t]\<rparr>)
      | Inr None \<Rightarrow> reconcile_loop src lat app ts st r
      | Inr (Some snap) \<Rightarrow>
          if \<not> lat t then reconcile_loop src lat app ts st (r\<lparr>failures := failures r @ [t]\<rparr>)
          else let prev = (case st t of [] \<Rightarrow> None | p # _ \<Rightarrow> Some p)
               in if \<not> app t then reconcile_loop src lat app ts st (r\<lparr>failures := failures r @ [t]\<rparr>)
                  else let st1 = st(t := snap # st t)
                       in (case prev of
                             None \<Rightarrow> reconcile_loop src lat app ts st1 r
                           | Some p \<Rightarrow>
                               if sEpoch p \<noteq> sEpoch snap then reconcile_loop src lat app ts st1 r
                               else let r1 = r\<lparr>checked := checked r + 1\<rparr>
                                    in if drift p snap \<noteq> 0
                                       then reconcile_loop src lat app ts st1
                                              (r1\<lparr>drifted := drifted r1 + 1,
                                                  drifts := drifts r1 @ [(t, drift p snap)]\<rparr>)
                                       else reconcile_loop src lat app ts st1 r1))"

definition ReconcileOnce ::
  "(string \<Rightarrow> quota_error + snapshot option) \<Rightarrow> (string \<Rightarrow> bool) \<Rightarrow> (string \<Rightarrow> bool) \<Rightarrow> string list
    \<Rightarrow> (string \<Rightarrow> snapshot list) \<Rightarrow> (string \<Rightarrow> snapshot list) \<times> reconcile_report" where
  "ReconcileOnce src lat app tenants st =
     reconcile_loop src lat app tenants st \<lparr>checked = 0, drifted = 0, drifts = [], failures = []\<rparr>"

subsection \<open>The ledger contract\<close>

definition redis_live :: "redis_ledger \<Rightarrow> reservations" where
  "redis_live s i =
     (case rlease s i of
        None \<Rightarrow> None
      | Some l \<Rightarrow> if rstate l = LeaseStateReserved then Some (rtenant l, ramount l) else None)"

definition redis_fresh :: "redis_ledger \<Rightarrow> string \<Rightarrow> bool" where
  "redis_fresh s i \<longleftrightarrow> rlease s i = None"

text \<open>
  As for the in-process ledger, with the range in which doubles are exact: a balance
  with everything reserved from it stays below 2^53.  A live lease never expires.
\<close>

definition redis_ok :: "redis_ledger \<Rightarrow> bool" where
  "redis_ok s \<longleftrightarrow> finite (dom (rlease s)) \<and>
     (\<forall>i l. rlease s i = Some l \<and> rstate l = LeaseStateReserved \<longrightarrow> rexpire l = None) \<and>
     (\<forall>i t a. redis_live s i = Some (t, a) \<longrightarrow> 0 \<le> a \<and> rbal s t \<noteq> None) \<and>
     (\<forall>t b. rbal s t = Some b \<longrightarrow> 0 \<le> b \<and> b + outstanding (redis_live s) t < 2 ^ 53)"

lemma redis_live_finite: "finite (dom (rlease s)) \<Longrightarrow> finite (dom (redis_live s))"
  by (erule finite_subset [rotated]) (auto simp: redis_live_def split: option.splits)

lemma redis_okD:
  assumes "redis_ok s"
  shows "finite (dom (redis_live s))" and "redis_live s i = Some (t, a) \<Longrightarrow> 0 \<le> a"
    and "redis_live s i = Some (t, a) \<Longrightarrow> \<exists>b. rbal s t = Some b"
    and "rbal s t = Some b \<Longrightarrow> 0 \<le> b"
    and "rbal s t = Some b \<Longrightarrow> b + outstanding (redis_live s) t < 2 ^ 53"
    and "0 \<le> outstanding (redis_live s) t"
  using assms redis_live_finite outstanding_nonneg by (auto simp: redis_ok_def)

lemma redis_live_get:
  assumes "redis_ok s" and "redis_live s i = Some (t, a)"
  obtains l where "rlease s i = Some l" "rget s i ms = Some l" "rstate l = LeaseStateReserved"
    "rtenant l = t" "ramount l = a" "0 \<le> a" "a \<le> 2 ^ 53"
proof -
  from assms(2) obtain l where l: "rlease s i = Some l" "rstate l = LeaseStateReserved"
    "rtenant l = t" "ramount l = a"
    by (auto simp: redis_live_def split: option.splits if_splits)
  have "rexpire l = None" using assms(1) l by (auto simp: redis_ok_def)
  then have "rget s i ms = Some l" using l by (simp add: rget_def)
  moreover obtain b where b: "rbal s t = Some b" using redis_okD(3) [OF assms] by blast
  moreover have "a \<le> outstanding (redis_live s) t"
    using redis_okD(1,2) [OF assms(1)] assms(2) by (intro outstanding_ge) auto
  ultimately show thesis
    using that l redis_okD(2) [OF assms] redis_okD(4,5) [OF assms(1) b] by simp
qed

lemma redis_dead_get:
  "redis_live s i = None \<Longrightarrow> rget s i ms = Some l \<Longrightarrow> rstate l \<noteq> LeaseStateReserved"
  by (auto simp: redis_live_def rget_def split: option.splits if_splits)

text \<open>
  The state after a live lease ends with a refund of \<open>x\<close>; the counters other than the
  balance do not matter to the contract.
\<close>

lemma redis_end_live:
  assumes "redis_ok s" and "redis_live s i = Some (t, a)" and "rbal s t = Some b"
    and "0 \<le> x" and "x \<le> a" and "rstate k \<noteq> LeaseStateReserved"
    and "rbal s' = (rbal s)(t \<mapsto> b + x)"
    and "rlease s' = (rlease s)(i \<mapsto> k)"
  shows "redis_ok s' \<and> redis_live s' = (redis_live s)(i := None)"
proof -
  note ok = redis_okD [OF assms(1)]
  have lv: "redis_live s' = (redis_live s)(i := None)"
    using assms(6,8) by (auto simp: redis_live_def)
  have b: "0 \<le> b" "b + outstanding (redis_live s) t < 2 ^ 53"
    using ok(4,5) [OF assms(3)] by simp_all
  have "0 \<le> b' \<and> b' + outstanding (redis_live s') u < 2 ^ 53" if "rbal s' u = Some b'" for u b'
    using that b assms(4,5,7) ok(4,5) [of u] outstanding_del [of "redis_live s" i _ _ u, OF ok(1) assms(2)]
    by (auto simp: lv split: if_splits)
  moreover have "0 \<le> c \<and> rbal s' u \<noteq> None" if "redis_live s' j = Some (u, c)" for j u c
    using that lv assms(7) ok(2,3) [of j u c] by (auto split: if_splits)
  moreover have "finite (dom (rlease s'))" using assms(1,8) by (auto simp: redis_ok_def)
  moreover have "\<forall>j k. rlease s' j = Some k \<and> rstate k = LeaseStateReserved \<longrightarrow> rexpire k = None"
    using assms(1,6,8) by (auto simp: redis_ok_def)
  ultimately show ?thesis using lv by (simp add: redis_ok_def)
qed

text \<open>A refund never leaves the range of the doubles, let alone of the counters.\<close>

lemma redis_refund_fits:
  assumes "redis_ok s" and "redis_live s i = Some (t, a)" and "rbal s t = Some b"
  shows "0 \<le> b" and "b + a \<le> 2 ^ 53"
proof -
  have "a \<le> outstanding (redis_live s) t"
    using redis_okD(1,2) [OF assms(1)] assms(2) by (intro outstanding_ge) auto
  then show "0 \<le> b" "b + a \<le> 2 ^ 53" using redis_okD(4,5) [OF assms(1,3)] by simp_all
qed

lemma redis_ok_same:
  assumes "redis_ok s" and "rbal s' = rbal s" and "rlease s' = rlease s"
  shows "redis_ok s' \<and> redis_live s' = redis_live s"
proof -
  have "redis_live s' = redis_live s" using assms(3) by (auto simp: redis_live_def)
  then show ?thesis using assms unfolding redis_ok_def by metis
qed

lemma incrby_some: "f k = Some v \<Longrightarrow> in64 (v + x) \<Longrightarrow> incrby f k x = Some (f(k \<mapsto> v + x))"
  by (simp add: incrby_def)

lemma incrby_counter:
  "incrby f k x = Some g \<Longrightarrow> counterValue (g u) = counterValue (f u) + (if u = k then x else 0)"
  by (auto simp: incrby_def counterValue_def Let_def split: if_splits option.splits)

lemma to_long_int [simp]: "in64 k \<Longrightarrow> to_long (of_int k) = k"
  by (simp add: to_long_def)

lemma small_in64: "0 \<le> k \<Longrightarrow> k \<le> 2 ^ 53 \<Longrightarrow> in64 k"
  by (rule in64_nonneg) (simp_all add: MaxInt64_def)

lemma settle_refund:
  assumes "0 \<le> a" and "a \<le> 2 ^ 53"
  shows "let r = fl (f64 a - max (f64 used) 0) in
    (if r > 0 then \<lfloor>r\<rfloor> else 0) = a - charge a used \<and> (r > 0 \<longleftrightarrow> 0 < a - charge a used)"
proof (cases "\<bar>max used 0\<bar> \<le> 2 ^ 53")
  case True
  have "max (f64 used) 0 = f64 (max used 0)"
    using f64_mono [of used 0] f64_nonneg [of used] by (auto simp: max_def f64_def)
  then have eq: "f64 a - max (f64 used) 0 = of_int (a - max used 0)" using assms True by simp
  have "\<bar>a - max used 0\<bar> \<le> 2 ^ 53" using assms True by auto
  then have "fl (f64 a - max (f64 used) 0) = of_int (a - max used 0)"
    unfolding eq by (rule fl_int)
  then show ?thesis by (auto simp: charge_def)
next
  case False
  then have big: "2 ^ 53 \<le> used" by auto
  have "f64 (2 ^ 53) \<le> f64 used" using f64_mono [OF big] .
  then have "f64 a - max (f64 used) 0 \<le> 0" using assms by (simp add: max_def)
  then have "fl (f64 a - max (f64 used) 0) \<le> 0" by (rule fl_nonpos)
  then show ?thesis using big assms by (simp add: charge_def Let_def)
qed

text \<open>
  How far a settlement of a live lease gets: the balance and the state are written before
  the counters, and when it does not fail, the refunds are too.
\<close>

lemma settle_lua_reaches:
  assumes "rget s i ms = Some l" and "rstate l = LeaseStateReserved"
    and "r = fl (f64 (ramount l) - max (f64 used) 0)"
    and "(if r > 0 then incrby (rbal s) t (to_long r) else Some (rbal s)) = Some bal"
    and "settle_lua s i t ms used = (s', out)"
  shows "rbal s' = bal \<and> rdebited s' = rdebited s \<and> repoch s' = repoch s \<and>
    (\<exists>k. rlease s' = (rlease s)(i \<mapsto> k) \<and> rstate k = LeaseStateSettled) \<and>
    (out \<noteq> None \<longrightarrow> (if r > 0 then incrby (rrefunded s) t (to_long r) else Some (rrefunded s)) = Some (rrefunded s'))"
proof -
  let ?l1 = "l\<lparr>rstate := LeaseStateSettled\<rparr>"
  let ?s1 = "s\<lparr>rbal := bal, rlease := (rlease s)(i \<mapsto> ?l1)\<rparr>"
  note run = assms(5) [unfolded settle_lua_def, simplified assms(1,2) option.case simp_thms if_False Let_def,
      folded assms(3), unfolded assms(4) option.case]
  show ?thesis
  proof (cases "incrby (rconsumed s) t (to_long (max (f64 used) 0))")
    case None
    then have "s' = ?s1" "out = None" using run by simp_all
    then show ?thesis by (simp add: exI [of _ ?l1])
  next
    case con: (Some con)
    let ?s2 = "?s1\<lparr>rconsumed := con\<rparr>"
    show ?thesis
    proof (cases "if r > 0 then incrby (rrefunded s) t (to_long r) else Some (rrefunded s)")
      case None
      then have "s' = ?s2" "out = None" using run con by (simp_all split: if_splits)
      then show ?thesis by (simp add: exI [of _ ?l1])
    next
      case (Some ref)
      let ?l2 = "?l1\<lparr>rexpire := Some (ms + milliseconds leaseAuditTTL)\<rparr>"
      have "s' = ?s2\<lparr>rrefunded := ref, rlease := (rlease s)(i \<mapsto> ?l2), rsweep := zrem (rsweep s) i\<rparr>"
        using run con Some by (simp split: if_splits)
      then show ?thesis using Some by (simp add: exI [of _ ?l2])
    qed
  qed
qed

lemma redis_Settle_live:
  assumes "redis_ok s" and "redis_live s i = Some (t, a)" and "rbal s t = Some b"
  shows "\<exists>s' e. redis_Settle s i used now = (s', e) \<and> redis_ok s' \<and>
    rbal s' = (rbal s)(t \<mapsto> b + (a - charge a used)) \<and> redis_live s' = (redis_live s)(i := None) \<and>
    rdebited s' = rdebited s \<and> repoch s' = repoch s \<and>
    (e = None \<longrightarrow> (\<forall>u. counterValue (rrefunded s' u) =
       counterValue (rrefunded s u) + (if u = t then a - charge a used else 0)))"
proof -
  obtain l where l: "rlease s i = Some l" "rget s i (unix_milli now) = Some l"
    "rstate l = LeaseStateReserved" "rtenant l = t" "ramount l = a" "0 \<le> a" "a \<le> 2 ^ 53"
    using redis_live_get [OF assms(1,2)] by blast
  let ?x = "a - charge a used"
  define r where "r = fl (f64 (ramount l) - max (f64 used) 0)"
  have r: "(if r > 0 then \<lfloor>r\<rfloor> else 0) = ?x" "r > 0 \<longleftrightarrow> 0 < ?x"
    using settle_refund [OF l(6,7), of used] unfolding r_def l(5) Let_def by blast+
  have x: "0 \<le> ?x" "?x \<le> a" using l(6) by (simp_all add: charge_def)
  have fits: "in64 (b + ?x)" by (rule small_in64) (use redis_refund_fits [OF assms] x in simp_all)
  have long: "r > 0 \<longrightarrow> to_long r = ?x" using r x l(7) small_in64 [of ?x] by (auto simp: to_long_def)
  then have bal: "(if r > 0 then incrby (rbal s) t (to_long r) else Some (rbal s)) = Some ((rbal s)(t \<mapsto> b + ?x))"
    using r x(1) fits assms(3) by (auto simp: incrby_some)
  obtain s' out where run: "settle_lua s i t (unix_milli now) used = (s', out)" by fastforce
  note st = settle_lua_reaches [OF l(2,3) r_def bal run]
  then obtain k where k: "rlease s' = (rlease s)(i \<mapsto> k)" "rstate k = LeaseStateSettled" by blast
  have "redis_ok s' \<and> redis_live s' = (redis_live s)(i := None)"
    by (rule redis_end_live [OF assms x _ _ k(1)]) (use st k(2) in simp_all)
  moreover have "redis_Settle s i used now = (s', if out = None then Some ErrBackend else None)"
    using l run by (auto simp: redis_Settle_def split: option.split)
  moreover have "out \<noteq> None \<longrightarrow> (\<forall>u. counterValue (rrefunded s' u) =
      counterValue (rrefunded s u) + (if u = t then ?x else 0))"
    using st long r(2) x(1) incrby_counter [of "rrefunded s" t "to_long r" "rrefunded s'"]
    by (auto split: if_splits)
  ultimately show ?thesis using st by auto
qed

lemma redis_release_live:
  assumes "redis_ok s" and "redis_live s i = Some (t, a)" and "rbal s t = Some b"
    and "st \<noteq> LeaseStateReserved"
  shows "\<exists>s' e. redis_release s i now st = (s', e) \<and> redis_ok s' \<and>
    rbal s' = (rbal s)(t \<mapsto> b + a) \<and> redis_live s' = (redis_live s)(i := None) \<and>
    rdebited s' = rdebited s \<and> repoch s' = repoch s \<and> (e = Inl ErrBackend \<or> e = Inr True \<and>
    (\<forall>u. counterValue (rrefunded s' u) = counterValue (rrefunded s u) + (if u = t then a else 0)))"
proof -
  obtain l where l: "rlease s i = Some l" "rget s i (unix_milli now) = Some l"
    "rstate l = LeaseStateReserved" "rtenant l = t" "ramount l = a" "0 \<le> a" "a \<le> 2 ^ 53"
    using redis_live_get [OF assms(1,2)] by blast
  have "in64 (b + a)" by (rule small_in64) (use redis_refund_fits [OF assms(1-3)] l(6) in simp_all)
  then have bal: "incrby (rbal s) t a = Some ((rbal s)(t \<mapsto> b + a))"
    using assms(3) by (simp add: incrby_some)
  have am: "to_long (f64 a) = a" using l(6,7) by (simp add: small_in64)
  obtain s' e where run: "redis_release s i now st = (s', e)" by fastforce
  have st: "rbal s' = (rbal s)(t \<mapsto> b + a) \<and> rdebited s' = rdebited s \<and> repoch s' = repoch s \<and>
      (\<exists>k. rlease s' = (rlease s)(i \<mapsto> k) \<and> rstate k = st) \<and>
      (e = Inl ErrBackend \<or> e = Inr True \<and> incrby (rrefunded s) t a = Some (rrefunded s'))"
    using run by (cases "incrby (rrefunded s) t a") (auto simp: redis_release_def release_lua_def Let_def l bal am)
  then obtain k where k: "rlease s' = (rlease s)(i \<mapsto> k)" "rstate k = st" by blast
  have "redis_ok s' \<and> redis_live s' = (redis_live s)(i := None)"
    by (rule redis_end_live [OF assms(1-3) l(6) order_refl _ _ k(1)]) (use st k(2) assms(4) in simp_all)
  then show ?thesis using run st incrby_counter [of "rrefunded s" t a "rrefunded s'"] by auto
qed

lemma redis_release_dead:
  assumes "redis_live s i = None"
  shows "redis_release s i now st = (s\<lparr>rsweep := zrem (rsweep s) i\<rparr>, Inr False)"
  using redis_dead_get [OF assms, of "unix_milli now"]
  by (auto simp: redis_release_def release_lua_def Let_def split: option.splits)

lemma redis_Settle_dead: "redis_live s i = None \<Longrightarrow> redis_Settle s i used now = (s, None)"
  using redis_dead_get [of s i "unix_milli now"]
  by (auto simp: redis_Settle_def settle_lua_def split: option.splits)

text \<open>A reservation can be recorded while the debit counter has room for it.\<close>

definition redis_room :: "redis_ledger \<Rightarrow> string \<Rightarrow> int \<Rightarrow> bool" where
  "redis_room s t a \<longleftrightarrow> in64 (counterValue (rdebited s t) + a)"

lemma redis_room_incrby: "redis_room s t a \<longleftrightarrow> incrby (rdebited s) t a \<noteq> None"
  by (simp add: redis_room_def incrby_def counterValue_def Let_def split: option.split)

lemma redis_covered:
  assumes "redis_ok s" and "0 \<le> a" and "rbal s t = Some b" and "a \<le> b"
  shows "\<not> f64 b < f64 a" and "to_long (fl (f64 b - f64 a)) = b - a" and "to_long (f64 a) = a"
proof -
  have b: "b \<le> 2 ^ 53" "0 \<le> b" using redis_okD(4,5) [OF assms(1,3)] redis_okD(6) [OF assms(1), of t] by simp_all
  then have e: "f64 b = of_int b" "f64 a = of_int a" using assms(2,4) by simp_all
  have "fl (f64 b - f64 a) = of_int (b - a)" using assms(2,4) b e fl_int [of "b - a"] by simp
  then show "to_long (fl (f64 b - f64 a)) = b - a" using assms(2,4) b by (simp add: small_in64 del: of_int_diff)
  show "\<not> f64 b < f64 a" "to_long (f64 a) = a"
    using assms(2,4) b by (simp_all add: e small_in64)
qed

lemma redis_Reserve_ok:
  assumes "redis_ok s" and "redis_fresh s i" and "0 \<le> a" and "rbal s t = Some b" and "a \<le> b" and "redis_room s t a"
  shows "\<exists>s' ls. redis_Reserve s i t a now = (s', Inr ls) \<and> ID ls = i \<and> redis_ok s' \<and>
    rbal s' = (rbal s)(t \<mapsto> b - a) \<and> redis_live s' = (redis_live s)(i \<mapsto> (t, a)) \<and>
    incrby (rdebited s) t a = Some (rdebited s') \<and> rrefunded s' = rrefunded s \<and> repoch s' = repoch s"
proof -
  note ok = redis_okD [OF assms(1)]
  obtain d where d: "incrby (rdebited s) t a = Some d" using assms(6) by (auto simp: redis_room_incrby)
  obtain s' x where run: "redis_Reserve s i t a now = (s', x)" by fastforce
  have s': "rbal s' = (rbal s)(t \<mapsto> b - a)" "rdebited s' = d"
    "rlease s' = (rlease s)(i \<mapsto> \<lparr>rtenant = t, ramount = a, rstate = LeaseStateReserved, rexpire = None\<rparr>)"
    "rrefunded s' = rrefunded s" "repoch s' = repoch s" "\<exists>ls. x = Inr ls \<and> ID ls = i"
    using run by (auto simp: redis_Reserve_def reserve_lua_def Let_def assms(4) redis_covered [OF assms(1,3-5)] d)
  have dead: "redis_live s i = None" using assms(2) by (simp add: redis_fresh_def redis_live_def)
  have lv: "redis_live s' = (redis_live s)(i \<mapsto> (t, a))"
    using s'(3) by (auto simp: redis_live_def)
  have out: "outstanding (redis_live s') u = outstanding (redis_live s) u + (if t = u then a else 0)" for u
    using outstanding_add [of "redis_live s" i t a u] ok(1) dead lv by simp
  have "0 \<le> b' \<and> b' + outstanding (redis_live s') u < 2 ^ 53" if "rbal s' u = Some b'" for u b'
    using that s'(1) out ok(4,5) [of u] assms(3-5) by (auto split: if_splits)
  moreover have "0 \<le> c \<and> rbal s' u \<noteq> None" if "redis_live s' j = Some (u, c)" for j u c
    using that lv s'(1) ok(2,3) [of j u c] assms(3) by (auto split: if_splits)
  moreover have "finite (dom (rlease s'))" using assms(1) s'(3) by (simp add: redis_ok_def)
  moreover have "\<forall>j k. rlease s' j = Some k \<and> rstate k = LeaseStateReserved \<longrightarrow> rexpire k = None"
    using assms(1) s'(3) by (auto simp: redis_ok_def)
  ultimately have "redis_ok s'" by (simp add: redis_ok_def)
  then show ?thesis using run s' lv d by blast
qed

text \<open>Without room the script ends after it has written the balance: the amount is lost.\<close>

lemma redis_Reserve_fails:
  assumes "redis_ok s" and "0 \<le> a" and "rbal s t = Some b" and "a \<le> b" and "\<not> redis_room s t a"
  shows "\<exists>s'. redis_Reserve s i t a now = (s', Inl ErrBackend) \<and> redis_ok s' \<and>
    rbal s' = (rbal s)(t \<mapsto> b - a) \<and> redis_live s' = redis_live s"
proof -
  let ?s = "s\<lparr>rbal := (rbal s)(t \<mapsto> b - a)\<rparr>"
  have "incrby (rdebited s) t a = None" using assms(5) by (simp add: redis_room_incrby)
  then have "redis_Reserve s i t a now = (?s, Inl ErrBackend)"
    by (simp add: redis_Reserve_def reserve_lua_def Let_def assms(3) redis_covered [OF assms(1-4)])
  moreover have lv: "redis_live ?s = redis_live s" by (simp add: redis_live_def fun_eq_iff)
  moreover have "b - a + outstanding (redis_live s) t < 2 ^ 53" using redis_okD(5) [OF assms(1,3)] assms(2) by simp
  then have "redis_ok ?s"
    using assms(1-4) unfolding redis_ok_def lv by auto
  ultimately show ?thesis by auto
qed

interpretation rds: ledger redis_Reserve redis_Settle redis_Cancel rbal redis_live redis_fresh redis_room redis_ok
proof (unfold_locales, goal_cases)
  case (1 l)
  then show ?case by (auto simp: redis_ok_def redis_live_finite)
next
  case (2 l i)
  then show ?case by (simp add: redis_fresh_def redis_live_def)
next
  case (3 l i a t b now)
  then show ?case using redis_Reserve_ok by blast
next
  case (4 l a t b i now)
  then show ?case by (rule redis_Reserve_fails)
next
  case (5 l t b a i now)
  have b: "0 \<le> b" "b + 1 \<le> 2 ^ 53"
    using redis_okD(4,5) [OF 5(1,2)] redis_okD(6) [OF 5(1), of t] by simp_all
  have "f64 (b + 1) \<le> f64 a" using 5(3) by (intro f64_mono) simp
  then have "f64 b < f64 a" using b by simp
  then show ?case
    using 5(2) b small_in64 [of b] by (simp add: redis_Reserve_def reserve_lua_def Let_def neverProvisioned_def)
next
  case (6 l t i a now)
  then show ?case by (simp add: redis_Reserve_def reserve_lua_def neverProvisioned_def)
next
  case (7 l used i t a b now)
  then show ?case using redis_Settle_live by blast
next
  case (8 l i used now)
  then show ?case by (simp add: redis_Settle_dead)
next
  case (9 l i t a b now)
  then show ?case
    using redis_release_live [of l i t a b LeaseStateCancelled now] by (fastforce simp: redis_Cancel_def)
next
  case (10 l i now)
  then show ?case
    using redis_ok_same [of l "l\<lparr>rsweep := zrem (rsweep l) i\<rparr>"]
    by (simp add: redis_Cancel_def redis_release_dead)
qed

subsection \<open>The reconcile identity\<close>

datatype redis_op =
    RReserve string string int instant
  | RSettle string int instant
  | RCancel string instant
  | RSweep instant int
  | RSetBalance string int

text \<open>The state after a call, and whether it reported a backend error.\<close>

fun redis_call :: "redis_ledger \<Rightarrow> redis_op \<Rightarrow> redis_ledger \<times> bool" where
  "redis_call s (RReserve i t a now) = apsnd (\<lambda>r. r = Inl ErrBackend) (redis_Reserve s i t a now)"
| "redis_call s (RSettle i used now) = apsnd (\<lambda>e. e \<noteq> None) (redis_Settle s i used now)"
| "redis_call s (RCancel i now) = apsnd (\<lambda>e. e \<noteq> None) (redis_Cancel s i now)"
| "redis_call s (RSweep now lmt) = apsnd (\<lambda>(n, e). e \<noteq> None) (redis_SweepOnce s now lmt)"
| "redis_call s (RSetBalance t b) = apsnd (\<lambda>e. e \<noteq> None) (redis_SetBalance s t b)"

definition redis_step :: "redis_ledger \<Rightarrow> redis_op \<Rightarrow> redis_ledger" where
  "redis_step s x = fst (redis_call s x)"

text \<open>
  The calls the gateway makes that reported no backend error; a correction that would leave
  the exact range of the scripts' numbers is excluded.
\<close>

fun redis_valid :: "redis_ledger \<Rightarrow> redis_op \<Rightarrow> bool" where
  "redis_valid s (RReserve i t a now) \<longleftrightarrow> redis_fresh s i \<and> 0 \<le> a"
| "redis_valid s (RSetBalance t b) \<longleftrightarrow> 0 \<le> b \<and> b + outstanding (redis_live s) t < 2 ^ 53"
| "redis_valid s _ \<longleftrightarrow> True"

fun redis_valid_ops :: "redis_ledger \<Rightarrow> redis_op list \<Rightarrow> bool" where
  "redis_valid_ops s [] \<longleftrightarrow> True"
| "redis_valid_ops s (x # xs) \<longleftrightarrow>
     redis_valid s x \<and> \<not> snd (redis_call s x) \<and> redis_valid_ops (redis_step s x) xs"

text \<open>The quantity the identity keeps: balance plus debits less refunds.\<close>

definition identity :: "redis_ledger \<Rightarrow> string \<Rightarrow> int" where
  "identity s t =
     counterValue (rbal s t) + counterValue (rdebited s t) - counterValue (rrefunded s t)"

definition keeps :: "redis_ledger \<Rightarrow> redis_ledger \<Rightarrow> bool" where
  "keeps s s' \<longleftrightarrow> redis_ok s' \<and>
     (\<forall>t. (rbal s t \<noteq> None \<longrightarrow> rbal s' t \<noteq> None) \<and>
        counterValue (repoch s t) \<le> counterValue (repoch s' t) \<and>
        (counterValue (repoch s' t) = counterValue (repoch s t) \<longrightarrow> identity s' t = identity s t))"

lemma keeps_refl: "redis_ok s \<Longrightarrow> keeps s s"
  by (simp add: keeps_def)

lemma keeps_trans:
  assumes "keeps s s1" and "keeps s1 s2" shows "keeps s s2"
proof -
  have "identity s2 t = identity s t" if "counterValue (repoch s2 t) = counterValue (repoch s t)" for t
  proof -
    have "counterValue (repoch s t) \<le> counterValue (repoch s1 t)"
      "counterValue (repoch s1 t) \<le> counterValue (repoch s2 t)"
      using assms by (simp_all add: keeps_def)
    then have "counterValue (repoch s1 t) = counterValue (repoch s t)" using that by simp
    then show ?thesis using assms that by (simp add: keeps_def)
  qed
  moreover have "counterValue (repoch s t) \<le> counterValue (repoch s2 t)" for t
    using assms order_trans unfolding keeps_def by blast
  ultimately show ?thesis
    using assms unfolding keeps_def by blast
qed

lemma keeps_release:
  assumes "redis_ok s" and "st \<noteq> LeaseStateReserved" and "redis_release s i now st = (s', Inr moved)"
  shows "keeps s s'"
proof (cases "redis_live s i")
  case None
  then show ?thesis
    using redis_ok_same [OF assms(1), of "s\<lparr>rsweep := zrem (rsweep s) i\<rparr>"] assms(3)
    by (auto simp: redis_release_dead keeps_def identity_def)
next
  case (Some ta)
  then obtain t a where ta: "redis_live s i = Some (t, a)" by (cases ta) simp
  obtain b where b: "rbal s t = Some b" using redis_okD(3) [OF assms(1) ta] by blast
  have "redis_ok s'" "rbal s' = (rbal s)(t \<mapsto> b + a)" "rdebited s' = rdebited s" "repoch s' = repoch s"
    "\<And>u. counterValue (rrefunded s' u) = counterValue (rrefunded s u) + (if u = t then a else 0)"
    using redis_release_live [OF assms(1) ta b assms(2), of now] assms(3) by auto
  then show ?thesis using b by (simp add: keeps_def identity_def counterValue_def)
qed

lemma keeps_release_all:
  "redis_ok s \<Longrightarrow> snd (snd (release_all s is now n)) = None \<Longrightarrow> keeps s (fst (release_all s is now n))"
proof (induction "is" arbitrary: s n)
  case (Cons i "is")
  obtain s1 r where r: "redis_release s i now LeaseStateExpired = (s1, r)" by fastforce
  then obtain moved where m: "r = Inr moved" using Cons.prems(2) by (cases r) simp_all
  have k: "keeps s s1" by (rule keeps_release [OF Cons.prems(1) _ r [unfolded m]]) simp
  then have "redis_ok s1" by (simp add: keeps_def)
  then have "keeps s1 (fst (release_all s1 is now (if moved then n + 1 else n)))"
    by (rule Cons.IH) (use Cons.prems(2) r m in simp)
  then show ?case using keeps_trans [OF k] r m by simp
qed (simp add: keeps_refl)

lemma keeps_step:
  assumes "redis_ok s" and "redis_valid s x" and "\<not> snd (redis_call s x)"
  shows "keeps s (redis_step s x)"
proof (cases x)
  case (RReserve i t a now)
  show ?thesis
  proof (cases "rbal s t")
    case None
    then show ?thesis
      using RReserve rds.reserve_unknown [OF assms(1)] keeps_refl [OF assms(1)] by (simp add: redis_step_def)
  next
    case (Some b)
    show ?thesis
    proof (cases "b < a")
      case True
      then show ?thesis
        using RReserve Some rds.reserve_insufficient [OF assms(1)] keeps_refl [OF assms(1)] by (simp add: redis_step_def)
    next
      case False
      then have a: "0 \<le> a" "a \<le> b" "redis_fresh s i" using assms(2) RReserve by simp_all
      have "redis_room s t a"
      proof (rule ccontr)
        assume "\<not> redis_room s t a"
        from redis_Reserve_fails [OF assms(1) a(1) Some a(2) this, of i now]
        show False using assms(3) RReserve by auto
      qed
      then obtain s' ls where s': "redis_Reserve s i t a now = (s', Inr ls)" "redis_ok s'"
        "rbal s' = (rbal s)(t \<mapsto> b - a)" "incrby (rdebited s) t a = Some (rdebited s')"
        "rrefunded s' = rrefunded s" "repoch s' = repoch s"
        using redis_Reserve_ok [OF assms(1) a(3,1) Some a(2), of now] by blast
      then show ?thesis
        using RReserve Some incrby_counter [OF s'(4)]
        by (simp add: keeps_def identity_def redis_step_def) (simp add: counterValue_def)
    qed
  qed
next
  case (RSettle i used now)
  show ?thesis
  proof (cases "redis_live s i")
    case None
    then show ?thesis using RSettle redis_Settle_dead keeps_refl [OF assms(1)] by (simp add: redis_step_def)
  next
    case (Some ta)
    then obtain t a where ta: "redis_live s i = Some (t, a)" by (cases ta) simp
    obtain b where b: "rbal s t = Some b" using redis_okD(3) [OF assms(1) ta] by blast
    obtain s' e where s': "redis_Settle s i used now = (s', e)" "redis_ok s'"
      "rbal s' = (rbal s)(t \<mapsto> b + (a - charge a used))" "rdebited s' = rdebited s"
      "repoch s' = repoch s" "e = None \<longrightarrow> (\<forall>u. counterValue (rrefunded s' u) =
         counterValue (rrefunded s u) + (if u = t then a - charge a used else 0))"
      using redis_Settle_live [OF assms(1) ta b] by blast
    then show ?thesis
      using RSettle b assms(3) by (simp add: keeps_def identity_def redis_step_def) (simp add: counterValue_def)
  qed
next
  case (RCancel i now)
  obtain s' r where r: "redis_release s i now LeaseStateCancelled = (s', r)" by fastforce
  then obtain moved where m: "r = Inr moved" using assms(3) RCancel by (cases r) (simp_all add: redis_Cancel_def)
  have "keeps s s'" by (rule keeps_release [OF assms(1) _ r [unfolded m]]) simp
  then show ?thesis using RCancel r m by (simp add: redis_step_def redis_Cancel_def)
next
  case (RSweep now lmt)
  then show ?thesis
    using keeps_release_all [OF assms(1)] assms(3) by (simp add: redis_SweepOnce_def redis_step_def case_prod_beta)
next
  case (RSetBalance t b)
  obtain e where e: "incrby (repoch s) t 1 = Some e"
    using RSetBalance assms(3) by (cases "incrby (repoch s) t 1") (simp_all add: redis_SetBalance_def Let_def)
  have step: "redis_step s x = s\<lparr>rbal := (rbal s)(t \<mapsto> b), repoch := e\<rparr>"
    using RSetBalance e by (simp add: redis_step_def redis_SetBalance_def Let_def)
  let ?s = "s\<lparr>rbal := (rbal s)(t \<mapsto> b), repoch := e\<rparr>"
  have lv: "redis_live ?s = redis_live s" by (rule ext) (simp add: redis_live_def)
  have "redis_ok ?s"
    using assms(1,2) RSetBalance unfolding redis_ok_def lv by auto
  then show ?thesis
    using incrby_counter [OF e] by (auto simp: keeps_def identity_def step)
qed

lemma keeps_ops: "redis_ok s \<Longrightarrow> redis_valid_ops s xs \<Longrightarrow> keeps s (foldl redis_step s xs)"
proof (induction xs arbitrary: s)
  case (Cons x xs)
  then have k: "keeps s (redis_step s x)" using keeps_step by simp
  then have "redis_ok (redis_step s x)" by (simp add: keeps_def)
  then show ?case using Cons keeps_trans [OF k] by simp
qed (simp add: keeps_refl)

abbreviation snapshot_of :: "redis_ledger \<Rightarrow> string \<Rightarrow> instant \<Rightarrow> snapshot option" where
  "snapshot_of s t at0 \<equiv> TenantSnapshot s s s s s t at0"

lemma drift_zero:
  assumes "keeps s s'" and "snapshot_of s t a = Some p" and "snapshot_of s' t b = Some q"
    and "sEpoch p = sEpoch q"
  shows "drift p q = 0"
proof -
  have pq: "rbal s t = Some (sBalance p)" "sRefunded p = counterValue (rrefunded s t)"
    "sDebited p = counterValue (rdebited s t)" "sEpoch p = counterValue (repoch s t)"
    "rbal s' t = Some (sBalance q)" "sRefunded q = counterValue (rrefunded s' t)"
    "sDebited q = counterValue (rdebited s' t)" "sEpoch q = counterValue (repoch s' t)"
    using assms(2,3) by (auto simp: TenantSnapshot_def split: option.splits)
  have "identity s' t = identity s t" using assms(1,4) pq by (simp add: keeps_def)
  then have "(sDebited q - sDebited p) - (sRefunded q - sRefunded p) - (sBalance p - sBalance q) = 0"
    using pq by (simp add: identity_def counterValue_def [of "Some _"])
  then show ?thesis
    by (simp add: drift_def debitedDelta_def refundedDelta_def balanceDrop_def)
qed

lemma reconcile_loop_clean:
  assumes "distinct ts"
    and "\<And>t snap p ps. t \<in> set ts \<Longrightarrow> src t = Inr (Some snap) \<Longrightarrow> st t = p # ps \<Longrightarrow>
      sEpoch p = sEpoch snap \<Longrightarrow> drift p snap = 0"
  shows "drifted (snd (reconcile_loop src lat app ts st r)) = drifted r \<and>
    drifts (snd (reconcile_loop src lat app ts st r)) = drifts r"
  using assms
proof (induction ts arbitrary: st r)
  case (Cons t ts)
  have t: "distinct ts" "t \<notin> set ts" using Cons.prems(1) by simp_all
  have rest: "drift p snap = 0"
    if "u \<in> set ts" "src u = Inr (Some snap)" "(st(t := xs)) u = p # ps" "sEpoch p = sEpoch snap"
    for u snap p ps xs
    using Cons.prems(2) [of u snap p ps] that t(2) by (cases "u = t") auto
  have rest': "drift p snap = 0"
    if "u \<in> set ts" "src u = Inr (Some snap)" "st u = p # ps" "sEpoch p = sEpoch snap" for u snap p ps
    using Cons.prems(2) [of u snap p ps] that by auto
  have IH: "drifted (snd (reconcile_loop src lat app ts st r')) = drifted r' \<and>
      drifts (snd (reconcile_loop src lat app ts st r')) = drifts r'" for r'
    using rest' by (intro Cons.IH [OF t(1)])
  have IH': "drifted (snd (reconcile_loop src lat app ts (st(t := xs)) r')) = drifted r' \<and>
      drifts (snd (reconcile_loop src lat app ts (st(t := xs)) r')) = drifts r'" for xs r'
    using rest by (intro Cons.IH [OF t(1)])
  have now: "drift p snap = 0"
    if "src t = Inr (Some snap)" "st t = p # ps" "sEpoch p = sEpoch snap" for snap p ps
    using Cons.prems(2) [of t snap p ps] that by simp
  show ?case
    using IH IH' now
    by (auto simp: Let_def split: sum.splits option.splits list.splits)
qed simp

subsection \<open>Properties\<close>

definition demo_redis :: redis_ledger where
  "demo_redis =
     \<lparr>rbal = [''t'' \<mapsto> 100], rlease = Map.empty, rsweep = [], rdebited = Map.empty,
      rrefunded = Map.empty, rconsumed = Map.empty, repoch = Map.empty, rttl = 10 * Minute\<rparr>"

lemma demo_redis_ok: "redis_ok demo_redis"
  by (simp add: redis_ok_def demo_redis_def redis_live_def outstanding_def dom_def)

definition demo_redis_ops :: "redis_op list" where
  "demo_redis_ops =
     [RReserve ''l1'' ''t'' 40 0, RSettle ''l1'' 15 2]"

text \<open>
  C22: the reconciler raises no false alarm when its snapshots are atomic.  Whatever
  sequence of reservations, settlements, cancellations, sweeps and manual corrections
  the ledger went through between two rounds, as long as none of them reported a backend
  error, a round over distinct tenants whose
  reads each see one ledger state reports no drift: either the epochs differ and the
  interval is skipped, or the debits less the refunds are exactly the fall of the
  balance.  A call that did report one may have stopped between the balance and its
  counter, and then the round reports the difference (\<open>aborted_settle_drifts\<close>).
\<close>

theorem reconcile_no_false_alarm:
  assumes "redis_ok s" and "redis_valid_ops s xs" and "distinct tenants"
    and "\<And>t. t \<in> set tenants \<Longrightarrow> (case st t of [] \<Rightarrow> True | p # _ \<Rightarrow> snapshot_of s t before = Some p)"
    and "\<And>t. t \<in> set tenants \<Longrightarrow> src t = Inr (snapshot_of (foldl redis_step s xs) t after)"
  shows "drifted (snd (ReconcileOnce src lat app tenants st)) = 0 \<and>
    drifts (snd (ReconcileOnce src lat app tenants st)) = []"
proof -
  have k: "keeps s (foldl redis_step s xs)" by (rule keeps_ops [OF assms(1,2)])
  have "drift p snap = 0"
    if "t \<in> set tenants" "src t = Inr (Some snap)" "st t = p # ps" "sEpoch p = sEpoch snap" for t snap p ps
  proof (rule drift_zero [OF k _ _ that(4)])
    show "snapshot_of s t before = Some p" using assms(4) [OF that(1)] that(3) by simp
    show "snapshot_of (foldl redis_step s xs) t after = Some snap"
      using assms(5) [OF that(1)] that(2) by simp
  qed
  then show ?thesis
    using reconcile_loop_clean [OF assms(3)] unfolding ReconcileOnce_def by simp
qed

theorem reconcile_no_false_alarm_witness:
  "let s' = foldl redis_step demo_redis demo_redis_ops;
       st = (\<lambda>_. [the (snapshot_of demo_redis ''t'' 0)]);
       r = snd (ReconcileOnce (\<lambda>t. Inr (snapshot_of s' t 1)) (\<lambda>_. True) (\<lambda>_. True) [''t''] st)
   in checked r = 1 \<and> drifted r = 0 \<and> drifts r = []"
proof -
  let ?st = "\<lambda>_ :: string. [the (snapshot_of demo_redis ''t'' 0)]"
  let ?src = "\<lambda>t. Inr (snapshot_of (foldl redis_step demo_redis demo_redis_ops) t 1)"
  let ?r = "snd (ReconcileOnce ?src (\<lambda>_. True) (\<lambda>_. True) [''t''] ?st)"
  have "redis_fresh demo_redis ''l1''"
    by (simp add: demo_redis_def redis_fresh_def)
  moreover have "\<not> snd (redis_call demo_redis (RReserve ''l1'' ''t'' 40 0))"
    "\<not> snd (redis_call (redis_step demo_redis (RReserve ''l1'' ''t'' 40 0)) (RSettle ''l1'' 15 2))"
    unfolding demo_redis_def by code_simp+
  ultimately have v: "redis_valid_ops demo_redis demo_redis_ops"
    by (simp add: demo_redis_ops_def del: redis_call.simps)
  have "drifted ?r = 0 \<and> drifts ?r = []"
    by (rule reconcile_no_false_alarm [OF demo_redis_ok v]) (auto simp: TenantSnapshot_def demo_redis_def)
  moreover have "checked ?r = 1"
    unfolding demo_redis_ops_def demo_redis_def by code_simp
  ultimately show ?thesis by (simp add: Let_def)
qed

text \<open>
  An \<open>INCRBY\<close> that overflows ends its script half way.  The usage of a settlement is the
  number an upstream reported: one settlement of almost \<open>2 ^ 63\<close> tokens costs its reservation
  only, but leaves the consumed counter no room.  From then on a settlement with a refund
  credits the balance, fails before the refunded counter, and the reconciler reports the
  refund as drift.
\<close>

definition demo_full_ops :: "redis_op list" where
  "demo_full_ops = [RSetBalance ''t'' 5000, RReserve ''l0'' ''t'' 10 0, RSettle ''l0'' (2 ^ 63 - 1024) 1]"

lemma aborted_settle_drifts:
  "let s = foldl redis_step demo_redis demo_full_ops;
       s1 = redis_step s (RReserve ''l1'' ''t'' 2000 2);
       (s2, failed) = redis_call s1 (RSettle ''l1'' 1500 3);
       st = (\<lambda>_. [the (snapshot_of s ''t'' 1)])
   in rbal s ''t'' = Some 4990 \<and> failed \<and> rbal s2 ''t'' = Some 3490 \<and> redis_live s2 ''l1'' = None \<and>
      drifts (snd (ReconcileOnce (\<lambda>t. Inr (snapshot_of s2 t 4)) (\<lambda>_. True) (\<lambda>_. True) [''t''] st)) = [(''t'', 500)]"
  unfolding demo_redis_def demo_full_ops_def by code_simp

text \<open>
  A torn snapshot reads as drift.  The snapshot's reads travel in a pipeline,
  not in a transaction: when one reservation lands between the read of the balance
  and the read of the debits, the round reports a drift of the reserved amount although
  the ledger is sound.
\<close>

theorem torn_snapshot_drifts:
  "let s1 = redis_step demo_redis (RReserve ''l1'' ''t'' 40 0);
       torn = TenantSnapshot demo_redis demo_redis demo_redis s1 s1 ''t'' 1;
       st = (\<lambda>_. [the (snapshot_of demo_redis ''t'' 0)])
   in drifts (snd (ReconcileOnce (\<lambda>_. Inr torn) (\<lambda>_. True) (\<lambda>_. True) [''t''] st)) = [(''t'', 40)]"
  unfolding demo_redis_def by code_simp

text \<open>
  The scripts lose tokens above 2^53.  Lua computes in doubles: a balance of
  2^53 + 1 reads as 2^53, so reserving one token takes two from the balance while the
  debit counter moves by one, and the next atomic reconcile round reports the drift.
\<close>

lemma large_balance_loses_token:
  "let s = redis_step demo_redis (RSetBalance ''t'' (2 ^ 53 + 1));
       s1 = redis_step s (RReserve ''l1'' ''t'' 1 0);
       st = (\<lambda>_. [the (snapshot_of s ''t'' 0)])
   in rbal s1 ''t'' = Some (2 ^ 53 - 1) \<and>
      drifts (snd (ReconcileOnce (\<lambda>t. Inr (snapshot_of s1 t 1)) (\<lambda>_. True) (\<lambda>_. True) [''t''] st))
        = [(''t'', -1)]"
  unfolding demo_redis_def by code_simp

text \<open>
  C23: the Redis ledger charges like the in-process one.  Around any way of serving
  the request that leaves its lease alone, the stage over the Redis scripts charges
  exactly what was consumed up to the reservation, and refuses with nothing changed
  when the balance does not cover it or does not exist.  Only a debit counter without
  room for the reservation makes a difference: the request is refused as a backend
  failure, and the script has already taken the amount from the balance.
\<close>

theorem redis_quota_stage_charges:
  assumes "redis_ok s" and "redis_fresh s i" and "0 < a"
    and "\<And>s1. redis_ok s1 \<Longrightarrow> redis_live s1 i = Some (t, a) \<Longrightarrow>
      redis_ok (fst (serve s1 a)) \<and> redis_live (fst (serve s1 a)) i = Some (t, a) \<and>
      in64 (snd (serve s1 a))"
    and "quota_stage redis_Reserve redis_Settle redis_Cancel s i t a est serve t0 t1 = (s', rep)"
  shows "case rbal s t of
      None \<Rightarrow> s' = s \<and> rep = QuotaNotProvisioned
    | Some b \<Rightarrow>
        if b < a then s' = s \<and> rep = InsufficientQuota
        else if \<not> in64 (counterValue (rdebited s t) + a)
        then rep = GovernanceUnavailable \<and> rbal s' = (rbal s)(t \<mapsto> b - a) \<and> redis_live s' = redis_live s
        else let (s2, used) = serve (fst (redis_Reserve s i t a t0)) a in
          rep = QuotaServed used \<and> redis_ok s' \<and> redis_live s' i = None \<and>
          rbal s' t = Some (the (rbal s2 t) + a - charge a used)"
proof (cases "rbal s t")
  case None
  then show ?thesis
    using rds.quota_stage_refused [OF assms(1,3), of t i est serve t0 t1] assms(5) by simp
next
  case (Some b)
  show ?thesis
  proof (cases "b < a")
    case True
    then show ?thesis
      using Some rds.quota_stage_refused [OF assms(1,3), of t i est serve t0 t1] assms(5) by simp
  next
    case False
    have a: "0 \<le> a" "a \<le> b" using False assms(3) by simp_all
    show ?thesis
    proof (cases "redis_room s t a")
    case room: True
    obtain l1 ls used b2 where "redis_Reserve s i t a t0 = (l1, Inr ls)" "rep = QuotaServed used"
      "used = snd (serve l1 a)" "rbal (fst (serve l1 a)) t = Some b2" "redis_ok s'"
      "rbal s' t = Some (b2 + a - charge a used)" "redis_live s' i = None"
      using rds.quota_stage_served [OF assms(1,2) a(1) Some a(2) room assms(3,4,5)] by blast
    then show ?thesis using Some False room by (simp add: case_prod_beta redis_room_def)
    next
    case full: False
    then show ?thesis
      using rds.quota_stage_fails [OF assms(1,3) Some a(2) full assms(5)] Some False by (simp add: redis_room_def)
    qed
  qed
qed

theorem redis_quota_stage_charges_witness:
  "rbal (fst (quota_stage redis_Reserve redis_Settle redis_Cancel demo_redis ''l1'' ''t'' 40 0
     (\<lambda>s a. (s, 25)) 1 2)) ''t'' = Some 75"
proof -
  let ?r = "quota_stage redis_Reserve redis_Settle redis_Cancel demo_redis ''l1'' ''t'' 40 0 (\<lambda>s a. (s, 25)) 1 2"
  have f: "redis_fresh demo_redis ''l1''" "rbal demo_redis ''t'' = Some 100"
    by (simp_all add: redis_fresh_def demo_redis_def)
  have b: "rbal (fst (redis_Reserve demo_redis ''l1'' ''t'' 40 1)) ''t'' = Some 60"
    unfolding demo_redis_def by code_simp
  have c: "charge 40 25 = 25" "in64 25" "in64 40" by code_simp+
  have "case rbal demo_redis ''t'' of
      None \<Rightarrow> fst ?r = demo_redis \<and> snd ?r = QuotaNotProvisioned
    | Some b \<Rightarrow>
        if b < 40 then fst ?r = demo_redis \<and> snd ?r = InsufficientQuota
        else if \<not> in64 (counterValue (rdebited demo_redis ''t'') + 40)
        then snd ?r = GovernanceUnavailable \<and> rbal (fst ?r) = (rbal demo_redis)(''t'' \<mapsto> b - 40) \<and>
          redis_live (fst ?r) = redis_live demo_redis
        else let (s2, used) = (\<lambda>s a. (s, 25)) (fst (redis_Reserve demo_redis ''l1'' ''t'' 40 1)) (40 :: int) in
          snd ?r = QuotaServed used \<and> redis_ok (fst ?r) \<and> redis_live (fst ?r) ''l1'' = None \<and>
          rbal (fst ?r) ''t'' = Some (the (rbal s2 ''t'') + 40 - charge 40 used)"
    by (rule redis_quota_stage_charges [OF demo_redis_ok f(1)]) (simp_all add: c)
  then show ?thesis using f b c by (simp add: counterValue_def) (simp add: demo_redis_def)
qed

end
