(* ===== verification/Governance.thy ===== *)
theory Governance
  imports Pipeline Auth_Cache Limiter_Gate Quota_Memory Quota_Redis
begin

text \<open>
  The governance chain in front of every inference endpoint: the stages of
  \<^verbatim>\<open>internal/limiter\<close> (\<^verbatim>\<open>concurrencymiddleware.go\<close>, \<^verbatim>\<open>middleware.go\<close>) and
  \<^verbatim>\<open>internal/quota/middleware.go\<close> as handlers, and their composition with the pipeline's
  own stages in the order \<^verbatim>\<open>cmd/breakwater/serve.go\<close> gives them.

  The process state has the in-flight gate, the limiter, the ledger and the identity cache;
  \<open>'w\<close> is what lies behind the chain.  The limiter is passed as its two operations, an
  absent decision being a backend failure.  The clock readings, the lease id and the answer
  of the system of record are the request's environment.  The observation stage records and
  decides nothing, the recovery stage acts on a panic, and the cache stage, when it is
  configured, is part of what lies behind: none of them appears here.
\<close>

subsection \<open>State and environment\<close>

record ('m, 'l, 'w) gov =
  ggate :: gate
  glimiter :: 'm
  gledger :: 'l
  gids :: cached_store
  grest :: 'w

record gov_env =
  geLookupAt :: instant
  geInner :: answer
  geBackfillAt :: instant
  geAllowAt :: instant
  geRefundAt :: instant
  geLease :: string
  geReserveAt :: instant
  geSettleAt :: instant
  geEntropy :: "string option"

record 'm limiter_ops =
  loAllow :: "'m \<Rightarrow> string \<Rightarrow> limits \<Rightarrow> int \<Rightarrow> instant \<Rightarrow> 'm \<times> decision option"
  loRefund :: "'m \<Rightarrow> string \<Rightarrow> limits \<Rightarrow> int \<Rightarrow> instant \<Rightarrow> 'm"

record 'l ledger_ops =
  qoReserve :: "'l \<Rightarrow> string \<Rightarrow> string \<Rightarrow> int \<Rightarrow> instant \<Rightarrow> 'l \<times> (quota_error + lease)"
  qoSettle :: "'l \<Rightarrow> string \<Rightarrow> int \<Rightarrow> instant \<Rightarrow> 'l \<times> quota_error option"
  qoCancel :: "'l \<Rightarrow> string \<Rightarrow> instant \<Rightarrow> 'l \<times> quota_error option"

definition mem_limiter_ops :: "mem_limiter limiter_ops" where
  "mem_limiter_ops = \<lparr>loAllow = (\<lambda>m u ls n t. case limiter_Allow m u ls n t of (m1, d) \<Rightarrow> (m1, Some d)),
     loRefund = limiter_Refund\<rparr>"

subsection \<open>The stages\<close>

definition with_retry_after :: "int \<Rightarrow> http_reply \<Rightarrow> http_reply" where
  "with_retry_after n r = r\<lparr>hrHeader := set_header ''Retry-After'' (format_int n) (hrHeader r)\<rparr>"

definition ConcurrencyMiddleware :: "wire_libs \<Rightarrow> (('m, 'l, 'w) gov, 'r, 'a) middleware" where
  "ConcurrencyMiddleware lib next rq c s =
     (case Acquire (ggate s) (tenantID (caTenant c)) (tierConcurrency (tenantTier (caTenant c))) of
        (g, None) \<Rightarrow>
          (c\<lparr>caRejectCode := ''concurrency_limit_exceeded''\<rparr>, s\<lparr>ggate := g\<rparr>,
           Refused (with_retry_after 1 (refuse lib c 429 ''concurrency_limit_exceeded''
             ''tenant concurrency limit exceeded; wait for an in-flight request to finish'')))
      | (g, Some slot) \<Rightarrow>
          (case next rq c (s\<lparr>ggate := g\<rparr>) of
             (c1, s1, a) \<Rightarrow> (c1, s1\<lparr>ggate := fst (release (ggate s1) slot)\<rparr>, a)))"

definition LimiterMiddleware ::
  "wire_libs \<Rightarrow> 'm limiter_ops \<Rightarrow> gov_env \<Rightarrow> (('m, 'l, 'w) gov, 'r, 'a) middleware" where
  "LimiterMiddleware lib lo ge next rq c s =
     (case EnsureBody lib rq c of
        (c1, Some r) \<Rightarrow> (c1, s, Refused r)
      | (c1, None) \<Rightarrow>
          let u = tenantID (caTenant c1); tr = tenantTier (caTenant c1);
              ls = \<lparr>RPM = tierRPM tr, TPM = tierTPM tr\<rparr>;
              (c2, n) = ReserveTokens (tierMaxTokens tr) c1
          in case loAllow lo (glimiter s) u ls n (geAllowAt ge) of
               (m, None) \<Rightarrow>
                 (c2\<lparr>caRejectCode := ''governance_unavailable''\<rparr>, s\<lparr>glimiter := m\<rparr>,
                  Refused (refuse lib c2 503 ''governance_unavailable'' ''rate limiter unavailable''))
             | (m, Some d) \<Rightarrow>
                 if \<not> Allowed d
                 then (c2\<lparr>caRejectCode := ''rate_limit_exceeded''\<rparr>, s\<lparr>glimiter := m\<rparr>,
                       Refused (with_retry_after (retry_after_seconds (RetryAfter d))
                         (refuse lib c2 429 ''rate_limit_exceeded'' ''tenant rate limit exceeded'')))
                 else (case next rq (c2\<lparr>caTokens := n\<rparr>) (s\<lparr>glimiter := m\<rparr>) of
                         (c3, s1, a) \<Rightarrow>
                           let refund = i64 (n - caConsumed c3)
                           in (c3, if refund > 0
                                   then s1\<lparr>glimiter := loRefund lo (glimiter s1) u ls refund (geRefundAt ge)\<rparr>
                                   else s1, a)))"

definition QuotaMiddleware ::
  "wire_libs \<Rightarrow> 'l ledger_ops \<Rightarrow> gov_env \<Rightarrow> (('m, 'l, 'w) gov, 'r, 'a) middleware" where
  "QuotaMiddleware lib qo ge next rq c s =
     (let (c1, amount) =
            (if caTokens c \<le> 0
             then (case ReserveTokens (tierMaxTokens (tenantTier (caTenant c))) c of (c1, n) \<Rightarrow> (c1\<lparr>caTokens := n\<rparr>, n))
             else (c, caTokens c));
          reject = (\<lambda>l code ecode message.
            (c1\<lparr>caRejectCode := ecode\<rparr>, s\<lparr>gledger := l\<rparr>, Refused (refuse lib c1 code ecode message)))
      in case qoReserve qo (gledger s) (geLease ge) (tenantID (caTenant c1)) amount (geReserveAt ge) of
           (l, Inl ErrInsufficientBalance) \<Rightarrow>
             reject l 402 ''insufficient_quota'' ''the tenant balance cannot cover the estimated request''
         | (l, Inl ErrUnknownTenant) \<Rightarrow>
             reject l 503 ''quota_not_provisioned'' ''this tenant has no quota ledger entry''
         | (l, Inl _) \<Rightarrow> reject l 503 ''governance_unavailable'' ''quota ledger unavailable''
         | (l, Inr ls) \<Rightarrow>
             (case next rq c1 (s\<lparr>gledger := l\<rparr>) of
                (c2, s1, a) \<Rightarrow>
                  (c2, s1\<lparr>gledger :=
                     (if caConsumed c2 \<le> 0 then fst (qoCancel qo (gledger s1) (ID ls) (geSettleAt ge))
                      else fst (qoSettle qo (gledger s1) (ID ls) (caConsumed c2) (geSettleAt ge)))\<rparr>, a)))"

subsection \<open>The chain\<close>

definition resolve_identity ::
  "(string \<Rightarrow> string \<Rightarrow> string) \<Rightarrow> gov_env \<Rightarrow> string \<Rightarrow> ('m, 'l, 'w) gov \<Rightarrow> ('m, 'l, 'w) gov \<times> answer" where
  "resolve_identity hmac ge key s =
     (case cs_Resolve hmac (gids s) key (geLookupAt ge) (geInner ge) (geBackfillAt ge) of
        (ids, ans) \<Rightarrow> (s\<lparr>gids := ids\<rparr>, ans))"

definition governance_stages ::
  "wire_libs \<Rightarrow> (string \<Rightarrow> string \<Rightarrow> string) \<Rightarrow> 'm limiter_ops \<Rightarrow> 'l ledger_ops \<Rightarrow> gov_env \<Rightarrow>
   (('m, 'l, 'w) gov, 'r, 'a) middleware list" where
  "governance_stages lib hmac lo qo ge =
     [AuthStage lib (resolve_identity hmac ge), ModelAuthzStage lib, ConcurrencyMiddleware lib,
      LimiterMiddleware lib lo ge, QuotaMiddleware lib qo ge]"

definition inferenceChain ::
  "wire_libs \<Rightarrow> (string \<Rightarrow> string \<Rightarrow> string) \<Rightarrow> 'm limiter_ops \<Rightarrow> 'l ledger_ops \<Rightarrow> gov_env \<Rightarrow> format \<Rightarrow>
   (('m, 'l, 'w) gov, 'r, 'a) handler \<Rightarrow> (('m, 'l, 'w) gov, 'r, 'a) handler" where
  "inferenceChain lib hmac lo qo ge fmt endpoint =
     Chain ([CarrierStage, RequestIDStage (geEntropy ge), FormatStage fmt] @ governance_stages lib hmac lo qo ge) endpoint"

text \<open>An endpoint that answers: its own error replies are answers of the chain.\<close>

definition answering ::
  "(request \<Rightarrow> 'r carrier \<Rightarrow> 's \<Rightarrow> 'r carrier \<times> 's \<times> 'a) \<Rightarrow> ('s, 'r, 'a) handler" where
  "answering ep rq c s = (case ep rq c s of (c1, s1, a) \<Rightarrow> (c1, s1, Answered a))"

subsection \<open>What each stage does with a request\<close>

lemma refuse_status [simp]: "hrStatus (refuse lib c code ecode message) = code"
  "hrStatus (with_retry_after n r) = hrStatus r"
  by (simp_all add: refuse_def RenderError_def WriteError_def writeJSONResponse_def with_retry_after_def)

definition refusal_codes :: "int set" where
  "refusal_codes = {400, 401, 402, 403, 413, 429, 503}"

lemma AuthStage_cases:
  assumes "AuthStage lib resolve next rq c s = (c', s', rep)"
  obtains (pass) key tn s1 where "apiKeyOf rq = Some key" "resolve key s = (s1, Inr tn)"
      "next rq (c\<lparr>caTenant := tn\<rparr>) s1 = (c', s', rep)"
  | (nokey) r where "rep = Refused r" "hrStatus r \<in> refusal_codes" "s' = s"
  | (badkey) r key where "rep = Refused r" "hrStatus r \<in> refusal_codes" "s' = fst (resolve key s)"
proof (cases "apiKeyOf rq")
  case None
  then show ?thesis using assms nokey by (auto simp: AuthStage_def refusal_codes_def)
next
  case (Some key)
  obtain s1 ans where r: "resolve key s = (s1, ans)" by fastforce
  show ?thesis
  proof (cases ans)
    case (Inl e)
    then show ?thesis
      using assms Some r by (cases e) (auto simp: AuthStage_def refusal_codes_def intro: badkey [of _ key])
  next
    case (Inr tn)
    then show ?thesis using assms Some r pass by (auto simp: AuthStage_def)
  qed
qed

lemma EnsureBody_refuses: "EnsureBody lib rq c = (c1, Some r) \<Longrightarrow> hrStatus r \<in> refusal_codes"
  by (auto simp: EnsureBody_def refusal_codes_def split: if_splits option.splits sum.splits)

lemma EnsureBody_fresh:
  assumes "EnsureBody lib rq c = (c1, None)" and "\<not> caChatSet c"
  obtains res where "Ingest (wlIter lib) (wlDec lib) (wlEnc lib) (caFormat c) (rqBody rq) = Inr res"
    "int (length (rqBody rq)) \<le> MaxBodyBytes"
    "c1 = c\<lparr>caChatSet := True, caBody := rqBody rq, caChat := inChat res, caUpstreamBody := inBody res, caChatErr := None\<rparr>"
  using assms by (auto simp: EnsureBody_def SetBody_def split: if_splits sum.splits)

lemma EnsureBody_again:
  "caChatSet c \<Longrightarrow> caChatErr c = None \<Longrightarrow> EnsureBody lib rq c = (c, None)"
  by (simp add: EnsureBody_def)

text \<open>What the carrier holds once the model is authorized.\<close>

definition authorized :: "wire_libs \<Rightarrow> request \<Rightarrow> format \<Rightarrow> tenant \<Rightarrow> ingest_result \<Rightarrow> 'r carrier \<Rightarrow> bool" where
  "authorized lib rq fmt tn res c \<longleftrightarrow>
     Ingest (wlIter lib) (wlDec lib) (wlEnc lib) fmt (rqBody rq) = Inr res \<and>
     int (length (rqBody rq)) \<le> MaxBodyBytes \<and>
     caChatSet c \<and> caChatErr c = None \<and> caChat c = inChat res \<and> caUpstreamBody c = inBody res \<and> caTenant c = tn \<and>
     caTokens c = 0 \<and> caConsumed c = 0 \<and> \<not> caPromptKnown c \<and>
     chModel (inChat res) \<noteq> '''' \<and> (tenantID tn \<noteq> '''' \<longrightarrow> AllowsModel (tenantTier tn) (chModel (inChat res)))"

lemma ModelAuthzStage_cases:
  assumes "ModelAuthzStage lib next rq c s = (c', s', rep)" and "\<not> caChatSet c" and "caTokens c = 0"
    and "caConsumed c = 0" and "\<not> caPromptKnown c"
  obtains (pass) res c1 where "authorized lib rq (caFormat c) (caTenant c) res c1" "next rq c1 s = (c', s', rep)"
  | (refused) r where "rep = Refused r" "hrStatus r \<in> refusal_codes" "s' = s"
proof (cases "EnsureBody lib rq c")
  case (Pair c1 e)
  show ?thesis
  proof (cases e)
    case (Some r)
    then show ?thesis
      using assms(1) Pair EnsureBody_refuses [of lib rq c c1 r] refused
      by (auto simp: ModelAuthzStage_def AuthorizeModel_def)
  next
    case None
    then obtain res where res: "Ingest (wlIter lib) (wlDec lib) (wlEnc lib) (caFormat c) (rqBody rq) = Inr res"
      and len: "int (length (rqBody rq)) \<le> MaxBodyBytes"
      and c1: "c1 = c\<lparr>caChatSet := True, caBody := rqBody rq, caChat := inChat res, caUpstreamBody := inBody res, caChatErr := None\<rparr>"
      using EnsureBody_fresh Pair assms(2) by metis
    show ?thesis
    proof (cases "chModel (inChat res) = '''' \<or>
        tenantID (caTenant c) \<noteq> '''' \<and> \<not> AllowsModel (tenantTier (caTenant c)) (chModel (inChat res))")
      case True
      then show ?thesis
        using assms(1) Pair None c1 refused
        by (auto simp: ModelAuthzStage_def AuthorizeModel_def refusal_codes_def split: if_splits)
    next
      case False
      then have "AuthorizeModel lib rq c = (c1, None)" using Pair None c1 by (auto simp: AuthorizeModel_def)
      then have "next rq c1 s = (c', s', rep)" using assms(1) by (simp add: ModelAuthzStage_def)
      moreover have "authorized lib rq (caFormat c) (caTenant c) res c1"
        using False res len assms(3-5) by (auto simp: c1 authorized_def)
      ultimately show ?thesis by (rule pass [rotated])
    qed
  qed
qed

lemma ConcurrencyMiddleware_cases:
  assumes "ConcurrencyMiddleware lib next rq c s = (c', s', rep)"
  defines "u \<equiv> tenantID (caTenant c)" and "k \<equiv> tierConcurrency (tenantTier (caTenant c))"
  obtains (pass) g slot s1 where "Acquire (ggate s) u k = (g, Some slot)" "next rq c (s\<lparr>ggate := g\<rparr>) = (c', s1, rep)"
      "s' = s1\<lparr>ggate := fst (release (ggate s1) slot)\<rparr>"
  | (refused) r where "rep = Refused r" "hrStatus r \<in> refusal_codes" "s' = s"
proof (cases "Acquire (ggate s) u k")
  case (Pair g sl)
  show ?thesis
  proof (cases sl)
    case None
    then have "g = ggate s" using Pair by (auto simp: Acquire_def split: if_splits)
    then show ?thesis
      using refused assms(1) Pair None unfolding u_def k_def by (auto simp: ConcurrencyMiddleware_def refusal_codes_def)
  next
    case (Some slot)
    obtain c1 s1 a where n: "next rq c (s\<lparr>ggate := g\<rparr>) = (c1, s1, a)" by (metis prod_cases3)
    then show ?thesis
      using pass [of g slot s1] assms(1) Pair Some unfolding u_def k_def by (simp add: ConcurrencyMiddleware_def)
  qed
qed

text \<open>
  What the chain relies on of the decoder: an accepted body has its length within the cap,
  so its decoded contents cannot come near the largest integer, and the limit it declares is
  a Go integer.
\<close>

definition decoded_bounded :: "wire_libs \<Rightarrow> bool" where
  "decoded_bounded lib \<longleftrightarrow> (\<forall>fmt body res.
     int (length body) \<le> MaxBodyBytes \<and> Ingest (wlIter lib) (wlDec lib) (wlEnc lib) fmt body = Inr res \<longrightarrow>
     content_bytes (inChat res) \<le> 2 ^ 62 \<and> int_ptr_ok (chMaxTokens (inChat res)))"

text \<open>The carrier after the limiter: it carries the estimate, which is positive.\<close>

lemma authorized_reserve:
  assumes "authorized lib rq fmt tn res c" and "decoded_bounded lib"
    and "ReserveTokens cap c = (c1, n)"
  shows "n = EstimateTokens (inChat res) cap" "1 \<le> n" "n \<le> MaxInt64"
    "c1 = c\<lparr>caPromptTokens := promptEstimate (inChat res), caPromptKnown := True\<rparr>"
proof -
  have c: "content_bytes (caChat c) \<le> MaxInt64" "int_ptr_ok (chMaxTokens (caChat c))" "prompt_cached c"
    "caChat c = inChat res"
    using assms(1,2) by (fastforce simp: authorized_def decoded_bounded_def prompt_cached_def MaxInt64_def)+
  note b = ReserveTokens_spec(1,2,4) [of c cap, OF c(1-3), unfolded c(4)]
  show "n = EstimateTokens (inChat res) cap" "1 \<le> n" "n \<le> MaxInt64"
    "c1 = c\<lparr>caPromptTokens := promptEstimate (inChat res), caPromptKnown := True\<rparr>"
    using b assms(3) by auto
qed

definition admitted_carrier :: "wire_libs \<Rightarrow> request \<Rightarrow> format \<Rightarrow> tenant \<Rightarrow> ingest_result \<Rightarrow> int \<Rightarrow> 'r carrier \<Rightarrow> bool" where
  "admitted_carrier lib rq fmt tn res n c \<longleftrightarrow>
     authorized lib rq fmt tn res (c\<lparr>caTokens := 0, caPromptKnown := False\<rparr>) \<and>
     caTokens c = n \<and> caPromptKnown c \<and> caPromptTokens c = promptEstimate (inChat res)"

lemma LimiterMiddleware_cases:
  assumes "LimiterMiddleware lib lo ge next rq c s = (c', s', rep)" and "authorized lib rq fmt tn res c"
    and "decoded_bounded lib"
  defines "n \<equiv> EstimateTokens (inChat res) (tierMaxTokens (tenantTier tn))"
    and "ls \<equiv> \<lparr>RPM = tierRPM (tenantTier tn), TPM = tierTPM (tenantTier tn)\<rparr>"
  obtains (pass) m d c1 s1 where "loAllow lo (glimiter s) (tenantID tn) ls n (geAllowAt ge) = (m, Some d)" "Allowed d"
      "admitted_carrier lib rq fmt tn res n c1" "1 \<le> n"
      "next rq c1 (s\<lparr>glimiter := m\<rparr>) = (c', s1, rep)"
      "s' = (if i64 (n - caConsumed c') > 0
             then s1\<lparr>glimiter := loRefund lo (glimiter s1) (tenantID tn) ls (i64 (n - caConsumed c')) (geRefundAt ge)\<rparr>
             else s1)"
  | (refused) r m where "rep = Refused r" "hrStatus r \<in> refusal_codes" "s' = s\<lparr>glimiter := m\<rparr>"
proof -
  have c: "caChatSet c" "caChatErr c = None" "caTenant c = tn" "caConsumed c = 0"
    using assms(2) by (simp_all add: authorized_def)
  obtain c1 k where rs: "ReserveTokens (tierMaxTokens (tenantTier tn)) c = (c1, k)" by fastforce
  note r = authorized_reserve [OF assms(2,3) rs]
  have k: "k = n" by (simp add: r(1) n_def)
  note run = assms(1) [unfolded LimiterMiddleware_def EnsureBody_again [OF c(1,2)] prod.case option.case c(3) rs Let_def k, folded ls_def]
  obtain m od where al: "loAllow lo (glimiter s) (tenantID tn) ls n (geAllowAt ge) = (m, od)" by fastforce
  show ?thesis
  proof (cases "od = None \<or> \<not> Allowed (the od)")
    case True
    then show ?thesis using run al by (cases od) (auto simp: refusal_codes_def intro!: refused [of _ m])
  next
    case False
    then obtain d where d: "od = Some d" "Allowed d" by auto
    obtain c3 s1 a where nx: "next rq (c1\<lparr>caTokens := n\<rparr>) (s\<lparr>glimiter := m\<rparr>) = (c3, s1, a)" by (metis prod_cases3)
    have eq: "c3 = c'" "a = rep" using run al d nx by auto
    have "admitted_carrier lib rq fmt tn res n (c1\<lparr>caTokens := n\<rparr>)"
      using assms(2) by (simp add: admitted_carrier_def authorized_def r(4))
    then show ?thesis
      by (rule pass [of m d "c1\<lparr>caTokens := n\<rparr>" s1, rotated 2]) (use run al d nx eq r k in auto)
  qed
qed

text \<open>What the chain has established when the endpoint runs, and what the endpoint may not do.\<close>

definition entitled ::
  "wire_libs \<Rightarrow> (string \<Rightarrow> string \<Rightarrow> string) \<Rightarrow> gov_env \<Rightarrow> format \<Rightarrow> request \<Rightarrow> ('m, 'l, 'w) gov \<Rightarrow> tenant \<Rightarrow>
   ingest_result \<Rightarrow> bool" where
  "entitled lib hmac ge fmt rq s tn res \<longleftrightarrow>
     (\<exists>key. apiKeyOf rq = Some key \<and> snd (resolve_identity hmac ge key s) = Inr tn) \<and>
     Ingest (wlIter lib) (wlDec lib) (wlEnc lib) fmt (rqBody rq) = Inr res \<and>
     chModel (inChat res) \<noteq> '''' \<and> (tenantID tn \<noteq> '''' \<longrightarrow> AllowsModel (tenantTier tn) (chModel (inChat res)))"

definition within_limits :: "'m limiter_ops \<Rightarrow> gov_env \<Rightarrow> ('m, 'l, 'w) gov \<Rightarrow> tenant \<Rightarrow> int \<Rightarrow> bool" where
  "within_limits lo ge s tn n \<longleftrightarrow>
     (0 < tierConcurrency (tenantTier tn) \<longrightarrow>
        inflight (ggate s) (tenantID tn) < tierConcurrency (tenantTier tn)) \<and>
     (\<exists>d. snd (loAllow lo (glimiter s) (tenantID tn)
         \<lparr>RPM = tierRPM (tenantTier tn), TPM = tierTPM (tenantTier tn)\<rparr> n (geAllowAt ge)) = Some d \<and> Allowed d)"

definition keeps_governance ::
  "(request \<Rightarrow> 'r carrier \<Rightarrow> ('m, 'l, 'w) gov \<Rightarrow> 'r carrier \<times> ('m, 'l, 'w) gov \<times> 'a) \<Rightarrow> bool" where
  "keeps_governance ep \<longleftrightarrow> (\<forall>rq c s c1 s1 a. ep rq c s = (c1, s1, a) \<longrightarrow>
     ggate s1 = ggate s \<and> glimiter s1 = glimiter s \<and> gledger s1 = gledger s)"

lemma inflight_restored:
  assumes "Acquire g u k = (g1, Some slot)" and "0 \<le> inflight g u"
  shows "inflight (fst (release g1 slot)) = inflight g" and "0 < k \<Longrightarrow> inflight g u < k"
proof -
  consider "k \<le> 0" "g1 = g" "sfree slot"
    | "0 < k" "inflight g u < k" "g1 = g(u \<mapsto> inflight g u + 1)" "slot = \<lparr>stenant = u, sfree = False, released = False\<rparr>"
    using assms(1) by (auto simp: Acquire_def split: if_splits)
  then have "inflight (fst (release g1 slot)) = inflight g \<and> (0 < k \<longrightarrow> inflight g u < k)"
  proof cases
    case 2
    then have "inflight g1 u = inflight g u + 1" by (simp add: inflight_def)
    then show ?thesis using 2 assms(2) by (auto simp: release_def Let_def inflight_def fun_eq_iff split: option.splits)
  qed (simp add: release_def)
  then show "inflight (fst (release g1 slot)) = inflight g" "0 < k \<Longrightarrow> inflight g u < k" by simp_all
qed

context ledger
begin

abbreviation ops :: "'l ledger_ops" where
  "ops \<equiv> \<lparr>qoReserve = reserve, qoSettle = settle, qoCancel = cancel\<rparr>"

text \<open>
  The quota stage around an endpoint that leaves the ledger alone: it refuses and changes
  nothing, or the balance falls by exactly the charge and the reservation is gone.
\<close>

lemma QuotaMiddleware_cases:
  assumes run: "QuotaMiddleware lib ops ge next rq c s = (c', s', rep)"
    and l: "invar (gledger s)" "fresh (gledger s) (geLease ge)" and n: "1 \<le> caTokens c"
    and frame: "\<forall>l c1 s1 a. next rq c (s\<lparr>gledger := l\<rparr>) = (c1, s1, a) \<longrightarrow> gledger s1 = l"
    and used: "in64 (caConsumed c')"
    and rm: "\<forall>v k b. bal (gledger s) v = Some b \<and> k \<le> b \<longrightarrow> room (gledger s) v k"
  defines "u \<equiv> tenantID (caTenant c)"
  obtains (pass) l1 s1 b where "bal (gledger s) u = Some b" "caTokens c \<le> b"
      "next rq c (s\<lparr>gledger := l1\<rparr>) = (c', s1, rep)" "s' = s1\<lparr>gledger := gledger s'\<rparr>" "invar (gledger s')"
      "bal (gledger s') = (bal (gledger s))(u \<mapsto> b - charge (caTokens c) (caConsumed c'))"
      "live (gledger s') = live (gledger s)"
  | (refused) r where "rep = Refused r" "hrStatus r \<in> refusal_codes" "s' = s"
proof -
  let ?l = "gledger s" and ?i = "geLease ge" and ?a = "caTokens c"
  have amount: "\<not> caTokens c \<le> 0" using n by simp
  note step = QuotaMiddleware_def [of lib ops ge "next" rq c s, unfolded Let_def if_not_P [OF amount] prod.case]
  show ?thesis
  proof (cases "case bal ?l u of None \<Rightarrow> True | Some b \<Rightarrow> b < ?a")
    case True
    then show ?thesis
      using run step l u_def reserve_unknown [of ?l u ?i ?a "geReserveAt ge"] reserve_insufficient [of ?l u _ ?a ?i "geReserveAt ge"]
      by (auto simp: refusal_codes_def split: option.splits intro!: refused)
  next
    case False
    then obtain b where b: "bal ?l u = Some b" "?a \<le> b" by (auto split: option.splits)
    obtain l1 ls where r: "reserve ?l ?i u ?a (geReserveAt ge) = (l1, Inr ls)" "ID ls = ?i" "invar l1"
      "bal l1 = (bal ?l)(u \<mapsto> b - ?a)" "live l1 = (live ?l)(?i \<mapsto> (u, ?a))"
      using reserve_ok [OF l _ b, of "geReserveAt ge"] rm b n by auto
    obtain c2 s1 a where nx: "next rq c (s\<lparr>gledger := l1\<rparr>) = (c2, s1, a)" by (metis prod_cases3)
    note fr = frame [rule_format, OF nx]
    have res: "c2 = c'" "a = rep" "s' = s1\<lparr>gledger := gledger s'\<rparr>"
      "gledger s' = (if caConsumed c' \<le> 0 then fst (cancel l1 ?i (geSettleAt ge))
         else fst (settle l1 ?i (caConsumed c') (geSettleAt ge)))"
      using run step r(1,2) nx fr by (auto simp: u_def)
    have b1: "bal l1 u = Some (b - ?a)" "live l1 ?i = Some (u, ?a)" using r by simp_all
    have dead: "live ?l ?i = None" using fresh_dead l(2) by blast
    have "invar (gledger s') \<and> bal (gledger s') = (bal l1)(u \<mapsto> b - charge ?a (caConsumed c')) \<and>
        live (gledger s') = (live l1)(?i := None)"
    proof (cases "caConsumed c' \<le> 0")
      case True
      then show ?thesis
        using cancel_live [OF r(3) b1(2,1), of "geSettleAt ge"] n by (auto simp: res(4) charge_def)
    next
      case False
      then show ?thesis
        using settle_live [OF r(3) _ b1(2,1), of "caConsumed c'" "geSettleAt ge"] used by (auto simp: res(4))
    qed
    moreover have "(live l1)(?i := None) = live ?l" using r(5) dead by (auto simp: fun_eq_iff)
    ultimately show ?thesis using pass [OF b, of l1 s1] nx res r(4) by simp
  qed
qed

text \<open>
  The stages after the model check, for a request that passed it.
\<close>

lemma governed_authorized:
  assumes run: "ConcurrencyMiddleware lib (LimiterMiddleware lib lo ge (QuotaMiddleware lib ops ge (answering ep))) rq c s =
      (c', s', rep)"
    and c: "authorized lib rq fmt tn res c" and l: "invar (gledger s)" "fresh (gledger s) (geLease ge)"
    and dec: "decoded_bounded lib" and gate: "\<And>u. 0 \<le> inflight (ggate s) u" and ep: "keeps_governance ep" and used: "in64 (caConsumed c')"
    and rm: "\<forall>v k b. bal (gledger s) v = Some b \<and> k \<le> b \<longrightarrow> room (gledger s) v k"
  defines "n \<equiv> EstimateTokens (inChat res) (tierMaxTokens (tenantTier tn))"
  shows "inflight (ggate s') = inflight (ggate s) \<and> live (gledger s') = live (gledger s) \<and>
    (case rep of
       Refused r \<Rightarrow> hrStatus r \<in> refusal_codes \<and> gledger s' = gledger s \<and> grest s' = grest s
     | Answered a \<Rightarrow> within_limits lo ge s tn n \<and>
         (\<exists>b. bal (gledger s) (tenantID tn) = Some b \<and> n \<le> b \<and>
            bal (gledger s') = (bal (gledger s))(tenantID tn \<mapsto> b - charge n (caConsumed c'))) \<and>
         (\<exists>c1 s1 s2. admitted_carrier lib rq fmt tn res n c1 \<and> grest s1 = grest s \<and>
            ep rq c1 s1 = (c', s2, a) \<and> grest s' = grest s2))"
proof -
  have u: "caTenant c = tn" using c by (simp add: authorized_def)
  show ?thesis
    using run
  proof (cases rule: ConcurrencyMiddleware_cases)
    case (pass g slot s1)
    note gt = inflight_restored [OF pass(1) gate]
    show ?thesis
      using pass(2) c dec
    proof (cases rule: LimiterMiddleware_cases)
      case lp: (pass m d c1 s2)
      have c1: "caTokens c1 = n" "caTenant c1 = tn" "1 \<le> n"
        using lp(3,4) by (simp_all add: admitted_carrier_def authorized_def n_def)
      have lim: "within_limits lo ge s tn n" using lp(1,2) gt(2) u by (auto simp: within_limits_def n_def)
      obtain X where s1: "s1 = s2\<lparr>glimiter := X\<rparr>" using lp(6) by (cases s2) (auto split: if_splits)
      let ?s = "s\<lparr>ggate := g, glimiter := m\<rparr>"
      have frame: "\<forall>l c4 s4 a. answering ep rq c1 (?s\<lparr>gledger := l\<rparr>) = (c4, s4, a) \<longrightarrow> gledger s4 = l"
        using ep by (fastforce simp: keeps_governance_def answering_def split: prod.splits)
      have q: "invar (gledger ?s)" "fresh (gledger ?s) (geLease ge)" "1 \<le> caTokens c1"
        using l c1 by simp_all
      have rm': "\<forall>v k b. bal (gledger ?s) v = Some b \<and> k \<le> b \<longrightarrow> room (gledger ?s) v k" using rm by simp
      show ?thesis
        using lp(5) q frame used rm'
      proof (cases rule: QuotaMiddleware_cases)
        case qp: (pass l1 s3 b)
        obtain a where rep: "rep = Answered a" and e: "ep rq c1 (?s\<lparr>gledger := l1\<rparr>) = (c', s3, a)"
          using qp(3) by (auto simp: answering_def split: prod.splits)
        have "ggate s3 = g" using e ep by (fastforce simp: keeps_governance_def)
        moreover obtain L where "s2 = s3\<lparr>gledger := L\<rparr>" using qp(4) by blast
        ultimately have s': "ggate s' = fst (release g slot)" "gledger s' = gledger s2" "grest s' = grest s3"
          using pass(3) s1 by simp_all
        have "\<exists>c1 s1 s2. admitted_carrier lib rq fmt tn res n c1 \<and> grest s1 = grest s \<and> ep rq c1 s1 = (c', s2, a) \<and> grest s' = grest s2"
          by (rule exI [of _ c1], rule exI [of _ "?s\<lparr>gledger := l1\<rparr>"], rule exI [of _ s3])
            (use lp(3) e s'(3) in \<open>simp add: n_def\<close>)
        then show ?thesis using s' lim rep qp(1,2,6,7) c1 gt(1) by simp
      next
        case (refused r)
        then show ?thesis using pass(3) s1 gt(1) by simp
      qed
    next
      case (refused r m)
      then show ?thesis using pass(3) gt(1) by simp
    qed
  qed auto
qed

text \<open>
  The whole chain.  The endpoint may do what it likes to the world behind it, but it has no
  access to the gate, the limiter and the ledger; the count it leaves is a Go integer, and
  the ledger has room for every reservation its balances cover.
\<close>

lemma governed_request:
  assumes run: "inferenceChain lib hmac lo ops ge fmt (answering ep) rq c0 s = (c', s', rep)"
    and l: "invar (gledger s)" "fresh (gledger s) (geLease ge)"
    and dec: "decoded_bounded lib" and gate: "\<And>u. 0 \<le> inflight (ggate s) u"
    and ep: "keeps_governance ep" and used: "in64 (caConsumed c')"
    and rm: "\<forall>v k b. bal (gledger s) v = Some b \<and> k \<le> b \<longrightarrow> room (gledger s) v k"
  shows "inflight (ggate s') = inflight (ggate s) \<and> live (gledger s') = live (gledger s) \<and>
    (case rep of
       Refused r \<Rightarrow> hrStatus r \<in> refusal_codes \<and> gledger s' = gledger s \<and> grest s' = grest s
     | Answered a \<Rightarrow> \<exists>tn res n. n = EstimateTokens (inChat res) (tierMaxTokens (tenantTier tn)) \<and>
         entitled lib hmac ge fmt rq s tn res \<and> within_limits lo ge s tn n \<and>
         (\<exists>b. bal (gledger s) (tenantID tn) = Some b \<and> n \<le> b \<and>
            bal (gledger s') = (bal (gledger s))(tenantID tn \<mapsto> b - charge n (caConsumed c'))) \<and>
         (\<exists>c1 s1 s2. admitted_carrier lib rq fmt tn res n c1 \<and> grest s1 = grest s \<and>
            ep rq c1 s1 = (c', s2, a) \<and> grest s' = grest s2))"
proof -
  let ?C = "ConcurrencyMiddleware lib (LimiterMiddleware lib lo ge (QuotaMiddleware lib ops ge (answering ep)))"
  let ?c = "new_carrier\<lparr>caRequestID := adoptRequestID (geEntropy ge) (header_get (rqHeader rq) ''X-Request-Id''), caFormat := fmt\<rparr>"
  have new: "\<not> caChatSet (?c\<lparr>caTenant := tn\<rparr>)" "caTokens (?c\<lparr>caTenant := tn\<rparr>) = 0"
    "caConsumed (?c\<lparr>caTenant := tn\<rparr>) = 0" "\<not> caPromptKnown (?c\<lparr>caTenant := tn\<rparr>)" for tn
    by (simp_all add: new_carrier_def)
  have "AuthStage lib (resolve_identity hmac ge) (ModelAuthzStage lib ?C) rq ?c s = (c', s', rep)"
    using run by (simp add: inferenceChain_def Chain_def governance_stages_def CarrierStage_def RequestIDStage_def FormatStage_def)
  then show ?thesis
  proof (cases rule: AuthStage_cases)
    case au: (pass key tn s1)
    have s1: "ggate s1 = ggate s" "glimiter s1 = glimiter s" "gledger s1 = gledger s" "grest s1 = grest s"
      using au(2) by (auto simp: resolve_identity_def split: prod.splits)
    show ?thesis
      using au(3) new
    proof (cases rule: ModelAuthzStage_cases)
      case (pass res c1)
      then have a: "authorized lib rq fmt tn res c1" by simp
      then have en: "entitled lib hmac ge fmt rq s tn res" using au(1,2) by (auto simp: entitled_def authorized_def)
      have wl: "within_limits lo ge s1 = (within_limits lo ge s :: tenant \<Rightarrow> int \<Rightarrow> bool)"
        by (simp add: within_limits_def s1 fun_eq_iff)
      note g = governed_authorized [OF pass(2) a _ _ dec _ ep used, unfolded s1 wl, OF l gate rm]
      show ?thesis
      proof (cases rep)
        case (Answered x)
        show ?thesis
          using g en unfolding Answered reply.case
          by (intro conjI) (simp, simp, rule exI [of _ tn], rule exI [of _ res], simp)
      qed (use g in simp)
    next
      case refused
      then show ?thesis using s1 by simp
    qed
  next
    case badkey
    then show ?thesis by (auto simp: resolve_identity_def split: prod.splits)
  qed auto
qed

end

end
