(* ===== verification/Router_Switch.thy ===== *)
theory Router_Switch
  imports Prelude "HOL-Library.Mapping" "HOL-Library.AList_Mapping" "HOL-Library.Char_ord" "HOL-Library.List_Lexorder"
begin

text \<open>
  The runtime traffic switches (\<^verbatim>\<open>internal/router/control.go\<close>): what operators
  disable through the admin API and what the system disables by itself.

  A Go set (\<open>map[string]struct{}\<close>, and \<open>map[string]bool\<close> where only \<open>true\<close> is ever
  stored and entries are deleted) is a set of strings; \<open>autoDisabled\<close> is a mapping,
  because its keys are listed in order.  The callback \<open>onUpstreamEnable\<close> is installed
  once and runs outside the lock: the calls made to it are the list \<open>enableCalls\<close>.
  The clock reading of an auto disable is an argument.

  The abstract specification is a three-state automaton per upstream, and
  \<open>switch_refines_rotation\<close> shows that every history of calls drives the two maps
  exactly as the automaton.
\<close>

subsection \<open>The switch\<close>

datatype router_error =
    ErrUnknownModel string
  | ErrUnknownUpstream string
  | ErrDisabled
  | ErrUnavailable
  | ErrNoUpstream string

record auto_disable =
  reason :: string
  since :: instant

record switch =
  disabledModels :: "string set"
  disabledUpstreams :: "string set"
  autoDisabled :: "(string, auto_disable) mapping"
  knownModels :: "string set"
  knownUpstreams :: "string set"
  wildcardModels :: bool
  enableCalls :: "string list"

definition NewSwitch :: "string list \<Rightarrow> string list \<Rightarrow> bool \<Rightarrow> switch" where
  "NewSwitch models upstreams wildcard =
     \<lparr>disabledModels = {}, disabledUpstreams = {}, autoDisabled = Mapping.empty,
      knownModels = set models, knownUpstreams = set upstreams,
      wildcardModels = wildcard, enableCalls = []\<rparr>"

definition SetModel :: "switch \<Rightarrow> string \<Rightarrow> bool \<Rightarrow> switch \<times> (router_error + unit)" where
  "SetModel s model enabled =
     (if model \<notin> knownModels s \<and> \<not> wildcardModels s then (s, Inl (ErrUnknownModel model))
      else if enabled then (s\<lparr>disabledModels := disabledModels s - {model}\<rparr>, Inr ())
      else (s\<lparr>disabledModels := insert model (disabledModels s)\<rparr>, Inr ()))"

definition SetUpstream :: "switch \<Rightarrow> string \<Rightarrow> bool \<Rightarrow> switch \<times> (router_error + unit)" where
  "SetUpstream s u enabled =
     (if u \<notin> knownUpstreams s then (s, Inl (ErrUnknownUpstream u))
      else if enabled
      then (s\<lparr>disabledUpstreams := disabledUpstreams s - {u},
              autoDisabled := Mapping.delete u (autoDisabled s),
              enableCalls := enableCalls s @ [u]\<rparr>, Inr ())
      else (s\<lparr>autoDisabled := Mapping.delete u (autoDisabled s),
              disabledUpstreams := insert u (disabledUpstreams s)\<rparr>, Inr ()))"

definition AutoDisableUpstream ::
  "switch \<Rightarrow> string \<Rightarrow> string \<Rightarrow> instant \<Rightarrow> switch \<times> (router_error + bool)" where
  "AutoDisableUpstream s u why t =
     (if u \<notin> knownUpstreams s then (s, Inl (ErrUnknownUpstream u))
      else if u \<in> disabledUpstreams s then (s, Inr False)
      else if Mapping.lookup (autoDisabled s) u \<noteq> None then (s, Inr False)
      else (s\<lparr>autoDisabled := Mapping.update u \<lparr>reason = why, since = t\<rparr> (autoDisabled s)\<rparr>, Inr True))"

definition AutoEnableUpstream :: "switch \<Rightarrow> string \<Rightarrow> switch \<times> (router_error + unit)" where
  "AutoEnableUpstream s u =
     (if u \<notin> knownUpstreams s then (s, Inl (ErrUnknownUpstream u))
      else (s\<lparr>autoDisabled := Mapping.delete u (autoDisabled s), enableCalls := enableCalls s @ [u]\<rparr>, Inr ()))"

definition AutoDisabledIDs :: "switch \<Rightarrow> string list" where
  "AutoDisabledIDs s = sorted_list_of_set (Mapping.keys (autoDisabled s))"

definition ModelEnabled :: "switch \<Rightarrow> string \<Rightarrow> bool" where
  "ModelEnabled s model \<longleftrightarrow> model \<notin> disabledModels s"

definition UpstreamEnabled :: "switch \<Rightarrow> string \<Rightarrow> bool" where
  "UpstreamEnabled s u \<longleftrightarrow> u \<notin> disabledUpstreams s \<and> Mapping.lookup (autoDisabled s) u = None"

record switch_view =
  vmodels :: "string \<rightharpoonup> bool"
  vupstreams :: "string \<rightharpoonup> bool"
  vauto :: "string \<rightharpoonup> auto_disable"

definition View :: "switch \<Rightarrow> switch_view" where
  "View s =
     \<lparr>vmodels = (\<lambda>model. if model \<in> knownModels s then Some (model \<notin> disabledModels s)
                  else if model \<in> disabledModels s then Some False else None),
      vupstreams = (\<lambda>u. if u \<in> knownUpstreams s
                  then Some (if Mapping.lookup (autoDisabled s) u \<noteq> None then False else u \<notin> disabledUpstreams s)
                  else None),
      vauto = (\<lambda>u. if u \<in> knownUpstreams s then Mapping.lookup (autoDisabled s) u else None)\<rparr>"

subsection \<open>Histories of calls\<close>

datatype switch_call =
    CallSetModel string bool
  | CallSetUpstream string bool
  | CallAutoDisable string string instant
  | CallAutoEnable string

fun switch_step :: "switch \<Rightarrow> switch_call \<Rightarrow> switch" where
  "switch_step s (CallSetModel model enabled) = fst (SetModel s model enabled)"
| "switch_step s (CallSetUpstream u enabled) = fst (SetUpstream s u enabled)"
| "switch_step s (CallAutoDisable u why t) = fst (AutoDisableUpstream s u why t)"
| "switch_step s (CallAutoEnable u) = fst (AutoEnableUpstream s u)"

abbreviation run_switch :: "switch \<Rightarrow> switch_call list \<Rightarrow> switch" where
  "run_switch \<equiv> foldl switch_step"

subsection \<open>The specification: one automaton per upstream\<close>

datatype rotation = InRotation | ManualOff | AutoOff auto_disable

fun rotate :: "string \<Rightarrow> rotation \<Rightarrow> switch_call \<Rightarrow> rotation" where
  "rotate u r (CallSetModel _ _) = r"
| "rotate u r (CallSetUpstream v enabled) =
     (if v = u then if enabled then InRotation else ManualOff else r)"
| "rotate u r (CallAutoDisable v why t) =
     (if v = u \<and> r = InRotation then AutoOff \<lparr>reason = why, since = t\<rparr> else r)"
| "rotate u r (CallAutoEnable v) =
     (if v = u then case r of AutoOff _ \<Rightarrow> InRotation | _ \<Rightarrow> r else r)"

definition rotation_of :: "switch \<Rightarrow> string \<Rightarrow> rotation" where
  "rotation_of s u =
     (if u \<in> disabledUpstreams s then ManualOff
      else case Mapping.lookup (autoDisabled s) u of None \<Rightarrow> InRotation | Some a \<Rightarrow> AutoOff a)"

definition switch_ok :: "switch \<Rightarrow> bool" where
  "switch_ok s \<longleftrightarrow> finite (Mapping.keys (autoDisabled s)) \<and>
     (\<forall>u. (u \<in> disabledUpstreams s \<longrightarrow> Mapping.lookup (autoDisabled s) u = None))"

lemma lookup_update_if:
  "Mapping.lookup (Mapping.update k v m) k' = (if k = k' then Some v else Mapping.lookup m k')"
  by transfer simp

lemma lookup_delete_if:
  "Mapping.lookup (Mapping.delete k m) k' = (if k = k' then None else Mapping.lookup m k')"
  by transfer simp

lemma keys_lookup: "k \<in> Mapping.keys m \<longleftrightarrow> Mapping.lookup m k \<noteq> None"
  by transfer auto

lemmas switch_ops_def =
  SetModel_def SetUpstream_def AutoDisableUpstream_def AutoEnableUpstream_def

lemma new_switch_ok [simp]: "switch_ok (NewSwitch ms us w)"
  by (simp add: switch_ok_def NewSwitch_def)

lemma switch_step_ok: "switch_ok s \<Longrightarrow> switch_ok (switch_step s c)"
  by (cases c) (auto simp: switch_ok_def switch_ops_def lookup_update_if lookup_delete_if)

lemma switch_step_known [simp]: "knownUpstreams (switch_step s c) = knownUpstreams s"
  by (cases c) (auto simp: switch_ops_def)

lemma switch_step_rotation:
  "switch_ok s \<Longrightarrow> u \<in> knownUpstreams s \<Longrightarrow>
     rotation_of (switch_step s c) u = rotate u (rotation_of s u) c"
  by (cases c) (auto simp: switch_ok_def rotation_of_def switch_ops_def lookup_update_if
      lookup_delete_if split: option.splits)

lemma run_switch_rotation:
  "switch_ok s \<Longrightarrow> u \<in> knownUpstreams s \<Longrightarrow>
     switch_ok (run_switch s cs) \<and> u \<in> knownUpstreams (run_switch s cs) \<and>
     rotation_of (run_switch s cs) u = foldl (rotate u) (rotation_of s u) cs"
  by (induction cs arbitrary: s) (simp_all add: switch_step_ok switch_step_rotation)

lemma UpstreamEnabled_rotation: "UpstreamEnabled s u \<longleftrightarrow> rotation_of s u = InRotation"
  by (auto simp: UpstreamEnabled_def rotation_of_def split: option.splits)

lemma View_rotation:
  "switch_ok s \<Longrightarrow> u \<in> knownUpstreams s \<Longrightarrow>
     vupstreams (View s) u = Some (rotation_of s u = InRotation) \<and>
     vauto (View s) u = (case rotation_of s u of AutoOff a \<Rightarrow> Some a | _ \<Rightarrow> None)"
  by (auto simp: View_def rotation_of_def switch_ok_def split: option.splits)

lemma AutoDisabledIDs_rotation:
  "switch_ok s \<Longrightarrow> u \<in> set (AutoDisabledIDs s) \<longleftrightarrow> (\<exists>a. rotation_of s u = AutoOff a)"
  by (auto simp: AutoDisabledIDs_def switch_ok_def keys_lookup rotation_of_def split: option.splits)

lemma manual_off_stays:
  "\<forall>c \<in> set cs. \<forall>enabled. c \<noteq> CallSetUpstream u enabled \<Longrightarrow> foldl (rotate u) ManualOff cs = ManualOff"
proof (induction cs)
  case (Cons c cs)
  then have "rotate u ManualOff c = ManualOff" by (cases c) auto
  with Cons show ?case by simp
qed simp

lemma auto_disable_reports_transition:
  "switch_ok s \<Longrightarrow> u \<in> knownUpstreams s \<Longrightarrow>
     snd (AutoDisableUpstream s u why t) = Inr (rotation_of s u = InRotation)"
  by (auto simp: AutoDisableUpstream_def rotation_of_def split: option.splits)

subsection \<open>Properties\<close>

text \<open>
  C8: the switch keeps its two disable channels apart.  After any history of operator
  and system calls on a fresh switch, a configured upstream is in the state its
  automaton reaches; it is eligible exactly in \<open>InRotation\<close>; the admin view and the
  recovery prober's list show exactly that state; and the next auto disable reports
  \<open>true\<close> exactly when it takes the upstream out of rotation.
\<close>

theorem switch_refines_rotation:
  assumes "u \<in> set us" and "s = run_switch (NewSwitch ms us w) cs"
    and "r = foldl (rotate u) InRotation cs"
  shows "(UpstreamEnabled s u \<longleftrightarrow> r = InRotation) \<and>
    vupstreams (View s) u = Some (r = InRotation) \<and>
    vauto (View s) u = (case r of AutoOff a \<Rightarrow> Some a | _ \<Rightarrow> None) \<and>
    (u \<in> set (AutoDisabledIDs s) \<longleftrightarrow> (\<exists>a. r = AutoOff a)) \<and>
    snd (AutoDisableUpstream s u why t) = Inr (r = InRotation)"
proof -
  have "u \<in> knownUpstreams (NewSwitch ms us w)" using assms(1) by (simp add: NewSwitch_def)
  moreover have "rotation_of (NewSwitch ms us w) u = InRotation"
    by (simp add: NewSwitch_def rotation_of_def)
  ultimately have s: "switch_ok s" "u \<in> knownUpstreams s" "rotation_of s u = r"
    using run_switch_rotation [of "NewSwitch ms us w" u cs] assms(2,3) by simp_all
  have "vupstreams (View s) u = Some (r = InRotation)"
    "vauto (View s) u = (case r of AutoOff a \<Rightarrow> Some a | _ \<Rightarrow> None)"
    using View_rotation [OF s(1,2)] s(3) by blast+
  moreover have "u \<in> set (AutoDisabledIDs s) \<longleftrightarrow> (\<exists>a. r = AutoOff a)"
    using AutoDisabledIDs_rotation [OF s(1)] s(3) by blast
  ultimately show ?thesis
    using UpstreamEnabled_rotation [of s u] auto_disable_reports_transition [OF s(1,2), of why t]
    unfolding s(3) by simp
qed

definition demo_switch_calls :: "switch_call list" where
  "demo_switch_calls =
     [CallAutoDisable ''a'' ''auth'' 5, CallSetUpstream ''a'' False, CallAutoDisable ''a'' ''quota'' 6,
      CallAutoEnable ''a'', CallAutoDisable ''b'' ''auth'' 7]"

theorem switch_refines_rotation_witness:
  "let s = run_switch (NewSwitch [] [''b'', ''a''] True) demo_switch_calls in
     \<not> UpstreamEnabled s ''a'' \<and> AutoDisabledIDs s = [''b''] \<and>
     vauto (View s) ''b'' = Some \<lparr>reason = ''auth'', since = 7\<rparr> \<and>
     snd (AutoDisableUpstream s ''a'' ''auth'' 9) = Inr False"
proof -
  let ?s = "run_switch (NewSwitch [] [''b'', ''a''] True) demo_switch_calls"
  have r: "foldl (rotate ''a'') InRotation demo_switch_calls = ManualOff"
    "foldl (rotate ''b'') InRotation demo_switch_calls = AutoOff \<lparr>reason = ''auth'', since = 7\<rparr>"
    by (simp_all add: demo_switch_calls_def)
  have "AutoDisabledIDs ?s = [''b'']"
    by (simp add: demo_switch_calls_def AutoDisabledIDs_def switch_ops_def NewSwitch_def lookup_update_if
        lookup_delete_if)
  moreover note switch_refines_rotation [OF _ refl r(1) [symmetric], of "[''b'', ''a'']" "[]" True "''auth''" 9]
    switch_refines_rotation [OF _ refl r(2) [symmetric], of "[''b'', ''a'']" "[]" True "''auth''" 9]
  ultimately show ?thesis by (simp add: Let_def)
qed

text \<open>
  An operator's disable stands until an operator lifts it.  Once \<open>SetUpstream\<close> has
  disabled an upstream, no sequence of model switches, automatic disables, automatic
  recoveries and operator calls on other upstreams makes it eligible again, and the
  recovery prober never sees it.
\<close>

lemma operator_disable_stands:
  assumes "switch_ok s" and "SetUpstream s u False = (s1, Inr ())"
    and "\<forall>c \<in> set cs. \<forall>enabled. c \<noteq> CallSetUpstream u enabled"
  shows "\<not> UpstreamEnabled (run_switch s1 cs) u \<and> u \<notin> set (AutoDisabledIDs (run_switch s1 cs))"
proof -
  have u: "u \<in> knownUpstreams s" and s1: "s1 = switch_step s (CallSetUpstream u False)"
    using assms(2) by (auto simp: SetUpstream_def split: if_splits)
  then have "switch_ok s1" "u \<in> knownUpstreams s1" "rotation_of s1 u = ManualOff"
    using switch_step_ok [OF assms(1)] switch_step_rotation [OF assms(1) u, of "CallSetUpstream u False"]
    by (simp_all del: switch_step.simps)
  then have "switch_ok (run_switch s1 cs)" "rotation_of (run_switch s1 cs) u = ManualOff"
    using run_switch_rotation [of s1 u cs] manual_off_stays [OF assms(3)] by simp_all
  then show ?thesis using AutoDisabledIDs_rotation UpstreamEnabled_rotation by simp
qed

end
