(* ===== verification/Circuit_Machine.thy ===== *)
theory Circuit_Machine
  imports Prelude
begin

text \<open>
  The positional skeleton of the circuit breakers: \<^verbatim>\<open>internal/circuit/circuit.go\<close>
  (the state and outcome vocabulary) and \<^verbatim>\<open>machine.go\<close> (the governor both
  three-state registries run).  A Go struct that embeds \<open>machine\<close> is a record that
  extends \<open>machine\<close>, so the governor's operations are polymorphic in the
  strategy's own evidence, as the embedded pointer is in the source.

  A probe grant is compared by pointer identity in the source.  A pointer is a
  number handed out by an allocation counter, kept by the owning registry: two
  grants are the same pointer only when they are the same allocation.  The
  transition observer is modelled by the list of calls made to it.
\<close>

datatype cstate = StateClosed | StateOpen | StateHalfOpen

datatype outcome =
    OutcomeSuccess
  | OutcomeClientFault
  | OutcomeServerFault
  | OutcomeSlow
  | OutcomeGatewayTerminated

record probe_grant =
  gptr :: nat
  deadline :: instant

record machine =
  mid :: string
  mname :: cstate
  openedAt :: instant
  probe :: "probe_grant option"

record governor =
  cooldown :: duration
  probeTimeout :: duration

type_synonym transition = "string \<times> cstate \<times> cstate"

text \<open>
  What the injected clock and random source return during one call of the port:
  the reading made when the call creates the upstream's entry (the window strategies
  stamp it), the reading the call itself makes, the reading \<open>enter\<close> makes when it stamps \<open>openedAt\<close>
  (they differ when time passes between them) and the uniform draw.
\<close>

record call_env =
  born :: instant
  now :: instant
  stamp :: instant
  draw :: rat

subsection \<open>The governor's operations\<close>

definition enter ::
  "instant \<Rightarrow> 'a machine_scheme \<Rightarrow> cstate \<Rightarrow> ('a machine_scheme \<Rightarrow> 'a machine_scheme)
    \<Rightarrow> 'a machine_scheme \<times> transition list" where
  "enter st m to onClosed =
     (if mname m = to then (m, [])
      else let m1 = m\<lparr>mname := to\<rparr>;
               m2 = (if to = StateOpen then m1\<lparr>openedAt := st\<rparr> else m1);
               m3 = (if to = StateClosed then onClosed (m2\<lparr>probe := None\<rparr>) else m2)
           in (m3, [(mid m, mname m, to)]))"

text \<open>
  \<open>reclaim\<close> overwrites the stamp \<open>enter\<close> made with the observation moment, so
  the inner clock reading does not survive it.
\<close>

definition reclaim :: "'a machine_scheme \<Rightarrow> instant \<Rightarrow> 'a machine_scheme \<times> transition list" where
  "reclaim m t =
     (let m1 = m\<lparr>probe := None\<rparr>;
          (m2, ev) = enter t m1 StateOpen id
      in (m2\<lparr>openedAt := t\<rparr>, ev))"

text \<open>
  \<open>allow\<close> answers \<open>None\<close> for a denial and \<open>Some g\<close> for an admission whose
  permission carries the grant \<open>g\<close> (\<open>None\<close> outside half-open); \<open>ptr\<close> is the
  address a newly allocated grant gets.
\<close>

definition gov_allow ::
  "governor \<Rightarrow> instant \<Rightarrow> nat \<Rightarrow> 'a machine_scheme
    \<Rightarrow> probe_grant option option \<times> 'a machine_scheme \<times> transition list" where
  "gov_allow g t ptr m =
     (case mname m of
        StateClosed \<Rightarrow> (Some None, m, [])
      | StateOpen \<Rightarrow>
          if time_sub t (openedAt m) < cooldown g then (None, m, [])
          else let (m1, ev) = enter t m StateHalfOpen id;
                   grant = \<lparr>gptr = ptr, deadline = t + probeTimeout g\<rparr>
               in (Some (Some grant), m1\<lparr>probe := Some grant\<rparr>, ev)
      | StateHalfOpen \<Rightarrow>
          (case probe m of
             Some p \<Rightarrow>
               if t > deadline p then let (m1, ev) = reclaim m t in (None, m1, ev)
               else (None, m, [])
           | None \<Rightarrow>
               let grant = \<lparr>gptr = ptr, deadline = t + probeTimeout g\<rparr>
               in (Some (Some grant), m\<lparr>probe := Some grant\<rparr>, [])))"

definition gov_observe ::
  "governor \<Rightarrow> instant \<Rightarrow> 'a machine_scheme \<Rightarrow> cstate \<times> 'a machine_scheme \<times> transition list" where
  "gov_observe g t m =
     (case mname m of
        StateOpen \<Rightarrow>
          if time_sub t (openedAt m) \<ge> cooldown g
          then let (m1, ev) = enter t m StateHalfOpen id in (StateHalfOpen, m1, ev)
          else (mname m, m, [])
      | StateHalfOpen \<Rightarrow>
          (case probe m of
             Some p \<Rightarrow>
               if t > deadline p then let (m1, ev) = reclaim m t in (mname m1, m1, ev)
               else (mname m, m, [])
           | None \<Rightarrow> (mname m, m, []))
      | StateClosed \<Rightarrow> (mname m, m, []))"

subsection \<open>The invariant of a machine and the legal transitions\<close>

text \<open>
  A probe is outstanding in half-open only, and its address was allocated before.
\<close>

definition machine_ok :: "nat \<Rightarrow> 'a machine_scheme \<Rightarrow> bool" where
  "machine_ok fr m \<longleftrightarrow>
     (mname m \<noteq> StateHalfOpen \<longrightarrow> probe m = None) \<and>
     (case probe m of None \<Rightarrow> True | Some p \<Rightarrow> gptr p < fr)"

definition legal_step :: "cstate \<Rightarrow> cstate \<Rightarrow> bool" where
  "legal_step a b \<longleftrightarrow> (a, b) \<in> {(StateClosed, StateOpen), (StateOpen, StateHalfOpen),
     (StateHalfOpen, StateOpen), (StateHalfOpen, StateClosed), (StateOpen, StateClosed)}"

text \<open>
  \<open>follows u a evs b\<close>: the observer calls \<open>evs\<close>, all for machine \<open>u\<close>, lead a
  gauge that reads \<open>a\<close> to one that reads \<open>b\<close>, each step a legal one.
\<close>

fun follows :: "string \<Rightarrow> cstate \<Rightarrow> transition list \<Rightarrow> cstate \<Rightarrow> bool" where
  "follows u a [] b \<longleftrightarrow> a = b"
| "follows u a ((v, x, y) # evs) b \<longleftrightarrow> v = u \<and> x = a \<and> legal_step x y \<and> follows u y evs b"

named_theorems gov_defs \<open>definitions of the governor's operations\<close>

lemmas [gov_defs] = enter_def reclaim_def gov_allow_def gov_observe_def

lemma machine_ok_mono: "machine_ok fr m \<Longrightarrow> fr \<le> fr' \<Longrightarrow> machine_ok fr' m"
  by (auto simp: machine_ok_def split: option.splits)

lemma machine_ok_gptr: "machine_ok fr m \<Longrightarrow> probe m = Some p \<Longrightarrow> gptr p < fr"
  by (simp add: machine_ok_def)

lemma gov_allow_mid: "mid (fst (snd (gov_allow g t ptr m))) = mid m"
  by (auto simp: gov_defs Let_def split: cstate.splits option.splits)

lemma gov_observe_mid: "mid (fst (snd (gov_observe g t m))) = mid m"
  by (auto simp: gov_defs Let_def split: cstate.splits option.splits)

lemma gov_allow_ok:
  assumes "machine_ok fr m" and "gov_allow g t fr m = (r, m', ev)"
  shows "machine_ok (Suc fr) m'"
  using assms
  by (auto simp: gov_defs machine_ok_def Let_def split: cstate.splits option.splits if_splits)

lemma gov_observe_ok:
  assumes "machine_ok fr m" and "gov_observe g t m = (r, m', ev)"
  shows "machine_ok fr m'"
  using assms
  by (auto simp: gov_defs machine_ok_def Let_def split: cstate.splits option.splits if_splits)

lemma gov_allow_follows:
  "gov_allow g t ptr m = (r, m', ev) \<Longrightarrow> follows (mid m) (mname m) ev (mname m')"
  by (auto simp: gov_defs legal_step_def Let_def split: cstate.splits option.splits if_splits)

lemma gov_observe_follows:
  "gov_observe g t m = (r, m', ev) \<Longrightarrow> follows (mid m) (mname m) ev (mname m')"
  by (auto simp: gov_defs legal_step_def Let_def split: cstate.splits option.splits if_splits)

lemma gov_observe_result: "gov_observe g t m = (r, m', ev) \<Longrightarrow> r = mname m'"
  by (auto simp: gov_defs Let_def split: cstate.splits option.splits if_splits)

subsection \<open>Admission facts the registries share\<close>

lemma gov_allow_closed [simp]:
  "mname m = StateClosed \<Longrightarrow> gov_allow g t ptr m = (Some None, m, [])"
  by (simp add: gov_allow_def)

lemma gov_allow_open_early:
  "mname m = StateOpen \<Longrightarrow> time_sub t (openedAt m) < cooldown g \<Longrightarrow>
     gov_allow g t ptr m = (None, m, [])"
  by (simp add: gov_allow_def)

lemma gov_allow_open_cooled:
  "mname m = StateOpen \<Longrightarrow> cooldown g \<le> time_sub t (openedAt m) \<Longrightarrow>
     gov_allow g t ptr m =
       (Some (Some \<lparr>gptr = ptr, deadline = t + probeTimeout g\<rparr>),
        m\<lparr>mname := StateHalfOpen, probe := Some \<lparr>gptr = ptr, deadline = t + probeTimeout g\<rparr>\<rparr>,
        [(mid m, StateOpen, StateHalfOpen)])"
  by (simp add: gov_allow_def enter_def Let_def)

lemma gov_allow_probe_outstanding:
  "mname m = StateHalfOpen \<Longrightarrow> probe m = Some p \<Longrightarrow> t \<le> deadline p \<Longrightarrow>
     gov_allow g t ptr m = (None, m, [])"
  by (simp add: gov_allow_def)

lemma gov_allow_probe_expired:
  "mname m = StateHalfOpen \<Longrightarrow> probe m = Some p \<Longrightarrow> deadline p < t \<Longrightarrow>
     gov_allow g t ptr m =
       (None, m\<lparr>mname := StateOpen, openedAt := t, probe := None\<rparr>,
        [(mid m, StateHalfOpen, StateOpen)])"
  by (simp add: gov_allow_def reclaim_def enter_def)

lemma gov_allow_slot_free:
  "mname m = StateHalfOpen \<Longrightarrow> probe m = None \<Longrightarrow>
     gov_allow g t ptr m =
       (Some (Some \<lparr>gptr = ptr, deadline = t + probeTimeout g\<rparr>),
        m\<lparr>probe := Some \<lparr>gptr = ptr, deadline = t + probeTimeout g\<rparr>\<rparr>, [])"
  by (simp add: gov_allow_def Let_def)

lemmas gov_allow_cases =
  gov_allow_closed gov_allow_open_early gov_allow_open_cooled
  gov_allow_probe_outstanding gov_allow_probe_expired gov_allow_slot_free

text \<open>
  A read never allocates the probe slot, and what it answers is what an admission
  at the same instant decides: open means denied, and half-open with the slot free
  means the caller becomes the probe.
\<close>

lemma gov_observe_open_denies:
  assumes "gov_observe g t m = (StateOpen, m', ev)" and "0 < cooldown g"
  shows "gov_allow g t ptr m' = (None, m', [])"
  using assms
  by (auto simp: gov_defs Let_def not_le split: cstate.splits option.splits if_splits)

lemma gov_observe_no_alloc:
  assumes "gov_observe g t m = (r, m', ev)"
  shows "probe m' = probe m \<or> probe m' = None"
  using assms
  by (auto simp: gov_defs Let_def split: cstate.splits option.splits if_splits)

lemma gov_observe_halfopen_probe:
  assumes "gov_observe g t m = (StateHalfOpen, m', ev)" and "machine_ok fr m"
  shows "(mname m = StateHalfOpen \<and> m' = m) \<or> (mname m = StateOpen \<and> probe m' = None)"
  using assms
  by (auto simp: gov_defs machine_ok_def Let_def split: cstate.splits option.splits if_splits)

text \<open>
  The skeleton is abandoned-probe safe: a probe whose holder never reports costs
  the slot its deadline and one more cooldown, after which the next caller is
  admitted again.
\<close>

lemma gov_probe_never_leaks:
  assumes "mname m = StateHalfOpen" and "probe m = Some p" and "deadline p < t1"
    and "0 < cooldown g" "cooldown g \<le> MaxInt64" and "t1 + cooldown g \<le> t2"
    and "gov_allow g t1 ptr m = (r1, m1, ev1)"
  shows "r1 = None \<and> fst (gov_allow g t2 ptr2 m1) \<noteq> None"
proof -
  have m1: "r1 = None" "m1 = m\<lparr>mname := StateOpen, openedAt := t1, probe := None\<rparr>"
    using assms(7) gov_allow_probe_expired [OF assms(1-3), of g ptr] by auto
  have "cooldown g \<le> time_sub t2 (openedAt m1)"
    using m1 assms(4-6) by (simp add: time_sub_ge)
  then show ?thesis
    using m1 by (simp add: gov_allow_open_cooled)
qed

end
