(* ===== verification/Circuit_Port.thy ===== *)
theory Circuit_Port
  imports Circuit_Machine
begin

text \<open>
  The breaker port (\<^verbatim>\<open>internal/circuit/circuit.go\<close>, interfaces \<open>Breaker\<close> and
  \<open>Permission\<close>), the code that drives it through the interface only
  (\<^verbatim>\<open>prober.go\<close>) and the breaker-less implementation (\<^verbatim>\<open>nop.go\<close>).

  The interface is a locale.  Its laws are what the callers rely on: every
  operation keeps the implementation's invariant, a state read as open means a call
  at that instant is denied, a reset admits the next call, a second report on
  the same permission changes nothing, and reading one upstream's state leaves what
  is read of every other one as it was.
\<close>

locale breaker_port =
  fixes allow :: "'b \<Rightarrow> string \<Rightarrow> call_env \<Rightarrow> 'b \<times> 'p option"
    and state_of :: "'b \<Rightarrow> string \<Rightarrow> call_env \<Rightarrow> 'b \<times> cstate"
    and reset :: "'b \<Rightarrow> string \<Rightarrow> call_env \<Rightarrow> 'b"
    and report :: "'b \<Rightarrow> 'p \<Rightarrow> outcome \<Rightarrow> call_env \<Rightarrow> 'b \<times> 'p"
    and invar :: "'b \<Rightarrow> bool"
  assumes invar_allow: "invar b \<Longrightarrow> invar (fst (allow b u e))"
    and invar_state_of: "invar b \<Longrightarrow> invar (fst (state_of b u e))"
    and invar_reset: "invar b \<Longrightarrow> invar (reset b u e)"
    and invar_report: "invar b \<Longrightarrow> invar (fst (report b p oc e))"
    and open_denies: "invar b \<Longrightarrow> state_of b u e = (b', StateOpen) \<Longrightarrow> snd (allow b' u e) = None"
    and reset_admits: "invar b \<Longrightarrow> snd (allow (reset b u e) u e') \<noteq> None"
    and reset_closed: "invar b \<Longrightarrow> snd (state_of (reset b u e) u e') = StateClosed"
    and report_once: "report b p oc e = (b', p') \<Longrightarrow> report b' p' oc' e' = (b', p')"
    and state_of_frame: "u \<noteq> v \<Longrightarrow> snd (state_of (fst (state_of b v e)) u e') = snd (state_of b u e')"

subsection \<open>The active prober\<close>

text \<open>
  A probe run answers with no error, with an error that is (or wraps) the
  cancellation of its context, or with any other error.
\<close>

datatype probe_error = ProbeCanceled | ProbeFailed

definition probe_outcome :: "bool \<Rightarrow> probe_error option \<Rightarrow> outcome" where
  "probe_outcome ctxDone perr =
     (case perr of
        None \<Rightarrow> OutcomeSuccess
      | Some err \<Rightarrow> if ctxDone \<and> err = ProbeCanceled then OutcomeClientFault else OutcomeServerFault)"

text \<open>
  \<open>ActiveProbe\<close> over any implementation of the port: \<open>perr\<close> is what the probe
  function returned, \<open>ctxDone\<close> whether the caller's context had ended by then, and
  \<open>e2\<close> the environment of the report that follows the probe.
\<close>

definition ActiveProbe ::
  "('b \<Rightarrow> string \<Rightarrow> call_env \<Rightarrow> 'b \<times> 'p option) \<Rightarrow> ('b \<Rightarrow> 'p \<Rightarrow> outcome \<Rightarrow> call_env \<Rightarrow> 'b \<times> 'p)
    \<Rightarrow> 'b \<Rightarrow> string \<Rightarrow> call_env \<Rightarrow> bool \<Rightarrow> probe_error option \<Rightarrow> call_env
    \<Rightarrow> 'b \<times> bool \<times> probe_error option" where
  "ActiveProbe allow report b u e ctxDone perr e2 =
     (case allow b u e of
        (b1, None) \<Rightarrow> (b1, False, None)
      | (b1, Some p) \<Rightarrow> (fst (report b1 p (probe_outcome ctxDone perr) e2), True, perr))"

context breaker_port
begin

lemma active_probe_invar:
  "invar b \<Longrightarrow> invar (fst (ActiveProbe allow report b u e cd perr e2))"
  using invar_allow [of b u e]
  by (auto simp: ActiveProbe_def invar_report split: prod.splits option.splits)

lemma active_probe_denied:
  "snd (allow b u e) = None \<Longrightarrow>
     ActiveProbe allow report b u e cd perr e2 = (fst (allow b u e), False, None)"
  by (auto simp: ActiveProbe_def split: prod.splits)

lemma active_probe_skips_open:
  "invar b \<Longrightarrow> state_of b u e = (b', StateOpen) \<Longrightarrow>
     fst (snd (ActiveProbe allow report b' u e cd perr e2)) = False"
  using open_denies [of b u e b'] by (simp add: active_probe_denied)

end

subsection \<open>The breaker-less implementation\<close>

definition nop_Allow :: "unit \<Rightarrow> string \<Rightarrow> call_env \<Rightarrow> unit \<times> unit option" where
  "nop_Allow b u e = ((), Some ())"

definition nop_StateOf :: "unit \<Rightarrow> string \<Rightarrow> call_env \<Rightarrow> unit \<times> cstate" where
  "nop_StateOf b u e = ((), StateClosed)"

definition nop_Reset :: "unit \<Rightarrow> string \<Rightarrow> call_env \<Rightarrow> unit" where
  "nop_Reset b u e = ()"

definition nop_Report :: "unit \<Rightarrow> unit \<Rightarrow> outcome \<Rightarrow> call_env \<Rightarrow> unit \<times> unit" where
  "nop_Report b p oc e = ((), ())"

interpretation nop: breaker_port nop_Allow nop_StateOf nop_Reset nop_Report "\<lambda>_. True"
  by unfold_locales (auto simp: nop_Allow_def nop_StateOf_def nop_Reset_def nop_Report_def)

end
