(* ===== verification/Circuit_Window.thy ===== *)
theory Circuit_Window
  imports Circuit_Port Float64
begin

text \<open>
  The rolling window both sampling strategies keep: a ring of forty buckets of 250 ms,
  a cursor and the start of the bucket it points at.  \<open>slow.go\<close> (\<open>record\<close>,
  \<open>share\<close>) and \<open>ratio.go\<close> (\<open>roll\<close>, \<open>history\<close>) write out the same loops over
  their own bucket types; here they are one definition, polymorphic in the bucket.
\<close>

definition window_size :: nat where "window_size = 40"
definition bucket_span :: duration where "bucket_span = 250 * Millisecond"

record 'b window =
  wbuckets :: "'b list"
  woffset :: nat
  wlast :: instant

definition empty_window :: "'b \<Rightarrow> instant \<Rightarrow> 'b window" where
  "empty_window z t = \<lparr>wbuckets = replicate window_size z, woffset = 0, wlast = t\<rparr>"

text \<open>The loop \<open>for i := 1; i <= span; i++\<close> that empties the buckets the cursor passes.\<close>

fun clear_from :: "'b \<Rightarrow> 'b list \<Rightarrow> nat \<Rightarrow> nat \<Rightarrow> nat \<Rightarrow> 'b list" where
  "clear_from z bs off i 0 = bs"
| "clear_from z bs off i (Suc n) =
     clear_from z (bs[(off + i) mod window_size := z]) off (Suc i) n"

definition roll_window :: "'b \<Rightarrow> 'b window \<Rightarrow> instant \<Rightarrow> 'b window" where
  "roll_window z w t =
     (let elapsed = time_sub t (wlast w)
      in if elapsed \<le> 0 then w
         else let span0 = elapsed sdiv bucket_span;
                  span = (if span0 > int window_size then window_size else nat span0)
              in w\<lparr>wbuckets := clear_from z (wbuckets w) (woffset w) 1 span,
                   woffset := (woffset w + span) mod window_size,
                   wlast := wlast w + int span * bucket_span\<rparr>)"

text \<open>The buckets a read visits, oldest first.\<close>

definition live_buckets :: "'b window \<Rightarrow> instant \<Rightarrow> 'b list" where
  "live_buckets w t =
     (let span0 = time_sub t (wlast w) sdiv bucket_span;
          span = (if span0 < 0 then 0 else span0);
          diff = int window_size - span
      in if diff \<le> 0 then []
         else let start = (woffset w + nat span + 1) mod window_size
              in map (\<lambda>i. wbuckets w ! ((start + i) mod window_size)) [0 ..< nat diff])"

definition update_current :: "('b \<Rightarrow> 'b) \<Rightarrow> 'b window \<Rightarrow> 'b window" where
  "update_current f w =
     w\<lparr>wbuckets := (wbuckets w)[woffset w := f (wbuckets w ! woffset w)]\<rparr>"

definition add_event :: "'b \<Rightarrow> ('b \<Rightarrow> 'b) \<Rightarrow> 'b window \<Rightarrow> instant \<Rightarrow> 'b window" where
  "add_event z f w t = update_current f (roll_window z w t)"

subsection \<open>What the ring represents\<close>

text \<open>
  Buckets are numbered from the instant the window started.  \<open>ring_rep z w K agg\<close>: the
  cursor stands at bucket \<open>K\<close> and the ring holds the contents \<open>agg\<close> gives to the last
  forty numbers; no number past the cursor has any.
\<close>

definition slot_of :: "'b window \<Rightarrow> int \<Rightarrow> int \<Rightarrow> nat" where
  "slot_of w K i = nat ((int (woffset w) + i - K) mod int window_size)"

definition ring_rep :: "'b \<Rightarrow> 'b window \<Rightarrow> int \<Rightarrow> (int \<Rightarrow> 'b) \<Rightarrow> bool" where
  "ring_rep z w K agg \<longleftrightarrow>
     length (wbuckets w) = window_size \<and> woffset w < window_size \<and> (\<forall>i > K. agg i = z) \<and>
     (\<forall>i. K - int window_size < i \<and> i \<le> K \<longrightarrow> wbuckets w ! slot_of w K i = agg i)"

lemma window_size_pos [simp]: "0 < window_size"
  by (simp add: window_size_def)

lemma bucket_span_pos [simp]: "0 < bucket_span"
  by (simp add: bucket_span_def)

lemma slot_of_less: "slot_of w K i < window_size"
  by (simp add: slot_of_def nat_less_iff)

lemma empty_window_rep: "ring_rep z (empty_window z t) 0 (\<lambda>_. z)"
  using slot_of_less [of "empty_window z t" 0] by (simp add: ring_rep_def empty_window_def)

lemma slot_of_current: "woffset w < window_size \<Longrightarrow> slot_of w K K = woffset w"
  by (simp add: slot_of_def)

lemma slot_of_inj:
  assumes "slot_of w K i = slot_of w K j" and "\<bar>i - j\<bar> < int window_size"
  shows "i = j"
proof -
  have "(int (woffset w) + i - K) mod int window_size = (int (woffset w) + j - K) mod int window_size"
    using assms(1) by (simp add: slot_of_def nat_eq_iff2)
  then have "int window_size dvd (i - j)" by (simp add: mod_eq_dvd_iff)
  then show ?thesis using assms(2) by (metis abs_ge_zero dvd_abs_iff eq_iff_diff_eq_0 zdvd_not_zless
        abs_eq_0_iff order_le_less)
qed

lemma slot_of_advance:
  assumes "woffset w' = (woffset w + n) mod window_size"
  shows "slot_of w' (K + int n) i = slot_of w K i"
proof -
  have "(int ((woffset w + n) mod window_size) + i - (K + int n)) mod int window_size
      = (int (woffset w + n) + i - (K + int n)) mod int window_size"
    unfolding zmod_int by (simp only: diff_conv_add_uminus add.assoc mod_add_left_eq)
  also have "int (woffset w + n) + i - (K + int n) = int (woffset w) + i - K" by simp
  finally show ?thesis by (simp add: slot_of_def assms)
qed

text \<open>One turn of the loop: the next bucket is emptied and becomes the newest.\<close>

lemma ring_rep_advance:
  assumes "ring_rep z w K agg" and "wbuckets w' = (wbuckets w)[(woffset w + 1) mod window_size := z]"
    and "woffset w' = (woffset w + 1) mod window_size"
  shows "ring_rep z w' (K + 1) agg"
proof -
  have o: "woffset w < window_size" "length (wbuckets w) = window_size"
    using assms(1) by (simp_all add: ring_rep_def)
  have slot: "slot_of w' (K + 1) i = slot_of w K i" for i
    using slot_of_advance [of w' w 1 K i] assms(3) by simp
  have cur: "slot_of w' (K + 1) (K + 1) = (woffset w + 1) mod window_size"
    using slot_of_current [of w' "K + 1"] assms(3) by simp
  have "wbuckets w' ! slot_of w' (K + 1) i = agg i" if "K + 1 - int window_size < i" "i \<le> K + 1" for i
  proof (cases "i = K + 1")
    case True
    have "agg (K + 1) = z" using assms(1) by (simp add: ring_rep_def)
    then show ?thesis unfolding True cur using o assms(2) by simp
  next
    case False
    then have "slot_of w' (K + 1) i \<noteq> slot_of w' (K + 1) (K + 1)"
      using slot_of_inj [of w' "K + 1" i "K + 1"] that by auto
    moreover have "wbuckets w ! slot_of w K i = agg i"
      using assms(1) False that by (simp add: ring_rep_def)
    ultimately show ?thesis unfolding cur using assms(2) slot by simp
  qed
  then show ?thesis using assms o by (simp add: ring_rep_def)
qed

lemma clear_from_shift:
  "clear_from z bs off (i + j) n = clear_from z bs ((off + i) mod window_size) j n"
proof (induction n arbitrary: bs j)
  case (Suc n)
  have "(off + (i + j)) mod window_size = ((off + i) mod window_size + j) mod window_size"
    by (simp add: mod_simps add.assoc)
  then show ?case using Suc [of _ "Suc j"] by simp
qed simp

lemma clear_from_rep:
  assumes "ring_rep z w K agg"
  shows "ring_rep z (w\<lparr>wbuckets := clear_from z (wbuckets w) (woffset w) 1 n,
      woffset := (woffset w + n) mod window_size, wlast := t\<rparr>) (K + int n) agg"
  using assms
proof (induction n arbitrary: w K)
  case 0
  then show ?case by (simp add: ring_rep_def slot_of_def)
next
  case (Suc n)
  define w1 where "w1 = w\<lparr>wbuckets := (wbuckets w)[(woffset w + 1) mod window_size := z],
    woffset := (woffset w + 1) mod window_size\<rparr>"
  have "ring_rep z w1 (K + 1) agg"
    by (rule ring_rep_advance [OF Suc.prems]) (simp_all add: w1_def)
  from Suc.IH [OF this]
  have "ring_rep z (w1\<lparr>wbuckets := clear_from z (wbuckets w1) (woffset w1) 1 n,
      woffset := (woffset w1 + n) mod window_size, wlast := t\<rparr>) (K + 1 + int n) agg" .
  moreover have "clear_from z (wbuckets w1) (woffset w1) 1 n =
      clear_from z (wbuckets w) (woffset w) 1 (Suc n)"
    using clear_from_shift [of z "wbuckets w1" "woffset w" 1 1 n] by (simp add: w1_def)
  moreover have "(woffset w1 + n) mod window_size = (woffset w + Suc n) mod window_size"
    by (simp add: w1_def mod_simps)
  ultimately show ?case by (simp add: w1_def add.assoc)
qed

text \<open>The number of the bucket an instant falls in, for a window started at \<open>w0\<close>.\<close>

definition bucket_no :: "instant \<Rightarrow> instant \<Rightarrow> int" where
  "bucket_no w0 t = (t - w0) div bucket_span"

definition aligned :: "instant \<Rightarrow> 'b window \<Rightarrow> int \<Rightarrow> bool" where
  "aligned w0 w K \<longleftrightarrow> wlast w = w0 + K * bucket_span"

lemma bucket_no_diff:
  assumes "aligned w0 w K"
  shows "(t - wlast w) div bucket_span = bucket_no w0 t - K"
proof -
  have "t - wlast w = (t - w0) - K * bucket_span" using assms by (simp add: aligned_def)
  then show ?thesis by (simp add: bucket_no_def) (simp add: bucket_span_def)
qed

lemma span_count:
  assumes "aligned w0 w K" and "wlast w \<le> t"
  shows "(time_sub t (wlast w) sdiv bucket_span = bucket_no w0 t - K \<or>
    int window_size < time_sub t (wlast w) sdiv bucket_span \<and> int window_size < bucket_no w0 t - K) \<and>
    0 \<le> time_sub t (wlast w) sdiv bucket_span"
proof -
  let ?d = "t - wlast w"
  have d: "0 \<le> ?d" using assms(2) by simp
  have pos: "0 \<le> time_sub t (wlast w)" by (rule time_sub_nonneg [OF assms(2)])
  have s: "time_sub t (wlast w) sdiv bucket_span = time_sub t (wlast w) div bucket_span"
    using pos by (simp add: sdiv_nonneg_pos)
  show ?thesis
  proof (cases "?d \<le> MaxInt64")
    case True
    then have "time_sub t (wlast w) = ?d" using d by (simp add: time_sub_exact in64_nonneg)
    moreover have "0 \<le> ?d div bucket_span" using d by (simp add: pos_imp_zdiv_nonneg_iff)
    ultimately show ?thesis using s bucket_no_diff [OF assms(1), of t] by simp
  next
    case False
    then have e: "time_sub t (wlast w) = MaxInt64"
      by (simp add: time_sub_def sat64_def MaxInt64_def MinInt64_def)
    have "MaxInt64 div bucket_span \<le> ?d div bucket_span"
      using False by (intro zdiv_mono1) simp_all
    moreover have "int window_size < MaxInt64 div bucket_span"
      by (simp add: window_size_def MaxInt64_def bucket_span_def)
    ultimately show ?thesis
      using s e bucket_no_diff [OF assms(1), of t] by simp
  qed
qed

text \<open>
  Rolling to an instant at most forty buckets ahead lands on that instant's bucket.
\<close>

lemma roll_window_rep:
  assumes "ring_rep z w K agg" and "aligned w0 w K" and "wlast w \<le> t"
    and "bucket_no w0 t - K \<le> int window_size"
  shows "ring_rep z (roll_window z w t) (bucket_no w0 t) agg \<and> aligned w0 (roll_window z w t) (bucket_no w0 t)"
proof -
  define k where "k = bucket_no w0 t - K"
  have k: "time_sub t (wlast w) sdiv bucket_span = k" "0 \<le> k" "k \<le> int window_size"
    using span_count [OF assms(2,3)] assms(4) by (auto simp: k_def)
  have K: "K + int (nat k) = bucket_no w0 t" using k by (simp add: k_def)
  show ?thesis
  proof (cases "time_sub t (wlast w) \<le> 0")
    case True
    then have "time_sub t (wlast w) = 0" using time_sub_nonneg [OF assms(3)] by simp
    then have "k = 0" using k(1) by simp
    then have "bucket_no w0 t = K" by (simp add: k_def)
    then show ?thesis using True assms(1,2) by (simp add: roll_window_def)
  next
    case False
    then have r: "roll_window z w t = w\<lparr>wbuckets := clear_from z (wbuckets w) (woffset w) 1 (nat k),
        woffset := (woffset w + nat k) mod window_size, wlast := wlast w + int (nat k) * bucket_span\<rparr>"
      using k by (auto simp: roll_window_def Let_def)
    have "aligned w0 (roll_window z w t) (bucket_no w0 t)"
      using assms(2) K k by (simp add: aligned_def r k_def left_diff_distrib)
    moreover have "ring_rep z (roll_window z w t) (bucket_no w0 t) agg"
      unfolding r K [symmetric] by (rule clear_from_rep [OF assms(1)])
    ultimately show ?thesis by blast
  qed
qed

lemma update_current_rep:
  assumes "ring_rep z w K agg"
  shows "ring_rep z (update_current f w) K (agg(K := f (agg K)))"
proof -
  have o: "woffset w < window_size" "length (wbuckets w) = window_size"
    using assms by (simp_all add: ring_rep_def)
  have cur: "wbuckets w ! woffset w = agg K"
  proof -
    have "wbuckets w ! slot_of w K K = agg K" using assms by (simp add: ring_rep_def)
    then show ?thesis by (simp add: slot_of_current [OF o(1)])
  qed
  have slot: "slot_of (update_current f w) K i = slot_of w K i" for i
    by (simp add: slot_of_def update_current_def)
  have "wbuckets (update_current f w) ! slot_of w K i = (agg(K := f (agg K))) i"
    if "K - int window_size < i" "i \<le> K" for i
  proof (cases "i = K")
    case True
    then show ?thesis using o cur slot_of_current [OF o(1), of K] by (simp add: update_current_def)
  next
    case False
    then have "slot_of w K i \<noteq> woffset w"
      using slot_of_inj [of w K i K] slot_of_current [OF o(1), of K] that by auto
    then show ?thesis using assms that False by (simp add: update_current_def ring_rep_def)
  qed
  then show ?thesis using assms o slot by (simp add: ring_rep_def) (simp add: update_current_def)
qed

text \<open>A read visits exactly the buckets of the last ten seconds, oldest first.\<close>

lemma live_buckets_rep:
  assumes "ring_rep z w K agg" and "aligned w0 w K" and "wlast w \<le> t"
  shows "live_buckets w t = map agg [bucket_no w0 t - int window_size + 1 .. K]"
proof -
  define s where "s = time_sub t (wlast w) sdiv bucket_span"
  have s: "0 \<le> s" "s = bucket_no w0 t - K \<or> int window_size < s \<and> int window_size < bucket_no w0 t - K"
    using span_count [OF assms(2,3)] by (auto simp: s_def)
  show ?thesis
  proof (cases "int window_size \<le> s")
    case True
    then have "live_buckets w t = []" using s by (simp add: live_buckets_def Let_def flip: s_def)
    moreover have "[bucket_no w0 t - int window_size + 1 .. K] = []" using True s by auto
    ultimately show ?thesis by simp
  next
    case False
    then have sk: "s = bucket_no w0 t - K" using s by auto
    let ?start = "(woffset w + nat s + 1) mod window_size"
    have idx: "(?start + i) mod window_size = slot_of w K (K + s + 1 + int i - int window_size)" for i
    proof -
      have "int ((?start + i) mod window_size) = (int (woffset w) + s + 1 + int i) mod int window_size"
        using s(1) by (simp add: zmod_int mod_simps ac_simps)
      also have "\<dots> = (int (woffset w) + (K + s + 1 + int i - int window_size) - K) mod int window_size"
        by (simp add: algebra_simps flip: minus_mod_self2 [of "int (woffset w) + s + 1 + int i"])
      finally show ?thesis by (simp add: slot_of_def nat_eq_iff2)
    qed
    have "live_buckets w t = map (\<lambda>i. wbuckets w ! ((?start + i) mod window_size)) [0 ..< nat (int window_size - s)]"
      using s(1) False by (simp add: live_buckets_def Let_def flip: s_def)
    also have "\<dots> = map (\<lambda>i. agg (K + s + 1 + int i - int window_size)) [0 ..< nat (int window_size - s)]"
    proof (rule map_cong [OF refl])
      fix i assume "i \<in> set [0 ..< nat (int window_size - s)]"
      then have "K - int window_size < K + s + 1 + int i - int window_size"
        "K + s + 1 + int i - int window_size \<le> K"
        using s(1) by auto
      then show "wbuckets w ! ((?start + i) mod window_size) = agg (K + s + 1 + int i - int window_size)"
        unfolding idx using assms(1) by (simp add: ring_rep_def)
    qed
    also have "\<dots> = map agg (map (\<lambda>i. K + s + 1 + int i - int window_size) [0 ..< nat (int window_size - s)])"
      by simp
    also have "map (\<lambda>i. K + s + 1 + int i - int window_size) [0 ..< nat (int window_size - s)]
        = [bucket_no w0 t - int window_size + 1 .. K]"
      by (rule nth_equalityI) (use sk in \<open>auto simp: nth_upto\<close>)
    finally show ?thesis .
  qed
qed

subsection \<open>The window as a log of recent events\<close>

fun run_log :: "'b \<Rightarrow> ('e \<Rightarrow> 'b \<Rightarrow> 'b) \<Rightarrow> 'b window \<Rightarrow> (instant \<times> 'e) list \<Rightarrow> 'b window" where
  "run_log z stp w [] = w"
| "run_log z stp w ((t, e) # es) = run_log z stp (add_event z (stp e) w t) es"

text \<open>
  The log is paced when time does not run backwards and no two events (nor the start
  and the first) lie more than forty buckets apart.
\<close>

fun paced :: "instant \<Rightarrow> instant \<Rightarrow> (instant \<times> 'e) list \<Rightarrow> bool" where
  "paced w0 p [] \<longleftrightarrow> True"
| "paced w0 p ((t, e) # es) \<longleftrightarrow>
     p \<le> t \<and> bucket_no w0 t - bucket_no w0 p \<le> int window_size \<and> paced w0 t es"

fun last_time :: "instant \<Rightarrow> (instant \<times> 'e) list \<Rightarrow> instant" where
  "last_time p [] = p"
| "last_time p ((t, e) # es) = last_time t es"

definition agg_of :: "'b \<Rightarrow> ('e \<Rightarrow> 'b \<Rightarrow> 'b) \<Rightarrow> instant \<Rightarrow> (int \<Rightarrow> 'b) \<Rightarrow> (instant \<times> 'e) list \<Rightarrow> int \<Rightarrow> 'b" where
  "agg_of z stp w0 agg es i =
     fold (\<lambda>(t, e) b. stp e b) (filter (\<lambda>(t, e). bucket_no w0 t = i) es) (agg i)"

lemma bucket_no_start: "w0 + bucket_no w0 p * bucket_span \<le> p"
proof -
  have "(p - w0) div bucket_span * bucket_span \<le> p - w0"
    using div_mult_mod_eq [of "p - w0" bucket_span] pos_mod_sign [of bucket_span "p - w0"]
      bucket_span_pos by linarith
  then show ?thesis by (simp add: bucket_no_def)
qed

lemma run_log_rep:
  assumes "ring_rep z w (bucket_no w0 p) agg" and "aligned w0 w (bucket_no w0 p)" and "paced w0 p es"
  shows "ring_rep z (run_log z stp w es) (bucket_no w0 (last_time p es)) (agg_of z stp w0 agg es) \<and>
    aligned w0 (run_log z stp w es) (bucket_no w0 (last_time p es))"
  using assms
proof (induction es arbitrary: w p agg)
  case Nil
  then show ?case by (simp add: agg_of_def [abs_def])
next
  case (Cons te es)
  obtain t e where te: "te = (t, e)" by fastforce
  let ?k = "bucket_no w0 t"
  have p: "p \<le> t" "?k - bucket_no w0 p \<le> int window_size" "paced w0 t es"
    using Cons.prems(3) te by simp_all
  have "wlast w \<le> t" using Cons.prems(2) bucket_no_start [of w0 p] p(1) by (simp add: aligned_def)
  note roll = roll_window_rep [OF Cons.prems(1,2) this p(2)]
  have "ring_rep z (add_event z (stp e) w t) ?k (agg(?k := stp e (agg ?k)))"
    unfolding add_event_def by (rule update_current_rep [OF conjunct1 [OF roll]])
  moreover have "aligned w0 (add_event z (stp e) w t) ?k"
    using roll by (simp add: add_event_def aligned_def update_current_def)
  moreover have "agg_of z stp w0 (agg(?k := stp e (agg ?k))) es = agg_of z stp w0 agg (te # es)"
    by (rule ext) (simp add: agg_of_def te)
  ultimately show ?case using Cons.IH [OF _ _ p(3)] te by fastforce
qed

lemma last_time_bound:
  "paced w0 p es \<Longrightarrow> p \<le> last_time p es \<and> (\<forall>(t, e) \<in> set es. t \<le> last_time p es)"
proof (induction es arbitrary: p)
  case (Cons te es)
  obtain t e where te: "te = (t, e)" by fastforce
  have "p \<le> t" "paced w0 t es" using Cons.prems te by simp_all
  then show ?case using Cons.IH [of t] te by auto
qed simp

lemma bucket_no_mono: "s \<le> t \<Longrightarrow> bucket_no w0 s \<le> bucket_no w0 t"
  by (simp add: bucket_no_def zdiv_mono1)

text \<open>An additive reading of the live buckets counts the logged events of the window.\<close>

definition recent :: "instant \<Rightarrow> instant \<Rightarrow> (instant \<times> 'e) list \<Rightarrow> (instant \<times> 'e) list" where
  "recent w0 t es = filter (\<lambda>(s, e). bucket_no w0 t - int window_size < bucket_no w0 s) es"

lemma live_sum:
  fixes f :: "'b \<Rightarrow> int"
  assumes "\<And>e b. f (stp e b) = f b + c e" and "f z = 0" and "paced w0 w0 es" and "last_time w0 es \<le> t"
    and "w = run_log z stp (empty_window z w0) es"
  shows "sum_list (map f (live_buckets w t)) = sum_list (map (\<lambda>(s, e). c e) (recent w0 t es))"
proof -
  let ?K = "bucket_no w0 (last_time w0 es)" and ?a = "bucket_no w0 t - int window_size + 1"
  have z: "bucket_no w0 w0 = 0" by (simp add: bucket_no_def)
  have start: "ring_rep z (empty_window z w0) (bucket_no w0 w0) (\<lambda>_. z)"
    "aligned w0 (empty_window z w0) (bucket_no w0 w0)"
    using empty_window_rep [of z w0] z by (simp_all add: aligned_def empty_window_def)
  have rep: "ring_rep z w ?K (agg_of z stp w0 (\<lambda>_. z) es)" "aligned w0 w ?K"
    using run_log_rep [OF start assms(3), of stp] assms(5) by simp_all
  have "wlast w \<le> t" using rep(2) bucket_no_start [of w0 "last_time w0 es"] assms(4)
    by (simp add: aligned_def)
  note live = live_buckets_rep [OF rep this]
  have add: "f (fold (\<lambda>(t, e) b. stp e b) xs b) = f b + sum_list (map (\<lambda>(s, e). c e) xs)" for xs b
    by (induction xs arbitrary: b) (auto simp: assms(1))
  have val: "f (agg_of z stp w0 (\<lambda>_. z) es i) =
      sum_list (map (\<lambda>(s, e). c e) (filter (\<lambda>(t, e). bucket_no w0 t = i) es))" for i
    by (simp add: agg_of_def add assms(2))
  have upper: "bucket_no w0 s \<le> ?K" if "(s, e) \<in> set es" for s e
    using last_time_bound [OF assms(3)] that bucket_no_mono by fastforce
  have "(\<Sum>i \<in> {?a..?K}. sum_list (map (\<lambda>(s, e). c e) (filter (\<lambda>(t, e). bucket_no w0 t = i) xs))) =
      sum_list (map (\<lambda>(s, e). c e) (recent w0 t xs))" if "set xs \<subseteq> set es" for xs
    using that
  proof (induction xs)
    case Nil
    then show ?case by (simp add: recent_def)
  next
    case (Cons x xs)
    obtain s e where x: "x = (s, e)" by fastforce
    have "(\<Sum>i \<in> {?a..?K}. (if bucket_no w0 s = i then c e else 0)) =
        (if bucket_no w0 t - int window_size < bucket_no w0 s then c e else 0)"
      using upper [of s e] Cons.prems x by auto
    moreover have "(\<Sum>i \<in> {?a..?K}. sum_list (map (\<lambda>(s, e). c e)
          (filter (\<lambda>(t, e). bucket_no w0 t = i) (x # xs)))) =
        (\<Sum>i \<in> {?a..?K}. (if bucket_no w0 s = i then c e else 0)) +
        (\<Sum>i \<in> {?a..?K}. sum_list (map (\<lambda>(s, e). c e) (filter (\<lambda>(t, e). bucket_no w0 t = i) xs)))"
      unfolding sum.distrib [symmetric] by (intro sum.cong) (simp_all add: x)
    ultimately show ?case using Cons by (simp add: recent_def x)
  qed
  then have "(\<Sum>i \<in> {?a..?K}. f (agg_of z stp w0 (\<lambda>_. z) es i)) =
      sum_list (map (\<lambda>(s, e). c e) (recent w0 t es))"
    unfolding val by blast
  moreover have "sum_list (map f (live_buckets w t)) =
      (\<Sum>i \<in> {?a..?K}. f (agg_of z stp w0 (\<lambda>_. z) es i))"
    unfolding live
    by (simp add: o_def sum.distinct_set_conv_list [symmetric])
  ultimately show ?thesis by simp
qed

end
