(* ===== verification/Circuit_Breaker.thy ===== *)
theory Circuit_Breaker
  imports Circuit_Port "HOL-Library.Sublist"
begin

text \<open>
  The consecutive-failure breaker, \<^verbatim>\<open>internal/circuit/breaker.go\<close>: the registry of
  per-upstream machines, the three port operations and the report rule.  A permission
  names its machine by the upstream id (the map never drops an entry, so the pointer
  the source keeps and the map entry are the same object) and carries the grant it
  owns and its own exactly-once flag.
\<close>

record config =
  FailThreshold :: int
  Cooldown :: duration
  ProbeTimeout :: duration
  SlowRatio :: rat

definition defaultFailThreshold :: int where "defaultFailThreshold = 5"
definition defaultCooldown :: duration where "defaultCooldown = 30 * Second"
definition defaultProbeTimeout :: duration where "defaultProbeTimeout = 5 * Second"

record state = machine +
  failures :: int

record registry =
  gov :: governor
  failThreshold :: int
  byUpstream :: "string \<rightharpoonup> state"
  heap :: nat
  observed :: "transition list"

record granted =
  gup :: string
  ggrant :: "probe_grant option"
  reported :: bool

definition NewRegistry :: "config \<Rightarrow> registry" where
  "NewRegistry cfg =
     \<lparr>gov = \<lparr>cooldown = (if Cooldown cfg \<le> 0 then defaultCooldown else Cooldown cfg),
             probeTimeout = (if ProbeTimeout cfg \<le> 0 then defaultProbeTimeout else ProbeTimeout cfg)\<rparr>,
      failThreshold = (if FailThreshold cfg \<le> 0 then defaultFailThreshold else FailThreshold cfg),
      byUpstream = Map.empty, heap = 0, observed = []\<rparr>"

definition stateOf :: "registry \<Rightarrow> string \<Rightarrow> state" where
  "stateOf b u =
     (case byUpstream b u of
        Some s \<Rightarrow> s
      | None \<Rightarrow> \<lparr>mid = u, mname = StateClosed, openedAt = 0, probe = None, failures = 0\<rparr>)"

text \<open>Write-back of the machine the source mutates through its pointer.\<close>

definition put_state :: "registry \<Rightarrow> string \<Rightarrow> state \<Rightarrow> transition list \<Rightarrow> registry" where
  "put_state b u s ev =
     b\<lparr>byUpstream := (byUpstream b)(u \<mapsto> s), observed := observed b @ ev\<rparr>"

definition Allow :: "registry \<Rightarrow> string \<Rightarrow> call_env \<Rightarrow> registry \<times> granted option" where
  "Allow b u e =
     (let (r, s, ev) = gov_allow (gov b) (now e) (heap b) (stateOf b u)
      in (put_state (b\<lparr>heap := Suc (heap b)\<rparr>) u s ev,
          map_option (\<lambda>g. \<lparr>gup = u, ggrant = g, reported = False\<rparr>) r))"

definition StateOf :: "registry \<Rightarrow> string \<Rightarrow> call_env \<Rightarrow> registry \<times> cstate" where
  "StateOf b u e =
     (let (r, s, ev) = gov_observe (gov b) (now e) (stateOf b u)
      in (put_state b u s ev, r))"

definition Reset :: "registry \<Rightarrow> string \<Rightarrow> call_env \<Rightarrow> registry" where
  "Reset b u e =
     (let s = (stateOf b u)\<lparr>failures := 0, probe := None\<rparr>;
          (s1, ev) = enter (stamp e) s StateClosed id
      in put_state b u s1 ev)"

text \<open>Pointer equality of the outstanding probe and the grant a permission owns.\<close>

definition owns_probe :: "'a machine_scheme \<Rightarrow> probe_grant option \<Rightarrow> bool" where
  "owns_probe m g =
     (case (probe m, g) of (Some p, Some q) \<Rightarrow> gptr p = gptr q | _ \<Rightarrow> False)"

definition report_state ::
  "int \<Rightarrow> state \<Rightarrow> probe_grant option \<Rightarrow> outcome \<Rightarrow> call_env \<Rightarrow> state \<times> transition list" where
  "report_state thr s g oc e =
     (case mname s of
        StateClosed \<Rightarrow>
          (case oc of
             OutcomeServerFault \<Rightarrow>
               let s1 = s\<lparr>failures := failures s + 1\<rparr>
               in if failures s1 \<ge> thr then enter (stamp e) s1 StateOpen id else (s1, [])
           | OutcomeGatewayTerminated \<Rightarrow> (s, [])
           | _ \<Rightarrow> (s\<lparr>failures := 0\<rparr>, []))
      | StateHalfOpen \<Rightarrow>
          (case probe s of
             None \<Rightarrow> (s, [])
           | Some p \<Rightarrow>
               if \<not> owns_probe s g then (s, [])
               else if oc = OutcomeGatewayTerminated then reclaim s (now e)
               else if now e > deadline p then reclaim s (now e)
               else let s1 = s\<lparr>probe := None\<rparr>
                    in if oc = OutcomeServerFault then enter (stamp e) s1 StateOpen id
                       else enter (stamp e) s1 StateClosed (\<lambda>m. m\<lparr>failures := 0\<rparr>))
      | StateOpen \<Rightarrow> (s, []))"

definition Report :: "registry \<Rightarrow> granted \<Rightarrow> outcome \<Rightarrow> call_env \<Rightarrow> registry \<times> granted" where
  "Report b p oc e =
     (if reported p then (b, p)
      else let (s, ev) = report_state (failThreshold b) (stateOf b (gup p)) (ggrant p) oc e
           in (put_state b (gup p) s ev, p\<lparr>reported := True\<rparr>))"

subsection \<open>The invariant\<close>

definition state_ok :: "int \<Rightarrow> nat \<Rightarrow> string \<Rightarrow> state \<Rightarrow> bool" where
  "state_ok thr fr u s \<longleftrightarrow>
     machine_ok fr s \<and> mid s = u \<and> 0 \<le> failures s \<and>
     (mname s = StateClosed \<longrightarrow> failures s < thr)"

definition registry_ok :: "registry \<Rightarrow> bool" where
  "registry_ok b \<longleftrightarrow>
     0 < cooldown (gov b) \<and> 0 < failThreshold b \<and>
     (\<forall>u. state_ok (failThreshold b) (heap b) u (stateOf b u))"

text \<open>
  What the observer has been told about one upstream, in order: the gauge it would
  publish agrees with the machine's position.
\<close>

definition events_of :: "string \<Rightarrow> transition list \<Rightarrow> transition list" where
  "events_of u evs = filter (\<lambda>(v, _, _). v = u) evs"

definition gauge_ok :: "registry \<Rightarrow> bool" where
  "gauge_ok b \<longleftrightarrow> (\<forall>u. follows u StateClosed (events_of u (observed b)) (mname (stateOf b u)))"

lemma stateOf_put [simp]:
  "stateOf (put_state b u s ev) v = (if v = u then s else stateOf b v)"
  by (simp add: stateOf_def put_state_def)

lemma put_state_fields [simp]:
  "gov (put_state b u s ev) = gov b"
  "failThreshold (put_state b u s ev) = failThreshold b"
  "heap (put_state b u s ev) = heap b"
  "observed (put_state b u s ev) = observed b @ ev"
  by (simp_all add: put_state_def)

lemma stateOf_heap [simp]: "stateOf (b\<lparr>heap := n\<rparr>) u = stateOf b u"
  by (simp add: stateOf_def)

lemma state_ok_mono: "state_ok thr fr u s \<Longrightarrow> fr \<le> fr' \<Longrightarrow> state_ok thr fr' u s"
  by (auto simp: state_ok_def intro: machine_ok_mono)

lemma registry_okD: "registry_ok b \<Longrightarrow> state_ok (failThreshold b) (heap b) u (stateOf b u)"
  by (simp add: registry_ok_def)

lemma registry_ok_put:
  assumes "registry_ok b" and "state_ok (failThreshold b) (heap b) u s"
  shows "registry_ok (put_state b u s ev)"
  using assms by (simp add: registry_ok_def)

lemma registry_ok_heap: "registry_ok b \<Longrightarrow> registry_ok (b\<lparr>heap := Suc (heap b)\<rparr>)"
  by (auto simp: registry_ok_def intro: state_ok_mono [of _ "heap b"])

lemma gov_allow_failures: "failures (fst (snd (gov_allow g t ptr s))) = failures s"
  by (auto simp: gov_defs Let_def split: cstate.splits option.splits)

lemma gov_allow_not_closed:
  "gov_allow g t ptr s = (r, s', ev) \<Longrightarrow> mname s' = StateClosed \<Longrightarrow> mname s = StateClosed"
  by (auto simp: gov_defs Let_def split: cstate.splits option.splits if_splits)

lemma gov_observe_failures: "failures (fst (snd (gov_observe g t s))) = failures s"
  by (auto simp: gov_defs Let_def split: cstate.splits option.splits)

lemma gov_observe_not_closed:
  "gov_observe g t s = (r, s', ev) \<Longrightarrow> mname s' = StateClosed \<Longrightarrow> mname s = StateClosed"
  by (auto simp: gov_defs Let_def split: cstate.splits option.splits if_splits)

lemma gov_allow_state_ok:
  assumes "state_ok thr fr u s" and "gov_allow g t fr s = (r, s', ev)"
  shows "state_ok thr (Suc fr) u s'"
proof -
  have "machine_ok (Suc fr) s'"
    using assms gov_allow_ok by (auto simp: state_ok_def)
  moreover have "mid s' = u" and "failures s' = failures s"
    using assms gov_allow_mid [of g t fr s] gov_allow_failures [of g t fr s]
    by (simp_all add: state_ok_def)
  ultimately show ?thesis
    using assms gov_allow_not_closed [OF assms(2)] by (auto simp: state_ok_def)
qed

lemma gov_observe_state_ok:
  assumes "state_ok thr fr u s" and "gov_observe g t s = (r, s', ev)"
  shows "state_ok thr fr u s'"
proof -
  have "machine_ok fr s'"
    using assms gov_observe_ok by (auto simp: state_ok_def)
  moreover have "mid s' = u" and "failures s' = failures s"
    using assms gov_observe_mid [of g t s] gov_observe_failures [of g t s]
    by (simp_all add: state_ok_def)
  ultimately show ?thesis
    using assms gov_observe_not_closed [OF assms(2)] by (auto simp: state_ok_def)
qed

lemma report_state_ok:
  assumes "state_ok thr fr u s" and "0 < thr" and "report_state thr s g oc e = (s', ev)"
  shows "state_ok thr fr u s'"
  using assms
  by (auto simp: report_state_def state_ok_def machine_ok_def enter_def reclaim_def Let_def
      split: cstate.splits outcome.splits option.splits if_splits)

lemma report_state_follows:
  assumes "report_state thr s g oc e = (s', ev)"
  shows "follows (mid s) (mname s) ev (mname s')"
  using assms
  by (auto simp: report_state_def enter_def reclaim_def legal_step_def Let_def
      split: cstate.splits outcome.splits option.splits if_splits)

lemma NewRegistry_ok: "registry_ok (NewRegistry cfg)"
  by (simp add: registry_ok_def NewRegistry_def stateOf_def state_ok_def machine_ok_def
      defaultCooldown_def defaultFailThreshold_def)

lemma Allow_ok:
  assumes "registry_ok b" shows "registry_ok (fst (Allow b u e))"
proof -
  obtain r s ev where g: "gov_allow (gov b) (now e) (heap b) (stateOf b u) = (r, s, ev)"
    by (metis prod_cases3)
  have "state_ok (failThreshold b) (Suc (heap b)) u s"
    using gov_allow_state_ok [OF registry_okD [OF assms] g] .
  then have "registry_ok (put_state (b\<lparr>heap := Suc (heap b)\<rparr>) u s ev)"
    by (intro registry_ok_put registry_ok_heap assms) simp
  then show ?thesis by (simp add: Allow_def g)
qed

lemma StateOf_ok:
  assumes "registry_ok b" shows "registry_ok (fst (StateOf b u e))"
proof -
  obtain r s ev where g: "gov_observe (gov b) (now e) (stateOf b u) = (r, s, ev)"
    by (metis prod_cases3)
  then have "registry_ok (put_state b u s ev)"
    using assms gov_observe_state_ok [OF registry_okD [OF assms] g] by (simp add: registry_ok_put)
  then show ?thesis by (simp add: StateOf_def g)
qed

lemma Reset_state: "stateOf (Reset b u e) u =
    (stateOf b u)\<lparr>failures := 0, probe := None, mname := StateClosed\<rparr>"
  by (simp add: Reset_def enter_def Let_def)

lemma Reset_ok:
  assumes "registry_ok b" shows "registry_ok (Reset b u e)"
proof -
  have "state_ok (failThreshold b) (heap b) u (fst (enter (stamp e)
      ((stateOf b u)\<lparr>failures := 0, probe := None\<rparr>) StateClosed id))"
    using registry_okD [OF assms, of u] assms
    by (simp add: state_ok_def machine_ok_def registry_ok_def enter_def Let_def)
  then show ?thesis
    using assms by (simp add: Reset_def Let_def registry_ok_put case_prod_beta)
qed

lemma Report_ok:
  assumes "registry_ok b" shows "registry_ok (fst (Report b p oc e))"
proof -
  obtain s ev where r: "report_state (failThreshold b) (stateOf b (gup p)) (ggrant p) oc e = (s, ev)"
    by fastforce
  have "state_ok (failThreshold b) (heap b) (gup p) s"
    using report_state_ok [OF registry_okD [OF assms] _ r] assms by (simp add: registry_ok_def)
  then show ?thesis
    using assms by (simp add: Report_def r registry_ok_put)
qed

lemma StateOf_open_denies:
  assumes "registry_ok b" and "StateOf b u e = (b', StateOpen)"
  shows "snd (Allow b' u e) = None"
proof -
  obtain s ev where g: "gov_observe (gov b) (now e) (stateOf b u) = (StateOpen, s, ev)"
    and b': "b' = put_state b u s ev"
    using assms(2) by (auto simp: StateOf_def Let_def split: prod.splits)
  have "0 < cooldown (gov b)"
    using assms(1) by (simp add: registry_ok_def)
  from gov_observe_open_denies [OF g this] show ?thesis
    by (simp add: Allow_def b')
qed

interpretation reg: breaker_port Allow StateOf Reset Report registry_ok
proof (unfold_locales, goal_cases)
  case (6 b u e e') then show ?case by (simp add: Allow_def Reset_state)
next
  case (7 b u e e') then show ?case by (simp add: StateOf_def Reset_state gov_observe_def)
next
  case (8 b p oc e b' p' oc' e') then show ?case
    by (auto simp: Report_def split: if_splits prod.splits)
next
  case (9 u v b e e') then show ?case
    by (simp add: StateOf_def put_state_def stateOf_def case_prod_beta Let_def)
qed (simp_all add: Allow_ok StateOf_ok Reset_ok Report_ok StateOf_open_denies)

subsection \<open>The observer's gauge\<close>

lemma follows_trans: "follows u a xs b \<Longrightarrow> follows u b ys c \<Longrightarrow> follows u a (xs @ ys) c"
  by (induction u a xs b rule: follows.induct) auto

lemma follows_only: "follows u a evs b \<Longrightarrow> events_of v evs = (if v = u then evs else [])"
  by (induction u a evs b rule: follows.induct) (auto simp: events_of_def)

lemma events_of_append [simp]: "events_of u (xs @ ys) = events_of u xs @ events_of u ys"
  by (simp add: events_of_def)

lemma gauge_put:
  assumes "gauge_ok b" and "follows u (mname (stateOf b u)) ev (mname s)"
  shows "gauge_ok (put_state b u s ev)"
  using assms by (auto simp: gauge_ok_def follows_only intro: follows_trans)

lemma gauge_heap [simp]: "gauge_ok (b\<lparr>heap := n\<rparr>) = gauge_ok b"
  by (simp add: gauge_ok_def)

lemma registry_ok_mid: "registry_ok b \<Longrightarrow> mid (stateOf b u) = u"
  by (simp add: registry_ok_def state_ok_def)

lemma Allow_gauge:
  assumes "gauge_ok b" and "registry_ok b" shows "gauge_ok (fst (Allow b u e))"
proof -
  obtain r s ev where g: "gov_allow (gov b) (now e) (heap b) (stateOf b u) = (r, s, ev)"
    by (metis prod_cases3)
  have "follows u (mname (stateOf b u)) ev (mname s)"
    using gov_allow_follows [OF g] registry_ok_mid [OF assms(2), of u] by simp
  then show ?thesis
    using assms(1) by (simp add: Allow_def g gauge_put)
qed

lemma StateOf_gauge:
  assumes "gauge_ok b" and "registry_ok b" shows "gauge_ok (fst (StateOf b u e))"
proof -
  obtain r s ev where g: "gov_observe (gov b) (now e) (stateOf b u) = (r, s, ev)"
    by (metis prod_cases3)
  have "follows u (mname (stateOf b u)) ev (mname s)"
    using gov_observe_follows [OF g] registry_ok_mid [OF assms(2), of u] by simp
  then show ?thesis
    using assms(1) by (simp add: StateOf_def g gauge_put)
qed

lemma Reset_gauge:
  assumes "gauge_ok b" and "registry_ok b" shows "gauge_ok (Reset b u e)"
proof -
  let ?r = "enter (stamp e) ((stateOf b u)\<lparr>failures := 0, probe := None\<rparr>) StateClosed id"
  have "follows u (mname (stateOf b u)) (snd ?r) (mname (fst ?r))"
    using registry_ok_mid [OF assms(2), of u]
    by (cases "mname (stateOf b u)") (simp_all add: enter_def legal_step_def)
  then show ?thesis
    using gauge_put [OF assms(1)] by (simp add: Reset_def Let_def case_prod_beta)
qed

lemma Report_gauge:
  assumes "gauge_ok b" and "registry_ok b" shows "gauge_ok (fst (Report b p oc e))"
proof -
  obtain s ev where r: "report_state (failThreshold b) (stateOf b (gup p)) (ggrant p) oc e = (s, ev)"
    by fastforce
  have "follows (gup p) (mname (stateOf b (gup p))) ev (mname s)"
    using report_state_follows [OF r] registry_ok_mid [OF assms(2)] by simp
  then show ?thesis
    using assms(1) by (simp add: Report_def r gauge_put)
qed

subsection \<open>Reachable registries with their issued permissions\<close>

text \<open>
  A run of the port: the registry and every permission it has issued so far, in the
  order of issue.  Each step is one port call under the registry's mutex; the clock
  readings are arbitrary, and a permission may be reported at any later moment, any
  number of times, or never.
\<close>

inductive reach :: "config \<Rightarrow> registry \<Rightarrow> granted list \<Rightarrow> bool" for cfg where
  reach_init: "reach cfg (NewRegistry cfg) []"
| reach_deny: "reach cfg b ps \<Longrightarrow> Allow b u e = (b', None) \<Longrightarrow> reach cfg b' ps"
| reach_admit: "reach cfg b ps \<Longrightarrow> Allow b u e = (b', Some p) \<Longrightarrow> reach cfg b' (ps @ [p])"
| reach_read: "reach cfg b ps \<Longrightarrow> StateOf b u e = (b', st) \<Longrightarrow> reach cfg b' ps"
| reach_reset: "reach cfg b ps \<Longrightarrow> reach cfg (Reset b u e) ps"
| reach_report: "reach cfg b ps \<Longrightarrow> i < length ps \<Longrightarrow> Report b (ps ! i) oc e = (b', p') \<Longrightarrow>
    reach cfg b' (ps[i := p'])"

inductive_cases reach_cases: "reach cfg b ps"

lemma reach_invar: "reach cfg b ps \<Longrightarrow> registry_ok b \<and> gauge_ok b"
proof (induction rule: reach.induct)
  case reach_init
  have "gauge_ok (NewRegistry cfg)"
    by (simp add: gauge_ok_def NewRegistry_def stateOf_def events_of_def)
  then show ?case by (simp add: NewRegistry_ok)
next
  case (reach_deny b ps u e b')
  then show ?case using Allow_ok [of b u e] Allow_gauge [of b u e] by simp
next
  case (reach_admit b ps u e b' p)
  then show ?case using Allow_ok [of b u e] Allow_gauge [of b u e] by simp
next
  case (reach_read b ps u e b' st)
  then show ?case using StateOf_ok [of b u e] StateOf_gauge [of b u e] by simp
next
  case (reach_reset b ps u e)
  then show ?case by (simp add: Reset_ok Reset_gauge)
next
  case (reach_report b ps i oc e b' p')
  then show ?case
    using Report_ok [of b "ps ! i" oc e] Report_gauge [of b "ps ! i" oc e] by simp
qed

text \<open>
  The ownership invariant: the addresses of the grants handed out are distinct and
  below the allocation counter, and an outstanding probe belongs to exactly one
  issued permission of that upstream, which has not reported yet.
\<close>

definition grant_ptrs :: "granted list \<Rightarrow> nat list" where
  "grant_ptrs ps = map gptr (List.map_filter ggrant ps)"

definition owners :: "registry \<Rightarrow> string \<Rightarrow> granted list \<Rightarrow> granted list" where
  "owners b u ps =
     filter (\<lambda>p. gup p = u \<and> owns_probe (stateOf b u) (ggrant p)) ps"

definition owned :: "registry \<Rightarrow> granted list \<Rightarrow> bool" where
  "owned b ps \<longleftrightarrow>
     distinct (grant_ptrs ps) \<and> (\<forall>a \<in> set (grant_ptrs ps). a < heap b) \<and>
     (\<forall>u q. probe (stateOf b u) = Some q \<longrightarrow>
        (\<exists>p \<in> set ps. gup p = u \<and> ggrant p = Some q \<and> \<not> reported p))"

lemma grant_ptrs_snoc [simp]:
  "grant_ptrs (ps @ [p]) = grant_ptrs ps @ (case ggrant p of None \<Rightarrow> [] | Some g \<Rightarrow> [gptr g])"
  by (simp add: grant_ptrs_def List.map_filter_def split: option.splits)

lemma grant_ptrs_report [simp]:
  "ggrant p = ggrant (ps ! i) \<Longrightarrow> grant_ptrs (ps[i := p]) = grant_ptrs ps"
proof (induction ps arbitrary: i)
  case (Cons q ps)
  then show ?case by (cases i) (simp_all add: grant_ptrs_def List.map_filter_def)
qed simp

lemma grant_ptrs_Cons:
  "grant_ptrs (p # ps) = (case ggrant p of None \<Rightarrow> [] | Some g \<Rightarrow> [gptr g]) @ grant_ptrs ps"
  by (simp add: grant_ptrs_def List.map_filter_def split: option.splits)

lemma grant_ptrs_mem: "p \<in> set ps \<Longrightarrow> ggrant p = Some g \<Longrightarrow> gptr g \<in> set (grant_ptrs ps)"
  by (induction ps) (auto simp: grant_ptrs_Cons split: option.splits)

lemma ownedD:
  assumes "owned b ps" and "probe (stateOf b u) = Some q"
  obtains p where "p \<in> set ps" "gup p = u" "ggrant p = Some q" "\<not> reported p"
  using assms unfolding owned_def by blast

lemma Report_keeps_grant:
  "Report b p oc e = (b', p') \<Longrightarrow> ggrant p' = ggrant p \<and> gup p' = gup p \<and> reported p'"
  by (auto simp: Report_def Let_def split: if_splits prod.splits)

lemma Report_heap: "heap (fst (Report b p oc e)) = heap b"
  by (simp add: Report_def Let_def case_prod_beta)

lemma report_state_probe:
  assumes "report_state thr s g oc e = (s', ev)" and "probe s' = Some q"
  shows "probe s = Some q"
  using assms
  by (auto simp: report_state_def enter_def reclaim_def Let_def
      split: cstate.splits outcome.splits option.splits if_splits)

lemma report_state_own_clears:
  assumes "report_state thr s (Some q) oc e = (s', ev)" and "probe s = Some q"
    and "mname s = StateHalfOpen"
  shows "probe s' = None"
  using assms
  by (auto simp: report_state_def enter_def reclaim_def owns_probe_def Let_def
      split: outcome.splits if_splits)

lemma Report_probe:
  assumes "registry_ok b" and "Report b p oc e = (b', p')" and "probe (stateOf b' u) = Some q"
  shows "probe (stateOf b u) = Some q \<and> \<not> (\<not> reported p \<and> gup p = u \<and> ggrant p = Some q)"
proof (cases "reported p")
  case True
  then show ?thesis using assms by (simp add: Report_def)
next
  case False
  obtain s ev where r: "report_state (failThreshold b) (stateOf b (gup p)) (ggrant p) oc e = (s, ev)"
    by fastforce
  have b': "b' = put_state b (gup p) s ev"
    using assms(2) False by (simp add: Report_def r)
  have half: "probe (stateOf b u) = Some q \<Longrightarrow> mname (stateOf b u) = StateHalfOpen"
    using registry_okD [OF assms(1), of u] by (auto simp: state_ok_def machine_ok_def)
  show ?thesis
    using assms(3) b' r report_state_probe [OF r] report_state_own_clears half
    by (auto split: if_splits)
qed

lemma gov_allow_probe:
  assumes "gov_allow g t ptr m = (r, m', ev)" and "machine_ok fr m"
  shows "(case r of Some (Some q) \<Rightarrow> gptr q = ptr \<and> probe m = None \<and> probe m' = Some q
                  | Some None \<Rightarrow> probe m' = None
                  | None \<Rightarrow> probe m' = probe m \<or> probe m' = None)"
  using assms
  by (auto simp: gov_defs machine_ok_def Let_def split: cstate.splits option.splits if_splits)

lemma owned_Allow:
  assumes "owned b ps" and "registry_ok b" and "Allow b u e = (b', r)"
  shows "owned b' (case r of None \<Rightarrow> ps | Some p \<Rightarrow> ps @ [p])"
proof -
  obtain r' s ev where g: "gov_allow (gov b) (now e) (heap b) (stateOf b u) = (r', s, ev)"
    by (metis prod_cases3)
  have b': "b' = put_state (b\<lparr>heap := Suc (heap b)\<rparr>) u s ev"
    and r: "r = map_option (\<lambda>g. \<lparr>gup = u, ggrant = g, reported = False\<rparr>) r'"
    using assms(3) by (simp_all add: Allow_def g)
  have "machine_ok (heap b) (stateOf b u)"
    using registry_okD [OF assms(2)] by (simp add: state_ok_def)
  note pr = gov_allow_probe [OF g this]
  have ptrs: "\<forall>a \<in> set (grant_ptrs ps). a < Suc (heap b)" "heap b \<notin> set (grant_ptrs ps)"
    using assms(1) by (auto simp: owned_def less_Suc_eq)
  show ?thesis
    using assms(1) pr ptrs
    by (auto simp: owned_def b' r split: option.splits)
qed

lemma owned_step_weaken:
  assumes "owned b ps" and "heap b' = heap b"
    and "\<And>u q. probe (stateOf b' u) = Some q \<Longrightarrow> probe (stateOf b u) = Some q"
  shows "owned b' ps"
  using assms by (auto simp: owned_def)

lemma owned_Report:
  assumes "owned b ps" and "registry_ok b" and "i < length ps"
    and "Report b (ps ! i) oc e = (b', p')"
  shows "owned b' (ps[i := p'])"
proof -
  have keep: "ggrant p' = ggrant (ps ! i)" "heap b' = heap b"
    using Report_keeps_grant [OF assms(4)] Report_heap [of b "ps ! i" oc e] assms(4) by simp_all
  have "\<exists>p \<in> set (ps[i := p']). gup p = u \<and> ggrant p = Some q \<and> \<not> reported p"
    if "probe (stateOf b' u) = Some q" for u q
  proof -
    have old: "probe (stateOf b u) = Some q"
      and not_i: "\<not> (\<not> reported (ps ! i) \<and> gup (ps ! i) = u \<and> ggrant (ps ! i) = Some q)"
      using Report_probe [OF assms(2,4) that] by simp_all
    from ownedD [OF assms(1) old]
    obtain p where p: "p \<in> set ps" "gup p = u" "ggrant p = Some q" "\<not> reported p" .
    then obtain j where "j < length ps" "ps ! j = p"
      by (auto simp: in_set_conv_nth)
    then have "j \<noteq> i" using p not_i by auto
    then have "ps[i := p'] ! j = p" "j < length (ps[i := p'])"
      using \<open>ps ! j = p\<close> \<open>j < length ps\<close> by simp_all
    then show ?thesis using p by (metis nth_mem)
  qed
  then show ?thesis
    using assms(1) keep by (simp add: owned_def)
qed

lemma reach_owned: "reach cfg b ps \<Longrightarrow> owned b ps"
proof (induction rule: reach.induct)
  case reach_init
  then show ?case
    by (simp add: owned_def grant_ptrs_def NewRegistry_def stateOf_def List.map_filter_def)
next
  case (reach_deny b ps u e b')
  then show ?case using owned_Allow [of b ps u e b' None] reach_invar by simp
next
  case (reach_admit b ps u e b' p)
  then show ?case using owned_Allow [of b ps u e b' "Some p"] reach_invar by simp
next
  case (reach_read b ps u e b' st)
  obtain r s ev where g: "gov_observe (gov b) (now e) (stateOf b u) = (r, s, ev)"
    by (metis prod_cases3)
  then have "b' = put_state b u s ev" using reach_read(2) by (simp add: StateOf_def)
  then have "heap b' = heap b"
    and "\<And>v q. probe (stateOf b' v) = Some q \<Longrightarrow> probe (stateOf b v) = Some q"
    using gov_observe_no_alloc [OF g] by (auto split: if_splits)
  then show ?case by (rule owned_step_weaken [OF reach_read(3)])
next
  case (reach_reset b ps u e)
  show ?case
  proof (rule owned_step_weaken [OF reach_reset(2)])
    show "heap (Reset b u e) = heap b" by (simp add: Reset_def Let_def case_prod_beta)
  next
    fix v q assume "probe (stateOf (Reset b u e) v) = Some q"
    moreover have "v \<noteq> u \<Longrightarrow> stateOf (Reset b u e) v = stateOf b v"
      by (simp add: Reset_def Let_def case_prod_beta)
    ultimately show "probe (stateOf b v) = Some q"
      by (cases "v = u") (simp_all add: Reset_state)
  qed
next
  case (reach_report b ps i oc e b' p')
  then show ?case using owned_Report reach_invar by blast
qed

lemma distinct_owner:
  "distinct (grant_ptrs ps) \<Longrightarrow> p \<in> set ps \<Longrightarrow> ggrant p = Some q \<Longrightarrow>
     length (filter (\<lambda>p. \<exists>g. ggrant p = Some g \<and> gptr g = gptr q) ps) = 1"
proof (induction ps)
  case (Cons x ps)
  show ?case
  proof (cases "\<exists>g. ggrant x = Some g \<and> gptr g = gptr q")
    case True
    then have "gptr q \<notin> set (grant_ptrs ps)"
      using Cons.prems(1) by (auto simp: grant_ptrs_Cons)
    then have "filter (\<lambda>p. \<exists>g. ggrant p = Some g \<and> gptr g = gptr q) ps = []"
      using grant_ptrs_mem by (fastforce simp: filter_empty_conv)
    then show ?thesis using True by simp
  next
    case False
    then have "p \<in> set ps" using Cons.prems by auto
    moreover have "distinct (grant_ptrs ps)"
      using Cons.prems(1) by (simp add: grant_ptrs_Cons)
    ultimately show ?thesis using Cons.IH Cons.prems(3) False by simp
  qed
qed simp

lemma owners_outstanding:
  assumes "reach cfg b ps" and "probe (stateOf b u) = Some q"
  shows "length (owners b u ps) = 1 \<and> (\<forall>p \<in> set (owners b u ps). \<not> reported p)"
proof -
  from ownedD [OF reach_owned [OF assms(1)] assms(2)]
  obtain p where p: "p \<in> set ps" "gup p = u" "ggrant p = Some q" "\<not> reported p" .
  let ?P = "\<lambda>p. \<exists>g. ggrant p = Some g \<and> gptr g = gptr q"
  have "length (filter ?P ps) = 1"
    using reach_owned [OF assms(1)] p by (intro distinct_owner) (simp_all add: owned_def)
  then obtain y where y: "filter ?P ps = [y]" by (auto simp: length_Suc_conv)
  have "p \<in> set (filter ?P ps)" using p by simp
  then have only: "filter ?P ps = [p]" unfolding y by simp
  have "owners b u ps = filter (\<lambda>p. gup p = u) (filter ?P ps)"
    using assms(2)
    by (auto simp: owners_def owns_probe_def intro!: filter_cong split: option.splits)
  then show ?thesis using p by (simp add: only)
qed

subsection \<open>What the consecutive-failure rule computes\<close>

definition closed_permission :: "string \<Rightarrow> granted" where
  "closed_permission u = \<lparr>gup = u, ggrant = None, reported = False\<rparr>"

text \<open>The outcomes of calls admitted while closed, reported one after the other.\<close>

fun report_run :: "registry \<Rightarrow> string \<Rightarrow> (outcome \<times> call_env) list \<Rightarrow> registry" where
  "report_run b u [] = b"
| "report_run b u ((oc, e) # oes) = report_run (fst (Report b (closed_permission u) oc e)) u oes"

definition evidence :: "(outcome \<times> call_env) list \<Rightarrow> outcome list" where
  "evidence oes = filter (\<lambda>oc. oc \<noteq> OutcomeGatewayTerminated) (map fst oes)"

lemma report_run_open:
  "mname (stateOf b u) = StateOpen \<Longrightarrow> mname (stateOf (report_run b u oes) u) = StateOpen"
  by (induction b u oes rule: report_run.induct)
    (auto simp: Report_def closed_permission_def report_state_def)

lemma sublist_replicate_break:
  assumes "x \<noteq> a" and "n < k"
  shows "sublist (replicate k a) (replicate n a @ x # ys) \<longleftrightarrow> sublist (replicate k a) ys"
proof
  assume "sublist (replicate k a) (replicate n a @ x # ys)"
  then obtain ps ss where eq: "replicate n a @ x # ys = ps @ replicate k a @ ss"
    by (auto simp: sublist_def)
  have "n < length ps"
  proof (rule ccontr)
    assume "\<not> n < length ps"
    then have "n - length ps < k" using assms(2) by linarith
    with \<open>\<not> n < length ps\<close> have "(ps @ replicate k a @ ss) ! n = a"
      by (simp add: nth_append)
    then show False using eq assms(1) by (metis length_replicate nth_append_length)
  qed
  then have "ys = drop (Suc n) ps @ replicate k a @ ss"
    using arg_cong [OF eq, of "drop (Suc n)"] by simp
  then show "sublist (replicate k a) ys" by (auto simp: sublist_def)
next
  assume "sublist (replicate k a) ys"
  then obtain ps ss where "ys = ps @ replicate k a @ ss" by (auto simp: sublist_def)
  then have "replicate n a @ x # ys = (replicate n a @ x # ps) @ replicate k a @ ss" by simp
  then show "sublist (replicate k a) (replicate n a @ x # ys)" unfolding sublist_def by blast
qed

lemma report_run_consecutive:
  assumes "failThreshold b = thr" and "mname (stateOf b u) = StateClosed"
    and "0 \<le> failures (stateOf b u)" and "failures (stateOf b u) < thr"
  shows "mname (stateOf (report_run b u oes) u) =
    (if sublist (replicate (nat thr) OutcomeServerFault)
          (replicate (nat (failures (stateOf b u))) OutcomeServerFault @ evidence oes)
     then StateOpen else StateClosed)"
  using assms
proof (induction oes arbitrary: b)
  case Nil
  then have "\<not> sublist (replicate (nat thr) OutcomeServerFault)
      (replicate (nat (failures (stateOf b u))) OutcomeServerFault)"
    by (auto dest: sublist_length_le)
  with Nil show ?case by (simp add: evidence_def)
next
  case (Cons oe oes)
  obtain oc e where oe: "oe = (oc, e)" by fastforce
  let ?n = "failures (stateOf b u)" and ?b = "fst (Report b (closed_permission u) oc e)"
  have b1: "stateOf ?b u = fst (report_state thr (stateOf b u) None oc e)"
    "failThreshold ?b = thr"
    using Cons.prems by (simp_all add: Report_def closed_permission_def Let_def case_prod_beta)
  consider "oc = OutcomeServerFault" "thr \<le> ?n + 1" | "oc = OutcomeServerFault" "?n + 1 < thr"
    | "oc = OutcomeGatewayTerminated"
    | "oc \<noteq> OutcomeServerFault" "oc \<noteq> OutcomeGatewayTerminated" by linarith
  then show ?case
  proof cases
    case 1
    then have "mname (stateOf ?b u) = StateOpen"
      using Cons.prems b1 by (simp add: report_state_def enter_def Let_def)
    moreover have "nat thr = Suc (nat ?n)" using Cons.prems 1 by simp
    then have "replicate (nat ?n) OutcomeServerFault @ evidence (oe # oes)
        = replicate (nat thr) OutcomeServerFault @ evidence oes"
      using 1 by (simp add: evidence_def oe replicate_app_Cons_same)
    ultimately show ?thesis by (simp add: oe report_run_open sublist_append_rightI)
  next
    case 2
    then have "stateOf ?b u = (stateOf b u)\<lparr>failures := ?n + 1\<rparr>"
      using Cons.prems b1 by (simp add: report_state_def Let_def)
    moreover have "replicate (nat ?n) OutcomeServerFault @ evidence (oe # oes)
        = replicate (nat (?n + 1)) OutcomeServerFault @ evidence oes"
      using 2 Cons.prems by (simp add: evidence_def oe replicate_app_Cons_same nat_add_distrib)
    ultimately show ?thesis using Cons.IH [of ?b] Cons.prems b1 2 by (simp add: oe)
  next
    case 3
    then have "stateOf ?b u = stateOf b u"
      using Cons.prems b1 by (simp add: report_state_def)
    then show ?thesis using Cons.IH [of ?b] Cons.prems b1 3 by (simp add: oe evidence_def)
  next
    case 4
    then have "stateOf ?b u = (stateOf b u)\<lparr>failures := 0\<rparr>"
      using Cons.prems b1 by (cases oc) (simp_all add: report_state_def)
    moreover have "sublist (replicate (nat thr) OutcomeServerFault)
        (replicate (nat ?n) OutcomeServerFault @ oc # evidence oes)
        \<longleftrightarrow> sublist (replicate (nat thr) OutcomeServerFault) (evidence oes)"
      using 4 Cons.prems by (intro sublist_replicate_break) simp_all
    ultimately show ?thesis using Cons.IH [of ?b] Cons.prems b1 4 by (simp add: oe evidence_def)
  qed
qed

subsection \<open>Traces of port calls\<close>

datatype port_call =
    CallAllow string call_env
  | CallStateOf string call_env
  | CallReset string call_env
  | CallReport nat outcome call_env

text \<open>
  The run of a trace: permissions are named by their order of issue, and a report
  naming none is no call.
\<close>

fun step_call :: "registry \<times> granted list \<Rightarrow> port_call \<Rightarrow> registry \<times> granted list" where
  "step_call (b, ps) (CallAllow u e) =
     (case Allow b u e of (b', None) \<Rightarrow> (b', ps) | (b', Some p) \<Rightarrow> (b', ps @ [p]))"
| "step_call (b, ps) (CallStateOf u e) = (fst (StateOf b u e), ps)"
| "step_call (b, ps) (CallReset u e) = (Reset b u e, ps)"
| "step_call (b, ps) (CallReport i oc e) =
     (if i < length ps then case Report b (ps ! i) oc e of (b', p') \<Rightarrow> (b', ps[i := p'])
      else (b, ps))"

definition run_calls :: "config \<Rightarrow> port_call list \<Rightarrow> registry \<times> granted list" where
  "run_calls cfg cs = foldl step_call (NewRegistry cfg, []) cs"

lemma step_call_reach:
  "reach cfg (fst st) (snd st) \<Longrightarrow> reach cfg (fst (step_call st c)) (snd (step_call st c))"
  by (cases st; cases c)
    (auto intro: reach.intros reach_read [OF _ prod.collapse [symmetric]]
      split: prod.splits option.splits)

lemma run_calls_reach: "reach cfg (fst (run_calls cfg cs)) (snd (run_calls cfg cs))"
  unfolding run_calls_def
  by (induction cs rule: rev_induct) (simp_all add: reach_init step_call_reach)

definition env_at :: "instant \<Rightarrow> call_env" where
  "env_at t = \<lparr>born = t, now = t, stamp = t, draw = 0\<rparr>"

definition demo_config :: config where
  "demo_config = \<lparr>FailThreshold = 2, Cooldown = 10, ProbeTimeout = 5, SlowRatio = 0\<rparr>"

text \<open>Two failures open the breaker, a success between them would not; a third caller probes.\<close>

definition demo_opened :: "port_call list" where
  "demo_opened =
     [CallAllow ''a'' (env_at 1), CallAllow ''a'' (env_at 1),
      CallReport 0 OutcomeServerFault (env_at 2), CallReport 1 OutcomeServerFault (env_at 3)]"

definition demo_probing :: "port_call list" where
  "demo_probing = demo_opened @ [CallAllow ''a'' (env_at 13)]"

subsection \<open>Properties\<close>

text \<open>
  C4: half-open admits exactly one outstanding probe.  In every registry reachable by
  port calls, whatever the clock readings and whichever permissions report, late,
  twice or never: an outstanding probe means the machine is half-open, exactly one of
  the permissions issued so far owns it, that permission has not reported, and every
  further arrival is denied.
\<close>

theorem probe_exclusive:
  assumes "reach cfg b ps" and "probe (stateOf b u) = Some q"
  shows "mname (stateOf b u) = StateHalfOpen \<and> length (owners b u ps) = 1 \<and>
    (\<forall>p \<in> set (owners b u ps). \<not> reported p) \<and> snd (Allow b u e) = None"
proof -
  have half: "mname (stateOf b u) = StateHalfOpen"
    using registry_okD [of b u] reach_invar [OF assms(1)] assms(2)
    by (auto simp: state_ok_def machine_ok_def)
  then have "snd (Allow b u e) = None"
    using assms(2) by (simp add: Allow_def gov_allow_def case_prod_beta)
  then show ?thesis
    using half owners_outstanding [OF assms] by simp
qed

theorem probe_exclusive_witness:
  "let (b, ps) = run_calls demo_config demo_probing in
     probe (stateOf b ''a'') = Some \<lparr>gptr = 2, deadline = 18\<rparr> \<and>
     length (owners b ''a'' ps) = 1 \<and> snd (Allow b ''a'' (env_at 14)) = None"
proof -
  have "probe (stateOf (fst (run_calls demo_config demo_probing)) ''a'') =
      Some \<lparr>gptr = 2, deadline = 18\<rparr>"
    by code_simp
  with probe_exclusive [OF run_calls_reach this] show ?thesis
    by (simp add: case_prod_beta)
qed

text \<open>
  The transition observer is told the truth.  In every reachable registry the
  calls made to the observer for one upstream form a chain of legal state changes
  from closed to the machine's present position, so a gauge driven by it always
  agrees with the breaker.
\<close>

theorem observer_follows_machine:
  assumes "reach cfg b ps"
  shows "follows u StateClosed (events_of u (observed b)) (mname (stateOf b u))"
  using reach_invar [OF assms] by (simp add: gauge_ok_def)

theorem observer_follows_machine_witness:
  "events_of ''a'' (observed (fst (run_calls demo_config demo_probing))) =
     [(''a'', StateClosed, StateOpen), (''a'', StateOpen, StateHalfOpen)] \<and>
   follows ''a'' StateClosed
     (events_of ''a'' (observed (fst (run_calls demo_config demo_probing)))) StateHalfOpen"
proof -
  have "mname (stateOf (fst (run_calls demo_config demo_probing)) ''a'') = StateHalfOpen"
    by code_simp
  moreover have "events_of ''a'' (observed (fst (run_calls demo_config demo_probing))) =
     [(''a'', StateClosed, StateOpen), (''a'', StateOpen, StateHalfOpen)]"
    by code_simp
  ultimately show ?thesis
    using observer_follows_machine [OF run_calls_reach [of demo_config demo_probing], of "''a''"]
    by simp
qed

text \<open>
  C18: the breaker opens on consecutive failures and on nothing else.  Outcomes of
  calls admitted while closed are reported in any sequence: the breaker ends up open
  exactly when, among the outcomes that carry evidence (a call the gateway itself cut
  carries none), some \<open>FailThreshold\<close> successive ones are server faults; otherwise
  it is still closed.
\<close>

theorem opens_iff_consecutive_failures:
  assumes "registry_ok b" and "mname (stateOf b u) = StateClosed" and "failures (stateOf b u) = 0"
  shows "mname (stateOf (report_run b u oes) u) =
    (if sublist (replicate (nat (failThreshold b)) OutcomeServerFault) (evidence oes)
     then StateOpen else StateClosed)"
  using report_run_consecutive [OF refl assms(2), of oes] assms(1,3)
  by (simp add: registry_ok_def)

theorem opens_iff_consecutive_failures_witness:
  "let b = NewRegistry demo_config;
       f = (OutcomeServerFault, env_at 1); g = (OutcomeGatewayTerminated, env_at 1);
       s = (OutcomeSuccess, env_at 1)
   in mname (stateOf (report_run b ''a'' [f, s, f, g, f]) ''a'') = StateOpen \<and>
      mname (stateOf (report_run b ''a'' [f, s, f, g]) ''a'') = StateClosed"
proof -
  have st: "mname (stateOf (NewRegistry demo_config) ''a'') = StateClosed"
    "failures (stateOf (NewRegistry demo_config) ''a'') = 0"
    "nat (failThreshold (NewRegistry demo_config)) = 2"
    by code_simp+
  note run = opens_iff_consecutive_failures [OF NewRegistry_ok st(1,2), unfolded st(3)]
  let ?f = "(OutcomeServerFault, env_at 1)" and ?g = "(OutcomeGatewayTerminated, env_at 1)"
    and ?s = "(OutcomeSuccess, env_at 1)"
  have "sublist (replicate 2 OutcomeServerFault) (evidence [?f, ?s, ?f, ?g, ?f])"
    "\<not> sublist (replicate 2 OutcomeServerFault) (evidence [?f, ?s, ?f, ?g])"
    by code_simp+
  then show ?thesis
    using run [of "[?f, ?s, ?f, ?g, ?f]"] run [of "[?f, ?s, ?f, ?g]"] by simp
qed

text \<open>
  The verdict on a half-open probe.  The permission that owns the probe and has
  not reported decides the machine: a server fault, a report past the deadline and a
  call the gateway itself cut all go back to open, and only an in-time answer from
  the upstream (a client error included) closes it, with the failure count dropped.
  Any other report, and the same permission's second one, leaves every machine as it
  was.
\<close>

theorem half_open_verdict:
  assumes "registry_ok b" and "probe (stateOf b u) = Some q" and "gup p = u"
    and "Report b p oc e = (b', p')"
  shows "if reported p \<or> \<not> owns_probe (stateOf b u) (ggrant p) then stateOf b' = stateOf b
    else probe (stateOf b' u) = None \<and>
      (if oc = OutcomeServerFault \<or> oc = OutcomeGatewayTerminated \<or> deadline q < now e
       then mname (stateOf b' u) = StateOpen \<and> openedAt (stateOf b' u) \<in> {now e, stamp e}
       else mname (stateOf b' u) = StateClosed \<and> failures (stateOf b' u) = 0)"
proof -
  have half: "mname (stateOf b u) = StateHalfOpen"
    using registry_okD [OF assms(1), of u] assms(2) by (auto simp: state_ok_def machine_ok_def)
  show ?thesis
    using assms(2-4) half
    by (cases oc)
      (auto simp: Report_def report_state_def enter_def reclaim_def Let_def fun_eq_iff
        split: if_splits)
qed

theorem half_open_verdict_witness:
  "let (b, ps) = run_calls demo_config demo_probing;
       b1 = fst (Report b (ps ! 2) OutcomeClientFault (env_at 18));
       b2 = fst (Report b (ps ! 2) OutcomeSuccess (env_at 19));
       b3 = fst (Report b (closed_permission ''a'') OutcomeSuccess (env_at 14))
   in mname (stateOf b1 ''a'') = StateClosed \<and> mname (stateOf b2 ''a'') = StateOpen \<and>
      stateOf b3 = stateOf b"
proof -
  let ?b = "fst (run_calls demo_config demo_probing)"
    and ?p = "snd (run_calls demo_config demo_probing) ! 2"
  have ok: "registry_ok ?b"
    using reach_invar [OF run_calls_reach] by blast
  have pr: "probe (stateOf ?b ''a'') = Some \<lparr>gptr = 2, deadline = 18\<rparr>" by code_simp
  have own: "gup ?p = ''a''" "\<not> reported ?p" "owns_probe (stateOf ?b ''a'') (ggrant ?p)"
    "\<not> owns_probe (stateOf ?b ''a'') (ggrant (closed_permission ''a''))"
    "gup (closed_permission ''a'') = ''a''"
    by code_simp+
  have "mname (stateOf (fst (Report ?b ?p OutcomeClientFault (env_at 18))) ''a'') = StateClosed"
    using half_open_verdict [OF ok pr own(1) prod.collapse [symmetric], of OutcomeClientFault "env_at 18"]
      own by (simp add: env_at_def)
  moreover have "mname (stateOf (fst (Report ?b ?p OutcomeSuccess (env_at 19))) ''a'') = StateOpen"
    using half_open_verdict [OF ok pr own(1) prod.collapse [symmetric], of OutcomeSuccess "env_at 19"]
      own by (simp add: env_at_def)
  moreover have "stateOf (fst (Report ?b (closed_permission ''a'') OutcomeSuccess (env_at 14))) = stateOf ?b"
    using half_open_verdict [OF ok pr own(5) prod.collapse [symmetric], of OutcomeSuccess "env_at 14"]
      own by simp
  ultimately show ?thesis by (simp add: case_prod_beta)
qed

text \<open>
  C19: an open breaker denies exactly until its cooldown has elapsed, and no probe can
  block it for good.  While open, a call is denied precisely before the cooldown's
  end, and the first call after it is the probe; and when a probe's holder never
  reports, the first call after the deadline is still denied but frees the slot, and
  one cooldown later a call is admitted again.
\<close>

theorem open_recovers:
  assumes "0 < cooldown (gov b)" and "cooldown (gov b) \<le> MaxInt64"
  shows "(mname (stateOf b u) = StateOpen \<longrightarrow>
      (case snd (Allow b u e) of
         None \<Rightarrow> now e < openedAt (stateOf b u) + cooldown (gov b)
       | Some p \<Rightarrow> openedAt (stateOf b u) + cooldown (gov b) \<le> now e \<and>
           owns_probe (stateOf (fst (Allow b u e)) u) (ggrant p))) \<and>
    (mname (stateOf b u) = StateHalfOpen \<and> probe (stateOf b u) = Some q \<and> deadline q < now e \<and>
      now e + cooldown (gov b) \<le> now e' \<longrightarrow>
      snd (Allow b u e) = None \<and> snd (Allow (fst (Allow b u e)) u e') \<noteq> None)"
proof (intro conjI impI)
  assume op: "mname (stateOf b u) = StateOpen"
  show "case snd (Allow b u e) of
      None \<Rightarrow> now e < openedAt (stateOf b u) + cooldown (gov b)
    | Some p \<Rightarrow> openedAt (stateOf b u) + cooldown (gov b) \<le> now e \<and>
        owns_probe (stateOf (fst (Allow b u e)) u) (ggrant p)"
    using op time_sub_less [OF assms, of "now e" "openedAt (stateOf b u)"]
    by (cases "time_sub (now e) (openedAt (stateOf b u)) < cooldown (gov b)")
      (simp_all add: Allow_def gov_allow_def enter_def owns_probe_def Let_def)
next
  assume h: "mname (stateOf b u) = StateHalfOpen \<and> probe (stateOf b u) = Some q \<and>
    deadline q < now e \<and> now e + cooldown (gov b) \<le> now e'"
  obtain r s ev where g: "gov_allow (gov b) (now e) (heap b) (stateOf b u) = (r, s, ev)"
    by (metis prod_cases3)
  have "r = None" "fst (gov_allow (gov b) (now e') (Suc (heap b)) s) \<noteq> None"
    using gov_probe_never_leaks [OF _ _ _ assms _ g] h by blast+
  then show "snd (Allow b u e) = None" "snd (Allow (fst (Allow b u e)) u e') \<noteq> None"
    by (simp_all add: Allow_def g case_prod_beta)
qed

theorem open_recovers_witness:
  "let b = fst (run_calls demo_config demo_opened) in
     mname (stateOf b ''a'') = StateOpen \<and> openedAt (stateOf b ''a'') = 3 \<and>
     (case snd (Allow b ''a'' (env_at 13)) of
        None \<Rightarrow> False
      | Some p \<Rightarrow> owns_probe (stateOf (fst (Allow b ''a'' (env_at 13))) ''a'') (ggrant p))"
proof -
  let ?b = "fst (run_calls demo_config demo_opened)"
  have st: "mname (stateOf ?b ''a'') = StateOpen" "openedAt (stateOf ?b ''a'') = 3"
    "cooldown (gov ?b) = 10" "now (env_at 13) = 13"
    by code_simp+
  then show ?thesis
    using open_recovers [of ?b "''a''" "env_at 13"]
    by (auto simp: MaxInt64_def split: option.splits)
qed

end
