(* ===== verification/Circuit_Slow.thy ===== *)
theory Circuit_Slow
  imports Circuit_Window Circuit_Breaker
begin

text \<open>
  The slow-call strategy, \<^verbatim>\<open>internal/circuit/slow.go\<close>: the shared machine with a
  rolling window of completions as its evidence.
\<close>

record slow_bucket =
  btotal :: int
  bslow :: int

definition zero_slow :: slow_bucket where "zero_slow = \<lparr>btotal = 0, bslow = 0\<rparr>"

record slow_state = machine +
  swin :: "slow_bucket window"

record slow_registry =
  sgov :: governor
  slowRatio :: rat
  sby :: "string \<rightharpoonup> slow_state"
  sheap :: nat
  sobserved :: "transition list"

record slow_permission =
  pup :: string
  pgrant :: "probe_grant option"
  preported :: bool

definition slowMinSamples :: int where "slowMinSamples = 10"
definition defaultSlowRatio :: rat where "defaultSlowRatio = 1 / 2"

definition NewSlowRegistry :: "config \<Rightarrow> slow_registry" where
  "NewSlowRegistry cfg =
     \<lparr>sgov = \<lparr>cooldown = (if Cooldown cfg \<le> 0 then defaultCooldown else Cooldown cfg),
              probeTimeout = (if ProbeTimeout cfg \<le> 0 then defaultProbeTimeout else ProbeTimeout cfg)\<rparr>,
      slowRatio = (if \<not> (SlowRatio cfg > 0 \<and> SlowRatio cfg \<le> 1) then defaultSlowRatio else SlowRatio cfg),
      sby = Map.empty, sheap = 0, sobserved = []\<rparr>"

definition slow_stateOf :: "slow_registry \<Rightarrow> string \<Rightarrow> instant \<Rightarrow> slow_state" where
  "slow_stateOf b u t =
     (case sby b u of
        Some s \<Rightarrow> s
      | None \<Rightarrow> \<lparr>mid = u, mname = StateClosed, openedAt = 0, probe = None,
                 swin = empty_window zero_slow t\<rparr>)"

definition put_slow :: "slow_registry \<Rightarrow> string \<Rightarrow> slow_state \<Rightarrow> transition list \<Rightarrow> slow_registry" where
  "put_slow b u s ev = b\<lparr>sby := (sby b)(u \<mapsto> s), sobserved := sobserved b @ ev\<rparr>"

definition clearWindow :: "slow_state \<Rightarrow> slow_state" where
  "clearWindow st = st\<lparr>swin := (swin st)\<lparr>wbuckets := replicate window_size zero_slow\<rparr>\<rparr>"

definition slow_Allow :: "slow_registry \<Rightarrow> string \<Rightarrow> call_env \<Rightarrow> slow_registry \<times> slow_permission option" where
  "slow_Allow b u e =
     (let (r, s, ev) = gov_allow (sgov b) (now e) (sheap b) (slow_stateOf b u (born e))
      in (put_slow (b\<lparr>sheap := Suc (sheap b)\<rparr>) u s ev,
          map_option (\<lambda>g. \<lparr>pup = u, pgrant = g, preported = False\<rparr>) r))"

definition slow_StateOf :: "slow_registry \<Rightarrow> string \<Rightarrow> call_env \<Rightarrow> slow_registry \<times> cstate" where
  "slow_StateOf b u e =
     (let (r, s, ev) = gov_observe (sgov b) (now e) (slow_stateOf b u (born e))
      in (put_slow b u s ev, r))"

definition slow_Reset :: "slow_registry \<Rightarrow> string \<Rightarrow> call_env \<Rightarrow> slow_registry" where
  "slow_Reset b u e =
     (let (s1, ev) = enter (stamp e) (slow_stateOf b u (born e)) StateClosed clearWindow;
          s2 = clearWindow s1
      in put_slow b u (s2\<lparr>swin := (swin s2)\<lparr>wlast := now e\<rparr>\<rparr>) ev)"

definition slow_tick :: "bool \<Rightarrow> slow_bucket \<Rightarrow> slow_bucket" where
  "slow_tick slow b =
     (let b1 = b\<lparr>btotal := btotal b + 1\<rparr> in if slow then b1\<lparr>bslow := bslow b1 + 1\<rparr> else b1)"

definition record_slow :: "slow_bucket window \<Rightarrow> instant \<Rightarrow> bool \<Rightarrow> slow_bucket window" where
  "record_slow w t slow = add_event zero_slow (slow_tick slow) w t"

definition share :: "slow_bucket window \<Rightarrow> instant \<Rightarrow> int \<times> int" where
  "share w t =
     (let bs = live_buckets w t in (sum_list (map btotal bs), sum_list (map bslow bs)))"

definition slow_report_state ::
  "rat \<Rightarrow> slow_state \<Rightarrow> probe_grant option \<Rightarrow> outcome \<Rightarrow> call_env \<Rightarrow> slow_state \<times> transition list" where
  "slow_report_state ratio st g oc e =
     (case mname st of
        StateClosed \<Rightarrow>
          if oc = OutcomeGatewayTerminated then (st, [])
          else let slow = (oc = OutcomeSlow \<or> oc = OutcomeServerFault);
                   st1 = st\<lparr>swin := record_slow (swin st) (now e) slow\<rparr>;
                   (total, slowCount) = share (swin st1) (now e)
               in if total \<ge> slowMinSamples
                  then if fl (f64 slowCount / f64 total) \<ge> ratio
                       then enter (stamp e) st1 StateOpen id else (st1, [])
                  else (st1, [])
      | StateHalfOpen \<Rightarrow>
          (case probe st of
             None \<Rightarrow> (st, [])
           | Some p \<Rightarrow>
               if \<not> owns_probe st g then (st, [])
               else if oc = OutcomeGatewayTerminated then reclaim st (now e)
               else if now e > deadline p \<and> oc \<noteq> OutcomeServerFault then reclaim st (now e)
               else let st1 = st\<lparr>probe := None\<rparr>
                    in if oc = OutcomeServerFault then enter (stamp e) st1 StateOpen id
                       else enter (stamp e) st1 StateClosed clearWindow)
      | StateOpen \<Rightarrow> (st, []))"

definition slow_Report ::
  "slow_registry \<Rightarrow> slow_permission \<Rightarrow> outcome \<Rightarrow> call_env \<Rightarrow> slow_registry \<times> slow_permission" where
  "slow_Report b p oc e =
     (if preported p then (b, p)
      else let (s, ev) = slow_report_state (slowRatio b) (slow_stateOf b (pup p) (born e)) (pgrant p) oc e
           in (put_slow b (pup p) s ev, p\<lparr>preported := True\<rparr>))"

subsection \<open>The port's laws\<close>

definition slow_ok :: "slow_registry \<Rightarrow> bool" where
  "slow_ok b \<longleftrightarrow> 0 < cooldown (sgov b) \<and>
     (\<forall>u s. sby b u = Some s \<longrightarrow> machine_ok (sheap b) s \<and> mid s = u)"

lemma slow_stateOf_ok:
  "slow_ok b \<Longrightarrow> machine_ok (sheap b) (slow_stateOf b u t) \<and> mid (slow_stateOf b u t) = u"
  by (auto simp: slow_ok_def slow_stateOf_def machine_ok_def split: option.splits)

lemma slow_put_ok:
  assumes "slow_ok b" and "machine_ok (sheap b) s" and "mid s = u"
  shows "slow_ok (put_slow b u s ev)"
  using assms by (simp add: slow_ok_def put_slow_def)

lemma slow_put_simps [simp]:
  "slow_stateOf (put_slow b u s ev) v t = (if v = u then s else slow_stateOf b v t)"
  "sgov (put_slow b u s ev) = sgov b" "sheap (put_slow b u s ev) = sheap b"
  by (simp_all add: slow_stateOf_def put_slow_def)

lemma slow_heap_ok: "slow_ok b \<Longrightarrow> slow_ok (b\<lparr>sheap := Suc (sheap b)\<rparr>)"
  by (auto simp: slow_ok_def intro: machine_ok_mono [of "sheap b"])

lemma slow_Allow_ok:
  assumes "slow_ok b" shows "slow_ok (fst (slow_Allow b u e))"
proof -
  let ?s = "slow_stateOf b u (born e)"
  obtain r s ev where g: "gov_allow (sgov b) (now e) (sheap b) ?s = (r, s, ev)"
    by (metis prod_cases3)
  have "machine_ok (Suc (sheap b)) s" "mid s = u"
    using slow_stateOf_ok [OF assms] gov_allow_ok [OF _ g] gov_allow_mid [of "sgov b" "now e" "sheap b" ?s] g
    by auto
  then show ?thesis
    using slow_put_ok [OF slow_heap_ok [OF assms]] by (simp add: slow_Allow_def g)
qed

lemma slow_StateOf_ok:
  assumes "slow_ok b" shows "slow_ok (fst (slow_StateOf b u e))"
proof -
  let ?s = "slow_stateOf b u (born e)"
  obtain r s ev where g: "gov_observe (sgov b) (now e) ?s = (r, s, ev)"
    by (metis prod_cases3)
  have "machine_ok (sheap b) s" "mid s = u"
    using slow_stateOf_ok [OF assms] gov_observe_ok [OF _ g] gov_observe_mid [of "sgov b" "now e" ?s] g
    by auto
  then show ?thesis using slow_put_ok [OF assms] by (simp add: slow_StateOf_def g)
qed

lemma slow_Reset_closed:
  assumes "slow_ok b"
  shows "slow_ok (slow_Reset b u e) \<and> mname (slow_stateOf (slow_Reset b u e) u t) = StateClosed"
proof -
  let ?s = "slow_stateOf b u (born e)"
  let ?r = "fst (enter (stamp e) ?s StateClosed clearWindow)"
  have r: "mname ?r = StateClosed" "probe ?r = None" "mid ?r = u"
    using slow_stateOf_ok [OF assms, of u "born e"]
    by (auto simp: enter_def clearWindow_def machine_ok_def)
  then have "machine_ok (sheap b) ((clearWindow ?r)\<lparr>swin := x\<rparr>)" "mid ((clearWindow ?r)\<lparr>swin := x\<rparr>) = u"
    "mname ((clearWindow ?r)\<lparr>swin := x\<rparr>) = StateClosed" for x
    by (simp_all add: machine_ok_def clearWindow_def)
  then show ?thesis
    using slow_put_ok [OF assms] by (simp add: slow_Reset_def Let_def case_prod_beta)
qed

lemma slow_report_ok:
  assumes "machine_ok fr s" and "slow_report_state ratio s g oc e = (s', ev)"
  shows "machine_ok fr s' \<and> mid s' = mid s"
  using assms
  by (auto simp: slow_report_state_def machine_ok_def enter_def reclaim_def clearWindow_def Let_def
      split: cstate.splits option.splits if_splits prod.splits)

lemma slow_Report_ok:
  assumes "slow_ok b" shows "slow_ok (fst (slow_Report b p oc e))"
proof -
  let ?s = "slow_stateOf b (pup p) (born e)"
  obtain s ev where r: "slow_report_state (slowRatio b) ?s (pgrant p) oc e = (s, ev)" by fastforce
  have "machine_ok (sheap b) s" "mid s = pup p"
    using slow_report_ok [OF _ r] slow_stateOf_ok [OF assms] by auto
  then show ?thesis using assms slow_put_ok by (simp add: slow_Report_def r)
qed

lemma slow_open_denies:
  assumes "slow_ok b" and "slow_StateOf b u e = (b', StateOpen)"
  shows "snd (slow_Allow b' u e) = None"
proof -
  let ?s = "slow_stateOf b u (born e)"
  obtain s ev where g: "gov_observe (sgov b) (now e) ?s = (StateOpen, s, ev)"
    and b': "b' = put_slow b u s ev"
    using assms(2) by (auto simp: slow_StateOf_def Let_def split: prod.splits)
  have "0 < cooldown (sgov b)" using assms(1) by (simp add: slow_ok_def)
  from gov_observe_open_denies [OF g this] show ?thesis by (simp add: slow_Allow_def b')
qed

interpretation slow: breaker_port slow_Allow slow_StateOf slow_Reset slow_Report slow_ok
proof (unfold_locales, goal_cases)
  case (6 b u e e')
  then show ?case using slow_Reset_closed [of b u e "born e'"] by (simp add: slow_Allow_def)
next
  case (7 b u e e')
  then show ?case
    using slow_Reset_closed [of b u e "born e'"] by (simp add: slow_StateOf_def gov_observe_def)
next
  case (8 b p oc e b' p' oc' e')
  then show ?case by (auto simp: slow_Report_def split: if_splits prod.splits)
next
  case (9 u v b e e')
  then show ?case by (simp add: slow_StateOf_def put_slow_def slow_stateOf_def case_prod_beta Let_def)
qed (simp_all add: slow_Allow_ok slow_StateOf_ok slow_Reset_closed slow_Report_ok slow_open_denies)

subsection \<open>What the window decides\<close>

lemma run_log_snoc: "run_log z stp w (es @ [(t, e)]) = add_event z (stp e) (run_log z stp w es) t"
  by (induction z stp w es rule: run_log.induct) simp_all

lemma last_time_snoc [simp]: "last_time p (es @ [(t, e)]) = t"
  by (induction p es rule: last_time.induct) simp_all

lemma sum_list_count:
  "sum_list (map (\<lambda>(s, e). if e then 1 else 0 :: int) xs) = int (length (filter snd xs))"
  by (induction xs) auto

lemma sum_list_one: "sum_list (map (\<lambda>(s, e). 1 :: int) xs) = int (length xs)"
  by (induction xs) auto

lemma share_counts:
  assumes "paced w0 w0 es" and "last_time w0 es \<le> t"
    and "w = run_log zero_slow slow_tick (empty_window zero_slow w0) es"
  shows "share w t = (int (length (recent w0 t es)), int (length (filter snd (recent w0 t es))))"
proof -
  have "sum_list (map btotal (live_buckets w t)) = int (length (recent w0 t es))"
    using live_sum [of btotal slow_tick "\<lambda>_. 1" zero_slow w0 es t w] assms
    by (simp add: slow_tick_def zero_slow_def Let_def sum_list_one)
  moreover have "sum_list (map bslow (live_buckets w t)) = int (length (filter snd (recent w0 t es)))"
    using live_sum [of bslow slow_tick "\<lambda>e. if e then 1 else 0" zero_slow w0 es t w] assms
    by (simp add: slow_tick_def zero_slow_def Let_def sum_list_count)
  ultimately show ?thesis by (simp add: share_def Let_def)
qed

definition slow_verdict :: "rat \<Rightarrow> (instant \<times> bool) list \<Rightarrow> cstate" where
  "slow_verdict ratio xs =
     (if slowMinSamples \<le> int (length xs) \<and>
         ratio \<le> fl (f64 (int (length (filter snd xs))) / f64 (int (length xs)))
      then StateOpen else StateClosed)"

definition demo_slow_log :: "(instant \<times> bool) list" where
  "demo_slow_log = map (\<lambda>i. (int i * Second, even i)) [0 ..< 12]"

text \<open>
  C24: the slow-call breaker opens on the share of the last ten seconds.  The window is
  a ring of forty buckets; as long as no two completions lie more than ten seconds
  apart, what it computes is exactly the count over the log of completions: reporting
  one more opens the machine precisely when the completions of the last forty buckets,
  this one included, are at least ten and their slow share reaches the configured
  ratio.
\<close>

theorem slow_opens_on_recent_share:
  assumes "mname st = StateClosed"
    and "swin st = run_log zero_slow slow_tick (empty_window zero_slow w0) es"
    and "oc \<noteq> OutcomeGatewayTerminated" and "slow = (oc = OutcomeSlow \<or> oc = OutcomeServerFault)"
    and "paced w0 w0 (es @ [(now e, slow)])"
  shows "mname (fst (slow_report_state ratio st g oc e)) =
    slow_verdict ratio (recent w0 (now e) (es @ [(now e, slow)]))"
proof -
  let ?es = "es @ [(now e, slow)]"
  have "record_slow (swin st) (now e) slow = run_log zero_slow slow_tick (empty_window zero_slow w0) ?es"
    by (simp add: record_slow_def assms(2) run_log_snoc)
  then have "share (record_slow (swin st) (now e) slow) (now e) =
      (int (length (recent w0 (now e) ?es)), int (length (filter snd (recent w0 (now e) ?es))))"
    using share_counts [OF assms(5)] by simp
  then show ?thesis
    using assms(1,3,4) by (auto simp: slow_report_state_def slow_verdict_def enter_def Let_def)
qed

theorem slow_opens_on_recent_share_witness:
  "let st = \<lparr>mid = ''a'', mname = StateClosed, openedAt = 0, probe = None,
             swin = run_log zero_slow slow_tick (empty_window zero_slow 0) demo_slow_log\<rparr>;
       e = env_at (11 * Second)
   in mname (fst (slow_report_state (1 / 2) st None OutcomeSlow e)) =
        slow_verdict (1 / 2) (recent 0 (11 * Second) (demo_slow_log @ [(11 * Second, True)])) \<and>
      slow_verdict (1 / 2) (recent 0 (11 * Second) (demo_slow_log @ [(11 * Second, True)])) = StateOpen"
proof -
  have v: "slow_verdict (1 / 2) (recent 0 (11 * Second) (demo_slow_log @ [(11 * Second, True)])) = StateOpen"
    by code_simp
  have "paced 0 0 (demo_slow_log @ [(now (env_at (11 * Second)), True)])" by code_simp
  from slow_opens_on_recent_share [OF _ _ _ _ this,
      of "\<lparr>mid = ''a'', mname = StateClosed, openedAt = 0, probe = None,
           swin = run_log zero_slow slow_tick (empty_window zero_slow 0) demo_slow_log\<rparr>" OutcomeSlow "1 / 2" None]
  show ?thesis using v by (simp add: Let_def env_at_def)
qed

text \<open>
  After a long idle period the window loses the evidence it just took.  The cursor
  moves at most forty buckets per write and takes the start of its bucket with it, so
  a completion recorded twenty seconds after the last one lies outside the window it
  was recorded in, and the next completion erases it.
\<close>

lemma idle_window_loses_evidence:
  "let w1 = record_slow (empty_window zero_slow 0) (20 * Second) True;
       w2 = record_slow w1 (20 * Second + 1) True
   in share w1 (20 * Second) = (0, 0) \<and> share w2 (20 * Second + 1) = (1, 1)"
  by code_simp

end
