(* ===== verification/Circuit_Ratio.thy ===== *)
theory Circuit_Ratio
  imports Circuit_Window
begin

text \<open>
  The ratio strategy, \<^verbatim>\<open>internal/circuit/ratio.go\<close>: no state machine, a deny
  probability computed from the rolling window.  The uniform draw of a call is part of
  its environment; the denial observer is the list of upstreams it was told.
\<close>

record ratio_bucket =
  rsuccess :: int
  rfailure :: int
  rdrop :: int

definition zero_ratio :: ratio_bucket where
  "zero_ratio = \<lparr>rsuccess = 0, rfailure = 0, rdrop = 0\<rparr>"

record ratio_state =
  rid :: string
  rwin :: "ratio_bucket window"
  lastPass :: instant

record ratio_history =
  htotal :: int
  haccepts :: int
  failingBuckets :: int
  workingBuckets :: int

record ratio_registry =
  rby :: "string \<rightharpoonup> ratio_state"
  denials :: "string list"

record ratio_permission =
  rpup :: string
  rpreported :: bool

definition ratioK :: rat where "ratioK = 3 / 2"
definition ratioMinK :: rat where "ratioMinK = 11 / 10"
definition ratioProtection :: int where "ratioProtection = 5"
definition ratioForcePass :: duration where "ratioForcePass = Second"

definition NewRatioRegistry :: ratio_registry where
  "NewRatioRegistry = \<lparr>rby = Map.empty, denials = []\<rparr>"

definition ratio_stateOf :: "ratio_registry \<Rightarrow> string \<Rightarrow> instant \<Rightarrow> ratio_state" where
  "ratio_stateOf r u t =
     (case rby r u of
        Some s \<Rightarrow> s
      | None \<Rightarrow> \<lparr>rid = u, rwin = empty_window zero_ratio t, lastPass = 0\<rparr>)"

definition put_ratio :: "ratio_registry \<Rightarrow> string \<Rightarrow> ratio_state \<Rightarrow> ratio_registry" where
  "put_ratio r u s = r\<lparr>rby := (rby r)(u \<mapsto> s)\<rparr>"

definition history_step :: "ratio_bucket \<Rightarrow> ratio_history \<Rightarrow> ratio_history" where
  "history_step b h =
     (let h1 = h\<lparr>htotal := htotal h + (rsuccess b + rfailure b + rdrop b),
                 haccepts := haccepts h + rsuccess b\<rparr>;
          h2 = (if rfailure b > 0 then h1\<lparr>workingBuckets := 0\<rparr>
                else if rsuccess b > 0 then h1\<lparr>workingBuckets := workingBuckets h1 + 1\<rparr> else h1)
      in if rsuccess b > 0 then h2\<lparr>failingBuckets := 0\<rparr>
         else if rfailure b > 0 then h2\<lparr>failingBuckets := failingBuckets h2 + 1\<rparr> else h2)"

definition history :: "ratio_bucket window \<Rightarrow> instant \<Rightarrow> ratio_history" where
  "history w t =
     fold history_step (live_buckets w t)
       \<lparr>htotal = 0, haccepts = 0, failingBuckets = 0, workingBuckets = 0\<rparr>"

definition add_ratio :: "ratio_state \<Rightarrow> instant \<Rightarrow> int \<Rightarrow> int \<Rightarrow> int \<Rightarrow> ratio_state" where
  "add_ratio s t success failure drp =
     s\<lparr>rwin := add_event zero_ratio
        (\<lambda>b. b\<lparr>rsuccess := rsuccess b + success, rfailure := rfailure b + failure, rdrop := rdrop b + drp\<rparr>)
        (rwin s) t\<rparr>"

definition drop_ratio :: "ratio_history \<Rightarrow> rat" where
  "drop_ratio h =
     (let weight = fl (ratioK - fl (fl (ratioK - ratioMinK) * fl (f64 (failingBuckets h) / 40)));
          weightedAccepts = fl (max weight (fl ratioMinK) * f64 (haccepts h))
      in fl (fl (f64 (htotal h - ratioProtection) - weightedAccepts) / f64 (htotal h + 1)))"

definition ratio_Allow :: "ratio_registry \<Rightarrow> string \<Rightarrow> call_env \<Rightarrow> ratio_registry \<times> ratio_permission option" where
  "ratio_Allow r u e =
     (let s = ratio_stateOf r u (now e);
          h = history (rwin s) (now e);
          perm = Some \<lparr>rpup = u, rpreported = False\<rparr>;
          dropRatio = drop_ratio h
      in if dropRatio \<le> 0 then (put_ratio r u s, perm)
         else if \<not> is_zero (lastPass s) \<and> time_sub (now e) (lastPass s) \<ge> ratioForcePass
         then (put_ratio r u (s\<lparr>lastPass := now e\<rparr>), perm)
         else let diluted = fl (dropRatio * fl (f64 (int window_size - workingBuckets h) / 40))
              in if draw e < diluted
                 then ((put_ratio r u (add_ratio s (now e) 0 0 1))\<lparr>denials := denials r @ [rid s]\<rparr>, None)
                 else (put_ratio r u (s\<lparr>lastPass := now e\<rparr>), perm))"

definition ratio_StateOf :: "ratio_registry \<Rightarrow> string \<Rightarrow> call_env \<Rightarrow> ratio_registry \<times> cstate" where
  "ratio_StateOf r u e = (r, StateClosed)"

definition ratio_Reset :: "ratio_registry \<Rightarrow> string \<Rightarrow> call_env \<Rightarrow> ratio_registry" where
  "ratio_Reset r u e =
     put_ratio r u ((ratio_stateOf r u (now e))\<lparr>rwin := empty_window zero_ratio (now e), lastPass := 0\<rparr>)"

definition ratio_Report ::
  "ratio_registry \<Rightarrow> ratio_permission \<Rightarrow> outcome \<Rightarrow> call_env \<Rightarrow> ratio_registry \<times> ratio_permission" where
  "ratio_Report r p oc e =
     (if rpreported p then (r, p)
      else let s = ratio_stateOf r (rpup p) (now e);
               s' = (case oc of
                       OutcomeServerFault \<Rightarrow> add_ratio s (now e) 0 1 0
                     | OutcomeGatewayTerminated \<Rightarrow> s
                     | _ \<Rightarrow> add_ratio s (now e) 1 0 0)
           in (put_ratio r (rpup p) s', p\<lparr>rpreported := True\<rparr>))"

subsection \<open>The window's totals\<close>

lemma history_step_totals:
  "htotal (history_step b h) = htotal h + (rsuccess b + rfailure b + rdrop b)"
  "haccepts (history_step b h) = haccepts h + rsuccess b"
  by (simp_all add: history_step_def Let_def)

lemma history_totals:
  "htotal (fold history_step bs h) = htotal h + sum_list (map (\<lambda>b. rsuccess b + rfailure b + rdrop b) bs)
   \<and> haccepts (fold history_step bs h) = haccepts h + sum_list (map rsuccess bs)"
  by (induction bs arbitrary: h) (simp_all add: history_step_totals)

text \<open>Counts never turn negative, so a window of few events cannot deny.\<close>

definition counts_ok :: "ratio_bucket \<Rightarrow> bool" where
  "counts_ok b \<longleftrightarrow> 0 \<le> rsuccess b \<and> 0 \<le> rfailure b \<and> 0 \<le> rdrop b"

definition win_ok :: "ratio_bucket window \<Rightarrow> bool" where
  "win_ok w \<longleftrightarrow> length (wbuckets w) = window_size \<and> woffset w < window_size \<and>
     (\<forall>b \<in> set (wbuckets w). counts_ok b)"

definition ratio_ok :: "ratio_registry \<Rightarrow> bool" where
  "ratio_ok r \<longleftrightarrow> (\<forall>u s. rby r u = Some s \<longrightarrow> win_ok (rwin s))"

lemma zero_ratio_ok [simp]: "counts_ok zero_ratio"
  by (simp add: counts_ok_def zero_ratio_def)

lemma empty_win_ok [simp]: "win_ok (empty_window zero_ratio t)"
  by (simp add: win_ok_def empty_window_def)

lemma clear_from_ok:
  assumes "\<forall>b \<in> set bs. P b" and "P z"
  shows "\<forall>b \<in> set (clear_from z bs off i n). P b"
  using assms
proof (induction z bs off i n rule: clear_from.induct)
  case (2 z bs off i n)
  have "\<forall>b \<in> set (bs[(off + i) mod window_size := z]). P b"
    using 2(2,3) set_update_subset_insert by fastforce
  then show ?case using 2 by simp
qed simp

lemma clear_from_length [simp]: "length (clear_from z bs off i n) = length bs"
  by (induction z bs off i n rule: clear_from.induct) simp_all

lemma roll_win_ok: "win_ok w \<Longrightarrow> win_ok (roll_window zero_ratio w t)"
  using clear_from_ok [of "wbuckets w" counts_ok zero_ratio]
  by (auto simp: win_ok_def roll_window_def Let_def)

lemma add_win_ok:
  assumes "win_ok w" and "\<And>b. counts_ok b \<Longrightarrow> counts_ok (f b)"
  shows "win_ok (add_event zero_ratio f w t)"
proof -
  let ?w = "roll_window zero_ratio w t"
  have ok: "win_ok ?w" by (rule roll_win_ok [OF assms(1)])
  then have "counts_ok (f (wbuckets ?w ! woffset ?w))"
    using assms(2) by (simp add: win_ok_def)
  then show ?thesis
    using ok set_update_subset_insert [of "wbuckets ?w" "woffset ?w" "f (wbuckets ?w ! woffset ?w)"]
    by (auto simp: win_ok_def add_event_def update_current_def)
qed

lemma add_ratio_ok:
  "win_ok (rwin s) \<Longrightarrow> 0 \<le> a \<Longrightarrow> 0 \<le> b \<Longrightarrow> 0 \<le> c \<Longrightarrow> win_ok (rwin (add_ratio s t a b c))"
  unfolding add_ratio_def by (simp, rule add_win_ok) (simp_all add: counts_ok_def)

lemma ratio_stateOf_ok: "ratio_ok r \<Longrightarrow> win_ok (rwin (ratio_stateOf r u t))"
  by (auto simp: ratio_ok_def ratio_stateOf_def split: option.splits)

lemma put_ratio_ok: "ratio_ok r \<Longrightarrow> win_ok (rwin s) \<Longrightarrow> ratio_ok (put_ratio r u s)"
  by (simp add: ratio_ok_def put_ratio_def)

lemma put_ratio_get [simp]: "ratio_stateOf (put_ratio r u s) u t = s"
  by (simp add: ratio_stateOf_def put_ratio_def)

lemma live_buckets_sub: "win_ok w \<Longrightarrow> set (live_buckets w t) \<subseteq> set (wbuckets w)"
  by (auto simp: live_buckets_def win_ok_def Let_def split: if_splits)

lemma accepts_nonneg:
  assumes "win_ok w" shows "0 \<le> haccepts (history w t)"
proof -
  have "0 \<le> sum_list (map rsuccess (live_buckets w t))"
    using live_buckets_sub [OF assms] assms by (intro sum_list_nonneg) (auto simp: win_ok_def counts_ok_def)
  then show ?thesis by (simp add: history_def history_totals)
qed

lemma total_nonneg:
  assumes "win_ok w" shows "0 \<le> htotal (history w t)"
proof -
  have "\<forall>b \<in> set (live_buckets w t). counts_ok b"
    using live_buckets_sub [OF assms, of t] assms by (auto simp: win_ok_def)
  then have "0 \<le> sum_list (map (\<lambda>b. rsuccess b + rfailure b + rdrop b) (live_buckets w t))"
    by (intro sum_list_nonneg) (auto simp: counts_ok_def)
  then show ?thesis by (simp add: history_def history_totals)
qed

text \<open>
  What the window may hold without any denial: five failures and denials, or, exactly
  counted, five more than a tenth of the successes.
\<close>

definition tolerated :: "ratio_history \<Rightarrow> bool" where
  "tolerated h \<longleftrightarrow> htotal h - haccepts h \<le> ratioProtection \<or>
     haccepts h \<le> 2 ^ 53 \<and> 10 * (htotal h - ratioProtection) \<le> 11 * haccepts h"

lemma ratioMinK_float: "11 / 10 \<le> fl ratioMinK"
  by code_simp

lemma tolerated_no_drop:
  assumes "tolerated h" and "0 \<le> haccepts h" and "0 \<le> htotal h"
  shows "drop_ratio h \<le> 0"
proof -
  let ?w = "max (fl (ratioK - fl (fl (ratioK - ratioMinK) * fl (f64 (failingBuckets h) / 40)))) (fl ratioMinK)"
  have w: "11 / 10 \<le> ?w" using ratioMinK_float by (simp add: le_max_iff_disj)
  have acc: "0 \<le> f64 (haccepts h)" using assms(2) by (rule f64_nonneg)
  have "f64 (htotal h - ratioProtection) \<le> fl (?w * f64 (haccepts h))"
  proof (cases "htotal h - haccepts h \<le> ratioProtection")
    case True
    then have "f64 (htotal h - ratioProtection) \<le> f64 (haccepts h)" by (intro f64_mono) simp
    also have "\<dots> \<le> fl (?w * f64 (haccepts h))"
      using fl_mono [of "f64 (haccepts h)" "?w * f64 (haccepts h)"] mult_right_mono [of 1 ?w "f64 (haccepts h)"] w acc by simp
    finally show ?thesis .
  next
    case False
    then have le: "haccepts h \<le> 2 ^ 53" "10 * (htotal h - ratioProtection) \<le> 11 * haccepts h"
      using assms(1) by (simp_all add: tolerated_def)
    then have "f64 (haccepts h) = of_int (haccepts h)" using assms(2) by (intro f64_exact) simp
    moreover have "of_int (htotal h - ratioProtection) \<le> 11 / 10 * (of_int (haccepts h) :: rat)"
      using of_int_le_iff [where 'a = rat, THEN iffD2, OF le(2)] by simp
    ultimately have "of_int (htotal h - ratioProtection) \<le> ?w * f64 (haccepts h)"
      using mult_right_mono [OF w acc] by simp
    then show ?thesis unfolding f64_def [of "htotal h - ratioProtection"] by (rule fl_mono)
  qed
  then have "fl (f64 (htotal h - ratioProtection) - fl (?w * f64 (haccepts h))) \<le> 0" by (intro fl_nonpos) simp
  moreover have "0 \<le> f64 (htotal h + 1)" using assms(3) by (intro f64_nonneg) simp
  ultimately show ?thesis
    unfolding drop_ratio_def Let_def by (intro fl_nonpos) (rule divide_nonpos_nonneg)
qed

lemma empty_total: "htotal (history (empty_window zero_ratio t0) t) = 0"
proof -
  have "\<forall>b \<in> set (live_buckets (empty_window zero_ratio t0) t). b = zero_ratio"
    using live_buckets_sub [OF empty_win_ok, of t0 t] by (auto simp: empty_window_def)
  then have "map (\<lambda>b. rsuccess b + rfailure b + rdrop b) (live_buckets (empty_window zero_ratio t0) t) =
      map (\<lambda>_. 0) (live_buckets (empty_window zero_ratio t0) t)"
    by (intro map_cong) (auto simp: zero_ratio_def)
  then have "sum_list (map (\<lambda>b. rsuccess b + rfailure b + rdrop b)
      (live_buckets (empty_window zero_ratio t0) t)) = 0"
    by (simp only: sum_list_0)
  then show ?thesis by (simp add: history_def history_totals)
qed

lemma ratio_Allow_ok:
  assumes "ratio_ok r" shows "ratio_ok (fst (ratio_Allow r u e))"
proof -
  let ?s = "ratio_stateOf r u (now e)"
  have w: "win_ok (rwin ?s)" "win_ok (rwin (add_ratio ?s (now e) 0 0 1))"
    using ratio_stateOf_ok [OF assms] by (simp_all add: add_ratio_ok)
  have "ratio_ok (put_ratio r u ?s)" "ratio_ok (put_ratio r u (?s\<lparr>lastPass := now e\<rparr>))"
    "ratio_ok (put_ratio r u (add_ratio ?s (now e) 0 0 1))"
    using put_ratio_ok [OF assms] w by simp_all
  then show ?thesis
    by (simp add: ratio_Allow_def Let_def) (simp add: ratio_ok_def)
qed

lemma ratio_Report_ok:
  assumes "ratio_ok r" shows "ratio_ok (fst (ratio_Report r p oc e))"
  using assms ratio_stateOf_ok [OF assms]
  by (auto simp: ratio_Report_def Let_def put_ratio_ok add_ratio_ok split: outcome.splits)

lemma ratio_Allow_tolerated:
  assumes "ratio_ok r" and "tolerated (history (rwin (ratio_stateOf r u (now e))) (now e))"
  shows "snd (ratio_Allow r u e) = Some \<lparr>rpup = u, rpreported = False\<rparr>"
proof -
  let ?w = "rwin (ratio_stateOf r u (now e))"
  have "drop_ratio (history ?w (now e)) \<le> 0"
    using ratio_stateOf_ok [OF assms(1)] assms(2)
    by (intro tolerated_no_drop accepts_nonneg total_nonneg)
  then show ?thesis by (simp add: ratio_Allow_def Let_def)
qed

lemma empty_tolerated: "tolerated (history (empty_window zero_ratio t0) t)"
  using accepts_nonneg [OF empty_win_ok, of t0 t] by (simp add: tolerated_def empty_total ratioProtection_def)

lemma ratio_Reset_ok: "ratio_ok r \<Longrightarrow> ratio_ok (ratio_Reset r u e)"
  by (simp add: ratio_Reset_def put_ratio_ok)

interpretation ratio: breaker_port ratio_Allow ratio_StateOf ratio_Reset ratio_Report ratio_ok
proof (unfold_locales, goal_cases)
  case (6 b u e e')
  have "ratio_stateOf (ratio_Reset b u e) u (now e') =
      (ratio_stateOf b u (now e))\<lparr>rwin := empty_window zero_ratio (now e), lastPass := 0\<rparr>"
    by (simp add: ratio_Reset_def)
  then show ?case
    using ratio_Allow_tolerated [of "ratio_Reset b u e" u e'] ratio_Reset_ok [OF 6] by (simp add: empty_tolerated)
next
  case (8 b p oc e b' p' oc' e')
  then show ?case by (auto simp: ratio_Report_def Let_def split: if_splits)
qed (simp_all add: ratio_Allow_ok ratio_Report_ok ratio_Reset_ok ratio_StateOf_def)

text \<open>
  C25: the ratio guard always lets evidence through.  A window with no more than five
  failures and denials admits every call whatever the draw, however many successes it
  holds; and as the weight of a success is at least 1.1, so does one whose failures and
  denials exceed a tenth of its successes by no more than five (counts up to \<open>2 ^ 53\<close>).
  Once a call was admitted against the guard, a call one forced-pass interval later is
  admitted whatever the window and the draw say.
\<close>

theorem ratio_guard_admits:
  assumes "ratio_ok r" and "s = ratio_stateOf r u (now e)" and "h = history (rwin s) (now e)"
    and "htotal h - haccepts h \<le> 5 \<or>
      haccepts h \<le> 2 ^ 53 \<and> 10 * (htotal h - 5) \<le> 11 * haccepts h \<or>
      \<not> is_zero (lastPass s) \<and> lastPass s + ratioForcePass \<le> now e"
  shows "snd (ratio_Allow r u e) = Some \<lparr>rpup = u, rpreported = False\<rparr>"
proof (cases "tolerated h")
  case True
  then show ?thesis using ratio_Allow_tolerated assms(1,2,3) by simp
next
  case False
  then have "ratioForcePass \<le> time_sub (now e) (lastPass s)" "\<not> is_zero (lastPass s)"
    using assms(4) time_sub_ge [of ratioForcePass "now e" "lastPass s"]
    by (auto simp: ratioForcePass_def MaxInt64_def tolerated_def ratioProtection_def)
  then show ?thesis using assms(2) by (simp add: ratio_Allow_def Let_def)
qed

definition demo_failures :: "int \<Rightarrow> int \<Rightarrow> ratio_registry" where
  "demo_failures good bad = \<lparr>rby = [''a'' \<mapsto> \<lparr>rid = ''a'', rwin =
       (empty_window zero_ratio Second)\<lparr>wbuckets :=
          \<lparr>rsuccess = good, rfailure = bad, rdrop = 0\<rparr> # replicate 39 zero_ratio\<rparr>, lastPass = Second\<rparr>],
     denials = []\<rparr>"

lemma demo_failures_ok: "0 \<le> good \<Longrightarrow> 0 \<le> bad \<Longrightarrow> ratio_ok (demo_failures good bad)"
  by (auto simp: ratio_ok_def demo_failures_def win_ok_def empty_window_def counts_ok_def
      zero_ratio_def window_size_def split: if_splits)

lemma demo_history:
  "history (rwin (ratio_stateOf (demo_failures 100 5) ''a'' (2 * Second - 1))) (2 * Second - 1) =
     \<lparr>htotal = 105, haccepts = 100, failingBuckets = 0, workingBuckets = 0\<rparr>"
  by code_simp

theorem ratio_guard_admits_witness:
  "snd (ratio_Allow (demo_failures 0 100) ''a'' \<lparr>born = 0, now = 2 * Second, stamp = 0, draw = 0\<rparr>) =
     Some \<lparr>rpup = ''a'', rpreported = False\<rparr> \<and>
   snd (ratio_Allow (demo_failures 0 100) ''a'' \<lparr>born = 0, now = 2 * Second - 1, stamp = 0, draw = 0\<rparr>) = None \<and>
   snd (ratio_Allow (demo_failures 100 5) ''a'' \<lparr>born = 0, now = 2 * Second - 1, stamp = 0, draw = 0\<rparr>) =
     Some \<lparr>rpup = ''a'', rpreported = False\<rparr>"
proof -
  have "snd (ratio_Allow (demo_failures 0 100) ''a'' \<lparr>born = 0, now = 2 * Second, stamp = 0, draw = 0\<rparr>) =
     Some \<lparr>rpup = ''a'', rpreported = False\<rparr>"
    by (rule ratio_guard_admits [OF _ refl refl])
      (simp_all add: demo_failures_ok, simp add: demo_failures_def ratio_stateOf_def is_zero_def ratioForcePass_def)
  moreover have "snd (ratio_Allow (demo_failures 100 5) ''a'' \<lparr>born = 0, now = 2 * Second - 1, stamp = 0, draw = 0\<rparr>) =
     Some \<lparr>rpup = ''a'', rpreported = False\<rparr>"
    by (rule ratio_guard_admits [OF _ refl refl]) (simp_all add: demo_failures_ok, use demo_history in simp)
  moreover have
    "snd (ratio_Allow (demo_failures 0 100) ''a'' \<lparr>born = 0, now = 2 * Second - 1, stamp = 0, draw = 0\<rparr>) = None"
    by code_simp
  ultimately show ?thesis by simp
qed

end
