(* ===== verification/Router.thy ===== *)
theory Router
  imports Router_Switch Circuit_Slow Circuit_Ratio "HOL-Library.Multiset"
begin

text \<open>
  Candidate selection (\<^verbatim>\<open>internal/router/priority.go\<close>) and the latency tracker that
  orders it (\<^verbatim>\<open>tracker.go\<close>).

  An upstream is whatever the adapters provide; only its \<open>ID()\<close> is used here, passed as
  \<open>uid\<close>.  The optional collaborators of \<open>Priority\<close> (switch, breaker, tracker) are
  option arguments, \<open>None\<close> for a nil field; the breaker is used through its port,
  \<open>state_of\<close> on an explicit breaker state, and \<open>clk u\<close> is the clock when \<open>u\<close> is looked
  at.  Scores are float64 values, every operation rounded by \<open>fl\<close>.  The library's
  stable sort is \<open>sort_key\<close>, and the random source is a number reduced to its range.
\<close>

subsection \<open>The tracker\<close>

datatype strategy = StrategyStatic | StrategyLatency

definition ParseStrategy :: "string \<Rightarrow> string + strategy" where
  "ParseStrategy s =
     (if s = '''' \<or> s = ''static'' then Inr StrategyStatic
      else if s = ''latency'' then Inr StrategyLatency
      else Inl s)"

definition ewmaAlpha :: rat where "ewmaAlpha = 1 / 4"
definition failurePenaltyMS :: rat where "failurePenaltyMS = 1000"

record track_entry =
  ewmaMS :: rat
  tfailures :: int

type_synonym tracker = "string \<rightharpoonup> track_entry"

definition NewTracker :: tracker where "NewTracker = Map.empty"

definition track_entry_of :: "tracker \<Rightarrow> string \<Rightarrow> track_entry" where
  "track_entry_of tr u = (case tr u of None \<Rightarrow> \<lparr>ewmaMS = 0, tfailures = 0\<rparr> | Some e \<Rightarrow> e)"

definition Record :: "tracker \<Rightarrow> string \<Rightarrow> duration \<Rightarrow> bool \<Rightarrow> tracker" where
  "Record tr u latency failed =
     (let e = track_entry_of tr u
      in if failed then tr(u \<mapsto> e\<lparr>tfailures := i64 (tfailures e + 1)\<rparr>)
         else let e1 = e\<lparr>tfailures := 0\<rparr>;
                  ms = f64 (latency sdiv Millisecond)
              in if ewmaMS e1 = 0 then tr(u \<mapsto> e1\<lparr>ewmaMS := ms\<rparr>)
                 else tr(u \<mapsto> e1\<lparr>ewmaMS := fl (fl (ewmaAlpha * ms) + fl ((1 - ewmaAlpha) * ewmaMS e1))\<rparr>))"

definition Score :: "tracker \<Rightarrow> string \<Rightarrow> rat" where
  "Score tr u =
     (case tr u of
        None \<Rightarrow> 0
      | Some e \<Rightarrow> fl (ewmaMS e + fl (f64 (tfailures e) * failurePenaltyMS)))"

subsection \<open>The priority router\<close>

definition wildcardModel :: string where "wildcardModel = ''*''"
definition latencyTieBuffer :: rat where "latencyTieBuffer = fl (1 / 10)"

record 'u entry =
  emodels :: "string set"
  eup :: 'u

record 'u binding =
  bmodels :: "string list"
  bup :: "'u option"

datatype binding_error = NoUpstream "string list" | NoModels

fun NewPriority :: "'u binding list \<Rightarrow> binding_error + 'u entry list" where
  "NewPriority [] = Inr []"
| "NewPriority (b # bs) =
     (case bup b of
        None \<Rightarrow> Inl (NoUpstream (bmodels b))
      | Some u \<Rightarrow>
          if bmodels b = [] then Inl NoModels
          else case NewPriority bs of
                 Inl err \<Rightarrow> Inl err
               | Inr es \<Rightarrow> Inr (\<lparr>emodels = set (bmodels b), eup = u\<rparr> # es))"

definition serves :: "string \<Rightarrow> 'u entry \<Rightarrow> bool" where
  "serves model e \<longleftrightarrow> model \<in> emodels e \<or> wildcardModel \<in> emodels e"

definition switched_on :: "switch option \<Rightarrow> string \<Rightarrow> bool" where
  "switched_on control u = (case control of None \<Rightarrow> True | Some s \<Rightarrow> UpstreamEnabled s u)"

text \<open>The loop over the bindings: the breaker state, the number of bound entries and the eligible ones.\<close>

fun eligible ::
  "('u \<Rightarrow> string) \<Rightarrow> switch option \<Rightarrow> ('b \<Rightarrow> string \<Rightarrow> call_env \<Rightarrow> 'b \<times> cstate) option \<Rightarrow>
   (string \<Rightarrow> call_env) \<Rightarrow> string \<Rightarrow> 'b \<Rightarrow> 'u entry list \<Rightarrow> 'b \<times> nat \<times> 'u list" where
  "eligible uid control breaker clk model b [] = (b, 0, [])"
| "eligible uid control breaker clk model b (e # es) =
     (if \<not> serves model e then eligible uid control breaker clk model b es
      else if \<not> switched_on control (uid (eup e)) then
        (let (b2, bound, us) = eligible uid control breaker clk model b es in (b2, Suc bound, us))
      else let (b1, st) = (case breaker of None \<Rightarrow> (b, StateClosed)
                           | Some state_of \<Rightarrow> state_of b (uid (eup e)) (clk (uid (eup e))));
               (b2, bound, us) = eligible uid control breaker clk model b1 es
           in (b2, Suc bound, if st = StateOpen then us else eup e # us))"

definition tie_limit :: "rat \<Rightarrow> rat" where
  "tie_limit best = fl (best + fl (best * latencyTieBuffer))"

definition tieCut :: "rat list \<Rightarrow> nat" where
  "tieCut ss = Suc (length (takeWhile (\<lambda>s. s \<le> tie_limit (hd ss)) (tl ss)))"

definition pickTied :: "nat \<Rightarrow> nat \<Rightarrow> nat" where
  "pickTied rnd n = rnd mod n"

definition lead_with :: "nat \<Rightarrow> 'u list \<Rightarrow> 'u list" where
  "lead_with j us = us[0 := us ! j, j := us ! 0]"

definition by_latency :: "('u \<Rightarrow> string) \<Rightarrow> tracker \<Rightarrow> nat \<Rightarrow> 'u list \<Rightarrow> 'u list" where
  "by_latency uid tr rnd us =
     (let scored = sort_key snd (map (\<lambda>u. (u, Score tr (uid u))) us);
          cands = map fst scored; scores = map snd scored; cut = tieCut scores
      in if cut > 1 then let j = pickTied rnd cut in if j \<noteq> 0 then lead_with j cands else cands
         else cands)"

definition Candidates ::
  "('u \<Rightarrow> string) \<Rightarrow> switch option \<Rightarrow> ('b \<Rightarrow> string \<Rightarrow> call_env \<Rightarrow> 'b \<times> cstate) option \<Rightarrow>
   strategy \<Rightarrow> tracker option \<Rightarrow> (string \<Rightarrow> call_env) \<Rightarrow> nat \<Rightarrow> 'u entry list \<Rightarrow> 'b \<Rightarrow> string \<Rightarrow>
   'b \<times> (router_error + 'u list)" where
  "Candidates uid control breaker strat tracker clk rnd entries b model =
     (if (case control of None \<Rightarrow> False | Some s \<Rightarrow> \<not> ModelEnabled s model) then (b, Inl ErrDisabled)
      else let (b1, bound, us) = eligible uid control breaker clk model b entries
           in if us = [] then (b1, Inl (if bound > 0 then ErrUnavailable else ErrNoUpstream model))
              else case (strat, tracker) of
                     (StrategyLatency, Some tr) \<Rightarrow> (b1, Inr (by_latency uid tr rnd us))
                   | _ \<Rightarrow> (b1, Inr us))"

subsection \<open>Scores are never negative\<close>

definition tracker_ok :: "tracker \<Rightarrow> bool" where
  "tracker_ok tr \<longleftrightarrow> (\<forall>u e. tr u = Some e \<longrightarrow> 0 \<le> ewmaMS e \<and> 0 \<le> tfailures e)"

lemma NewTracker_ok [simp]: "tracker_ok NewTracker"
  by (simp add: tracker_ok_def NewTracker_def)

lemma Record_ok:
  assumes "tracker_ok tr" and "0 \<le> latency" and "tfailures (track_entry_of tr u) < MaxInt64"
  shows "tracker_ok (Record tr u latency failed)"
proof -
  have e: "0 \<le> ewmaMS (track_entry_of tr u)" "0 \<le> tfailures (track_entry_of tr u)"
    using assms(1) by (auto simp: track_entry_of_def tracker_ok_def split: option.splits)
  have "0 \<le> i64 (tfailures (track_entry_of tr u) + 1)"
    using e(2) assms(3) by (subst i64_in_range) auto
  moreover have "0 \<le> f64 (latency sdiv Millisecond)"
    using assms(2) by (simp add: f64_nonneg sdiv_nonneg_pos)
  moreover have "0 \<le> fl (fl (ewmaAlpha * a) + fl ((1 - ewmaAlpha) * b))" if "0 \<le> a" "0 \<le> b" for a b
    using that by (simp add: ewmaAlpha_def fl_nonneg)
  ultimately show ?thesis using assms(1) e
    by (auto simp: tracker_ok_def Record_def Let_def)
qed

lemma Score_nonneg: "tracker_ok tr \<Longrightarrow> 0 \<le> Score tr u"
  by (auto simp: Score_def tracker_ok_def failurePenaltyMS_def f64_nonneg fl_nonneg split: option.split)

lemma fl_Score [simp]: "fl (Score tr u) = Score tr u"
  by (simp add: Score_def split: option.split)

lemma tie_limit_ge: "0 \<le> x \<Longrightarrow> fl x = x \<Longrightarrow> x \<le> tie_limit x"
  by (simp add: tie_limit_def latencyTieBuffer_def fl_nonneg fl_ge_fl)

subsection \<open>The latency order\<close>

lemma insort_key_map: "insort_key f (g x) (map g xs) = map g (insort_key (\<lambda>y. f (g y)) x xs)"
  by (induction xs) auto

lemma sort_key_map: "sort_key f (map g xs) = map g (sort_key (\<lambda>y. f (g y)) xs)"
  by (induction xs) (simp_all add: insort_key_map)

lemma sorted_split:
  assumes "sorted (map f xs)" and "\<And>x y. f x \<le> f y \<Longrightarrow> P y \<Longrightarrow> P x"
  shows "takeWhile P xs = filter P xs \<and> dropWhile P xs = filter (\<lambda>x. \<not> P x) xs"
  using assms(1)
proof (induction xs)
  case (Cons x xs)
  have "filter P xs = [] \<and> filter (\<lambda>x. \<not> P x) xs = xs" if "\<not> P x"
    using Cons.prems assms(2) that by (auto simp: filter_empty_conv filter_id_conv)
  then show ?case using Cons by auto
qed simp

lemma lead_with_append:
  "j < length xs \<Longrightarrow> lead_with j (xs @ ys) = lead_with j xs @ ys"
  by (cases xs) (auto simp: lead_with_def nth_append list_update_append split: nat.split)

lemma mset_lead_with: "j < length xs \<Longrightarrow> mset (lead_with j xs) = mset xs"
  unfolding lead_with_def using mset_swap [of j xs 0] by (cases xs) auto

lemma hd_sort_key_Min:
  "xs \<noteq> [] \<Longrightarrow> f (hd (sort_key f xs)) = Min (f ` set xs)"
proof -
  assume "xs \<noteq> []"
  then obtain y ys where s: "sort_key f xs = y # ys"
    by (metis length_0_conv length_sort neq_Nil_conv)
  have "sorted (map f (y # ys))" using s sorted_sort_key [of f xs] by simp
  then have "\<forall>z \<in> set (y # ys). f y \<le> f z" by auto
  moreover have "set xs = set (y # ys)" using s by (metis set_sort)
  ultimately show ?thesis by (simp only: s list.sel) (auto intro!: Min_eqI [symmetric])
qed

lemma by_latency_spec:
  assumes "tracker_ok tr" and "us \<noteq> []"
    and "P = (\<lambda>u. Score tr (uid u) \<le> tie_limit (Min ((\<lambda>u. Score tr (uid u)) ` set us)))"
  shows "mset (takeWhile P (by_latency uid tr rnd us)) = mset (filter P us) \<and>
    dropWhile P (by_latency uid tr rnd us) = sort_key (\<lambda>u. Score tr (uid u)) (filter (\<lambda>u. \<not> P u) us)"
proof -
  let ?f = "\<lambda>u. Score tr (uid u)"
  define S where "S = sort_key ?f us"
  define A B where "A = takeWhile P S" and "B = dropWhile P S"
  have scored: "map fst (sort_key snd (map (\<lambda>u. (u, ?f u)) us)) = S"
    "map snd (sort_key snd (map (\<lambda>u. (u, ?f u)) us)) = map ?f S"
    by (simp_all add: sort_key_map S_def comp_def)
  have "S \<noteq> []" using assms(2) by (metis S_def length_0_conv length_sort)
  then obtain y ys where S: "S = y # ys" by (cases S) auto
  have min: "?f y = Min (?f ` set us)"
    using hd_sort_key_Min [OF assms(2), of ?f] S by (simp add: S_def)
  have lim: "P = (\<lambda>u. ?f u \<le> tie_limit (?f y))" by (simp add: assms(3) min)
  have "P y" using tie_limit_ge [OF Score_nonneg [OF assms(1)]] by (simp add: lim)
  then have cut: "tieCut (map ?f S) = length A"
    by (simp add: tieCut_def A_def S lim takeWhile_map comp_def)
  have AB: "A = filter P S" "B = filter (\<lambda>u. \<not> P u) S"
    unfolding A_def B_def using sorted_split [of ?f S P] sorted_sort_key [of ?f us]
    by (auto simp: S_def lim elim: order_trans)
  have r: "\<exists>A'. by_latency uid tr rnd us = A' @ B \<and> mset A' = mset A"
  proof -
    have SAB: "S = A @ B" by (simp add: A_def B_def)
    have pick: "pickTied rnd (length A) < length A" if "1 < length A"
      unfolding pickTied_def using that by (intro mod_less_divisor) linarith
    then have "mset (lead_with (pickTied rnd (length A)) A) = mset A" if "1 < length A"
      using that mset_lead_with by blast
    then show ?thesis
      unfolding by_latency_def Let_def scored cut using pick
      by (auto simp: SAB lead_with_append)
  qed
  then obtain A' where A': "by_latency uid tr rnd us = A' @ B" "mset A' = mset A" by blast
  then have "set A' = set A" by (blast dest: mset_eq_setD)
  then have "\<forall>u \<in> set A'. P u" "\<forall>u \<in> set B. \<not> P u" using AB by auto
  then have "takeWhile P (A' @ B) = A'" "dropWhile P (A' @ B) = B"
    by (auto simp: takeWhile_append dropWhile_append takeWhile_eq_Nil_iff hd_in_set dropWhile_eq_self_iff)
  moreover have "mset A = mset (filter P us)" "B = sort_key ?f (filter (\<lambda>u. \<not> P u) us)"
    by (simp_all add: AB S_def filter_sort mset_filter)
  ultimately show ?thesis using A' by simp
qed

subsection \<open>What the walk over the bindings keeps\<close>

definition in_play ::
  "('u \<Rightarrow> string) \<Rightarrow> switch option \<Rightarrow> (string \<Rightarrow> cstate) \<Rightarrow> string \<Rightarrow> 'u entry \<Rightarrow> bool" where
  "in_play uid control rd model e \<longleftrightarrow>
     serves model e \<and> switched_on control (uid (eup e)) \<and> rd (uid (eup e)) \<noteq> StateOpen"

abbreviation (input) ids_of :: "('u \<Rightarrow> string) \<Rightarrow> 'u entry list \<Rightarrow> string list" where
  "ids_of uid es \<equiv> map (\<lambda>e. uid (eup e)) es"

context breaker_port
begin

lemma eligible_spec:
  assumes "distinct (ids_of uid es)" and "eligible uid control (Some state_of) clk model b es = (b', n, us)"
  shows "us = map eup (filter (in_play uid control (\<lambda>u. snd (state_of b u (clk u))) model) es) \<and>
    n = length (filter (serves model) es) \<and> (invar b \<longrightarrow> invar b')"
  using assms
proof (induction es arbitrary: b b' n us)
  case (Cons e es)
  let ?u = "uid (eup e)"
  let ?ok = "\<lambda>b. in_play uid control (\<lambda>u. snd (state_of b u (clk u))) model"
  have dist: "distinct (ids_of uid es)" using Cons.prems(1) by simp
  have frame: "filter (?ok (fst (state_of b ?u (clk ?u)))) es = filter (?ok b) es"
  proof (rule filter_cong [OF refl])
    fix x assume "x \<in> set es"
    then have "uid (eup x) \<noteq> ?u" using Cons.prems(1) by (auto simp: image_iff)
    then show "?ok (fst (state_of b ?u (clk ?u))) x = ?ok b x"
      by (simp add: in_play_def state_of_frame)
  qed
  consider (other) "\<not> serves model e" | (off) "serves model e" "\<not> switched_on control ?u"
    | (rd) "serves model e" "switched_on control ?u" by blast
  then show ?case
  proof cases
    case other
    then show ?thesis using Cons.IH [OF dist] Cons.prems(2) by (auto simp: in_play_def)
  next
    case off
    then obtain n0 where "eligible uid control (Some state_of) clk model b es = (b', n0, us)" "n = Suc n0"
      using Cons.prems(2) by (auto split: prod.splits)
    then show ?thesis using Cons.IH [OF dist] off by (auto simp: in_play_def)
  next
    case rd
    let ?b1 = "fst (state_of b ?u (clk ?u))"
    obtain n0 us0 where e: "eligible uid control (Some state_of) clk model ?b1 es = (b', n0, us0)" "n = Suc n0"
      "us = (if snd (state_of b ?u (clk ?u)) = StateOpen then us0 else eup e # us0)"
      using Cons.prems(2) rd by (auto split: prod.splits)
    have "?ok b e \<longleftrightarrow> snd (state_of b ?u (clk ?u)) \<noteq> StateOpen" using rd by (simp add: in_play_def)
    then show ?thesis
      using Cons.IH [OF dist e(1), unfolded frame] e rd(1) invar_state_of [of b ?u "clk ?u"] by auto
  qed
qed simp

lemma candidates_in_play:
  assumes "distinct (ids_of uid es)"
    and "E = map eup (filter (in_play uid control (\<lambda>u. snd (state_of b u (clk u))) model) es)"
    and "\<forall>s. control = Some s \<longrightarrow> ModelEnabled s model"
  shows "snd (Candidates uid control (Some state_of) strat tracker clk rnd es b model) =
    (if E = [] then Inl (if \<exists>e \<in> set es. serves model e then ErrUnavailable else ErrNoUpstream model)
     else Inr (case (strat, tracker) of (StrategyLatency, Some tr) \<Rightarrow> by_latency uid tr rnd E | _ \<Rightarrow> E))"
proof -
  obtain b' n us where w: "eligible uid control (Some state_of) clk model b es = (b', n, us)"
    by (cases "eligible uid control (Some state_of) clk model b es") auto
  from eligible_spec [OF assms(1) w] have "us = E" "0 < n \<longleftrightarrow> (\<exists>e \<in> set es. serves model e)"
    by (auto simp: assms(2) filter_empty_conv)
  then show ?thesis
    using w assms(3) by (auto simp: Candidates_def split: option.splits strategy.splits)
qed

lemma left_out_denied:
  "invar b \<Longrightarrow> e \<in> set es \<Longrightarrow> serves model e \<Longrightarrow> switched_on control (uid (eup e)) \<Longrightarrow>
   \<not> in_play uid control (\<lambda>u. snd (state_of b u (clk u))) model e \<Longrightarrow>
   snd (allow (fst (state_of b (uid (eup e)) (clk (uid (eup e))))) (uid (eup e)) (clk (uid (eup e)))) = None"
  using open_denies [of b "uid (eup e)" "clk (uid (eup e))"]
  by (metis in_play_def prod.collapse)

end

subsection \<open>Properties\<close>

text \<open>
  C9: the router offers exactly the eligible upstreams.  With distinct upstream ids and
  the model not disabled, the candidates are the bound upstreams that are switched on
  and whose breaker does not read open, in binding order under the static strategy;
  nothing eligible is told apart from no binding at all; and an upstream left out for
  its breaker would have been denied by it at that very moment.
\<close>

theorem candidates_exact:
  assumes "distinct (ids_of uid es)" and "registry_ok b"
    and "E = map eup (filter (in_play uid control (\<lambda>u. snd (StateOf b u (clk u))) model) es)"
    and "\<forall>s. control = Some s \<longrightarrow> ModelEnabled s model"
  shows "snd (Candidates uid control (Some StateOf) StrategyStatic tracker clk rnd es b model) =
      (if E \<noteq> [] then Inr E
       else Inl (if \<exists>e \<in> set es. serves model e then ErrUnavailable else ErrNoUpstream model)) \<and>
    (\<forall>e \<in> set es. serves model e \<longrightarrow> switched_on control (uid (eup e)) \<longrightarrow> eup e \<notin> set E \<longrightarrow>
       (let u = uid (eup e) in snd (Allow (fst (StateOf b u (clk u))) u (clk u)) = None))"
proof -
  have "snd (Allow (fst (StateOf b u (clk u))) u (clk u)) = None"
    if "e \<in> set es" "serves model e" "switched_on control (uid (eup e))" "eup e \<notin> set E" "u = uid (eup e)"
    for e u
    using reg.left_out_denied [of b e es model control uid clk] assms(2) that by (force simp: assms(3))
  then show ?thesis
    using reg.candidates_in_play [OF assms(1,3,4), of StrategyStatic tracker rnd] by (simp add: Let_def)
qed

definition demo_entries :: "string entry list" where
  "demo_entries =
     [\<lparr>emodels = {''m''}, eup = ''a''\<rparr>, \<lparr>emodels = {''*''}, eup = ''b''\<rparr>,
      \<lparr>emodels = {''x''}, eup = ''c''\<rparr>, \<lparr>emodels = {''m''}, eup = ''d''\<rparr>,
      \<lparr>emodels = {''m'', ''x''}, eup = ''e''\<rparr>, \<lparr>emodels = {''m''}, eup = ''f''\<rparr>]"

definition demo_registry :: registry where
  "demo_registry = fst (run_calls demo_config demo_opened)"

definition demo_control :: switch where
  "demo_control = fst (SetUpstream (NewSwitch [] [''d''] False) ''d'' False)"

lemma demo_registry_ok: "registry_ok demo_registry"
  using reach_invar [OF run_calls_reach] by (simp add: demo_registry_def)

lemma demo_in_play:
  "map eup (filter (in_play (\<lambda>u. u) (Some demo_control)
     (\<lambda>u. snd (StateOf demo_registry u (env_at 4))) ''m'') demo_entries) = [''b'', ''e'', ''f'']"
  unfolding demo_registry_def demo_opened_def demo_control_def demo_entries_def by code_simp

lemma demo_model_enabled: "\<forall>s. Some demo_control = Some s \<longrightarrow> ModelEnabled s ''m''"
  by (simp add: demo_control_def ModelEnabled_def SetUpstream_def NewSwitch_def)

theorem candidates_exact_witness:
  "snd (Candidates (\<lambda>u. u) (Some demo_control) (Some StateOf) StrategyStatic None (\<lambda>_. env_at 4) 0
     demo_entries demo_registry ''m'') = Inr [''b'', ''e'', ''f''] \<and>
   snd (Allow (fst (StateOf demo_registry ''a'' (env_at 4))) ''a'' (env_at 4)) = None"
proof -
  have "distinct (ids_of (\<lambda>u. u) demo_entries)" by (simp add: demo_entries_def)
  from candidates_exact [OF this demo_registry_ok demo_in_play [symmetric] demo_model_enabled, of None 0]
  show ?thesis
    by (simp add: demo_entries_def serves_def demo_control_def switched_on_def UpstreamEnabled_def
        SetUpstream_def NewSwitch_def wildcardModel_def lookup_delete_if Let_def)
qed

text \<open>
  The latency strategy leads with a near-best upstream and keeps the others in
  order.  The candidates are those of the static strategy; the ones within the tie
  buffer of the best score come first, in whatever order the draw leaves them, and the
  distinctly slower ones follow sorted by score, ties in binding order.
\<close>

theorem latency_order:
  assumes "tracker_ok tr" and "distinct (ids_of uid es)"
    and "E = map eup (filter (in_play uid control (\<lambda>u. snd (StateOf b u (clk u))) model) es)" and "E \<noteq> []"
    and "\<forall>s. control = Some s \<longrightarrow> ModelEnabled s model"
    and "tied = (\<lambda>u. Score tr (uid u) \<le> tie_limit (Min ((\<lambda>u. Score tr (uid u)) ` set E)))"
  shows "\<exists>cs. snd (Candidates uid control (Some StateOf) StrategyLatency (Some tr) clk rnd es b model) = Inr cs \<and>
    mset (takeWhile tied cs) = mset (filter tied E) \<and>
    dropWhile tied cs = sort_key (\<lambda>u. Score tr (uid u)) (filter (\<lambda>u. \<not> tied u) E)"
  using reg.candidates_in_play [OF assms(2,3,5), of StrategyLatency "Some tr" rnd]
    by_latency_spec [OF assms(1,4,6), of rnd] assms(4) by simp

definition demo_tracker :: tracker where
  "demo_tracker =
     Record (Record (Record NewTracker ''b'' (300 * Millisecond) False) ''e'' (105 * Millisecond) False)
       ''f'' (100 * Millisecond) False"

theorem latency_order_witness:
  "\<exists>cs. snd (Candidates (\<lambda>u. u) (Some demo_control) (Some StateOf) StrategyLatency (Some demo_tracker)
       (\<lambda>_. env_at 4) 1 demo_entries demo_registry ''m'') = Inr cs \<and>
     mset (takeWhile (\<lambda>u. Score demo_tracker u \<le> 110) cs) = {#''e'', ''f''#} \<and>
     dropWhile (\<lambda>u. Score demo_tracker u \<le> 110) cs = [''b'']"
proof -
  have score: "Score demo_tracker ''b'' = 300" "Score demo_tracker ''e'' = 105" "Score demo_tracker ''f'' = 100"
    unfolding demo_tracker_def by code_simp+
  have "tie_limit 100 = 110" by code_simp
  then have "tie_limit (Min ((\<lambda>u. Score demo_tracker u) ` set [''b'', ''e'', ''f''])) = 110"
    by (simp add: score)
  moreover have "tracker_ok demo_tracker"
    unfolding demo_tracker_def by (auto simp: tracker_ok_def NewTracker_def Record_def track_entry_of_def
        sdiv_nonneg_pos split: if_splits)
  moreover have "distinct (ids_of (\<lambda>u. u) demo_entries)" by (simp add: demo_entries_def)
  ultimately show ?thesis
    using latency_order [OF _ _ demo_in_play [symmetric] _ demo_model_enabled refl, of demo_tracker 1]
    by (simp add: score)
qed

end
