(* ===== verification/Affinity.thy ===== *)
theory Affinity
  imports Prelude "HOL-Library.Word" "HOL-Library.AList"
begin

unbundle bit_operations_syntax

text \<open>
  Prompt-prefix affinity (\<^verbatim>\<open>internal/affinity/affinity.go\<close>): one trie of hashed
  prompt chunks per model, every node holding the upstreams routed through its prefix.

  A node's \<open>children\<close> and the index's \<open>models\<close> are association lists with distinct keys
  (the invariants \<open>wf_node\<close> and \<open>index_ok\<close>), so that sizes can be computed; \<open>endpoints\<close>
  is a list without repetitions.  Go iterates both maps in an arbitrary order; the code's
  results do not depend on it.  A nil index is \<open>None\<close>.  FNV-1a is the hash of the Go
  library, on 64-bit words.
\<close>

definition chunkSize :: nat where "chunkSize = 128"
definition maxChunks :: nat where "maxChunks = 512"
definition maxNodes :: int where "maxNodes = 8192"
definition maxModels :: nat where "maxModels = 512"

subsection \<open>Chunks\<close>

definition fnv1a :: "string \<Rightarrow> 64 word" where
  "fnv1a s = fold (\<lambda>c h. (h XOR word_of_nat (of_char c)) * 1099511628211) s 14695981039346656037"

function chunk_from :: "string \<Rightarrow> 64 word list" where
  "chunk_from s = (if s = [] then [] else fnv1a (take chunkSize s) # chunk_from (drop chunkSize s))"
  by pat_completeness auto
termination by (relation "measure length") (auto simp: chunkSize_def)

declare chunk_from.simps [simp del]

definition chunkHashes :: "string \<Rightarrow> 64 word list" where
  "chunkHashes prompt =
     (let prompt = (if length prompt > maxChunks * chunkSize then take (maxChunks * chunkSize) prompt else prompt)
      in chunk_from prompt)"

subsection \<open>Tries\<close>

datatype node = Node (children: "(64 word \<times> node) list") (endpoints: "string list") (touched: instant)

record trie =
  root :: node
  nodes :: int

record index =
  models :: "(string \<times> trie) list"
  ttl :: duration
  sweptAt :: instant

definition NewIndex :: "duration \<Rightarrow> index option" where
  "NewIndex d = (if d \<le> 0 then None else Some \<lparr>models = [], ttl = d, sweptAt = 0\<rparr>)"

definition touch :: "instant \<Rightarrow> node \<Rightarrow> node" where
  "touch t n = Node (children n) (endpoints n) t"

definition put_child :: "64 word \<Rightarrow> node \<Rightarrow> node \<Rightarrow> node" where
  "put_child h c n = Node (AList.update h c (children n)) (endpoints n) (touched n)"

fun positions :: "nat \<Rightarrow> string list \<Rightarrow> (string \<rightharpoonup> int)" where
  "positions i [] = Map.empty"
| "positions i (u # ids) = (\<lambda>v. case positions (Suc i) ids v of Some j \<Rightarrow> Some j
                               | None \<Rightarrow> if v = u then Some (int i) else None)"

fun best_hit :: "(string \<rightharpoonup> int) \<Rightarrow> int \<Rightarrow> string list \<Rightarrow> int" where
  "best_hit pos hit [] = hit"
| "best_hit pos hit (u # us) =
     best_hit pos (case pos u of Some i \<Rightarrow> if hit < 0 \<or> i < hit then i else hit | None \<Rightarrow> hit) us"

fun match_walk :: "(string \<rightharpoonup> int) \<Rightarrow> instant \<Rightarrow> node \<Rightarrow> int \<Rightarrow> 64 word list \<Rightarrow> node \<times> int" where
  "match_walk pos t n best [] = (n, best)"
| "match_walk pos t n best (h # hs) =
     (case map_of (children n) h of
        None \<Rightarrow> (n, best)
      | Some c \<Rightarrow>
          (let c1 = touch t c; hit = best_hit pos (-1) (endpoints c1)
           in if hit < 0 then (put_child h c1 n, best)
              else let (c2, b) = match_walk pos t c1 hit hs in (put_child h c2 n, b)))"

definition trie_match :: "trie \<Rightarrow> 64 word list \<Rightarrow> string list \<Rightarrow> instant \<Rightarrow> trie \<times> int" where
  "trie_match tr chunks ids t =
     (let (n, best) = match_walk (positions 0 ids) t (root tr) (-1) chunks in (tr\<lparr>root := n\<rparr>, best))"

fun record_walk :: "string \<Rightarrow> instant \<Rightarrow> int \<Rightarrow> node \<Rightarrow> 64 word list \<Rightarrow> int \<times> node" where
  "record_walk u t k n [] = (k, n)"
| "record_walk u t k n (h # hs) =
     (case map_of (children n) h of
        None \<Rightarrow>
          if k \<ge> maxNodes then (k, n)
          else let (k1, c1) = record_walk u t (k + 1) (Node [] [u] t) hs in (k1, put_child h c1 n)
      | Some c \<Rightarrow>
          let (k1, c1) = record_walk u t k (Node (children c) (List.insert u (endpoints c)) t) hs
          in (k1, put_child h c1 n))"

definition trie_record :: "trie \<Rightarrow> 64 word list \<Rightarrow> string \<Rightarrow> instant \<Rightarrow> trie" where
  "trie_record tr chunks u t =
     (let (k, n) = record_walk u t (nodes tr) (touch t (root tr)) chunks in \<lparr>root = n, nodes = k\<rparr>)"

text \<open>\<open>prune\<close> answers the pruned node, the nodes removed below it and whether it expired.\<close>

fun prune :: "duration \<Rightarrow> instant \<Rightarrow> node \<Rightarrow> node \<times> int \<times> bool"
  and prune_all :: "duration \<Rightarrow> instant \<Rightarrow> (64 word \<times> node) list \<Rightarrow> (64 word \<times> node) list \<times> int" where
  "prune d t (Node ch eps tch) =
     (let (ch1, k) = prune_all d t ch in (Node ch1 eps tch, k, ch1 = [] \<and> time_sub t tch > d))"
| "prune_all d t [] = ([], 0)"
| "prune_all d t ((h, c) # cs) =
     (let (c1, k1, gone) = prune d t c; (cs1, k2) = prune_all d t cs
      in if gone then (cs1, k1 + k2 + 1) else ((h, c1) # cs1, k1 + k2))"

definition prune_trie :: "duration \<Rightarrow> instant \<Rightarrow> trie \<Rightarrow> trie" where
  "prune_trie d t tr = (let (n, k, gone) = prune d t (root tr) in \<lparr>root = n, nodes = nodes tr - k\<rparr>)"

definition sweep :: "index \<Rightarrow> instant \<Rightarrow> index" where
  "sweep x t =
     x\<lparr>models := filter (\<lambda>(model, tr). children (root tr) \<noteq> [])
          (map (\<lambda>(model, tr). (model, prune_trie (ttl x) t tr)) (models x)),
       sweptAt := t\<rparr>"

definition due_sweep :: "index \<Rightarrow> instant \<Rightarrow> bool" where
  "due_sweep x t \<longleftrightarrow> is_zero (sweptAt x) \<or> time_sub t (sweptAt x) \<ge> ttl x sdiv 2"

definition affinity_Pick :: "index option \<Rightarrow> string \<Rightarrow> string \<Rightarrow> string list \<Rightarrow> instant \<Rightarrow> index option \<times> int" where
  "affinity_Pick ox model prompt ids t =
     (case ox of
        None \<Rightarrow> (ox, -1)
      | Some x \<Rightarrow>
          if ids = [] then (ox, -1)
          else let chunks = chunkHashes prompt; x1 = (if due_sweep x t then sweep x t else x)
               in if map_of (models x1) model = None \<and> length (models x1) \<ge> maxModels then (Some x1, -1)
                  else let tr = (case map_of (models x1) model of Some tr \<Rightarrow> tr
                                 | None \<Rightarrow> \<lparr>root = Node [] [] t, nodes = 0\<rparr>);
                           (tr1, c) = trie_match tr chunks ids t;
                           chosen = (if c < 0 then 0 else c);
                           tr2 = trie_record tr1 chunks (ids ! nat chosen) t
                       in (Some (x1\<lparr>models := AList.update model tr2 (models x1)\<rparr>),
                           if chosen = 0 then -1 else chosen))"

subsection \<open>What a walk reads\<close>

text \<open>The endpoints and the stamps of the nodes along a chunk chain, as far as it exists.\<close>

fun path_nodes :: "node \<Rightarrow> 64 word list \<Rightarrow> node list" where
  "path_nodes n [] = []"
| "path_nodes n (h # hs) = (case map_of (children n) h of None \<Rightarrow> [] | Some c \<Rightarrow> c # path_nodes c hs)"

definition trail :: "node \<Rightarrow> 64 word list \<Rightarrow> string list list" where
  "trail n hs = map endpoints (path_nodes n hs)"

fun deepest :: "(string \<rightharpoonup> int) \<Rightarrow> int \<Rightarrow> string list list \<Rightarrow> int" where
  "deepest pos best [] = best"
| "deepest pos best (es # ess) =
     (let hit = best_hit pos (-1) es in if hit < 0 then best else deepest pos hit ess)"

lemma trail_simps [simp]:
  "trail n [] = []"
  "trail n (h # hs) = (case map_of (children n) h of None \<Rightarrow> [] | Some c \<Rightarrow> endpoints c # trail c hs)"
  by (simp_all add: trail_def split: option.split)

lemma touch_simps [simp]:
  "children (touch t n) = children n" "endpoints (touch t n) = endpoints n" "touched (touch t n) = t"
  by (simp_all add: touch_def)

lemma put_child_simps [simp]:
  "children (put_child h c n) = AList.update h c (children n)" "endpoints (put_child h c n) = endpoints n"
  "touched (put_child h c n) = touched n"
  by (simp_all add: put_child_def)

lemma trail_cong: "children n = children m \<Longrightarrow> trail n hs = trail m hs"
  by (cases hs) simp_all

lemma trail_touch [simp]: "trail (touch t n) hs = trail n hs"
  by (rule trail_cong) simp

lemma match_walk_deepest: "snd (match_walk pos t n best hs) = deepest pos best (trail n hs)"
  by (induction hs arbitrary: n best) (auto simp: Let_def case_prod_beta split: option.split)

lemma match_walk_endpoints [simp]: "endpoints (fst (match_walk pos t n best hs)) = endpoints n"
  by (cases hs) (auto simp: Let_def case_prod_beta split: option.split)

lemma match_walk_trail [simp]: "trail (fst (match_walk pos t n best hs)) gs = trail n gs"
proof (induction hs arbitrary: n best gs)
  case (Cons h hs)
  then show ?case
    by (cases gs) (auto simp: Let_def case_prod_beta update_conv split: option.split)
qed simp

subsection \<open>Well-formed tries\<close>

text \<open>
  Keys are distinct, and an upstream recorded at a node is recorded at every node above
  it (the root, which records nothing, apart).
\<close>

fun wf_node :: "node \<Rightarrow> bool" where
  "wf_node (Node ch eps t) \<longleftrightarrow>
     distinct (map fst ch) \<and> (\<forall>(h, c) \<in> set ch. set (endpoints c) \<subseteq> set eps \<and> wf_node c)"

definition wf_root :: "node \<Rightarrow> bool" where
  "wf_root n \<longleftrightarrow> distinct (map fst (children n)) \<and> (\<forall>(h, c) \<in> set (children n). wf_node c)"

fun count :: "node \<Rightarrow> int" where
  "count (Node ch eps t) = sum_list (map (\<lambda>(h, c). 1 + count c) ch)"

lemma wf_node_iff:
  "wf_node n \<longleftrightarrow> wf_root n \<and> (\<forall>(h, c) \<in> set (children n). set (endpoints c) \<subseteq> set (endpoints n))"
  by (cases n) (auto simp: wf_root_def)

lemma count_simp: "count n = sum_list (map (\<lambda>(h, c). 1 + count c) (children n))"
  by (cases n) simp

lemma wf_node_child:
  "wf_node n \<Longrightarrow> map_of (children n) h = Some c \<Longrightarrow> wf_node c \<and> set (endpoints c) \<subseteq> set (endpoints n)"
  by (cases n) (force dest: map_of_SomeD)

lemma wf_root_child: "wf_root n \<Longrightarrow> map_of (children n) h = Some c \<Longrightarrow> wf_node c"
  using map_of_SomeD [of "children n" h c] by (fastforce simp: wf_root_def)

lemma set_update_subset: "set (AList.update h c xs) \<subseteq> insert (h, c) (set xs)"
  by (induction xs) auto

lemma length_update_if:
  "length (AList.update h c xs) = (if h \<in> fst ` set xs then length xs else Suc (length xs))"
  by (induction xs) auto

lemma wf_root_put: "wf_root n \<Longrightarrow> wf_node c \<Longrightarrow> wf_root (put_child h c n)"
  using set_update_subset [of h c "children n"] by (auto simp: wf_root_def distinct_update)

lemma wf_node_put:
  "wf_node n \<Longrightarrow> wf_node c \<Longrightarrow> set (endpoints c) \<subseteq> set (endpoints n) \<Longrightarrow> wf_node (put_child h c n)"
  using set_update_subset [of h c "children n"] wf_root_put [of n c h]
  unfolding wf_node_iff [of n] wf_node_iff [of "put_child h c n"] by fastforce

lemma sum_update:
  "distinct (map fst xs) \<Longrightarrow>
   sum_list (map (\<lambda>(h, c). f c :: int) (AList.update h c xs)) =
     sum_list (map (\<lambda>(h, c). f c) xs) + f c - (case map_of xs h of None \<Rightarrow> 0 | Some c0 \<Rightarrow> f c0)"
  by (induction xs) (auto split: option.splits simp: map_of_eq_None_iff)

lemma count_put:
  "wf_root n \<Longrightarrow> count (put_child h c n) =
     count n + 1 + count c - (case map_of (children n) h of None \<Rightarrow> 0 | Some c0 \<Rightarrow> 1 + count c0)"
  using sum_update [of "children n" "\<lambda>c. 1 + count c" h c]
  by (simp add: count_simp [of n] count_simp [of "put_child h c n"] wf_root_def split: option.split)

lemma count_touch [simp]: "count (touch t n) = count n"
  by (simp add: count_simp [of "touch t n"] count_simp [of n])

lemma wf_touch [simp]: "wf_node (touch t n) = wf_node n" "wf_root (touch t n) = wf_root n"
  by (cases n; simp add: touch_def wf_root_def)+

lemma match_walk_wf:
  "wf_node n \<Longrightarrow> wf_node (fst (match_walk pos t n best hs)) \<and> count (fst (match_walk pos t n best hs)) = count n"
proof (induction hs arbitrary: n best)
  case (Cons h hs)
  have root: "wf_root n" using Cons.prems by (simp add: wf_node_iff)
  show ?case
  proof (cases "map_of (children n) h")
    case (Some c)
    then have c: "wf_node c" "set (endpoints c) \<subseteq> set (endpoints n)"
      using wf_node_child [OF Cons.prems Some] by auto
    then show ?thesis
      using Cons.IH [of "touch t c"] root Cons.prems
      by (auto simp: Some Let_def case_prod_beta count_put intro!: wf_node_put)
  qed (use Cons.prems in simp)
qed simp

lemma match_walk_wf_root:
  assumes "wf_root n"
  shows "wf_root (fst (match_walk pos t n best hs)) \<and> count (fst (match_walk pos t n best hs)) = count n"
proof (cases hs)
  case (Cons h gs)
  show ?thesis
  proof (cases "map_of (children n) h")
    case (Some c)
    then have "wf_node c" by (rule wf_root_child [OF assms])
    then show ?thesis
      using match_walk_wf [of "touch t c" pos t _ gs] assms
      by (auto simp: Cons Some Let_def case_prod_beta count_put intro!: wf_root_put)
  qed (use assms Cons in simp)
qed (use assms in simp)

subsection \<open>What a record writes\<close>

lemma record_walk_same [simp]:
  "endpoints (snd (record_walk u t k n hs)) = endpoints n" "touched (snd (record_walk u t k n hs)) = touched n"
  by (cases hs; auto simp: Let_def case_prod_beta split: option.split)+

lemma record_walk_trail:
  "\<exists>j. trail (snd (record_walk u t k n hs)) hs = map (List.insert u) (trail n hs) @ replicate j [u]"
proof (induction hs arbitrary: k n)
  case (Cons h hs)
  show ?case
  proof (cases "map_of (children n) h")
    case None
    have "trail (Node [] [u] t) hs = []" by (cases hs) simp_all
    then obtain j where "trail (snd (record_walk u t (k + 1) (Node [] [u] t) hs)) hs = replicate j [u]"
      using Cons.IH [of "k + 1" "Node [] [u] t"] by auto
    then show ?thesis
      using None by (cases "k \<ge> maxNodes")
        (auto simp: Let_def case_prod_beta update_conv intro: exI [of _ 0] exI [of _ "Suc j"])
  next
    case (Some c)
    have "trail (Node (children c) (List.insert u (endpoints c)) t) hs = trail c hs"
      by (rule trail_cong) simp
    then show ?thesis
      using Some Cons.IH [of k "Node (children c) (List.insert u (endpoints c)) t"]
      by (auto simp: Let_def case_prod_beta update_conv)
  qed
qed simp

lemma record_walk_fresh: "c \<in> set (path_nodes (snd (record_walk u t k n hs)) hs) \<Longrightarrow> touched c = t"
  by (induction hs arbitrary: k n)
    (auto simp: Let_def case_prod_beta update_conv split: option.splits if_splits)

lemma wf_more_endpoints: "wf_node c \<Longrightarrow> wf_node (Node (children c) (List.insert u (endpoints c)) t)"
  by (cases c) auto

lemma count_same: "children n = children m \<Longrightarrow> count n = count m"
  by (simp add: count_simp [of n] count_simp [of m])

lemma record_walk_wf:
  assumes "wf_node n" and "u \<in> set (endpoints n)"
  shows "wf_node (snd (record_walk u t k n hs)) \<and>
    fst (record_walk u t k n hs) = k + count (snd (record_walk u t k n hs)) - count n \<and>
    k \<le> fst (record_walk u t k n hs) \<and> fst (record_walk u t k n hs) \<le> max k maxNodes"
  using assms
proof (induction hs arbitrary: k n)
  case (Cons h hs)
  have root: "wf_root n" using Cons.prems by (simp add: wf_node_iff)
  show ?case
  proof (cases "map_of (children n) h")
    case None
    then show ?thesis
      using Cons.IH [of "Node [] [u] t" "k + 1"] Cons.prems root
      by (auto simp: Let_def case_prod_beta count_put intro!: wf_node_put)
  next
    case (Some c)
    let ?c = "Node (children c) (List.insert u (endpoints c)) t"
    have "wf_node ?c" "set (endpoints ?c) \<subseteq> set (endpoints n)" "count ?c = count c"
      using wf_node_child [OF Cons.prems(1) Some] Cons.prems(2) wf_more_endpoints count_same [of ?c c] by auto
    then show ?thesis
      using Some Cons.IH [of ?c k] Cons.prems root
      by (auto simp: Let_def case_prod_beta count_put intro!: wf_node_put)
  qed
qed simp

lemma record_walk_wf_root:
  assumes "wf_root n"
  shows "wf_root (snd (record_walk u t k n hs)) \<and>
    fst (record_walk u t k n hs) = k + count (snd (record_walk u t k n hs)) - count n \<and>
    k \<le> fst (record_walk u t k n hs) \<and> fst (record_walk u t k n hs) \<le> max k maxNodes"
proof (cases hs)
  case (Cons h gs)
  show ?thesis
  proof (cases "map_of (children n) h")
    case None
    then show ?thesis
      using record_walk_wf [of "Node [] [u] t" u t "k + 1" gs] assms
      by (auto simp: Cons Let_def case_prod_beta count_put intro!: wf_root_put)
  next
    case (Some c)
    let ?c = "Node (children c) (List.insert u (endpoints c)) t"
    have "wf_node ?c" "count ?c = count c"
      using wf_root_child [OF assms Some] wf_more_endpoints count_same [of ?c c] by auto
    then show ?thesis
      using Some record_walk_wf [of ?c u t k gs] assms
      by (auto simp: Cons Let_def case_prod_beta count_put intro!: wf_root_put)
  qed
qed (use assms in simp)

subsection \<open>What a prune removes\<close>

lemma prune_all_eq:
  "prune_all d t cs =
     (map (\<lambda>(h, c). (h, fst (prune d t c))) (filter (\<lambda>(h, c). \<not> snd (snd (prune d t c))) cs),
      sum_list (map (\<lambda>(h, c). fst (snd (prune d t c)) + (if snd (snd (prune d t c)) then 1 else 0)) cs))"
  by (induction cs) (auto simp: Let_def case_prod_beta)

lemma prune_same [simp]:
  "endpoints (fst (prune d t n)) = endpoints n" "touched (fst (prune d t n)) = touched n"
  by (cases n; simp add: case_prod_beta Let_def)+

lemma prune_children: "children (fst (prune d t n)) = fst (prune_all d t (children n))"
  by (cases n) (simp add: case_prod_beta Let_def)

lemma prune_gone: "snd (snd (prune d t n)) \<Longrightarrow> children (fst (prune d t n)) = [] \<and> time_sub t (touched n) > d"
  by (cases n) (simp add: case_prod_beta Let_def)

lemma distinct_keys_filter_map:
  "distinct (map fst cs) \<Longrightarrow> distinct (map fst (map (\<lambda>(h, c). (h, f c)) (filter P cs)))"
  by (induction cs) (auto simp: image_iff)

lemma prune_wf:
  "wf_node n \<Longrightarrow> wf_node (fst (prune d t n)) \<and> count (fst (prune d t n)) = count n - fst (snd (prune d t n))"
  "\<forall>(h, c) \<in> set cs. wf_node c \<Longrightarrow>
     (\<forall>(h, c) \<in> set (fst (prune_all d t cs)). wf_node c) \<and>
     sum_list (map (\<lambda>(h, c). 1 + count c) (fst (prune_all d t cs))) =
       sum_list (map (\<lambda>(h, c). 1 + count c) cs) - snd (prune_all d t cs)"
proof (induction d t n and d t cs rule: prune_prune_all.induct)
  case (1 d t ch eps tch)
  have "distinct (map fst (fst (prune_all d t ch)))"
    using 1 by (simp only: prune_all_eq fst_conv) (rule distinct_keys_filter_map, simp)
  moreover have "\<forall>(h, c) \<in> set (fst (prune_all d t ch)). set (endpoints c) \<subseteq> set eps"
    using "1.prems" by (auto simp: prune_all_eq)
  moreover have "\<forall>(h, c) \<in> set ch. wf_node c" using "1.prems" by auto
  note "1.IH" [OF this]
  ultimately show ?case by (auto simp: Let_def case_prod_unfold)
next
  case (3 d t h c cs)
  have z: "count (fst (prune d t c)) = 0" if "snd (snd (prune d t c))"
    using prune_gone [OF that] by (simp add: count_simp [of "fst (prune d t c)"])
  obtain c1 k1 g where p: "prune d t c = (c1, k1, g)" by (cases "prune d t c")
  obtain cs1 k2 where ps: "prune_all d t cs = (cs1, k2)" by (cases "prune_all d t cs")
  have "(\<forall>(h, c) \<in> set cs1. wf_node c) \<and>
      sum_list (map (\<lambda>(h, c). 1 + count c) cs1) = sum_list (map (\<lambda>(h, c). 1 + count c) cs) - k2"
    using "3.IH"(2) "3.prems" p ps by auto
  moreover have "wf_node c1" "count c1 = count c - k1" using "3.IH"(1) "3.prems" p by auto
  ultimately show ?case using z by (simp add: p ps)
qed simp

lemma map_of_filter_map:
  "distinct (map fst cs) \<Longrightarrow>
   map_of (map (\<lambda>(h, c). (h, f c)) (filter (\<lambda>(h, c). P c) cs)) h =
     (case map_of cs h of None \<Rightarrow> None | Some c \<Rightarrow> if P c then Some (f c) else None)"
  by (induction cs) (auto split: option.split simp: map_of_eq_None_iff image_iff)

lemma prune_trail:
  assumes "wf_root n" and "\<forall>c \<in> set (path_nodes n hs). time_sub t (touched c) \<le> d"
  shows "trail (fst (prune d t n)) hs = trail n hs"
  using assms
proof (induction hs arbitrary: n)
  case (Cons h hs)
  show ?case
  proof (cases "map_of (children n) h")
    case None
    then show ?thesis
      using Cons.prems(1) by (simp add: prune_children prune_all_eq map_of_filter_map wf_root_def)
  next
    case (Some c)
    have "wf_root c" using wf_root_child [OF Cons.prems(1) Some] by (simp add: wf_node_iff)
    moreover have "\<not> snd (snd (prune d t c))" using Cons.prems(2) Some prune_gone [of d t c] by auto
    ultimately show ?thesis
      using Cons.prems Cons.IH [of c] Some
      by (simp add: prune_children prune_all_eq map_of_filter_map wf_root_def)
  qed
qed simp

lemma prune_stamps:
  assumes "wf_root n" and "\<forall>c \<in> set (path_nodes n hs). time_sub t (touched c) \<le> d"
  shows "map touched (path_nodes (fst (prune d t n)) hs) = map touched (path_nodes n hs)"
  using assms
proof (induction hs arbitrary: n)
  case (Cons h hs)
  show ?case
  proof (cases "map_of (children n) h")
    case None
    then show ?thesis
      using Cons.prems(1) by (simp add: prune_children prune_all_eq map_of_filter_map wf_root_def)
  next
    case (Some c)
    have "wf_root c" using wf_root_child [OF Cons.prems(1) Some] by (simp add: wf_node_iff)
    moreover have "\<not> snd (snd (prune d t c))" using Cons.prems(2) Some prune_gone [of d t c] by auto
    ultimately show ?thesis
      using Cons.prems Cons.IH [of c] Some
      by (simp add: prune_children prune_all_eq map_of_filter_map wf_root_def)
  qed
qed simp

subsection \<open>The deepest hit\<close>

lemma positions_range:
  "positions i ids v = Some j \<Longrightarrow> int i \<le> j \<and> j < int (i + length ids)"
proof (induction ids arbitrary: i)
  case (Cons u ids)
  then show ?case using Cons.IH [of "Suc i"] by (auto split: option.splits if_splits)
qed simp

lemma positions_None: "v \<notin> set ids \<Longrightarrow> positions i ids v = None"
  by (induction i ids rule: positions.induct) auto

lemma positions_nth:
  "distinct ids \<Longrightarrow> k < length ids \<Longrightarrow> positions i ids (ids ! k) = Some (int (i + k))"
proof (induction i ids arbitrary: k rule: positions.induct)
  case (2 i u ids)
  then show ?case by (cases k) (auto simp: positions_None)
qed simp

definition hits :: "(string \<rightharpoonup> int) \<Rightarrow> string list \<Rightarrow> int set" where
  "hits pos us = {i. \<exists>u \<in> set us. pos u = Some i}"

lemma hits_simps [simp]:
  "hits pos [] = {}"
  "hits pos (u # us) = (case pos u of None \<Rightarrow> hits pos us | Some i \<Rightarrow> insert i (hits pos us))"
  "hits pos (List.insert u us) = (case pos u of None \<Rightarrow> hits pos us | Some i \<Rightarrow> insert i (hits pos us))"
  by (auto simp: hits_def List.insert_def split: option.splits)

lemma hits_mono: "set us \<subseteq> set vs \<Longrightarrow> hits pos us \<subseteq> hits pos vs"
  by (auto simp: hits_def)

lemma finite_hits [simp]: "finite (hits pos us)"
  by (induction us) (auto split: option.split)

lemma hits_Min: "(\<forall>u i. pos u = Some i \<longrightarrow> P i) \<Longrightarrow> hits pos us \<noteq> {} \<Longrightarrow> P (Min (hits pos us))"
  using Min_in [OF finite_hits, of pos us] unfolding hits_def by blast

lemma Min_insert_min: "finite S \<Longrightarrow> Min (insert (min i h) S) = Min (insert h (insert i (S :: int set)))"
  by (cases "S = {}") (simp_all add: min.commute min.left_commute)

lemma best_hit_Min:
  assumes "\<forall>u i. pos u = Some i \<longrightarrow> 0 \<le> i"
  shows "best_hit pos h us = (if h < 0 then if hits pos us = {} then h else Min (hits pos us)
    else Min (insert h (hits pos us)))"
proof (induction us arbitrary: h)
  case (Cons u us)
  show ?case
  proof (cases "pos u")
    case (Some i)
    then have "0 \<le> i" using assms by blast
    moreover have "(if h < 0 \<or> i < h then i else h) = (if h < 0 then i else min i h)" by auto
    moreover have "\<not> h < 0 \<longrightarrow> \<not> min i h < 0" using \<open>0 \<le> i\<close> by auto
    ultimately show ?thesis
      using Some Cons.IH Min_insert_min [OF finite_hits, of i h pos us]
      by (cases "h < 0") (simp_all del: Min_insert)
  qed (simp add: Cons.IH)
qed simp

lemma hit_insert:
  assumes "\<forall>u i. pos u = Some i \<longrightarrow> 0 \<le> i" and "pos u = Some c"
  shows "best_hit pos (-1) (List.insert u us) =
    (if best_hit pos (-1) us < 0 then c else min c (best_hit pos (-1) us))"
proof -
  have "\<not> Min (hits pos us) < 0" if "hits pos us \<noteq> {}"
    using hits_Min [OF assms(1) that] by linarith
  then show ?thesis using assms(2) by (auto simp: best_hit_Min [OF assms(1)])
qed

lemma hit_negative:
  assumes "\<forall>u i. pos u = Some i \<longrightarrow> 0 \<le> i"
  shows "best_hit pos (-1) us < 0 \<longleftrightarrow> hits pos us = {}"
proof -
  have "\<not> Min (hits pos us) < 0" if "hits pos us \<noteq> {}"
    using hits_Min [OF assms that] by linarith
  then show ?thesis by (auto simp: best_hit_Min [OF assms])
qed

text \<open>Recording the chosen upstream along the chain makes it the deepest hit of the chain.\<close>

lemma deepest_recorded_misses:
  assumes "\<forall>u i. pos u = Some i \<longrightarrow> 0 \<le> i" and "pos u = Some c" and "\<forall>es \<in> set T. hits pos es = {}"
  shows "deepest pos best (map (List.insert u) T @ replicate j [u]) = (if T = [] \<and> j = 0 then best else c)"
proof -
  have c: "0 \<le> c" using assms(1,2) by blast
  have "deepest pos b (replicate j [u]) = (if j = 0 then b else c)" for b
    using c assms(2) by (induction j arbitrary: b) (auto simp: Let_def)
  then show ?thesis
    using assms(3) c hit_insert [OF assms(1,2)] hit_negative [OF assms(1)]
    by (induction T arbitrary: best) (auto simp: Let_def)
qed

lemma deepest_recorded:
  assumes "\<forall>u i. pos u = Some i \<longrightarrow> 0 \<le> i" and "pos u = Some c"
    and "sorted_wrt (\<lambda>a b. set b \<subseteq> set a) T" and "c = max 0 (deepest pos b0 T)"
  shows "deepest pos best (map (List.insert u) T @ replicate j [u]) = (if T = [] \<and> j = 0 then best else c)"
  using assms(3,4)
proof (induction T arbitrary: best b0)
  case Nil
  then show ?case using deepest_recorded_misses [OF assms(1,2), of "[]"] by simp
next
  case (Cons es T)
  let ?h = "best_hit pos (-1) es"
  have c: "0 \<le> c" using assms(1,2) by blast
  show ?case
  proof (cases "?h < 0")
    case True
    then have "\<forall>fs \<in> set (es # T). hits pos fs = {}"
      using Cons.prems(1) hits_mono [of _ es pos] hit_negative [OF assms(1)] by auto
    then show ?thesis using deepest_recorded_misses [OF assms(1,2), of "es # T"] by simp
  next
    case False
    then have d: "c = max 0 (deepest pos ?h T)" using Cons.prems(2) by (simp add: Let_def)
    have h': "best_hit pos (-1) (List.insert u es) = min c ?h"
      using hit_insert [OF assms(1,2)] False by simp
    have "min c ?h = c" if "T = []" using d that False by simp
    moreover have "\<not> min c ?h < 0" using c False by simp
    ultimately show ?thesis
      using Cons.IH [of ?h "min c ?h"] Cons.prems(1) d by (simp add: h' Let_def)
  qed
qed

lemma deepest_range:
  "(\<forall>u i. pos u = Some i \<longrightarrow> 0 \<le> i \<and> i < n) \<Longrightarrow> -1 \<le> best \<Longrightarrow> best < n \<Longrightarrow>
     -1 \<le> deepest pos best T \<and> deepest pos best T < n"
proof (induction T arbitrary: best)
  case (Cons es T)
  have "hits pos es = {} \<or> Min (hits pos es) < n"
    using Cons.prems(1) hits_Min [of pos "\<lambda>i. i < n" es] by blast
  then have "best_hit pos (-1) es < 0 \<or> best_hit pos (-1) es < n"
    using best_hit_Min [of pos "-1" es] Cons.prems(1) by auto
  then show ?case using Cons by (auto simp: Let_def)
qed simp

lemma trail_nested:
  "wf_node n \<Longrightarrow> sorted_wrt (\<lambda>a b. set b \<subseteq> set a) (trail n hs) \<and> (\<forall>es \<in> set (trail n hs). set es \<subseteq> set (endpoints n))"
proof (induction hs arbitrary: n)
  case (Cons h hs)
  show ?case
  proof (cases "map_of (children n) h")
    case (Some c)
    then show ?thesis using wf_node_child [OF Cons.prems Some] Cons.IH [of c] by auto
  qed simp
qed simp

lemma trail_nested_root: "wf_root n \<Longrightarrow> sorted_wrt (\<lambda>a b. set b \<subseteq> set a) (trail n hs)"
  using wf_root_child [of n] trail_nested by (cases hs) (auto split: option.split)

subsection \<open>What other picks leave of a chain\<close>

text \<open>The length of the common head of two chains; what a walk along one does to the other.\<close>

fun lcp :: "64 word list \<Rightarrow> 64 word list \<Rightarrow> nat" where
  "lcp (g # gs) (h # hs) = (if g = h then Suc (lcp gs hs) else 0)"
| "lcp _ _ = 0"

lemma lcp_first: "take 1 gs \<noteq> take 1 hs \<Longrightarrow> lcp gs hs = 0"
  by (cases gs; cases hs) auto

lemma trail_lcp: "take (lcp gs hs) (trail n gs) = take (lcp gs hs) (trail n hs)"
  by (induction gs hs arbitrary: n rule: lcp.induct) (auto split: option.split)

lemma trail_fresh [simp]: "trail (Node [] es t) hs = []"
  by (cases hs) simp_all

lemma record_walk_lcp:
  "\<exists>j. trail (snd (record_walk u t k n gs)) hs =
      map (List.insert u) (take (lcp gs hs) (trail n hs)) @ replicate j [u] @ drop (lcp gs hs) (trail n hs) \<and>
    (j = 0 \<or> j + length (trail n hs) \<le> lcp gs hs)"
proof (induction gs hs arbitrary: k n rule: lcp.induct)
  case (1 g gs h hs)
  show ?case
  proof (cases "g = h")
    case same: True
    show ?thesis
    proof (cases "map_of (children n) h")
      case None
      show ?thesis
      proof (cases "k \<ge> maxNodes")
        case True
        then show ?thesis using None same by (auto intro: exI [of _ 0])
      next
        case False
        obtain j where "trail (snd (record_walk u t (k + 1) (Node [] [u] t) gs)) hs = replicate j [u]"
          "j = 0 \<or> j \<le> lcp gs hs"
          using "1.IH" [OF same, of "k + 1" "Node [] [u] t"] by auto
        then show ?thesis
          using None False same
          by (intro exI [of _ "Suc j"]) (auto simp: Let_def case_prod_beta update_conv)
      qed
    next
      case (Some c)
      have "trail (Node (children c) (List.insert u (endpoints c)) t) hs = trail c hs" by (rule trail_cong) simp
      then show ?thesis
        using Some same "1.IH" [OF same, of k "Node (children c) (List.insert u (endpoints c)) t"]
        by (auto simp: Let_def case_prod_beta update_conv)
    qed
  next
    case False
    then show ?thesis
      by (auto simp: Let_def case_prod_beta update_conv intro!: exI [of _ 0] split: option.split)
  qed
qed (auto intro: exI [of _ 0])

lemma stamps_simps [simp]:
  "touched ` set (path_nodes n []) = {}"
  "touched ` set (path_nodes n (h # hs)) =
     (case map_of (children n) h of None \<Rightarrow> {} | Some c \<Rightarrow> insert (touched c) (touched ` set (path_nodes c hs)))"
  by (auto split: option.split)

lemma path_cong: "children n = children m \<Longrightarrow> path_nodes n hs = path_nodes m hs"
  by (cases hs) simp_all

lemma record_walk_stamps:
  "touched ` set (path_nodes (snd (record_walk u t k n gs)) hs) \<subseteq> insert t (touched ` set (path_nodes n hs))"
proof (induction gs arbitrary: k n hs)
  case (Cons g gs)
  show ?case
  proof (cases hs)
    case hs: (Cons h hs')
    have new: "path_nodes (Node [] [u] t) hs' = []" by (cases hs') simp_all
    have more: "path_nodes (Node (children c) (List.insert u (endpoints c)) t) hs' = path_nodes c hs'" for c
      by (rule path_cong) simp
    show ?thesis
    proof (cases "map_of (children n) g")
      case None
      then show ?thesis
        using Cons.IH [of "k + 1" "Node [] [u] t" hs', unfolded new]
        by (auto simp: hs Let_def case_prod_beta update_conv split: option.split)
    next
      case (Some c)
      then show ?thesis
        using Cons.IH [of k "Node (children c) (List.insert u (endpoints c)) t" hs', unfolded more]
        by (auto simp: hs Let_def case_prod_beta update_conv split: option.split)
    qed
  qed simp
qed auto

lemma match_walk_stamps:
  "touched ` set (path_nodes (fst (match_walk pos t n best gs)) hs) \<subseteq> insert t (touched ` set (path_nodes n hs))"
proof (induction gs arbitrary: n best hs)
  case (Cons g gs)
  show ?case
  proof (cases hs)
    case hs: (Cons h hs')
    have more: "path_nodes (touch t c) hs' = path_nodes c hs'" for c
      by (rule path_cong) simp
    have same: "touched (fst (match_walk pos t c b gs)) = touched c" for c b
      by (cases gs) (auto simp: Let_def case_prod_beta split: option.split)
    show ?thesis
    proof (cases "map_of (children n) g")
      case (Some c)
      then show ?thesis
        using Cons.IH [of "touch t c" _ hs', unfolded more]
        by (auto simp: hs Let_def case_prod_beta update_conv same more split: option.split)
    qed auto
  qed simp
qed auto

subsection \<open>A chain that keeps its answer\<close>

text \<open>
  The chain answers \<open>c\<close> for some candidates: each of its nodes holds one of them, and the
  deepest hit is \<open>c\<close>, or there is no node and \<open>c\<close> is the head.
\<close>

definition answers :: "(string \<rightharpoonup> int) \<Rightarrow> int \<Rightarrow> string list list \<Rightarrow> bool" where
  "answers pos c T \<longleftrightarrow> (\<forall>es \<in> set T. hits pos es \<noteq> {}) \<and> c = max 0 (deepest pos (-1) T)"

lemma deepest_append:
  assumes "\<forall>u i. pos u = Some i \<longrightarrow> 0 \<le> i" and "\<forall>es \<in> set T. hits pos es \<noteq> {}"
  shows "deepest pos b (T @ R) = deepest pos (deepest pos b T) R"
  using assms(2) hit_negative [OF assms(1)] by (induction T arbitrary: b) (simp_all add: Let_def)

lemma deepest_member:
  assumes "\<forall>u i. pos u = Some i \<longrightarrow> 0 \<le> i"
  shows "deepest pos b R = b \<or> (\<exists>es \<in> set R. deepest pos b R \<in> hits pos es)"
proof (induction R arbitrary: b)
  case (Cons es R)
  show ?case
  proof (cases "hits pos es = {}")
    case True
    then show ?thesis using hit_negative [OF assms, of es] by (simp add: Let_def)
  next
    case False
    then have "best_hit pos (-1) es \<in> hits pos es"
      using Min_in [OF finite_hits False] by (simp add: best_hit_Min [OF assms])
    then show ?thesis
      using Cons.IH [of "best_hit pos (-1) es"] False hit_negative [OF assms, of es] by (auto simp: Let_def)
  qed
qed simp

lemma deepest_last:
  assumes "\<forall>u i. pos u = Some i \<longrightarrow> 0 \<le> i" and "\<forall>es \<in> set T. hits pos es \<noteq> {}" and "T \<noteq> []"
  shows "deepest pos b T = best_hit pos (-1) (last T)"
  using assms(2,3) hit_negative [OF assms(1)]
  by (induction T arbitrary: b) (auto simp: Let_def)

lemma hits_insert_superset: "hits pos es \<noteq> {} \<Longrightarrow> hits pos (List.insert u es) \<noteq> {}"
  by (auto split: option.split)

text \<open>
  A pick among the same candidates records, on the part of its chain that is common with
  ours, an upstream that leaves our answer what it was.
\<close>

lemma answers_recorded:
  assumes pos: "\<forall>u i. pos u = Some i \<longrightarrow> 0 \<le> i" and inj: "\<And>u v i. pos u = Some i \<Longrightarrow> pos v = Some i \<Longrightarrow> u = v"
    and "answers pos c T" and u: "pos u = Some (max 0 (deepest pos (-1) TQ))"
    and common: "take p TQ = take p T"
    and nested: "sorted_wrt (\<lambda>a b. set b \<subseteq> set a) T" "sorted_wrt (\<lambda>a b. set b \<subseteq> set a) TQ"
    and j: "j = 0 \<or> j + length T \<le> p"
  shows "answers pos c (map (List.insert u) (take p T) @ replicate j [u] @ drop p T)"
proof -
  note T = assms(3) [unfolded answers_def]
  let ?T = "map (List.insert u) (take p T) @ replicate j [u] @ drop p T"
  have hit: "\<forall>es \<in> set ?T. hits pos es \<noteq> {}"
    using T u hits_insert_superset by (auto simp: hits_def dest!: in_set_takeD in_set_dropD split: if_splits)
  show ?thesis
  proof (cases "p < length T")
    case True
    then have "j = 0" "drop p T \<noteq> []" "T \<noteq> []" using j by auto
    then have "last ?T = last T" "?T \<noteq> []" using True by auto
    then show ?thesis
      using hit T \<open>T \<noteq> []\<close> deepest_last [OF pos hit] deepest_last [OF pos, of T] by (auto simp: answers_def)
  next
    case False
    then have T': "?T = map (List.insert u) T @ replicate j [u]" by simp
    obtain R where TQ: "TQ = T @ R" using common False by (metis append_take_drop_id linorder_le_less_linear take_all)
    have dq: "deepest pos (-1) TQ = deepest pos (deepest pos (-1) T) R"
      unfolding TQ using deepest_append [OF pos] T by blast
    show ?thesis
    proof (cases "deepest pos (-1) TQ = deepest pos (-1) T")
      case True
      then have "deepest pos (-1) ?T = (if T = [] \<and> j = 0 then -1 else c)"
        unfolding T' using deepest_recorded [OF pos _ nested(1), of u c "-1" "-1" j] u T by simp
      then show ?thesis using hit T by (auto simp: answers_def)
    next
      case False
      then obtain es w where es: "es \<in> set R" "w \<in> set es" "pos w = Some (deepest pos (-1) TQ)"
        using deepest_member [OF pos, of "deepest pos (-1) T" R] dq by (auto simp: hits_def)
      then have "w = u" using u inj pos by (metis max_absorb2)
      have "set es \<subseteq> set fs" if "fs \<in> set T" for fs
        using nested(2) es(1) that by (auto simp: TQ sorted_wrt_append)
      then have "map (List.insert u) T = T" using es(2) \<open>w = u\<close> by (intro map_idI) (auto simp: List.insert_def)
      moreover have "j = 0"
      proof (rule ccontr)
        assume "j \<noteq> 0"
        then have "length T < p" using j by auto
        then have "take p TQ = TQ \<or> length (take p TQ) = p" by (auto simp: min_def)
        then have "R = []" using common \<open>length T < p\<close> by (auto simp: TQ)
        then show False using es(1) by simp
      qed
      ultimately show ?thesis using assms(3) T' by simp
    qed
  qed
qed

subsection \<open>The index\<close>

definition trie_ok :: "trie \<Rightarrow> bool" where
  "trie_ok tr \<longleftrightarrow> wf_root (root tr) \<and> nodes tr = count (root tr) \<and> nodes tr \<le> maxNodes"

definition index_ok :: "index \<Rightarrow> bool" where
  "index_ok x \<longleftrightarrow> distinct (map fst (models x)) \<and> length (models x) \<le> maxModels \<and>
     (\<forall>(model, tr) \<in> set (models x). trie_ok tr)"

definition path_of :: "index \<Rightarrow> string \<Rightarrow> 64 word list \<Rightarrow> node list" where
  "path_of x model hs = (case map_of (models x) model of None \<Rightarrow> [] | Some tr \<Rightarrow> path_nodes (root tr) hs)"

definition trail_of :: "index \<Rightarrow> string \<Rightarrow> 64 word list \<Rightarrow> string list list" where
  "trail_of x model hs = map endpoints (path_of x model hs)"

lemma trail_of_map:
  "trail_of x model hs = (case map_of (models x) model of None \<Rightarrow> [] | Some tr \<Rightarrow> trail (root tr) hs)"
  by (simp add: trail_of_def path_of_def trail_def split: option.split)

lemma index_ok_trie: "index_ok x \<Longrightarrow> map_of (models x) model = Some tr \<Longrightarrow> trie_ok tr"
  by (fastforce simp: index_ok_def dest: map_of_SomeD)

lemma new_trie_ok: "trie_ok \<lparr>root = Node [] [] t, nodes = 0\<rparr>"
  by (simp add: trie_ok_def wf_root_def maxNodes_def)


lemma trie_match_ok: "trie_ok tr \<Longrightarrow> trie_ok (fst (trie_match tr chunks ids t))"
  using match_walk_wf_root by (simp add: trie_ok_def trie_match_def case_prod_beta)

lemma trie_record_ok: "trie_ok tr \<Longrightarrow> trie_ok (trie_record tr chunks u t)"
  using record_walk_wf_root [of "touch t (root tr)" u t "nodes tr" chunks]
  by (auto simp: trie_ok_def trie_record_def case_prod_beta)

lemma prune_nonneg: "0 \<le> fst (snd (prune d t n))" "0 \<le> snd (prune_all d t cs)"
proof (induction d t n and d t cs rule: prune_prune_all.induct)
  case (3 d t h c cs)
  then show ?case by (cases "prune d t c"; cases "prune_all d t cs") auto
qed (auto simp: case_prod_beta Let_def)

lemma prune_trie_ok: "trie_ok tr \<Longrightarrow> trie_ok (prune_trie d t tr)"
proof -
  assume "trie_ok tr"
  then have tr: "wf_root (root tr)" "nodes tr = count (root tr)" "nodes tr \<le> maxNodes"
    by (simp_all add: trie_ok_def)
  let ?ch = "children (root tr)"
  have all: "(\<forall>(h, c) \<in> set (fst (prune_all d t ?ch)). wf_node c) \<and>
     sum_list (map (\<lambda>(h, c). 1 + count c) (fst (prune_all d t ?ch))) =
       sum_list (map (\<lambda>(h, c). 1 + count c) ?ch) - snd (prune_all d t ?ch)"
    using tr(1) by (intro prune_wf(2)) (simp add: wf_root_def)
  have "distinct (map fst (fst (prune_all d t ?ch)))"
    unfolding prune_all_eq fst_conv using tr(1)
    by (intro distinct_keys_filter_map) (simp add: wf_root_def)
  moreover have "fst (snd (prune d t (root tr))) = snd (prune_all d t ?ch)"
    by (cases "root tr") (simp add: case_prod_beta Let_def)
  ultimately show ?thesis
    using all tr prune_nonneg(2) [of d t ?ch]
    by (auto simp: trie_ok_def prune_trie_def case_prod_beta wf_root_def prune_children
        count_simp [of "fst (prune d t (root tr))"] count_simp [of "root tr"])
qed

lemma sweep_ok: "index_ok x \<Longrightarrow> index_ok (sweep x t)"
proof -
  assume ok: "index_ok x"
  let ?ms = "map (\<lambda>(model, tr). (model, prune_trie (ttl x) t tr)) (models x)"
  have "map fst ?ms = map fst (models x)" by (simp add: case_prod_beta)
  then have "distinct (map fst (filter P ?ms))" for P
    using ok distinct_map_filter [of fst ?ms P] unfolding index_ok_def by metis
  moreover have "length (filter P ?ms) \<le> maxModels" for P
    using ok le_trans [OF length_filter_le [of P ?ms], of maxModels] by (simp add: index_ok_def)
  ultimately show ?thesis
    using ok prune_trie_ok by (fastforce simp: index_ok_def sweep_def)
qed

lemma sweep_trail_of:
  assumes "index_ok x" and "\<forall>c \<in> set (path_of x model hs). time_sub t (touched c) \<le> ttl x"
  shows "trail_of (sweep x t) model hs = trail_of x model hs"
proof (cases "map_of (models x) model")
  case None
  then have "map_of (models (sweep x t)) model = None"
    by (auto simp: sweep_def map_of_eq_None_iff image_iff)
  then show ?thesis using None by (simp add: trail_of_map)
next
  case (Some tr)
  let ?tr = "prune_trie (ttl x) t tr"
  have tr: "trail (root ?tr) hs = trail (root tr) hs"
    using prune_trail [of "root tr" hs t "ttl x"] index_ok_trie [OF assms(1) Some] assms(2)
    by (simp add: prune_trie_def case_prod_beta trie_ok_def path_of_def Some)
  have "map_of (models (sweep x t)) model = (if children (root ?tr) \<noteq> [] then Some ?tr else None)"
  proof -
    have "distinct (map fst (models x))" using assms(1) by (simp add: index_ok_def)
    then have "map_of (filter (\<lambda>(m, tr). children (root tr) \<noteq> [])
        (map (\<lambda>(m, tr). (m, prune_trie (ttl x) t tr)) (models x))) model =
        (if children (root ?tr) \<noteq> [] then Some ?tr else None)"
      using map_of_filter_map [of "models x" "prune_trie (ttl x) t"
          "\<lambda>tr. children (root (prune_trie (ttl x) t tr)) \<noteq> []" model] Some
      by (simp add: filter_map comp_def case_prod_unfold)
    then show ?thesis by (simp add: sweep_def)
  qed
  moreover have "trail (root ?tr) hs = []" if "children (root ?tr) = []"
    using that by (cases hs) simp_all
  ultimately show ?thesis using tr Some by (auto simp: trail_of_map)
qed

lemma sweep_stamps:
  assumes "index_ok x" and "\<forall>c \<in> set (path_of x model hs). time_sub t (touched c) \<le> ttl x"
  shows "touched ` set (path_of (sweep x t) model hs) \<subseteq> touched ` set (path_of x model hs)"
proof (cases "map_of (models x) model")
  case None
  then have "map_of (models (sweep x t)) model = None"
    by (auto simp: sweep_def map_of_eq_None_iff image_iff)
  then show ?thesis using None by (simp add: path_of_def)
next
  case (Some tr)
  let ?tr = "prune_trie (ttl x) t tr"
  have tr: "map touched (path_nodes (root ?tr) hs) = map touched (path_nodes (root tr) hs)"
    using prune_stamps [of "root tr" hs t "ttl x"] index_ok_trie [OF assms(1) Some] assms(2)
    by (simp add: prune_trie_def case_prod_beta trie_ok_def path_of_def Some)
  have "map_of (models (sweep x t)) model \<in> {None, Some ?tr}"
  proof -
    have "distinct (map fst (models x))" using assms(1) by (simp add: index_ok_def)
    then show ?thesis
      using map_of_filter_map [of "models x" "prune_trie (ttl x) t"
          "\<lambda>tr. children (root (prune_trie (ttl x) t tr)) \<noteq> []" model] Some
      by (simp add: sweep_def filter_map comp_def case_prod_unfold)
  qed
  then show ?thesis using arg_cong [where f = set, OF tr] Some by (auto simp: path_of_def)
qed

lemma sweep_ttl [simp]: "ttl (sweep x t) = ttl x"
  by (simp add: sweep_def)

text \<open>What one pick returns and what it leaves, in terms of the trail it read.\<close>

definition swept :: "index \<Rightarrow> instant \<Rightarrow> index" where
  "swept x t = (if due_sweep x t then sweep x t else x)"

lemma swept_ok: "index_ok x \<Longrightarrow> index_ok (swept x t)"
  by (simp add: swept_def sweep_ok)

lemma Pick_result:
  assumes "ids \<noteq> []"
  shows "snd (affinity_Pick (Some x) model prompt ids t) =
    (let c = deepest (positions 0 ids) (-1) (trail_of (swept x t) model (chunkHashes prompt))
     in if c \<le> 0 then -1 else c)"
proof -
  have new: "trail (Node [] [] t) hs = []" for hs by (cases hs) simp_all
  show ?thesis
    using assms
    by (auto simp: affinity_Pick_def swept_def [symmetric] trie_match_def trail_of_map
        match_walk_deepest new Let_def case_prod_beta split: option.split)
qed

lemma Pick_leaves:
  assumes "index_ok x" and "ids \<noteq> []" and "affinity_Pick (Some x) model prompt ids t = (Some x1, c)"
    and "hs = chunkHashes prompt" and "T = trail_of (swept x t) model hs"
    and "u = ids ! nat (max 0 (deepest (positions 0 ids) (-1) T))"
  shows "(\<exists>j. trail_of x1 model hs = map (List.insert u) T @ replicate j [u]) \<and>
    (\<forall>n \<in> set (path_of x1 model hs). touched n = t) \<and> index_ok x1 \<and> ttl x1 = ttl x"
proof -
  let ?x = "swept x t"
  have ok: "index_ok ?x" by (rule swept_ok [OF assms(1)])
  have ttl: "ttl ?x = ttl x" by (simp add: swept_def)
  show ?thesis
  proof (cases "map_of (models ?x) model = None \<and> length (models ?x) \<ge> maxModels")
    case True
    then have "x1 = ?x"
      using assms(2,3) by (simp add: affinity_Pick_def swept_def [symmetric])
    then show ?thesis using True ok ttl assms(5) by (auto simp: trail_of_map path_of_def intro: exI [of _ 0])
  next
    case False
    define tr where "tr = (case map_of (models ?x) model of Some tr \<Rightarrow> tr | None \<Rightarrow> \<lparr>root = Node [] [] t, nodes = 0\<rparr>)"
    define tr1 where "tr1 = fst (trie_match tr hs ids t)"
    define tr2 where "tr2 = trie_record tr1 hs u t"
    have "trail (Node [] [] t) hs = []" by (cases hs) simp_all
    then have T: "T = trail (root tr) hs"
      using assms(5) by (simp add: trail_of_map tr_def split: option.split)
    have "max 0 k = (if k < 0 then 0 else k :: int)" for k by simp
    then have "snd (trie_match tr hs ids t) = deepest (positions 0 ids) (-1) T"
      by (simp add: trie_match_def case_prod_beta match_walk_deepest T)
    then have u: "u = ids ! nat (if snd (trie_match tr hs ids t) < 0 then 0 else snd (trie_match tr hs ids t))"
      using assms(6) by (simp add: max_def)
    have x1: "x1 = ?x\<lparr>models := AList.update model tr2 (models ?x)\<rparr>"
      using False assms(2,3) unfolding tr2_def tr1_def u tr_def assms(4)
      by (auto simp: affinity_Pick_def swept_def [symmetric] Let_def case_prod_beta)
    have "trail (root tr1) hs = T" by (simp add: tr1_def trie_match_def case_prod_beta T)
    then have "\<exists>j. trail (root tr2) hs = map (List.insert u) T @ replicate j [u]"
      using record_walk_trail [of u t "nodes tr1" "touch t (root tr1)" hs]
      by (simp add: tr2_def trie_record_def case_prod_beta)
    moreover have "\<forall>n \<in> set (path_nodes (root tr2) hs). touched n = t"
      using record_walk_fresh by (simp add: tr2_def trie_record_def case_prod_beta)
    moreover have "trie_ok tr2"
      using index_ok_trie [OF ok, of model] new_trie_ok [of t]
      by (auto simp: tr2_def tr1_def tr_def intro!: trie_record_ok trie_match_ok split: option.split)
    moreover have "length (AList.update model tr2 (models ?x)) \<le> maxModels"
      using ok False by (auto simp: index_ok_def length_update_if map_of_eq_None_iff)
    ultimately show ?thesis
      using ok ttl set_update_subset [of model tr2 "models ?x"]
      by (auto simp: x1 trail_of_map path_of_def update_conv index_ok_def distinct_update)
  qed
qed

lemma Pick_index_ok:
  "index_ok x \<Longrightarrow> \<exists>x1. fst (affinity_Pick (Some x) model prompt ids t) = Some x1 \<and> index_ok x1 \<and> ttl x1 = ttl x"
proof (cases "ids = []")
  case False
  assume ok: "index_ok x"
  have "fst (affinity_Pick (Some x) model prompt ids t) \<noteq> None"
    using False by (simp add: affinity_Pick_def Let_def case_prod_beta)
  then obtain x1 where "fst (affinity_Pick (Some x) model prompt ids t) = Some x1" by blast
  then show ?thesis
    using Pick_leaves [OF ok False _ refl refl refl, of model prompt t x1] by (metis prod.collapse)
qed (simp add: affinity_Pick_def)

lemma positions_deepest_range:
  "ids \<noteq> [] \<Longrightarrow> -1 \<le> deepest (positions 0 ids) (-1) T \<and> deepest (positions 0 ids) (-1) T < int (length ids)"
  using positions_range [of 0 ids] by (intro deepest_range) auto

type_synonym pick_call = "string \<times> string \<times> string list \<times> instant"

definition pick_call :: "index option \<Rightarrow> pick_call \<Rightarrow> index option" where
  "pick_call ox c = (case c of (model, prompt, ids, t) \<Rightarrow> fst (affinity_Pick ox model prompt ids t))"

lemma run_picks_ok:
  "index_ok x \<Longrightarrow> \<exists>x1. foldl pick_call (Some x) cs = Some x1 \<and> index_ok x1"
proof (induction cs arbitrary: x)
  case (Cons c cs)
  obtain model prompt ids t where c: "c = (model, prompt, ids, t)" by (cases c)
  obtain x1 where "pick_call (Some x) c = Some x1" "index_ok x1"
    using Pick_index_ok [OF Cons.prems, of model prompt ids t] by (auto simp: pick_call_def c)
  then show ?case using Cons.IH by simp
qed simp

lemma positions_inverse: "positions i ids v = Some j \<Longrightarrow> ids ! nat (j - int i) = v"
proof (induction ids arbitrary: i j)
  case (Cons u ids)
  show ?case
  proof (cases "positions (Suc i) ids v")
    case None
    then show ?thesis using Cons.prems by (auto split: if_splits)
  next
    case (Some k)
    then have k: "k = j" using Cons.prems by simp
    then have "int (Suc i) \<le> j" using positions_range [OF Some] by simp
    then have "nat (j - int i) = Suc (nat (j - int (Suc i)))" by simp
    then show ?thesis using Cons.IH [OF Some] k by simp
  qed
qed simp

lemma positions_inj: "positions 0 ids u = Some i \<Longrightarrow> positions 0 ids v = Some i \<Longrightarrow> u = v"
  by (metis positions_inverse)

text \<open>What a pick does to the tries, whatever chain they are read along.\<close>

lemma Pick_tries:
  assumes "index_ok x" and "ids \<noteq> []" and "affinity_Pick (Some x) model prompt ids t = (Some x1, c)"
  obtains (full) "x1 = swept x t"
  | (recorded) tr u where "x1 = (swept x t)\<lparr>models :=
        AList.update model (trie_record tr (chunkHashes prompt) u t) (models (swept x t))\<rparr>"
      "wf_root (root tr)" "\<And>hs. trail (root tr) hs = trail_of (swept x t) model hs"
      "\<And>hs. touched ` set (path_nodes (root tr) hs) \<subseteq> insert t (touched ` set (path_of (swept x t) model hs))"
      "u = ids ! nat (max 0 (deepest (positions 0 ids) (-1) (trail_of (swept x t) model (chunkHashes prompt))))"
proof -
  let ?x = "swept x t" and ?hs = "chunkHashes prompt"
  have ok: "index_ok ?x" by (rule swept_ok [OF assms(1)])
  show thesis
  proof (cases "map_of (models ?x) model = None \<and> length (models ?x) \<ge> maxModels")
    case True
    then have "x1 = ?x" using assms(2,3) by (simp add: affinity_Pick_def swept_def [symmetric])
    then show thesis by (rule full)
  next
    case False
    define tr where "tr = (case map_of (models ?x) model of Some tr \<Rightarrow> tr | None \<Rightarrow> \<lparr>root = Node [] [] t, nodes = 0\<rparr>)"
    define tr1 where "tr1 = fst (trie_match tr ?hs ids t)"
    have T: "trail (root tr) hs = trail_of ?x model hs" for hs
      by (simp add: trail_of_map tr_def split: option.split)
    have stamps: "touched ` set (path_nodes (root tr) hs) = touched ` set (path_of ?x model hs)" for hs
      by (cases hs) (auto simp: tr_def path_of_def split: option.split)
    have "max 0 k = (if k < 0 then 0 else k :: int)" for k by simp
    then have u: "ids ! nat (if snd (trie_match tr ?hs ids t) < 0 then 0 else snd (trie_match tr ?hs ids t)) =
        ids ! nat (max 0 (deepest (positions 0 ids) (-1) (trail_of ?x model ?hs)))"
      by (simp add: trie_match_def case_prod_beta match_walk_deepest T max_def)
    have "x1 = ?x\<lparr>models := AList.update model
        (trie_record tr1 ?hs (ids ! nat (max 0 (deepest (positions 0 ids) (-1) (trail_of ?x model ?hs)))) t) (models ?x)\<rparr>"
      using False assms(2,3) unfolding tr1_def u [symmetric] tr_def
      by (auto simp: affinity_Pick_def swept_def [symmetric] Let_def case_prod_beta)
    moreover have "wf_root (root tr1)"
      using trie_match_ok [of tr ?hs ids t] index_ok_trie [OF ok, of model] new_trie_ok [of t]
      by (auto simp: tr1_def tr_def trie_ok_def split: option.split)
    moreover have "trail (root tr1) hs = trail_of ?x model hs" for hs
      by (simp add: tr1_def trie_match_def case_prod_beta T)
    moreover have "touched ` set (path_nodes (root tr1) hs) \<subseteq> insert t (touched ` set (path_of ?x model hs))" for hs
      using match_walk_stamps [of "positions 0 ids" t "root tr" "-1" ?hs hs]
      by (simp add: tr1_def trie_match_def case_prod_beta stamps)
    ultimately show thesis using recorded [of tr1] by blast
  qed
qed

text \<open>
  The index answers \<open>c\<close> to a chain of hashes, whose nodes were all used in a time window.
\<close>

definition sticky :: "index \<Rightarrow> string \<Rightarrow> 64 word list \<Rightarrow> string list \<Rightarrow> int \<Rightarrow> instant \<Rightarrow> instant \<Rightarrow> bool" where
  "sticky x model hs ids c t1 t2 \<longleftrightarrow> index_ok x \<and> t2 - t1 \<le> ttl x \<and>
     answers (positions 0 ids) c (trail_of x model hs) \<and> touched ` set (path_of x model hs) \<subseteq> {t1..t2}"

lemma sticky_swept:
  assumes "sticky x model hs ids c t1 t2" and "t1 \<le> t" and "t \<le> t2"
  shows "sticky (swept x t) model hs ids c t1 t2"
proof -
  have "time_sub t (touched n) \<le> ttl x" if "n \<in> set (path_of x model hs)" for n
  proof -
    have "touched n \<in> {t1..t2}" using assms(1) that by (auto simp: sticky_def)
    then show ?thesis using assms by (auto simp: sticky_def time_sub_def sat64_def MinInt64_def)
  qed
  then show ?thesis
    using assms(1) sweep_trail_of [of x model hs t] sweep_stamps [of x model hs t] swept_ok [of x t]
    by (auto simp: sticky_def swept_def)
qed

lemma sticky_pick:
  assumes "sticky x model hs ids c t1 t2" and "t1 \<le> t" and "t \<le> t2" and "distinct ids"
    and "m = model \<longrightarrow> ids' = ids \<or> take 1 (chunkHashes q) \<noteq> take 1 hs"
    and pick: "affinity_Pick (Some x) m q ids' t = (Some x1, c')"
  shows "sticky x1 model hs ids c t1 t2"
proof (cases "ids' = []")
  case False
  have ok: "index_ok x" "index_ok x1" "ttl x1 = ttl x"
    using assms(1) Pick_index_ok [of x m q ids' t] pick by (auto simp: sticky_def)
  note sw = sticky_swept [OF assms(1-3)]
  show ?thesis
    using ok(1) False pick
  proof (cases rule: Pick_tries)
    case (recorded tr u)
    let ?T = "trail_of (swept x t) model hs" and ?gs = "chunkHashes q"
    show ?thesis
    proof (cases "m = model")
      case False
      then show ?thesis using sw recorded(1) ok(2) by (simp add: sticky_def trail_of_map path_of_def update_conv)
    next
      case True
      let ?p = "lcp ?gs hs" and ?n = "snd (record_walk u t (nodes tr) (touch t (root tr)) ?gs)"
      have same: "path_nodes (touch t (root tr)) hs = path_nodes (root tr) hs" by (rule path_cong) simp
      have x1: "trail_of x1 model hs = trail ?n hs" "path_of x1 model hs = path_nodes ?n hs"
        using recorded(1) True by (simp_all add: trail_of_map path_of_def update_conv trie_record_def case_prod_beta)
      have T: "trail (touch t (root tr)) hs = ?T" using recorded(3) True by simp
      obtain j where j: "trail ?n hs = map (List.insert u) (take ?p ?T) @ replicate j [u] @ drop ?p ?T"
        "j = 0 \<or> j + length ?T \<le> ?p"
        using record_walk_lcp [of u t "nodes tr" "touch t (root tr)" ?gs hs] unfolding T by blast
      have ans: "answers (positions 0 ids) c ?T" using sw by (simp add: sticky_def)
      have "answers (positions 0 ids) c (trail ?n hs)"
      proof (cases "take 1 ?gs = take 1 hs")
        case same_first: True
        then have ids: "ids' = ids" "ids \<noteq> []" using assms(5) True False by simp_all
        let ?TQ = "trail_of (swept x t) model ?gs"
        have range: "nat (max 0 (deepest (positions 0 ids) (-1) ?TQ)) < length ids"
          using positions_deepest_range [OF ids(2), of ?TQ] ids(2) by (auto simp: max_def)
        have u: "positions 0 ids u = Some (max 0 (deepest (positions 0 ids) (-1) ?TQ))"
          using positions_nth [OF assms(4) range, of 0] recorded(5) ids True by simp
        have ge: "\<forall>v i. positions 0 ids v = Some i \<longrightarrow> 0 \<le> i" using positions_range [of 0 ids] by fastforce
        have common: "take ?p ?TQ = take ?p ?T"
          using trail_lcp [of ?gs hs "root tr"] recorded(3) True by simp
        have nested: "sorted_wrt (\<lambda>a b. set b \<subseteq> set a) ?T" "sorted_wrt (\<lambda>a b. set b \<subseteq> set a) ?TQ"
          using trail_nested_root [OF recorded(2)] recorded(3) True by auto
        show ?thesis
          unfolding j(1) by (rule answers_recorded [OF ge _ ans u common nested j(2)]) (rule positions_inj)
      next
        case False
        then have "?p = 0" by (rule lcp_first)
        then show ?thesis using j ans by auto
      qed
      moreover have "touched ` set (path_nodes ?n hs) \<subseteq> {t1..t2}"
      proof -
        have "touched ` set (path_nodes ?n hs) \<subseteq> insert t (touched ` set (path_of (swept x t) model hs))"
          using record_walk_stamps [of u t "nodes tr" "touch t (root tr)" ?gs hs] recorded(4) [of hs] True
          unfolding same by blast
        also have "\<dots> \<subseteq> {t1..t2}" using sw assms(2,3) by (simp add: sticky_def)
        finally show ?thesis .
      qed
      ultimately show ?thesis using assms(1) ok x1 by (simp add: sticky_def)
    qed
  qed (use sw in simp)
qed (use assms(1) pick in \<open>simp add: affinity_Pick_def\<close>)

lemma sticky_picks:
  assumes "sticky x model hs ids c t1 t2" and "distinct ids"
    and "\<forall>(m, q, ids', t) \<in> set cs. t1 \<le> t \<and> t \<le> t2 \<and>
      (m = model \<longrightarrow> ids' = ids \<or> take 1 (chunkHashes q) \<noteq> take 1 hs)"
  shows "\<exists>y. foldl pick_call (Some x) cs = Some y \<and> sticky y model hs ids c t1 t2"
  using assms(1,3)
proof (induction cs arbitrary: x)
  case (Cons a cs)
  obtain m q ids' t where a: "a = (m, q, ids', t)" by (cases a)
  have "index_ok x" using Cons.prems(1) by (simp add: sticky_def)
  then obtain x1 c' where pick: "affinity_Pick (Some x) m q ids' t = (Some x1, c')"
    using Pick_index_ok [of x m q ids' t] by (metis prod.collapse)
  have cond: "t1 \<le> t" "t \<le> t2" "m = model \<longrightarrow> ids' = ids \<or> take 1 (chunkHashes q) \<noteq> take 1 hs"
    using Cons.prems(2) by (simp_all add: a)
  have "sticky x1 model hs ids c t1 t2" by (rule sticky_pick [OF Cons.prems(1) cond(1,2) assms(2) cond(3) pick])
  then show ?case using Cons.IH Cons.prems(2) pick by (simp add: pick_call_def a)
qed simp

text \<open>A pick leaves its own chain with the answer it gave.\<close>

lemma Pick_sticky:
  assumes "index_ok x" and "distinct ids" and "ids \<noteq> []" and "affinity_Pick (Some x) model prompt ids t1 = (Some x1, c)"
    and "t1 \<le> t2" and "t2 - t1 \<le> ttl x" and "hs = chunkHashes prompt"
    and "d = deepest (positions 0 ids) (-1) (trail_of (swept x t1) model hs)"
  shows "sticky x1 model hs ids (max 0 d) t1 t2"
proof -
  let ?T = "trail_of (swept x t1) model hs"
  define u where "u = ids ! nat (max 0 d)"
  have range: "nat (max 0 d) < length ids"
    using positions_deepest_range [OF assms(3), of ?T] assms(3) by (auto simp: assms(8) max_def)
  have pos: "positions 0 ids u = Some (max 0 d)"
    using positions_nth [OF assms(2) range, of 0] by (simp add: u_def)
  have ge: "\<forall>v i. positions 0 ids v = Some i \<longrightarrow> 0 \<le> i" using positions_range [of 0 ids] by fastforce
  obtain j where T': "trail_of x1 model hs = map (List.insert u) ?T @ replicate j [u]"
    and fresh: "\<forall>n \<in> set (path_of x1 model hs). touched n = t1" and ok: "index_ok x1" "ttl x1 = ttl x"
    using Pick_leaves [OF assms(1,3,4,7) refl, of u] by (auto simp: u_def assms(8))
  have "sorted_wrt (\<lambda>a b. set b \<subseteq> set a) ?T"
    using index_ok_trie [OF swept_ok [OF assms(1)], of t1 model] trail_nested_root
    by (auto simp: trail_of_map trie_ok_def split: option.split)
  then have deep: "deepest (positions 0 ids) (-1) (trail_of x1 model hs) = (if ?T = [] \<and> j = 0 then -1 else max 0 d)"
    unfolding T' by (intro deepest_recorded [OF ge pos]) (simp_all add: assms(8))
  moreover have "?T = [] \<Longrightarrow> d = -1" by (simp add: assms(8))
  moreover have "\<forall>es \<in> set (trail_of x1 model hs). hits (positions 0 ids) es \<noteq> {}"
    using pos by (auto simp: T' hits_def)
  ultimately have "answers (positions 0 ids) (max 0 d) (trail_of x1 model hs)" by (auto simp: answers_def)
  then show ?thesis using ok assms(5,6) fresh by (auto simp: sticky_def)
qed

lemma sticky_answer:
  assumes "sticky x model (chunkHashes prompt) ids c t1 t2" and "t1 \<le> t2" and "ids \<noteq> []"
  shows "snd (affinity_Pick (Some x) model prompt ids t2) = (if c \<le> 0 then -1 else c)"
  using sticky_swept [OF assms(1,2) order_refl] Pick_result [OF assms(3), of x model prompt t2]
  by (auto simp: sticky_def answers_def Let_def)

subsection \<open>Properties\<close>

text \<open>
  C29: a prompt sticks to the upstream that served it.  Whatever else the index holds,
  when the same prompt comes back for the same model and the same candidates no later
  than the TTL, the index promotes the same candidate again, the ceilings on nodes and
  models and the sweeps notwithstanding.  Between the two there may be any number of
  picks within the window, in any order: of other models, of the same model with the
  same candidates and any prompt, and of the same model with any candidates and a prompt
  whose first chunk differs.  Only a pick of the model with other candidates and a
  prompt of the same first chunk can change the answer (\<open>other_candidates_move\<close>).
\<close>

theorem affinity_sticky:
  assumes "index_ok x" and "distinct ids" and "affinity_Pick (Some x) model prompt ids t1 = (Some x1, c)"
    and "t1 \<le> t2" and "t2 - t1 \<le> ttl x"
    and "\<forall>(m, q, ids', t) \<in> set cs. t1 \<le> t \<and> t \<le> t2 \<and>
      (m = model \<longrightarrow> ids' = ids \<or> take 1 (chunkHashes q) \<noteq> take 1 (chunkHashes prompt))"
  shows "snd (affinity_Pick (foldl pick_call (Some x1) cs) model prompt ids t2) = c"
proof (cases "ids = []")
  case False
  define d where "d = deepest (positions 0 ids) (-1) (trail_of (swept x t1) model (chunkHashes prompt))"
  have "sticky x1 model (chunkHashes prompt) ids (max 0 d) t1 t2"
    by (rule Pick_sticky [OF assms(1,2) False assms(3-5) refl d_def])
  from sticky_picks [OF this assms(2,6)] obtain y where y: "foldl pick_call (Some x1) cs = Some y"
    "sticky y model (chunkHashes prompt) ids (max 0 d) t1 t2" by blast
  have "c = (if d \<le> 0 then -1 else d)"
    using Pick_result [OF False, of x model prompt t1] assms(3) by (simp add: d_def)
  then show ?thesis using sticky_answer [OF y(2) assms(4) False] y(1) by (auto simp: max_def)
qed (use assms(3) in \<open>simp add: affinity_Pick_def split: option.split\<close>)

definition demo_index :: "index option" where
  "demo_index = foldl pick_call (NewIndex Minute)
     [(''m'', ''hello'', [''b'', ''a''], Second), (''x'', ''hello'', [''a''], Second)]"

lemma chunk_short: "s \<noteq> [] \<Longrightarrow> length s \<le> chunkSize \<Longrightarrow> chunkHashes s = [fnv1a s]"
  by (simp add: chunkHashes_def chunk_from.simps [of s] chunk_from.simps [of "[]"] maxChunks_def chunkSize_def)

lemma demo_index_eq:
  "demo_index = Some
     \<lparr>models =
        [(''m'', \<lparr>root = Node [(fnv1a ''hello'', Node [] [''b''] Second)] [] Second, nodes = 1\<rparr>),
         (''x'', \<lparr>root = Node [(fnv1a ''hello'', Node [] [''a''] Second)] [] Second, nodes = 1\<rparr>)],
      ttl = Minute, sweptAt = Second\<rparr>"
proof -
  have "chunkHashes ''hello'' = [fnv1a ''hello'']" by (rule chunk_short) (simp_all add: chunkSize_def)
  moreover have "Minute sdiv 2 = 30 * Second" by code_simp
  ultimately show ?thesis
    by (simp add: demo_index_def NewIndex_def pick_call_def affinity_Pick_def due_sweep_def is_zero_def sweep_def
        trie_match_def trie_record_def touch_def put_child_def maxModels_def maxNodes_def time_sub_def sat64_def
        MinInt64_def MaxInt64_def)
qed

theorem affinity_sticky_witness:
  "let (ox, c) = affinity_Pick demo_index ''m'' ''hello'' [''a'', ''b''] (2 * Second);
       between = [(''x'', ''hello'', [''b'', ''a''], 5 * Second), (''m'', ''hello'', [''a'', ''b''], 9 * Second)] in
     c = 1 \<and> snd (affinity_Pick (foldl pick_call ox between) ''m'' ''hello'' [''a'', ''b''] (60 * Second)) = 1"
proof -
  let ?x0 = "\<lparr>models = [], ttl = Minute, sweptAt = 0\<rparr>"
  have new: "NewIndex Minute = Some ?x0" by (simp add: NewIndex_def)
  have "index_ok ?x0" by (simp add: index_ok_def)
  then obtain x where x: "demo_index = Some x" "index_ok x"
    using run_picks_ok [of ?x0] unfolding demo_index_def new by blast
  obtain x1 where x1: "affinity_Pick (Some x) ''m'' ''hello'' [''a'', ''b''] (2 * Second) = (Some x1, 1)"
  proof -
    have "snd (affinity_Pick demo_index ''m'' ''hello'' [''a'', ''b''] (2 * Second)) = 1"
    proof -
      have "chunkHashes ''hello'' = [fnv1a ''hello'']" by (rule chunk_short) (simp_all add: chunkSize_def)
      moreover have "\<not> due_sweep (the demo_index) (2 * Second)" unfolding demo_index_eq by code_simp
      ultimately show ?thesis
        unfolding demo_index_eq by (simp add: affinity_Pick_def trie_match_def touch_def Let_def)
    qed
    moreover obtain x1 where "fst (affinity_Pick (Some x) ''m'' ''hello'' [''a'', ''b''] (2 * Second)) = Some x1"
      using Pick_index_ok [OF x(2)] by blast
    ultimately show thesis using that x(1) by (metis prod.collapse)
  qed
  have "ttl x = Minute" using x(1) by (auto simp: demo_index_eq)
  then show ?thesis
    using affinity_sticky [OF x(2) _ x1, of "60 * Second"
        "[(''x'', ''hello'', [''b'', ''a''], 5 * Second), (''m'', ''hello'', [''a'', ''b''], 9 * Second)]"] x1 x(1)
    by simp
qed

text \<open>
  A pick of the same prompt with other candidates in between: the upstream it records is
  one of ours at a lower position, and our next pick no longer promotes ours.
\<close>

lemma other_candidates_move:
  "let (ox, c) = affinity_Pick demo_index ''m'' ''hello'' [''a'', ''b''] (2 * Second);
       ox1 = pick_call ox (''m'', ''hello'', [''a''], 3 * Second) in
     c = 1 \<and> snd (affinity_Pick ox1 ''m'' ''hello'' [''a'', ''b''] (4 * Second)) = -1"
proof -
  have "chunkHashes ''hello'' = [fnv1a ''hello'']" by (rule chunk_short) (simp_all add: chunkSize_def)
  moreover have "Minute sdiv 2 = 30 * Second" by code_simp
  ultimately show ?thesis
    unfolding demo_index_eq
    by (simp add: affinity_Pick_def pick_call_def due_sweep_def is_zero_def time_sub_def sat64_def MinInt64_def
        MaxInt64_def trie_match_def trie_record_def touch_def put_child_def Let_def)
qed

text \<open>
  The affinity index is bounded and only ever promotes a candidate it was given.
  After any sequence of picks on a fresh index there are at most 512 tries, every trie's
  node counter is the number of its nodes and at most 8192, and the next pick answers
  either -1 or the position of one of the caller's candidates other than the first.
\<close>

theorem affinity_bounded:
  assumes "NewIndex d = Some x0" and "foldl pick_call (Some x0) cs = ox"
  shows "\<exists>x. ox = Some x \<and> length (models x) \<le> maxModels \<and>
    (\<forall>(m, tr) \<in> set (models x). nodes tr = count (root tr) \<and> nodes tr \<le> maxNodes) \<and>
    (\<forall>model prompt ids t. let c = snd (affinity_Pick ox model prompt ids t) in
       c = -1 \<or> 0 < c \<and> c < int (length ids))"
proof -
  have "index_ok x0" using assms(1) by (auto simp: NewIndex_def index_ok_def split: if_splits)
  then obtain x where x: "ox = Some x" "index_ok x" using run_picks_ok assms(2) by blast
  have "c = -1 \<or> 0 < c \<and> c < int (length ids)" if "c = snd (affinity_Pick (Some x) model prompt ids t)"
    for c model prompt ids t
  proof (cases "ids = []")
    case False
    then show ?thesis
      using that Pick_result [OF False, of x model prompt t] positions_deepest_range [OF False]
      by (auto simp: Let_def)
  qed (use that in \<open>simp add: affinity_Pick_def\<close>)
  then show ?thesis using x by (auto simp: index_ok_def trie_ok_def Let_def)
qed

theorem affinity_bounded_witness:
  "\<exists>x. demo_index = Some x \<and> length (models x) \<le> maxModels \<and> length (models x) = 2"
proof -
  have "NewIndex Minute = Some \<lparr>models = [], ttl = Minute, sweptAt = 0\<rparr>" by (simp add: NewIndex_def)
  from affinity_bounded [OF this demo_index_def [symmetric, unfolded this]]
  obtain x where x: "demo_index = Some x" "length (models x) \<le> maxModels" by blast
  then show ?thesis by (auto simp: demo_index_eq)
qed

end
