(* ===== verification/Retry.thy ===== *)
theory Retry
  imports Float64 Go_Strings
begin

text \<open>
  The attempt loop and its retry budget: \<^verbatim>\<open>internal/retry/retry.go\<close>,
  \<^verbatim>\<open>loop.go\<close> and \<^verbatim>\<open>classifier.go\<close>.

  An error is what the loop can ask about it: whether it is (or wraps) a cancellation,
  a deadline, a committed reply, or an upstream status with its \<open>Retry-After\<close> hint; a
  caller may extend the record with what else its errors wrap.  The attempts, the
  classifier's verdict on the error of an attempt, the context, the random draws and
  the other requests that share the budget are arguments of the loop.
\<close>

record policy =
  MaxAttempts :: int
  AttemptTimeout :: duration
  OverallDeadline :: duration
  BackoffInitial :: duration
  BackoffMax :: duration

record attempt_error =
  canceled :: bool
  deadlineExceeded :: bool
  committed :: bool
  status :: "(int \<times> duration) option"

subsection \<open>The budget\<close>

record budget =
  binFlight :: int
  bmax :: int
  percent :: int
  minInFlight :: int

definition NewBudget :: "int \<Rightarrow> budget" where
  "NewBudget maxInFlight =
     \<lparr>binFlight = 0, bmax = (if maxInFlight < 0 then 0 else maxInFlight), percent = 0, minInFlight = 0\<rparr>"

definition NewShareBudget :: "int \<Rightarrow> int \<Rightarrow> bool \<Rightarrow> budget option" where
  "NewShareBudget pct minIn hasSource =
     (if \<not> hasSource then None
      else if pct \<le> 0 \<or> pct > 100 then None
      else if minIn < 1 then None
      else Some \<lparr>binFlight = 0, bmax = 0, percent = pct, minInFlight = minIn\<rparr>)"

text \<open>\<open>live\<close> is what the in-flight source answers at the admission.\<close>

definition budget_cap :: "budget \<Rightarrow> int \<Rightarrow> int" where
  "budget_cap b live =
     (if percent b = 0 then bmax b
      else max (minInFlight b) (i64 (percent b * live) sdiv 100))"

definition budget_Acquire :: "budget \<Rightarrow> int \<Rightarrow> budget \<times> bool" where
  "budget_Acquire b live =
     (if binFlight b \<ge> budget_cap b live then (b, False)
      else (b\<lparr>binFlight := binFlight b + 1\<rparr>, True))"

definition budget_Release :: "budget \<Rightarrow> budget" where
  "budget_Release b = (if binFlight b > 0 then b\<lparr>binFlight := binFlight b - 1\<rparr> else b)"

subsection \<open>Classification and hints\<close>

definition DelayHint :: "'x attempt_error_scheme \<Rightarrow> duration" where
  "DelayHint err = (case status err of Some (_, ra) \<Rightarrow> ra | None \<Rightarrow> 0)"

definition Retryable :: "'x attempt_error_scheme option \<Rightarrow> bool" where
  "Retryable e =
     (case e of
        None \<Rightarrow> False
      | Some err \<Rightarrow>
          if canceled err then False
          else if deadlineExceeded err then True
          else (case status err of Some (code, _) \<Rightarrow> code = 429 \<or> code \<ge> 500 | None \<Rightarrow> True))"

definition StripRetryAfter :: "'x attempt_error_scheme \<Rightarrow> 'x attempt_error_scheme" where
  "StripRetryAfter err =
     (case status err of
        Some (code, ra) \<Rightarrow> if ra > 0 then err\<lparr>status := Some (code, 0)\<rparr> else err
      | None \<Rightarrow> err)"

definition retryAfterCap :: duration where "retryAfterCap = 60 * Second"

definition cappedRetryAfter :: "duration \<Rightarrow> duration" where
  "cappedRetryAfter d = (if d \<le> 0 then 0 else min d retryAfterCap)"

text \<open>
  The other two forms a header value may have are parsed by \<open>strconv.ParseFloat\<close> and
  \<open>http.ParseTime\<close>; what they answer is an argument.
\<close>

datatype float_value = NaN | PosInf | NegInf | Finite rat

definition duration_of_float :: "rat \<Rightarrow> duration" where
  "duration_of_float x =
     (let n = (if 0 \<le> x then \<lfloor>x\<rfloor> else \<lceil>x\<rceil>) in if in64 n then n else MinInt64)"

definition ParseRetryAfter ::
  "(string \<Rightarrow> float_value option) \<Rightarrow> (string \<Rightarrow> instant option) \<Rightarrow> string \<Rightarrow> instant \<Rightarrow> duration" where
  "ParseRetryAfter parseFloat parseTime raw0 t =
     (let raw = trim_space raw0
      in if raw = [] then 0
         else case parse_int64 raw of
           Some secs \<Rightarrow>
             if secs > retryAfterCap sdiv Second then retryAfterCap
             else cappedRetryAfter (i64 (secs * Second))
         | None \<Rightarrow>
             (case parseFloat raw of
                Some NaN \<Rightarrow> 0
              | Some PosInf \<Rightarrow> retryAfterCap
              | Some NegInf \<Rightarrow> cappedRetryAfter MinInt64
              | Some (Finite fsec) \<Rightarrow>
                  if fsec > 60 then retryAfterCap
                  else cappedRetryAfter (duration_of_float (fl (fsec * 1000000000)))
              | None \<Rightarrow>
                  (case parseTime raw of
                     Some d \<Rightarrow> cappedRetryAfter (time_sub d t)
                   | None \<Rightarrow> 0)))"

subsection \<open>Backoff\<close>

definition maxAttempts :: "policy \<Rightarrow> int" where
  "maxAttempts pol = (if MaxAttempts pol < 1 then 1 else MaxAttempts pol)"

definition backoffCeiling :: "policy \<Rightarrow> int \<Rightarrow> int" where
  "backoffCeiling pol attempt =
     (let shift0 = attempt - 1;
          shift1 = (if shift0 < 0 then 0 else shift0);
          shift = nat (if shift1 > 16 then 16 else shift1);
          ceiling = BackoffMax pol;
          exp0 = BackoffInitial pol;
          exp = (if exp0 > 0
                 then let lmt = MaxInt64 div 2 ^ shift
                      in if exp0 > lmt then MaxInt64 else i64 (exp0 * 2 ^ shift)
                 else exp0)
      in if exp > 0 \<and> (ceiling = 0 \<or> exp < ceiling) then exp else ceiling)"

text \<open>\<open>rand.Int64N(n)\<close> is a draw reduced into \<open>[0, n)\<close>.\<close>

definition backoffDelay :: "policy \<Rightarrow> int \<Rightarrow> int \<Rightarrow> duration" where
  "backoffDelay pol attempt rnd =
     (let ceiling = backoffCeiling pol attempt in if ceiling \<le> 0 then 0 else rnd mod ceiling)"

definition jitteredHint :: "duration \<Rightarrow> int \<Rightarrow> duration" where
  "jitteredHint hint rnd =
     (let spread = hint sdiv 2 in if spread \<le> 0 then hint else i64 (hint + rnd mod spread))"

subsection \<open>The attempt loop\<close>

text \<open>Whether the overall context ended, and how.\<close>

datatype ctx_end = CtxCanceled | CtxDeadline

datatype 'e retry_result =
    Succeeded
  | Failed 'e
  | BudgetExhausted 'e
  | OverallEnded ctx_end 'e

datatype loop_event =
    EvAcquire bool
  | EvAttempt int
  | EvRelease
  | EvSleep duration

record 'e loop_env =
  fn :: "int \<Rightarrow> 'e option"
  classifier :: "int \<Rightarrow> 'e \<Rightarrow> bool"
  overallAfter :: "int \<Rightarrow> ctx_end option"
  sleepEnd :: "int \<Rightarrow> ctx_end option"
  jitter :: "int \<Rightarrow> int"
  liveCount :: "int \<Rightarrow> int"
  othersBefore :: "int \<Rightarrow> budget \<Rightarrow> budget"
  othersDuring :: "int \<Rightarrow> budget \<Rightarrow> budget"

definition retry_delay :: "policy \<Rightarrow> int \<Rightarrow> 'x attempt_error_scheme \<Rightarrow> int \<Rightarrow> duration" where
  "retry_delay pol attempt err rnd =
     (if DelayHint err > 0 then jitteredHint (DelayHint err) rnd else backoffDelay pol attempt rnd)"

text \<open>
  Taking the retry slot before an attempt (the first needs none; a nil budget is
  \<open>None\<close> and admits everything) and giving it back when the attempt returns, on every
  way out of it.
\<close>

definition take_slot :: "'e loop_env \<Rightarrow> int \<Rightarrow> budget option \<Rightarrow> budget option \<times> bool \<times> loop_event list" where
  "take_slot env i bud =
     (let bud0 = map_option (othersBefore env i) bud
      in if i > 1
         then (case bud0 of
                 None \<Rightarrow> (None, True, [])
               | Some b \<Rightarrow> (case budget_Acquire b (liveCount env i) of
                              (b', a) \<Rightarrow> (Some b', a, [EvAcquire a])))
         else (bud0, True, []))"

definition drop_slot :: "'e loop_env \<Rightarrow> int \<Rightarrow> budget option \<Rightarrow> budget option \<times> loop_event list" where
  "drop_slot env i bud =
     (case map_option (othersDuring env i) bud of
        None \<Rightarrow> (None, [])
      | Some b \<Rightarrow> if i > 1 then (Some (budget_Release b), [EvRelease]) else (Some b, []))"

text \<open>The loop from a given attempt on.\<close>

function execute_from ::
  "policy \<Rightarrow> 'x attempt_error_scheme loop_env \<Rightarrow> budget option \<Rightarrow> int \<Rightarrow> 'x attempt_error_scheme option
    \<Rightarrow> 'x attempt_error_scheme retry_result \<times> budget option \<times> loop_event list" where
  "execute_from pol env bud i lastErr =
     (case take_slot env i bud of (bud1, ok, ev1) \<Rightarrow>
        if \<not> ok then (BudgetExhausted (the lastErr), bud1, ev1)
        else case drop_slot env i bud1 of (bud3, ev3) \<Rightarrow>
          case fn env i of
            None \<Rightarrow> (Succeeded, bud3, ev1 @ [EvAttempt i] @ ev3)
          | Some e \<Rightarrow>
              if committed e then (Failed e, bud3, ev1 @ [EvAttempt i] @ ev3)
              else case overallAfter env i of
                Some oe \<Rightarrow> (OverallEnded oe e, bud3, ev1 @ [EvAttempt i] @ ev3)
              | None \<Rightarrow>
                  if i \<ge> maxAttempts pol \<or> \<not> classifier env i e
                  then (Failed e, bud3, ev1 @ [EvAttempt i] @ ev3)
                  else let delay = retry_delay pol i e (jitter env i)
                       in case sleepEnd env i of
                            Some oe \<Rightarrow> (OverallEnded oe e, bud3, ev1 @ [EvAttempt i] @ ev3 @ [EvSleep delay])
                          | None \<Rightarrow>
                              (case execute_from pol env bud3 (i + 1) (Some e) of
                                 (r, b, evs) \<Rightarrow>
                                   (r, b, ev1 @ [EvAttempt i] @ ev3 @ [EvSleep delay] @ evs)))"
  by pat_completeness auto

termination
  by (relation "measure (\<lambda>(pol, env, bud, i, lastErr). nat (maxAttempts pol - i))") auto

declare execute_from.simps [simp del]

definition Execute ::
  "policy \<Rightarrow> 'x attempt_error_scheme loop_env \<Rightarrow> budget option
    \<Rightarrow> 'x attempt_error_scheme retry_result \<times> budget option \<times> loop_event list" where
  "Execute pol env bud = execute_from pol env bud 1 None"

subsection \<open>What the loop does\<close>

definition may_retry :: "'x attempt_error_scheme loop_env \<Rightarrow> int \<Rightarrow> bool" where
  "may_retry env i \<longleftrightarrow>
     (case fn env i of
        None \<Rightarrow> False
      | Some e \<Rightarrow> \<not> committed e \<and> classifier env i e \<and> overallAfter env i = None \<and> sleepEnd env i = None)"

fun attempts_of :: "loop_event list \<Rightarrow> int list" where
  "attempts_of [] = []"
| "attempts_of (EvAttempt i # evs) = i # attempts_of evs"
| "attempts_of (_ # evs) = attempts_of evs"

fun held_slots :: "loop_event list \<Rightarrow> int" where
  "held_slots [] = 0"
| "held_slots (EvAcquire ok # evs) = (if ok then 1 else 0) + held_slots evs"
| "held_slots (EvRelease # evs) = held_slots evs - 1"
| "held_slots (_ # evs) = held_slots evs"

lemma attempts_of_append [simp]: "attempts_of (xs @ ys) = attempts_of xs @ attempts_of ys"
  by (induction xs rule: attempts_of.induct) simp_all

lemma held_slots_append [simp]: "held_slots (xs @ ys) = held_slots xs + held_slots ys"
  by (induction xs rule: held_slots.induct) simp_all

text \<open>
  How a run ends after attempt \<open>k\<close>: the result names that attempt's error, or the
  error that wanted the attempt the budget refused.
\<close>

definition ends_with ::
  "policy \<Rightarrow> 'x attempt_error_scheme loop_env \<Rightarrow> int \<Rightarrow> 'x attempt_error_scheme option
    \<Rightarrow> 'x attempt_error_scheme retry_result \<Rightarrow> bool" where
  "ends_with pol env k lastErr r \<longleftrightarrow>
     (case r of
        Succeeded \<Rightarrow> fn env k = None
      | Failed e \<Rightarrow> fn env k = Some e \<and> (committed e \<or> maxAttempts pol \<le> k \<or> \<not> classifier env k e)
      | BudgetExhausted e \<Rightarrow> lastErr = Some e
      | OverallEnded oe e \<Rightarrow> fn env k = Some e \<and> \<not> committed e \<and>
          (overallAfter env k = Some oe \<or> sleepEnd env k = Some oe))"

lemma take_slot_events:
  assumes "take_slot env i bud = (bud1, ok, ev1)"
  shows "attempts_of ev1 = [] \<and> (bud1 = None \<longleftrightarrow> bud = None) \<and>
    held_slots ev1 = (if ok \<and> i > 1 \<and> bud \<noteq> None then 1 else 0) \<and> (\<not> ok \<longrightarrow> bud \<noteq> None \<and> 1 < i)"
  using assms by (auto simp: take_slot_def Let_def split: if_splits option.splits prod.splits)

lemma drop_slot_events:
  assumes "drop_slot env i bud1 = (bud3, ev3)"
  shows "attempts_of ev3 = [] \<and> (bud3 = None \<longleftrightarrow> bud1 = None) \<and>
    held_slots ev3 = (if i > 1 \<and> bud1 \<noteq> None then - 1 else 0)"
  using assms by (auto simp: drop_slot_def split: if_splits option.splits)

definition run_ok ::
  "policy \<Rightarrow> 'x attempt_error_scheme loop_env \<Rightarrow> budget option \<Rightarrow> int \<Rightarrow> 'x attempt_error_scheme option
    \<Rightarrow> int \<Rightarrow> 'x attempt_error_scheme retry_result \<Rightarrow> loop_event list \<Rightarrow> bool" where
  "run_ok pol env bud i lastErr k r ev \<longleftrightarrow>
     i - 1 \<le> k \<and> (i = 1 \<longrightarrow> 1 \<le> k) \<and> k \<le> maxAttempts pol \<and> attempts_of ev = [i..k] \<and>
     (\<forall>j \<in> {i..<k}. may_retry env j) \<and> held_slots ev = 0 \<and>
     ends_with pol env k (if k = i - 1 then lastErr else fn env k) r \<and>
     (case r of BudgetExhausted e \<Rightarrow> bud \<noteq> None \<and> (i \<le> k \<longrightarrow> may_retry env k) | _ \<Rightarrow> i \<le> k)"

lemma execute_from_spec:
  assumes "execute_from pol env bud i lastErr = (r, b', ev)" and "1 \<le> i" and "i \<le> maxAttempts pol"
    and "i = 1 \<or> lastErr \<noteq> None"
  shows "\<exists>k. run_ok pol env bud i lastErr k r ev"
  using assms
proof (induction pol env bud i lastErr arbitrary: r b' ev rule: execute_from.induct)
  case (1 pol env bud i lastErr)
  obtain bud1 ok ev1 where t: "take_slot env i bud = (bud1, ok, ev1)" by (metis prod_cases3)
  obtain bud3 ev3 where d: "drop_slot env i bud1 = (bud3, ev3)" by fastforce
  note te = take_slot_events [OF t] and de = drop_slot_events [OF d]
  note step = "1.prems"(1) [unfolded execute_from.simps [of pol env bud i lastErr] t prod.case]
  show ?case
  proof (cases "ok \<and> may_retry env i \<and> i < maxAttempts pol")
    case True
    then obtain e where e: "fn env i = Some e" "\<not> committed e" "classifier env i e"
      "overallAfter env i = None" "sleepEnd env i = None"
      by (auto simp: may_retry_def split: option.splits)
    obtain r1 b1 evs where rec: "execute_from pol env bud3 (i + 1) (Some e) = (r1, b1, evs)"
      by (metis prod_cases3)
    let ?delay = "retry_delay pol i e (jitter env i)"
    have res: "r = r1" "ev = ev1 @ [EvAttempt i] @ ev3 @ [EvSleep ?delay] @ evs"
      using step True e d rec by (simp_all add: Let_def)
    have "\<exists>k. run_ok pol env bud3 (i + 1) (Some e) k r1 evs"
      using "1.IH" [of bud1 "(ok, ev1)" ok ev1 bud3 ev3 e] t d e True rec "1.prems"(2) by simp
    then obtain k where k: "run_ok pol env bud3 (i + 1) (Some e) k r1 evs" by blast
    have "i \<le> k" using k by (simp add: run_ok_def)
    then have "attempts_of ev = [i..k]" "held_slots ev = 0"
      using k te de True by (auto simp: run_ok_def res upto_rec1)
    moreover have "may_retry env j" if "j \<in> {i..<k}" for j
      using k True that by (cases "j = i") (simp_all add: run_ok_def)
    moreover have "(if k = i + 1 - 1 then Some e else fn env k) = (if k = i - 1 then lastErr else fn env k)"
      using \<open>i \<le> k\<close> e(1) by auto
    moreover have "case r of BudgetExhausted e \<Rightarrow> bud \<noteq> None \<and> (i \<le> k \<longrightarrow> may_retry env k) | _ \<Rightarrow> i \<le> k"
      using k True \<open>i \<le> k\<close> te de
      by (cases "k = i") (auto simp: run_ok_def res split: retry_result.splits)
    ultimately have "run_ok pol env bud i lastErr k r ev"
      using k "1.prems"(2) \<open>i \<le> k\<close> by (simp add: run_ok_def res(1))
    then show ?thesis ..
  next
    case False
    have "run_ok pol env bud i lastErr (if ok then i else i - 1) r ev"
      using step False te de d "1.prems"(2-4)
      by (auto simp: run_ok_def ends_with_def may_retry_def Let_def
          split: option.splits if_splits retry_result.splits)
    then show ?thesis ..
  qed
qed

subsection \<open>Backoff arithmetic\<close>

text \<open>The ceiling without machine arithmetic: doubling, saturated, then capped.\<close>

definition backoff_spec :: "policy \<Rightarrow> int \<Rightarrow> int" where
  "backoff_spec pol attempt =
     (let e = min MaxInt64 (BackoffInitial pol * 2 ^ nat (min 16 (max 0 (attempt - 1))))
      in if BackoffInitial pol > 0 \<and> (BackoffMax pol = 0 \<or> e < BackoffMax pol) then e else BackoffMax pol)"

lemma shift_saturates:
  assumes "0 < x"
  shows "(if x > MaxInt64 div 2 ^ s then MaxInt64 else i64 (x * 2 ^ s)) = min MaxInt64 (x * 2 ^ s)"
proof (cases "x \<le> MaxInt64 div 2 ^ s")
  case True
  have "x * 2 ^ s \<le> MaxInt64 div 2 ^ s * 2 ^ s" using True by (intro mult_right_mono) simp_all
  also have "\<dots> \<le> MaxInt64"
  proof -
    have "0 \<le> MaxInt64 mod 2 ^ s" by simp
    then show ?thesis using div_mult_mod_eq [of MaxInt64 "2 ^ s"] by linarith
  qed
  finally have "x * 2 ^ s \<le> MaxInt64" .
  then show ?thesis using True assms by (simp add: in64_nonneg)
next
  case False
  then have "MaxInt64 div 2 ^ s + 1 \<le> x" by simp
  then have "(MaxInt64 div 2 ^ s + 1) * 2 ^ s \<le> x * 2 ^ s" by (intro mult_right_mono) simp_all
  moreover have "MaxInt64 < (MaxInt64 div 2 ^ s + 1) * 2 ^ s"
  proof -
    have "MaxInt64 mod 2 ^ s < 2 ^ s" by simp
    then show ?thesis using div_mult_mod_eq [of MaxInt64 "2 ^ s"] unfolding distrib_right by linarith
  qed
  ultimately have "MaxInt64 < x * 2 ^ s" by (rule order.strict_trans2 [rotated])
  then show ?thesis using False by (simp add: min_def)
qed

lemma backoffCeiling_spec: "backoffCeiling pol attempt = backoff_spec pol attempt"
proof (cases "0 < BackoffInitial pol")
  case True
  define s where "s = nat (min 16 (max 0 (attempt - 1)))"
  have s: "nat (if (if attempt - 1 < 0 then 0 else attempt - 1) > 16 then 16
      else if attempt - 1 < 0 then 0 else attempt - 1) = s"
    unfolding s_def by (rule arg_cong [of _ _ nat]) auto
  define e where "e = min MaxInt64 (BackoffInitial pol * 2 ^ s)"
  have e: "(if BackoffInitial pol > MaxInt64 div 2 ^ s then MaxInt64 else i64 (BackoffInitial pol * 2 ^ s)) = e"
    unfolding e_def by (rule shift_saturates [OF True])
  have "0 < e" using True by (simp add: e_def MaxInt64_def)
  then show ?thesis
    using True unfolding backoffCeiling_def backoff_spec_def Let_def s s_def [symmetric] e e_def [symmetric]
    by (simp only: if_True e simp_thms)
next
  case False
  then show ?thesis unfolding backoffCeiling_def backoff_spec_def Let_def by (simp only: if_False simp_thms)
qed

lemma backoff_spec_range:
  assumes "0 \<le> BackoffMax pol" and "in64 (BackoffMax pol)"
  shows "0 \<le> backoff_spec pol n" and "in64 (backoff_spec pol n)"
    and "0 < BackoffMax pol \<Longrightarrow> backoff_spec pol n \<le> BackoffMax pol"
proof -
  let ?e = "min MaxInt64 (BackoffInitial pol * 2 ^ nat (min 16 (max 0 (n - 1))))"
  have "0 < BackoffInitial pol \<Longrightarrow> 0 \<le> ?e \<and> ?e \<le> MaxInt64" by (simp add: MaxInt64_def)
  then show "0 \<le> backoff_spec pol n" "in64 (backoff_spec pol n)"
    "0 < BackoffMax pol \<Longrightarrow> backoff_spec pol n \<le> BackoffMax pol"
    using assms by (auto simp: backoff_spec_def Let_def intro: in64_nonneg)
qed

lemma backoff_spec_mono:
  assumes "m \<le> n" and "0 \<le> BackoffMax pol"
  shows "backoff_spec pol m \<le> backoff_spec pol n"
proof (cases "0 < BackoffInitial pol")
  case True
  have "nat (min 16 (max 0 (m - 1))) \<le> nat (min 16 (max 0 (n - 1)))"
    using assms(1) by (intro nat_mono) auto
  then have "(2::int) ^ nat (min 16 (max 0 (m - 1))) \<le> 2 ^ nat (min 16 (max 0 (n - 1)))"
    by (rule power_increasing) simp
  then have le: "min MaxInt64 (BackoffInitial pol * 2 ^ nat (min 16 (max 0 (m - 1))))
      \<le> min MaxInt64 (BackoffInitial pol * 2 ^ nat (min 16 (max 0 (n - 1))))"
    using True by (intro min.mono mult_left_mono) simp_all
  have cap: "x \<le> y \<Longrightarrow> (if c = 0 \<or> x < c then x else c) \<le> (if c = 0 \<or> y < c then y else c)"
    for x y c :: int by auto
  show ?thesis
    using cap [OF le, of "BackoffMax pol"] True unfolding backoff_spec_def Let_def by simp
qed (simp add: backoff_spec_def Let_def)

lemma jitteredHint_range:
  assumes "0 < hint" and "hint \<le> retryAfterCap"
  shows "hint \<le> jitteredHint hint rnd \<and> 2 * jitteredHint hint rnd < 3 * hint + 2"
proof -
  have s: "hint sdiv 2 = hint div 2" using assms by (simp add: sdiv_nonneg_pos)
  show ?thesis
  proof (cases "hint div 2 \<le> 0")
    case True
    then show ?thesis using s assms by (simp add: jitteredHint_def)
  next
    case False
    have m: "0 \<le> rnd mod (hint div 2)" "rnd mod (hint div 2) < hint div 2" using False by simp_all
    then have "in64 (hint + rnd mod (hint div 2))"
      using assms by (intro in64_nonneg) (simp_all add: retryAfterCap_def MaxInt64_def)
    then show ?thesis using False s m assms(1) by (simp add: jitteredHint_def)
  qed
qed

lemma capped_range: "0 \<le> cappedRetryAfter d \<and> cappedRetryAfter d \<le> retryAfterCap"
  by (simp add: cappedRetryAfter_def retryAfterCap_def)

lemma ParseRetryAfter_range:
  "0 \<le> ParseRetryAfter pf pt raw t \<and> ParseRetryAfter pf pt raw t \<le> retryAfterCap"
proof -
  have c: "0 \<le> retryAfterCap" by (simp add: retryAfterCap_def)
  show ?thesis
    using capped_range c
    by (auto simp: ParseRetryAfter_def Let_def split: option.splits float_value.splits)
qed

subsection \<open>Properties\<close>

definition demo_error :: "int \<Rightarrow> attempt_error" where
  "demo_error code = \<lparr>canceled = False, deadlineExceeded = False, committed = False, status = Some (code, 0)\<rparr>"

definition demo_env :: "attempt_error loop_env" where
  "demo_env = \<lparr>fn = (\<lambda>i. if i < 3 then Some (demo_error 503) else None),
     classifier = (\<lambda>_ e. Retryable (Some e)), overallAfter = (\<lambda>_. None),
     sleepEnd = (\<lambda>_. None), jitter = (\<lambda>_. 7), liveCount = (\<lambda>_. 10), othersBefore = (\<lambda>_ b. b),
     othersDuring = (\<lambda>_ b. b)\<rparr>"

definition demo_policy :: policy where
  "demo_policy = \<lparr>MaxAttempts = 3, AttemptTimeout = 0, OverallDeadline = 0, BackoffInitial = 4,
     BackoffMax = 6\<rparr>"

text \<open>
  C7: the attempt loop is bounded and never replays a committed reply.  Every run
  makes the attempts 1, 2, ..., k for some k between one and the policy's cap, and
  stops there; each attempt before the last failed with a retryable error, nothing
  committed and the context alive; the result is that of attempt k, success included,
  or the budget's refusal of attempt k + 1 carrying the error that asked for it; and
  every retry slot taken is given back.
\<close>

theorem attempt_loop_sound:
  assumes "Execute pol env bud = (r, b', ev)"
  shows "\<exists>k. 1 \<le> k \<and> k \<le> maxAttempts pol \<and> attempts_of ev = [1..k] \<and>
    (\<forall>j \<in> {1..<k}. may_retry env j) \<and> held_slots ev = 0 \<and>
    (case r of
       Succeeded \<Rightarrow> fn env k = None
     | Failed e \<Rightarrow> fn env k = Some e \<and> (committed e \<or> k = maxAttempts pol \<or> \<not> classifier env k e)
     | BudgetExhausted e \<Rightarrow> bud \<noteq> None \<and> fn env k = Some e \<and> may_retry env k
     | OverallEnded oe e \<Rightarrow> fn env k = Some e \<and> \<not> committed e)"
proof -
  have "1 \<le> maxAttempts pol" by (simp add: maxAttempts_def)
  then obtain k where k: "run_ok pol env bud 1 None k r ev"
    using execute_from_spec [OF assms [unfolded Execute_def]] by auto
  then show ?thesis
    by (intro exI [of _ k]) (auto simp: run_ok_def ends_with_def split: retry_result.splits)
qed

theorem attempt_loop_sound_witness:
  "let (r, b, ev) = Execute demo_policy demo_env (Some (NewBudget 1)) in
     r = Succeeded \<and> attempts_of ev = [1, 2, 3] \<and> held_slots ev = 0 \<and>
     ev = [EvAttempt 1, EvSleep 3, EvAcquire True, EvAttempt 2, EvRelease, EvSleep 1, EvAcquire True,
           EvAttempt 3, EvRelease]"
proof -
  let ?x = "Execute demo_policy demo_env (Some (NewBudget 1))"
  have ev: "snd (snd ?x) = [EvAttempt 1, EvSleep 3, EvAcquire True, EvAttempt 2, EvRelease, EvSleep 1,
      EvAcquire True, EvAttempt 3, EvRelease]" "fst ?x = Succeeded"
    by code_simp+
  obtain k where "attempts_of (snd (snd ?x)) = [1..k]" "held_slots (snd (snd ?x)) = 0"
    using attempt_loop_sound [of demo_policy demo_env "Some (NewBudget 1)" "fst ?x" "fst (snd ?x)" "snd (snd ?x)"]
    by auto
  then show ?thesis using ev by (simp add: case_prod_beta)
qed

text \<open>
  C26: the backoff is saturating doubling.  The clamped shifts compute exactly the
  initial delay doubled once per earlier attempt (sixteen times at most), saturated at
  the \<open>int64\<close> maximum and capped by the configured maximum; the ceiling never shrinks
  from one attempt to the next, and the delay drawn lies in it.
\<close>

theorem backoff_exact:
  assumes "0 \<le> BackoffMax pol" and "in64 (BackoffMax pol)"
  shows "backoffCeiling pol n = backoff_spec pol n \<and> in64 (backoffCeiling pol n) \<and>
    0 \<le> backoffCeiling pol n \<and> backoffCeiling pol n \<le> backoffCeiling pol (n + 1) \<and>
    0 \<le> backoffDelay pol n rnd \<and>
    (0 < backoffCeiling pol n \<longrightarrow> backoffDelay pol n rnd < backoffCeiling pol n)"
proof -
  have "backoffCeiling pol n \<le> backoffCeiling pol (n + 1)"
    unfolding backoffCeiling_spec using backoff_spec_mono [of n "n + 1" pol] assms(1) by simp
  moreover have "0 \<le> backoffCeiling pol n" "in64 (backoffCeiling pol n)"
    unfolding backoffCeiling_spec using backoff_spec_range [OF assms] by simp_all
  ultimately show ?thesis
    by (simp add: backoffCeiling_spec backoffDelay_def Let_def)
qed

theorem backoff_exact_witness:
  "backoffCeiling (demo_policy\<lparr>BackoffInitial := 2 ^ 60, BackoffMax := 0\<rparr>) 20 = MaxInt64 \<and>
   backoffDelay demo_policy 2 100 < 6"
proof -
  have c: "backoffCeiling demo_policy 2 = 6"
    "backoffCeiling (demo_policy\<lparr>BackoffInitial := 2 ^ 60, BackoffMax := 0\<rparr>) 20 = MaxInt64"
    by code_simp+
  have "0 \<le> BackoffMax demo_policy" "in64 (BackoffMax demo_policy)" by code_simp+
  then show ?thesis using backoff_exact [of demo_policy 2 100] c by simp
qed

text \<open>
  A Retry-After hint is honoured within its bounds.  Whatever the header says, and
  whatever the float and date parsers answer, the parsed hint is between zero and one
  minute, and a positive hint is slept for at least itself and less than half again.
\<close>

theorem retry_after_hint_bounds:
  assumes "h = ParseRetryAfter pf pt raw t"
  shows "0 \<le> h \<and> h \<le> retryAfterCap \<and>
    (0 < h \<longrightarrow> h \<le> jitteredHint h rnd \<and> 2 * jitteredHint h rnd < 3 * h + 2)"
  using ParseRetryAfter_range [of pf pt raw t] jitteredHint_range assms by simp

theorem retry_after_hint_bounds_witness:
  "ParseRetryAfter (\<lambda>_. None) (\<lambda>_. None) '' 30 '' 0 = 30 * Second \<and>
   30 * Second \<le> jitteredHint (30 * Second) 5"
proof -
  have "ParseRetryAfter (\<lambda>_. None) (\<lambda>_. None) '' 30 '' 0 = 30 * Second" by code_simp
  then show ?thesis
    using retry_after_hint_bounds [of "30 * Second" "\<lambda>_. None" "\<lambda>_. None" "'' 30 ''" 0 5] by simp
qed

text \<open>
  A large negative Retry-After becomes the longest wait.  Only the upper side of
  the second count is checked before it is multiplied into nanoseconds: a count below
  -9223372036 wraps to a positive duration, and a value that asks for no wait at all
  is taken as the full minute.
\<close>

lemma negative_hint_wraps:
  "ParseRetryAfter (\<lambda>_. None) (\<lambda>_. None) ''-9223372037'' 0 = 60 * Second \<and>
   ParseRetryAfter (\<lambda>_. None) (\<lambda>_. None) ''-5'' 0 = 0"
  by code_simp

end
