(* ===== verification/Relay_Plan.thy ===== *)
theory Relay_Plan
  imports Go_Strings
begin

text \<open>
  What the relay engine decides without talking to anybody: the walk over candidates and
  fallback models (\<^verbatim>\<open>internal/relay/fallback.go\<close>) and the classification of fatal
  upstream conditions (\<^verbatim>\<open>fatal.go\<close>).

  A candidate is the id of its upstream.  The plan asks the job's resolver at most once
  per model, so the resolver is a function of the model; \<open>None\<close> is an error.
\<close>

subsection \<open>The fallback plan\<close>

record plan =
  batches :: "(string \<times> string list) list"
  batchIndex :: nat
  batchStart :: int
  fallbackIndex :: nat
  attempted :: "string set"

type_synonym resolver = "string \<Rightarrow> string list option"

definition new_plan :: "string \<Rightarrow> string list \<Rightarrow> plan" where
  "new_plan model cands =
     \<lparr>batches = [(model, cands)], batchIndex = 0, batchStart = 1, fallbackIndex = 0, attempted = {model}\<rparr>"

definition current :: "plan \<Rightarrow> string \<times> string list" where
  "current p = batches p ! batchIndex p"

fun advance_loop :: "resolver \<Rightarrow> int \<Rightarrow> plan \<Rightarrow> string list \<Rightarrow> plan \<times> bool" where
  "advance_loop resolve i p [] = (p, False)"
| "advance_loop resolve i p (model # rest) =
     (let p1 = p\<lparr>fallbackIndex := fallbackIndex p + 1\<rparr> in
      if model \<in> attempted p1 then advance_loop resolve i p1 rest
      else let p2 = p1\<lparr>attempted := insert model (attempted p1)\<rparr> in
        case resolve model of
          None \<Rightarrow> advance_loop resolve i p2 rest
        | Some cands \<Rightarrow>
            if cands = [] then advance_loop resolve i p2 rest
            else (p2\<lparr>batches := batches p2 @ [(model, cands)], batchIndex := length (batches p2),
                     batchStart := i\<rparr>, True))"

definition advance :: "resolver option \<Rightarrow> string list \<Rightarrow> int \<Rightarrow> plan \<Rightarrow> plan \<times> bool" where
  "advance resolve fallbacks i p =
     (case resolve of
        None \<Rightarrow> (p, False)
      | Some f \<Rightarrow> advance_loop f i p (drop (fallbackIndex p) fallbacks))"

lemma advance_loop_index:
  "advance_loop resolve i p rest = (p', True) \<Longrightarrow>
     fallbackIndex p < fallbackIndex p' \<and> fallbackIndex p' \<le> fallbackIndex p + length rest"
  by (induction resolve i p rest rule: advance_loop.induct)
    (force simp: Let_def split: if_splits option.splits)+

lemma advance_index:
  assumes "advance resolve fallbacks i p = (p', True)"
  shows "length fallbacks - fallbackIndex p' < length fallbacks - fallbackIndex p"
proof -
  from assms obtain f where f: "advance_loop f i p (drop (fallbackIndex p) fallbacks) = (p', True)"
    by (auto simp: advance_def split: option.splits)
  then have "drop (fallbackIndex p) fallbacks \<noteq> []" by auto
  then show ?thesis using advance_loop_index [OF f] by auto
qed

text \<open>The loop of \<open>target\<close>: advance while the attempt lies past the current batch.\<close>

function target_loop :: "resolver option \<Rightarrow> string list \<Rightarrow> int \<Rightarrow> plan \<Rightarrow> plan \<times> int" where
  "target_loop resolve fallbacks i p =
     (let offset = i - batchStart p; n = int (length (snd (current p))) in
      if offset \<ge> n
      then (case advance resolve fallbacks i p of
              (p1, ok) \<Rightarrow> if \<not> ok then (p1, int (length (snd (current p1))) - 1)
                         else target_loop resolve fallbacks i p1)
      else (p, offset))"
  by pat_completeness auto

termination
  by (relation "measure (\<lambda>(resolve, fallbacks, i, p). length fallbacks - fallbackIndex p)")
    (auto dest: advance_index [OF sym])

declare target_loop.simps [simp del]

definition target :: "resolver option \<Rightarrow> string list \<Rightarrow> int \<Rightarrow> plan \<Rightarrow> plan \<times> string \<times> string" where
  "target resolve fallbacks i p =
     (let (p1, offset) = target_loop resolve fallbacks i p
      in (p1, snd (current p1) ! nat offset, fst (current p1)))"

subsection \<open>Fatal conditions\<close>

text \<open>
  The error envelope as \<open>encoding/json\<close> decodes it: the code is whatever the provider
  sent, and what \<open>fmt.Sprint\<close> prints of it is the argument.  Letter case is folded on
  ASCII letters, which is what the codes consist of.
\<close>

datatype error_code = CodeAbsent | CodeString string | CodeOther string

record error_envelope =
  envCode :: error_code
  envType :: string

definition sprint_code :: "error_code \<Rightarrow> string" where
  "sprint_code c = (case c of CodeAbsent \<Rightarrow> ''<nil>'' | CodeString s \<Rightarrow> s | CodeOther s \<Rightarrow> s)"

definition to_lower :: "string \<Rightarrow> string" where
  "to_lower s = map (\<lambda>c. if 65 \<le> byte c \<and> byte c \<le> 90 then char_of (byte c + 32) else c) s"

definition trim_quotes :: "string \<Rightarrow> string" where
  "trim_quotes s = rev (dropWhile (\<lambda>c. byte c = 34) (rev (dropWhile (\<lambda>c. byte c = 34) s)))"

definition reasonAuthFailure :: string where "reasonAuthFailure = ''upstream_auth_failure''"
definition reasonQuotaExhausted :: string where "reasonQuotaExhausted = ''upstream_quota_exhausted''"

definition fatalUpstreamReason :: "int \<Rightarrow> error_envelope \<Rightarrow> string" where
  "fatalUpstreamReason code env =
     (let ecode = to_lower (trim_quotes (sprint_code (envCode env)));
          typ = to_lower (envType env)
      in if typ = ''insufficient_quota'' \<or> ecode = ''insufficient_quota'' then reasonQuotaExhausted
         else if code = 401 then reasonAuthFailure
         else if code = 403 \<and> (typ = ''authentication_error'' \<or> ecode = ''invalid_api_key'')
         then reasonAuthFailure
         else '''')"

lemma transient_rate_limit_not_fatal:
  "envType env = ''rate_limit'' \<Longrightarrow> envCode env = CodeAbsent \<Longrightarrow> fatalUpstreamReason 429 env = ''''"
  by (simp add: fatalUpstreamReason_def sprint_code_def to_lower_def trim_quotes_def byte_def)

subsection \<open>The walk the plan describes\<close>

text \<open>
  Every candidate of the primary model in order, then every candidate of each fallback
  model that is new and resolves to something, each with the model it serves.
\<close>

fun fallback_walk :: "resolver \<Rightarrow> string set \<Rightarrow> string list \<Rightarrow> (string \<times> string) list" where
  "fallback_walk f seen [] = []"
| "fallback_walk f seen (m # ms) =
     (if m \<in> seen then fallback_walk f seen ms
      else map (\<lambda>c. (c, m)) (case f m of None \<Rightarrow> [] | Some cs \<Rightarrow> cs) @ fallback_walk f (insert m seen) ms)"

definition rest_walk :: "resolver option \<Rightarrow> string list \<Rightarrow> plan \<Rightarrow> (string \<times> string) list" where
  "rest_walk resolve fallbacks p =
     (case resolve of None \<Rightarrow> []
      | Some f \<Rightarrow> fallback_walk f (attempted p) (drop (fallbackIndex p) fallbacks))"

definition job_walk :: "resolver option \<Rightarrow> string \<Rightarrow> string list \<Rightarrow> string list \<Rightarrow> (string \<times> string) list" where
  "job_walk resolve model cands fallbacks =
     map (\<lambda>c. (c, model)) cands @
     (case resolve of None \<Rightarrow> [] | Some f \<Rightarrow> fallback_walk f {model} fallbacks)"

definition batch_walk :: "plan \<Rightarrow> (string \<times> string) list" where
  "batch_walk p = map (\<lambda>c. (c, fst (current p))) (snd (current p))"

text \<open>
  The plan stands at some point of a walk \<open>w\<close>: what came before the current batch has
  been consumed, one attempt each, and what follows is still unresolved.
\<close>

definition stands ::
  "resolver option \<Rightarrow> string list \<Rightarrow> (string \<times> string) list \<Rightarrow> plan \<Rightarrow> bool" where
  "stands resolve fallbacks w p \<longleftrightarrow>
     snd (current p) \<noteq> [] \<and> 1 \<le> batchStart p \<and>
     w = take (nat (batchStart p - 1)) w @ batch_walk p @ rest_walk resolve fallbacks p \<and>
     batchStart p - 1 \<le> int (length w)"

lemma stands_new:
  "cands \<noteq> [] \<Longrightarrow> stands resolve fallbacks (job_walk resolve model cands fallbacks) (new_plan model cands)"
  by (simp add: stands_def new_plan_def current_def batch_walk_def job_walk_def rest_walk_def split: option.split)

definition advanced :: "resolver \<Rightarrow> int \<Rightarrow> plan \<Rightarrow> string list \<Rightarrow> plan \<Rightarrow> bool \<Rightarrow> bool" where
  "advanced f i p rest p' ok \<longleftrightarrow>
     fallbackIndex p \<le> fallbackIndex p' \<and>
     (if ok then batchStart p' = i \<and> snd (current p') \<noteq> [] \<and>
        fallback_walk f (attempted p) rest =
          batch_walk p' @ fallback_walk f (attempted p') (drop (fallbackIndex p' - fallbackIndex p) rest)
      else fallback_walk f (attempted p) rest = [] \<and> batchStart p' = batchStart p \<and>
        current p' = current p \<and> fallbackIndex p' = fallbackIndex p + length rest)"

lemma advanced_skip:
  assumes "advanced f i q rest p' ok" and "fallback_walk f (attempted p) (m # rest) = fallback_walk f (attempted q) rest"
    and "fallbackIndex q = fallbackIndex p + 1" and "batchStart q = batchStart p" and "current q = current p"
  shows "advanced f i p (m # rest) p' ok"
proof -
  have "fallbackIndex p' - fallbackIndex p = Suc (fallbackIndex p' - fallbackIndex q)"
    using assms(1,3) unfolding advanced_def by linarith
  then show ?thesis using assms by (simp add: advanced_def del: fallback_walk.simps split: if_splits)
qed

lemma advance_loop_spec:
  "advance_loop f i p rest = (p', ok) \<Longrightarrow> advanced f i p rest p' ok"
proof (induction f i p rest arbitrary: p' ok rule: advance_loop.induct)
  case (1 f i p)
  then show ?case by (auto simp: advanced_def)
next
  case (2 f i p m rest)
  let ?p1 = "p\<lparr>fallbackIndex := fallbackIndex p + 1\<rparr>"
  let ?p2 = "?p1\<lparr>attempted := insert m (attempted ?p1)\<rparr>"
  consider "m \<in> attempted p" | "m \<notin> attempted p" "f m = None \<or> f m = Some []"
    | cs where "m \<notin> attempted p" "f m = Some cs" "cs \<noteq> []"
    by (cases "f m") auto
  then show ?case
  proof cases
    case 1
    then have "advanced f i ?p1 rest p' ok" using "2.IH"(1) [of ?p1] "2.prems" by (simp add: Let_def)
    then show ?thesis by (rule advanced_skip) (simp_all add: 1 current_def)
  next
    case none: 2
    then have "advanced f i ?p2 rest p' ok"
      using "2.IH"(2) [of ?p1 ?p2] "2.IH"(3) [of ?p1 ?p2 "[]"] "2.prems" by (auto simp: Let_def)
    then show ?thesis by (rule advanced_skip) (use none in \<open>auto simp: current_def\<close>)
  next
    case (3 cs)
    then show ?thesis using "2.prems"
      by (auto simp: Let_def current_def batch_walk_def advanced_def)
  qed
qed


text \<open>
  The attempt number is at most one past what the plan has already covered, or the
  chain is drained.
\<close>

definition reaches :: "resolver option \<Rightarrow> string list \<Rightarrow> int \<Rightarrow> plan \<Rightarrow> bool" where
  "reaches resolve fallbacks i p \<longleftrightarrow>
     batchStart p \<le> i \<and> (i \<le> batchStart p + int (length (snd (current p))) \<or> rest_walk resolve fallbacks p = [])"

lemma batch_walk_length [simp]: "length (batch_walk p) = length (snd (current p))"
  by (simp add: batch_walk_def)

lemma advance_stands:
  assumes "advance resolve fallbacks i p = (p', ok)" and "stands resolve fallbacks w p"
  shows "if ok then batchStart p' = i \<and> snd (current p') \<noteq> [] \<and>
        rest_walk resolve fallbacks p = batch_walk p' @ rest_walk resolve fallbacks p'
      else rest_walk resolve fallbacks p = [] \<and> batchStart p' = batchStart p \<and> current p' = current p \<and>
        rest_walk resolve fallbacks p' = []"
proof (cases resolve)
  case None
  then show ?thesis using assms(1) by (simp add: advance_def rest_walk_def)
next
  case (Some f)
  have "advanced f i p (drop (fallbackIndex p) fallbacks) p' ok"
    using assms(1) by (intro advance_loop_spec) (simp add: advance_def Some)
  moreover have "drop (fallbackIndex p' - fallbackIndex p) (drop (fallbackIndex p) fallbacks) =
      drop (fallbackIndex p') fallbacks" if "fallbackIndex p \<le> fallbackIndex p'"
    using that by simp
  moreover have "drop (fallbackIndex p + length (drop (fallbackIndex p) fallbacks)) fallbacks = []" by simp
  ultimately show ?thesis by (auto simp: advanced_def rest_walk_def Some split: if_splits)
qed

lemma stands_nth:
  assumes "stands resolve fallbacks w p" and "0 \<le> j" and "j < int (length (snd (current p)))"
  shows "w ! nat (batchStart p - 1 + j) = (snd (current p) ! nat j, fst (current p))"
    and "batchStart p - 1 + j < int (length w)"
proof -
  let ?b = "nat (batchStart p - 1)"
  have w: "w = take ?b w @ batch_walk p @ rest_walk resolve fallbacks p"
    and b: "1 \<le> batchStart p" "batchStart p - 1 \<le> int (length w)"
    using assms(1) by (simp_all add: stands_def)
  have l: "length (take ?b w) = ?b" using b by simp
  have i: "nat (batchStart p - 1 + j) = ?b + nat j" using assms(2) b(1) by simp
  have "w ! (?b + nat j) = (batch_walk p @ rest_walk resolve fallbacks p) ! nat j"
    by (metis l nth_append_length_plus w)
  then show "w ! nat (batchStart p - 1 + j) = (snd (current p) ! nat j, fst (current p))"
    using assms(2,3) unfolding i by (simp add: nth_append nat_less_iff batch_walk_def)
  have "length w = ?b + length (snd (current p)) + length (rest_walk resolve fallbacks p)"
    using arg_cong [OF w, of length] l by simp
  then show "batchStart p - 1 + j < int (length w)" using assms(3) b(1) by simp
qed


definition walk_at :: "'a list \<Rightarrow> int \<Rightarrow> 'a" where
  "walk_at w i = w ! nat (min (i - 1) (int (length w) - 1))"

lemma advanced_batch_stands:
  assumes "stands resolve fallbacks w p" and "i = batchStart p + int (length (snd (current p)))"
    and "batchStart p' = i" and "snd (current p') \<noteq> []"
    and "rest_walk resolve fallbacks p = batch_walk p' @ rest_walk resolve fallbacks p'"
  shows "stands resolve fallbacks w p'"
proof -
  let ?pre = "take (nat (batchStart p - 1)) w @ batch_walk p"
  have w: "w = ?pre @ batch_walk p' @ rest_walk resolve fallbacks p'"
    and b: "1 \<le> batchStart p" "batchStart p - 1 \<le> int (length w)"
    using assms(1,5) by (simp_all add: stands_def)
  have l: "length ?pre = nat (i - 1)" using b assms(2) by (simp add: nat_add_distrib)
  have "take (nat (i - 1)) w = ?pre" by (metis append_eq_conv_conj l w)
  moreover have "i - 1 \<le> int (length w)" using arg_cong [OF w, of length] l by simp
  ultimately show ?thesis using w b assms by (simp add: stands_def)
qed

lemma target_spec:
  assumes st: "stands resolve fallbacks w p" and re: "reaches resolve fallbacks i p"
    and t: "target resolve fallbacks i p = (p', c, m)"
  shows "(c, m) = walk_at w i \<and> stands resolve fallbacks w p' \<and> reaches resolve fallbacks i p' \<and>
    reaches resolve fallbacks (i + 1) p'"
proof -
  let ?n = "int (length (snd (current p)))"
  have n: "0 < ?n" using st by (simp add: stands_def)
  have within: ?thesis if q: "stands resolve fallbacks w q" "batchStart q \<le> i"
    "i < batchStart q + int (length (snd (current q)))" "target_loop resolve fallbacks i p = (q, i - batchStart q)" for q
    using stands_nth [OF q(1), of "i - batchStart q"] q t
    by (auto simp: target_def walk_at_def min_def reaches_def)
  show ?thesis
  proof (cases "i - batchStart p \<ge> ?n")
    case False
    then have "target_loop resolve fallbacks i p = (p, i - batchStart p)"
      by (simp add: target_loop.simps [of resolve fallbacks i p])
    then show ?thesis using within [of p] st re False by (simp add: reaches_def)
  next
    case True
    obtain q ok where a: "advance resolve fallbacks i p = (q, ok)" by fastforce
    note adv = advance_stands [OF a st]
    show ?thesis
    proof (cases ok)
      case ok: True
      then have q: "batchStart q = i" "snd (current q) \<noteq> []"
        "rest_walk resolve fallbacks p = batch_walk q @ rest_walk resolve fallbacks q"
        using adv by simp_all
      then have "rest_walk resolve fallbacks p \<noteq> []" by (simp add: batch_walk_def)
      then have i: "i = batchStart p + ?n" using re True by (simp add: reaches_def)
      have "target_loop resolve fallbacks i p = (q, i - batchStart q)"
        using True a ok q by (simp add: target_loop.simps [of resolve fallbacks i p]
            target_loop.simps [of resolve fallbacks i q])
      then show ?thesis using within [of q] advanced_batch_stands [OF st i q] q by simp
    next
      case no: False
      then have q: "rest_walk resolve fallbacks p = []" "batchStart q = batchStart p" "current q = current p"
        "rest_walk resolve fallbacks q = []"
        using adv by simp_all
      have stq: "stands resolve fallbacks w q" using st q by (simp add: stands_def batch_walk_def)
      have "w = take (nat (batchStart p - 1)) w @ batch_walk p" and b: "1 \<le> batchStart p"
        "batchStart p - 1 \<le> int (length w)"
        using st q(1) by (simp_all add: stands_def)
      from arg_cong [OF this(1), of length] have len: "int (length w) = batchStart p - 1 + ?n"
        using b by simp
      have "target_loop resolve fallbacks i p = (q, ?n - 1)"
        using True a no q by (simp add: target_loop.simps [of resolve fallbacks i p])
      then show ?thesis
        using stands_nth(1) [OF stq, of "?n - 1"] t q n len True stq re
        by (auto simp: target_def walk_at_def min_def reaches_def)
    qed
  qed
qed

text \<open>Targets asked for in sequence, each at most one past the last, as the loop and its lookahead do.\<close>

fun targets :: "resolver option \<Rightarrow> string list \<Rightarrow> int list \<Rightarrow> plan \<Rightarrow> (string \<times> string) list" where
  "targets resolve fallbacks [] p = []"
| "targets resolve fallbacks (i # is) p =
     (let (p', cm) = target resolve fallbacks i p in cm # targets resolve fallbacks is p')"

fun in_sequence :: "int \<Rightarrow> int list \<Rightarrow> bool" where
  "in_sequence i [] \<longleftrightarrow> True"
| "in_sequence i (j # js) \<longleftrightarrow> (j = i \<or> j = i + 1) \<and> in_sequence j js"

lemma targets_walk:
  assumes "stands resolve fallbacks w p" and "reaches resolve fallbacks i p" and "reaches resolve fallbacks (i + 1) p"
    and "in_sequence i is"
  shows "targets resolve fallbacks is p = map (walk_at w) is"
  using assms
proof (induction "is" arbitrary: i p)
  case (Cons j js)
  obtain p' c m where t: "target resolve fallbacks j p = (p', c, m)" by (metis prod_cases3)
  have "reaches resolve fallbacks j p" using Cons.prems by auto
  note sp = target_spec [OF Cons.prems(1) this t]
  have "targets resolve fallbacks js p' = map (walk_at w) js"
    using Cons.IH [of p' j] sp Cons.prems(4) by simp
  then show ?case using sp by (simp add: t)
qed simp

lemma reaches_new:
  "cands \<noteq> [] \<Longrightarrow> reaches resolve fallbacks 1 (new_plan model cands) \<and>
     reaches resolve fallbacks 2 (new_plan model cands)"
  by (cases cands) (simp_all add: reaches_def new_plan_def current_def)


subsection \<open>Properties\<close>

text \<open>
  Failover walks the candidates and the fallback chain exactly once.  Asked for the
  targets of attempts in sequence, repeated questions (the lookahead of the hint rule)
  included, the lazily resolved plan answers with the walk fixed by the job: the primary
  model's candidates in order, then the candidates of every fallback model that is new
  and resolves, each with its model, and the last candidate for every attempt beyond.
\<close>

theorem failover_walks_once:
  assumes "cands \<noteq> []" and "in_sequence 1 attempts"
  shows "targets resolve fallbacks attempts (new_plan model cands) =
    map (walk_at (job_walk resolve model cands fallbacks)) attempts"
  using targets_walk [OF stands_new [OF assms(1)] _ _ assms(2)] reaches_new [OF assms(1)] by simp

definition demo_resolver :: resolver where
  "demo_resolver m = (if m = ''m2'' then Some [''c'', ''d''] else if m = ''m3'' then Some [] else None)"

theorem failover_walks_once_witness:
  "targets (Some demo_resolver) [''m1'', ''m3'', ''m2'', ''m2''] [1, 2, 2, 3, 3, 4, 5] (new_plan ''m1'' [''a'']) =
     [(''a'', ''m1''), (''c'', ''m2''), (''c'', ''m2''), (''d'', ''m2''), (''d'', ''m2''), (''d'', ''m2''), (''d'', ''m2'')]"
  using failover_walks_once [of "[''a'']" "[1, 2, 2, 3, 3, 4, 5]" "Some demo_resolver"
      "[''m1'', ''m3'', ''m2'', ''m2'']" "''m1''"]
  by (simp add: job_walk_def demo_resolver_def walk_at_def)

end
