(* ===== verification/Upstream.thy ===== *)
theory Upstream
  imports Go_Strings "HOL-Library.Word" "HOL-Library.Monad_Syntax"
begin

text \<open>
  The provider adapters (\<^verbatim>\<open>internal/upstream\<close>): the credential ring
  (\<^verbatim>\<open>credential.go\<close>), the model map (\<^verbatim>\<open>modelmap.go\<close>) and the OpenAI-compatible
  adapter (\<^verbatim>\<open>openai.go\<close>).

  The ring's cursor is a 64-bit word and wraps; \<open>int(...)\<close> reads it signed and \<open>%\<close>
  truncates, as in Go.  A credential index is an \<open>int\<close>, -1 for none.  \<open>pick\<close> is two
  atomic steps on the cursor, the fetch-and-add and the store that follows the scan:
  \<open>pick_begin\<close> and \<open>pick_end\<close> model them apart, so that interleavings of concurrent
  requests can be written down, and \<open>pick\<close> composes them.

  The JSON codec, the HTTP client and request construction are arguments of the
  adapter: \<open>jdec\<close> decodes a body to its top-level members, \<open>jenc\<close> encodes them,
  \<open>jname\<close> encodes a name, \<open>build\<close> says whether a request can be built for a URL, and
  \<open>exchange\<close> is the exchange itself, \<open>None\<close> when it does not complete.
\<close>

subsection \<open>The credential ring\<close>

record ring =
  keys :: "string list"
  dead :: "bool list"
  cursor :: "64 word"

definition newCredentialRing :: "string list \<Rightarrow> ring" where
  "newCredentialRing ks = \<lparr>keys = ks, dead = replicate (length ks) False, cursor = 0\<rparr>"

fun containsIndex :: "int list \<Rightarrow> int \<Rightarrow> bool" where
  "containsIndex [] index = False"
| "containsIndex (got # excluded) index = (if got = index then True else containsIndex excluded index)"

definition pick_begin :: "ring \<Rightarrow> ring \<times> int" where
  "pick_begin r =
     (let c = cursor r + 1 in (r\<lparr>cursor := c\<rparr>, sint (c - 1) smod int (length (keys r))))"

definition scan_order :: "int \<Rightarrow> nat \<Rightarrow> int list" where
  "scan_order start n = map (\<lambda>i. (start + int i) smod int n) [0..<n]"

definition pick_end :: "ring \<Rightarrow> int \<Rightarrow> int list \<Rightarrow> ring \<times> int" where
  "pick_end r start excluded =
     (let order = scan_order start (length (keys r)) in
      case List.find (\<lambda>idx. \<not> (dead r ! nat idx \<or> containsIndex excluded idx)) order of
        Some idx \<Rightarrow> (r\<lparr>cursor := word_of_int (idx + 1)\<rparr>, idx)
      | None \<Rightarrow>
          (case List.find (\<lambda>idx. \<not> dead r ! nat idx) order of
             Some idx \<Rightarrow> (r\<lparr>cursor := word_of_int (idx + 1)\<rparr>, idx)
           | None \<Rightarrow> (r, -1)))"

definition pick :: "ring \<Rightarrow> int list \<Rightarrow> ring \<times> int" where
  "pick r excluded =
     (if keys r = [] then (r, -1)
      else let (r1, start) = pick_begin r in pick_end r1 start excluded)"

definition retire :: "ring \<Rightarrow> int \<Rightarrow> ring \<times> bool" where
  "retire r index =
     (if index < 0 \<or> index \<ge> int (length (dead r)) then (r, False)
      else (r\<lparr>dead := (dead r)[nat index := True]\<rparr>, \<not> dead r ! nat index))"

definition alive :: "ring \<Rightarrow> int" where
  "alive r = int (length (filter (\<lambda>d. \<not> d) (dead r)))"

definition revive :: "ring \<Rightarrow> ring" where
  "revive r = r\<lparr>dead := map (\<lambda>_. False) (dead r)\<rparr>"

text \<open>Well-formed rings: one flag per key, and a cursor that reads as a non-negative \<open>int\<close>.\<close>

definition ring_ok :: "ring \<Rightarrow> bool" where
  "ring_ok r \<longleftrightarrow> length (dead r) = length (keys r) \<and> length (keys r) < 2 ^ 62 \<and>
     0 \<le> sint (cursor r)"

definition live :: "ring \<Rightarrow> int \<Rightarrow> bool" where
  "live r i \<longleftrightarrow> 0 \<le> i \<and> i < int (length (dead r)) \<and> \<not> dead r ! nat i"

lemma containsIndex_set [simp]: "containsIndex xs i \<longleftrightarrow> i \<in> set xs"
  by (induction xs) auto

lemma sint_small:
  "0 \<le> k \<Longrightarrow> k < 2 ^ 63 \<Longrightarrow> sint (word_of_int k :: 64 word) = k"
  by (simp add: int_word_sint)

lemma scan_order_rotate:
  assumes "0 \<le> start" and "start < int n"
  shows "scan_order start n = map int (rotate (nat start) [0..<n])"
proof -
  have "rotate (nat start) [0..<n] = map (\<lambda>i. (nat start + i) mod n) [0..<n]"
    by (rule nth_equalityI) (simp_all add: nth_rotate)
  moreover have "(start + int i) smod int n = int ((nat start + i) mod n)" for i
    using assms by (simp add: smod_nonneg_pos zmod_int)
  ultimately show ?thesis by (simp add: scan_order_def)
qed

subsection \<open>The scan from the cursor\<close>

text \<open>The positions a pick looks at, in order, and the alive ones among them.\<close>

definition ring_from :: "ring \<Rightarrow> int list" where
  "ring_from r = map int (rotate (nat (sint (cursor r)) mod length (keys r)) [0..<length (keys r)])"

definition live_from :: "ring \<Rightarrow> int list" where
  "live_from r = filter (live r) (ring_from r)"

lemma ring_from_set: "set (ring_from r) = {0..<int (length (keys r))}"
  by (simp add: ring_from_def image_int_atLeastLessThan)

lemma live_from_props:
  "distinct (live_from r)" "ring_ok r \<Longrightarrow> set (live_from r) = {i. live r i}"
proof -
  show "distinct (live_from r)"
    by (simp add: live_from_def ring_from_def distinct_map distinct_filter)
  show "ring_ok r \<Longrightarrow> set (live_from r) = {i. live r i}"
    by (auto simp: live_from_def ring_from_set live_def ring_ok_def)
qed

lemma find_filter: "List.find P xs = (case filter P xs of [] \<Rightarrow> None | x # _ \<Rightarrow> Some x)"
  by (induction xs) auto

lemma pick_eq:
  assumes "ring_ok r" and "keys r \<noteq> []"
  shows "pick r ex =
    (case filter (\<lambda>i. i \<notin> set ex) (live_from r) of
       i # _ \<Rightarrow> (r\<lparr>cursor := word_of_int (i + 1)\<rparr>, i)
     | [] \<Rightarrow>
         (case live_from r of
            i # _ \<Rightarrow> (r\<lparr>cursor := word_of_int (i + 1)\<rparr>, i)
          | [] \<Rightarrow> (r\<lparr>cursor := cursor r + 1\<rparr>, -1)))"
proof -
  let ?n = "length (keys r)"
  let ?start = "sint (cursor r) smod int ?n"
  have n: "0 < ?n" and c: "0 \<le> sint (cursor r)" using assms by (simp_all add: ring_ok_def)
  have start: "?start = int (nat (sint (cursor r)) mod ?n)"
    using n c by (simp add: smod_nonneg_pos zmod_int)
  have order: "scan_order ?start ?n = ring_from r"
    using n by (subst scan_order_rotate) (simp_all add: start ring_from_def)
  have "filter (\<lambda>i. \<not> dead r ! nat i) (ring_from r) = live_from r"
    unfolding live_from_def using assms(1)
    by (intro filter_cong) (auto simp: ring_from_set live_def ring_ok_def)
  moreover have
    "filter (\<lambda>i. \<not> (dead r ! nat i \<or> i \<in> set ex)) (ring_from r) = filter (\<lambda>i. i \<notin> set ex) (live_from r)"
    unfolding live_from_def filter_filter using assms(1)
    by (intro filter_cong) (auto simp: ring_from_set live_def ring_ok_def)
  ultimately show ?thesis
    using assms(2) order
    by (simp add: pick_def pick_begin_def pick_end_def Let_def find_filter split: list.split)
qed

lemma pick_keeps_ring:
  assumes "ring_ok r" and "pick r ex = (r', i)"
  shows "keys r' = keys r \<and> dead r' = dead r \<and> (i \<noteq> -1 \<longrightarrow> ring_ok r' \<and> live r i \<and> sint (cursor r') = i + 1)"
proof (cases "keys r = []")
  case False
  have live: "live r j" if "live_from r = j # js \<or> filter (\<lambda>i. i \<notin> set ex) (live_from r) = j # js" for j js
  proof -
    have "j \<in> set (live_from r)"
      using that by (metis filter_is_subset list.set_intros(1) subsetD)
    then show ?thesis using live_from_props(2) [OF assms(1)] by simp
  qed
  have "sint (word_of_int (j + 1) :: 64 word) = j + 1" if "live r j" for j
    using that assms(1) by (intro sint_small) (auto simp: live_def ring_ok_def)
  moreover have "0 \<le> j" if "live r j" for j using that by (simp add: live_def)
  ultimately show ?thesis
    using assms live pick_eq [OF assms(1) False, of ex]
    by (fastforce simp: ring_ok_def split: list.splits)
qed (use assms in \<open>simp add: pick_def\<close>)

lemma rotate_past:
  assumes "rotate c [0..<n] = xs @ k # ys"
  shows "rotate ((k + 1) mod n) [0..<n] = ys @ xs @ [k]"
proof -
  have len: "length xs < n" using arg_cong [OF assms, of length] by simp
  have "k = (c + length xs) mod n"
    using arg_cong [OF assms, of "\<lambda>l. l ! length xs"] len by (simp add: nth_rotate)
  then have "(k + 1) mod n = (length (xs @ [k]) + c) mod n"
    by (simp add: mod_Suc_eq add.commute)
  then have "rotate ((k + 1) mod n) [0..<n] = rotate (length (xs @ [k])) (rotate c [0..<n])"
    using rotate_conv_mod [of "length (xs @ [k]) + c" "[0..<n]"] by (simp add: rotate_rotate)
  also have "\<dots> = rotate (length (xs @ [k])) ((xs @ [k]) @ ys)" by (simp add: assms)
  also have "\<dots> = ys @ xs @ [k]" using rotate_append [of "xs @ [k]" ys] by simp
  finally show ?thesis .
qed

lemma live_from_next:
  assumes "ring_ok r" and "live_from r = i # js"
  shows "live_from (r\<lparr>cursor := word_of_int (i + 1)\<rparr>) = js @ [i]"
proof -
  let ?n = "length (keys r)"
  obtain us vs where split: "ring_from r = us @ i # vs" "\<forall>u \<in> set us. \<not> live r u" "live r i"
    "js = filter (live r) vs"
    using assms(2) by (auto simp: live_from_def filter_eq_Cons_iff)
  then obtain xs k ys where R: "rotate (nat (sint (cursor r)) mod ?n) [0..<?n] = xs @ k # ys"
    "us = map int xs" "i = int k" "vs = map int ys"
    by (auto simp: ring_from_def map_eq_append_conv map_eq_Cons_conv)
  have "nat (sint (word_of_int (i + 1) :: 64 word)) = k + 1"
    using split(3) assms(1) R(3) sint_small [of "i + 1"] by (auto simp: live_def ring_ok_def)
  then have "ring_from (r\<lparr>cursor := word_of_int (i + 1)\<rparr>) = vs @ us @ [i]"
    unfolding ring_from_def using rotate_past [OF R(1)] by (simp add: R(2-4))
  moreover have "live (r\<lparr>cursor := word_of_int (i + 1)\<rparr>) = live r"
    by (simp add: live_def fun_eq_iff)
  moreover have "filter (live r) us = []" using split(2) by (simp add: filter_empty_conv)
  ultimately show ?thesis using split(3,4) by (simp add: live_from_def)
qed

fun picks :: "nat \<Rightarrow> ring \<Rightarrow> int list" where
  "picks 0 r = []"
| "picks (Suc k) r = (let (r1, i) = pick r [] in i # picks k r1)"

lemma picks_cycle:
  assumes "ring_ok r" and "live_from r \<noteq> []"
  shows "picks k r = map (\<lambda>j. live_from r ! (j mod length (live_from r))) [0..<k]"
  using assms
proof (induction k arbitrary: r)
  case (Suc k)
  then obtain i js where L: "live_from r = i # js" by (cases "live_from r") auto
  then have "keys r \<noteq> []" by (auto simp: live_from_def ring_from_def)
  then have p: "pick r [] = (r\<lparr>cursor := word_of_int (i + 1)\<rparr>, i)"
    using pick_eq [OF Suc.prems(1), of "[]"] L by simp
  have L1: "live_from (r\<lparr>cursor := word_of_int (i + 1)\<rparr>) = js @ [i]"
    by (rule live_from_next [OF Suc.prems(1) L])
  have "live r i" using live_from_props(2) [OF Suc.prems(1)] L by auto
  then have "i \<noteq> -1" by (simp add: live_def)
  then have ok: "ring_ok (r\<lparr>cursor := word_of_int (i + 1)\<rparr>)"
    using pick_keeps_ring [OF Suc.prems(1) p] by simp
  have "js @ [i] = rotate1 (i # js)" by simp
  then have "(js @ [i]) ! (j mod length (js @ [i])) = (i # js) ! (Suc j mod length (i # js))" for j
    using nth_rotate1 [of "j mod length (i # js)" "i # js"] by (simp add: mod_Suc_eq)
  moreover have "picks k (r\<lparr>cursor := word_of_int (i + 1)\<rparr>) =
      map (\<lambda>j. (js @ [i]) ! (j mod length (js @ [i]))) [0..<k]"
    using Suc.IH [OF ok] unfolding L1 by simp
  ultimately show ?case
    by (simp add: p L upt_conv_Cons map_Suc_upt [symmetric] comp_def del: upt_Suc of_int_add wi_hom_syms)
qed simp

lemma alive_length: "ring_ok r \<Longrightarrow> alive r = int (length (live_from r))"
proof -
  assume ok: "ring_ok r"
  have "length (filter (\<lambda>d. \<not> d) (dead r)) = card {i. i < length (dead r) \<and> \<not> dead r ! i}"
    by (simp add: length_filter_conv_card)
  also have "\<dots> = card {i. live r i}"
    by (rule bij_betw_same_card [of int], rule bij_betw_byWitness [of _ nat]) (auto simp: live_def)
  also have "\<dots> = length (live_from r)"
    using live_from_props [of r] ok by (simp flip: distinct_card)
  finally show ?thesis by (simp add: alive_def)
qed

subsection \<open>The model map\<close>

text \<open>\<open>strings.Cut\<close> around the first occurrence of a one-byte separator.\<close>

definition cut_at :: "char \<Rightarrow> string \<Rightarrow> string \<times> string \<times> bool" where
  "cut_at c s =
     (let before = takeWhile (\<lambda>x. x \<noteq> c) s; rest = dropWhile (\<lambda>x. x \<noteq> c) s
      in if rest = [] then (s, '''', False) else (before, tl rest, True))"

fun parse_model_entries :: "(string \<rightharpoonup> string) \<Rightarrow> string list \<Rightarrow> (string \<rightharpoonup> string)" where
  "parse_model_entries rewrites [] = rewrites"
| "parse_model_entries rewrites (entry # models) =
     (let (client, provider, ok) = cut_at (CHR ''='') entry
      in if \<not> ok \<or> client = '''' \<or> provider = '''' \<or> client = ''*''
         then parse_model_entries rewrites models
         else parse_model_entries (rewrites(client \<mapsto> provider)) models)"

definition ParseModelMap :: "string list \<Rightarrow> (string \<rightharpoonup> string)" where
  "ParseModelMap models = parse_model_entries Map.empty models"

datatype forward_error =
    BadBody
  | NoCredential
  | BadRequest
  | ExchangeFailed

definition rewriteModelBody ::
  "('w \<Rightarrow> (string \<rightharpoonup> 'v) option) \<Rightarrow> ((string \<rightharpoonup> 'v) \<Rightarrow> 'w) \<Rightarrow> (string \<Rightarrow> 'v) \<Rightarrow> 'w \<Rightarrow> string \<Rightarrow> 'w option" where
  "rewriteModelBody jdec jenc jname body model =
     map_option (\<lambda>members. jenc (members(''model'' \<mapsto> jname model))) (jdec body)"

subsection \<open>The adapter\<close>

record openai =
  oid :: string
  baseURL :: string
  oring :: ring
  oprobe :: string
  modelMap :: "string \<rightharpoonup> string"

record openai_config =
  cfgID :: string
  cfgBaseURL :: string
  cfgAPIKeys :: "string list"
  cfgProbeURL :: string
  cfgModelMap :: "string \<rightharpoonup> string"

datatype adapter_error = NeedsID | NeedsBaseURL

definition NewOpenAI :: "openai_config \<Rightarrow> adapter_error + openai" where
  "NewOpenAI cfg =
     (if cfgID cfg = '''' then Inl NeedsID
      else if cfgBaseURL cfg = '''' then Inl NeedsBaseURL
      else Inr \<lparr>oid = cfgID cfg, baseURL = cfgBaseURL cfg, oring = newCredentialRing (cfgAPIKeys cfg),
                oprobe = cfgProbeURL cfg, modelMap = cfgModelMap cfg\<rparr>)"

definition AliveCredentials :: "openai \<Rightarrow> int" where
  "AliveCredentials o1 = alive (oring o1)"

definition RetireCredential :: "openai \<Rightarrow> int \<Rightarrow> openai \<times> bool" where
  "RetireCredential o1 index = (let (r, b) = retire (oring o1) index in (o1\<lparr>oring := r\<rparr>, b))"

definition ReviveCredentials :: "openai \<Rightarrow> openai" where
  "ReviveCredentials o1 = o1\<lparr>oring := revive (oring o1)\<rparr>"

record 'w request =
  rmodel :: string
  rbodyModel :: string
  rstream :: bool
  rbody :: 'w
  rrequestID :: string
  rexcluded :: "int list"

record 'w wire_request =
  wurl :: string
  wbody :: 'w
  wheaders :: "(string \<times> string) list"

record 'w response =
  pstatus :: int
  pheaders :: "(string \<times> string) list"
  pbody :: 'w
  pcredential :: int

definition completionPath :: string where "completionPath = ''/v1/chat/completions''"

definition bodyModel :: "openai \<Rightarrow> 'w request \<Rightarrow> string \<times> bool" where
  "bodyModel o1 req =
     (let target = (case modelMap o1 (rmodel req) of Some provider \<Rightarrow> provider | None \<Rightarrow> rmodel req);
          carrier = (if rbodyModel req \<noteq> '''' then rbodyModel req else rmodel req)
      in (target, target \<noteq> carrier))"

definition wire_of :: "openai \<Rightarrow> 'w request \<Rightarrow> int \<Rightarrow> 'w \<Rightarrow> 'w wire_request" where
  "wire_of o1 req index body =
     \<lparr>wurl = baseURL o1 @ completionPath, wbody = body,
      wheaders =
        [(''Content-Type'', ''application/json'')] @
        (if rstream req then [(''Accept'', ''text/event-stream'')] else []) @
        (if index \<ge> 0 then [(''Authorization'', ''Bearer '' @ keys (oring o1) ! nat index)] else []) @
        (if rrequestID req \<noteq> '''' then [(''X-Request-Id'', rrequestID req)] else [])\<rparr>"

definition Forward ::
  "('w \<Rightarrow> (string \<rightharpoonup> 'v) option) \<Rightarrow> ((string \<rightharpoonup> 'v) \<Rightarrow> 'w) \<Rightarrow> (string \<Rightarrow> 'v) \<Rightarrow> (string \<Rightarrow> bool) \<Rightarrow>
   ('w wire_request \<Rightarrow> (int \<times> (string \<times> string) list \<times> 'w) option) \<Rightarrow>
   openai \<Rightarrow> 'w request \<Rightarrow> openai \<times> (forward_error + 'w response)" where
  "Forward jdec jenc jname build exchange o1 req =
     (let (target, differs) = bodyModel o1 req;
          body = (if differs then rewriteModelBody jdec jenc jname (rbody req) target else Some (rbody req))
      in case body of
           None \<Rightarrow> (o1, Inl BadBody)
         | Some bytes \<Rightarrow>
             (let (r, index) = (if keys (oring o1) \<noteq> [] then pick (oring o1) (rexcluded req) else (oring o1, -1));
                  o2 = o1\<lparr>oring := r\<rparr>
              in if keys (oring o1) \<noteq> [] \<and> index < 0 then (o2, Inl NoCredential)
                 else if \<not> build (baseURL o2 @ completionPath) then (o2, Inl BadRequest)
                 else case exchange (wire_of o2 req index bytes) of
                        None \<Rightarrow> (o2, Inl ExchangeFailed)
                      | Some (status, headers, rbytes) \<Rightarrow>
                          (o2, Inr \<lparr>pstatus = status, pheaders = headers, pbody = rbytes, pcredential = index\<rparr>)))"

datatype probe_verdict = ProbeUnset | ProbeUnbuildable | ProbeIncomplete | ProbeStatus int | ProbeOk

definition Probe :: "(string \<Rightarrow> bool) \<Rightarrow> (string \<Rightarrow> (int \<times> bool) option) \<Rightarrow> openai \<Rightarrow> probe_verdict" where
  "Probe build get o1 =
     (if oprobe o1 = '''' then ProbeUnset
      else if \<not> build (oprobe o1) then ProbeUnbuildable
      else case get (oprobe o1) of
             None \<Rightarrow> ProbeIncomplete
           | Some (status, drained) \<Rightarrow>
               if \<not> drained then ProbeIncomplete
               else if status < 200 \<or> status > 299 then ProbeStatus status else ProbeOk)"

subsection \<open>Properties\<close>

lemma pick_eligible:
  assumes "ring_ok r" and "pick r ex = (r', i)"
  shows "(i = -1 \<longleftrightarrow> alive r = 0) \<and>
    (i \<noteq> -1 \<longrightarrow> live r i \<and> (i \<in> set ex \<longrightarrow> (\<forall>j. live r j \<longrightarrow> j \<in> set ex)))"
proof (cases "keys r = []")
  case True
  then show ?thesis using assms by (simp add: pick_def alive_def ring_ok_def)
next
  case False
  note L = live_from_props(2) [OF assms(1)] and len = alive_length [OF assms(1)]
  have no: "\<not> live r (-1)" by (simp add: live_def)
  show ?thesis
  proof (cases "filter (\<lambda>i. i \<notin> set ex) (live_from r)")
    case (Cons k ks)
    have "k \<in> set (live_from r)" "k \<notin> set ex" using arg_cong [OF Cons, of set] by auto
    moreover have "i = k" using pick_eq [OF assms(1) False, of ex] assms(2) Cons by simp
    ultimately show ?thesis using no L len by auto
  next
    case Nil
    then have all: "live r j \<Longrightarrow> j \<in> set ex" for j using L by (auto simp: filter_empty_conv)
    show ?thesis
      using pick_eq [OF assms(1) False, of ex] assms(2) Nil no L len all
      by (cases "live_from r") auto
  qed
qed

text \<open>
  C27: the credential ring serves live credentials in rotation.  A pick hands out a live
  credential, one the request did not exclude unless it excluded every live one, and
  reports none exactly when none is alive; and any number of successive picks walk the
  live credentials round-robin, each one once before any is repeated.
\<close>

theorem credential_rotation:
  assumes "ring_ok r"
  shows "(\<forall>ex r' i. pick r ex = (r', i) \<longrightarrow> (i = -1 \<longleftrightarrow> alive r = 0) \<and>
      (i \<noteq> -1 \<longrightarrow> live r i \<and> (i \<in> set ex \<longrightarrow> (\<forall>j. live r j \<longrightarrow> j \<in> set ex)))) \<and>
    (0 < alive r \<longrightarrow> (\<exists>L. distinct L \<and> set L = {i. live r i} \<and> int (length L) = alive r \<and>
       (\<forall>k. picks k r = map (\<lambda>j. L ! (j mod length L)) [0..<k])))"
proof -
  have "\<exists>L. distinct L \<and> set L = {i. live r i} \<and> int (length L) = alive r \<and>
      (\<forall>k. picks k r = map (\<lambda>j. L ! (j mod length L)) [0..<k])" if "0 < alive r"
    using that picks_cycle [OF assms] live_from_props(1) [of r] live_from_props(2) [OF assms]
      alive_length [OF assms]
    by (intro exI [of _ "live_from r"]) auto
  then show ?thesis using pick_eligible [OF assms] by blast
qed

definition demo_ring :: ring where
  "demo_ring = fst (retire (newCredentialRing [''k0'', ''k1'', ''k2'']) 1)"

theorem credential_rotation_witness:
  "snd (pick demo_ring [0]) = 2 \<and> live demo_ring (snd (pick demo_ring [0, 2])) \<and>
   picks 5 demo_ring = [0, 2, 0, 2, 0]"
proof -
  have ok: "ring_ok demo_ring"
    by (simp add: demo_ring_def ring_ok_def retire_def newCredentialRing_def)
  have "snd (pick demo_ring [0]) = 2" "snd (pick demo_ring [0, 2]) = 0" "picks 5 demo_ring = [0, 2, 0, 2, 0]"
    unfolding demo_ring_def by code_simp+
  moreover have "live demo_ring (snd (pick demo_ring [0, 2]))"
    using credential_rotation [OF ok] calculation(2) by (metis one_neq_neg_one prod.collapse zero_neq_neg_one)
  ultimately show ?thesis by simp
qed

text \<open>
  Two concurrent picks can hand the next request a credential just used.  The store
  after the scan overwrites a cursor that has moved on: with three live credentials, if
  the second of two overlapping picks stores first, the pick that follows repeats its
  credential although the third has not been used at all.
\<close>

lemma overlapping_picks_repeat:
  "let r0 = newCredentialRing [''k0'', ''k1'', ''k2''];
       (r1, startA) = pick_begin r0; (r2, startB) = pick_begin r1;
       (r3, idxB) = pick_end r2 startB []; (r4, idxA) = pick_end r3 startA [];
       (r5, idxC) = pick r4 []
   in idxA = 0 \<and> idxB = 1 \<and> idxC = 1 \<and> picks 3 r0 = [0, 1, 2]"
  by code_simp

text \<open>
  C28: one exchange carries the right model and a usable credential.  For a request
  whose body names the model it claims to carry, and whose members with the provider's
  model in their place decode to themselves once encoded, whenever \<open>Forward\<close> reports an exchange,
  the bytes put on the wire name the model this provider serves and keep every other
  member, and the Authorization header is a live key of the ring, not an excluded one
  unless every live key is excluded.
\<close>

theorem forward_contract:
  assumes codec: "jdec (jenc (members(''model'' \<mapsto> jname (fst (bodyModel o1 req))))) =
      Some (members(''model'' \<mapsto> jname (fst (bodyModel o1 req))))"
    and "ring_ok (oring o1)" and "keys (oring o1) \<noteq> []"
    and "jdec (rbody req) = Some members"
    and "members ''model'' = Some (jname (if rbodyModel req \<noteq> '''' then rbodyModel req else rmodel req))"
    and "Forward jdec jenc jname build exchange o1 req = (o2, Inr resp)"
  shows "\<exists>w sent. exchange w = Some (pstatus resp, pheaders resp, pbody resp) \<and>
    jdec (wbody w) = Some sent \<and> sent ''model'' = Some (jname (fst (bodyModel o1 req))) \<and>
    (\<forall>k. k \<noteq> ''model'' \<longrightarrow> sent k = members k) \<and>
    live (oring o1) (pcredential resp) \<and>
    (''Authorization'', ''Bearer '' @ keys (oring o1) ! nat (pcredential resp)) \<in> set (wheaders w) \<and>
    (pcredential resp \<in> set (rexcluded req) \<longrightarrow> (\<forall>j. live (oring o1) j \<longrightarrow> j \<in> set (rexcluded req)))"
proof -
  obtain target differs where bm: "bodyModel o1 req = (target, differs)" by fastforce
  obtain r i where p: "pick (oring o1) (rexcluded req) = (r, i)" by fastforce
  define bytes where "bytes = (if differs then jenc (members(''model'' \<mapsto> jname target)) else rbody req)"
  let ?w = "wire_of (o1\<lparr>oring := r\<rparr>) req i bytes"
  have i: "i \<ge> 0" "pcredential resp = i"
    "exchange ?w = Some (pstatus resp, pheaders resp, pbody resp)"
    using assms(3,4,6) bm p by (auto simp: Forward_def rewriteModelBody_def bytes_def Let_def
        split: if_splits option.splits prod.splits)
  have "\<exists>sent. jdec bytes = Some sent \<and> sent ''model'' = Some (jname target) \<and>
      (\<forall>k. k \<noteq> ''model'' \<longrightarrow> sent k = members k)"
    using codec assms(4,5) bm by (auto simp: bytes_def bodyModel_def Let_def split: if_splits)
  moreover have "keys r = keys (oring o1)" using pick_keeps_ring [OF assms(2) p] by simp
  then have "(''Authorization'', ''Bearer '' @ keys (oring o1) ! nat i) \<in> set (wheaders ?w)"
    "wbody ?w = bytes"
    using i(1) by (simp_all add: wire_of_def)
  ultimately show ?thesis
    using pick_eligible [OF assms(2) p] i bm by (intro exI [of _ ?w]) auto
qed

definition demo_adapter :: openai where
  "demo_adapter =
     \<lparr>oid = ''up'', baseURL = ''http://h'', oring = demo_ring, oprobe = '''',
      modelMap = ParseModelMap [''gpt=real-gpt'', ''*'', ''plain'']\<rparr>"

text \<open>A codec on strings for bodies of two members: the model, a bar, the temperature.\<close>

definition demo_jdec :: "string \<Rightarrow> (string \<rightharpoonup> string) option" where
  "demo_jdec body =
     (if CHR ''|'' \<in> set body
      then Some [''model'' \<mapsto> takeWhile (\<lambda>c. c \<noteq> CHR ''|'') body,
                 ''temperature'' \<mapsto> tl (dropWhile (\<lambda>c. c \<noteq> CHR ''|'') body)]
      else None)"

definition demo_jenc :: "(string \<rightharpoonup> string) \<Rightarrow> string" where
  "demo_jenc members =
     (case members ''model'' of None \<Rightarrow> [] | Some v \<Rightarrow> v) @ ''|'' @
     (case members ''temperature'' of None \<Rightarrow> [] | Some v \<Rightarrow> v)"

definition demo_request :: "string request" where
  "demo_request =
     \<lparr>rmodel = ''gpt'', rbodyModel = ''first'', rstream = True,
      rbody = ''first|1'', rrequestID = '''', rexcluded = [0]\<rparr>"

definition demo_exchange :: "string wire_request \<Rightarrow> (int \<times> (string \<times> string) list \<times> string) option" where
  "demo_exchange w =
     (if (''Authorization'', ''Bearer k2'') \<in> set (wheaders w) \<and> wbody w = ''real-gpt|1''
      then Some (200, [], ''ok'') else None)"

theorem forward_contract_witness:
  "\<exists>w sent. demo_exchange w = Some (200, [], ''ok'') \<and> demo_jdec (wbody w) = Some sent \<and>
     sent ''model'' = Some ''real-gpt'' \<and> sent ''temperature'' = Some ''1''"
proof -
  let ?ms = "[''model'' \<mapsto> ''first'', ''temperature'' \<mapsto> ''1'']"
  have ring: "ring_ok (oring demo_adapter)" "keys (oring demo_adapter) \<noteq> []"
    by (simp_all add: demo_adapter_def demo_ring_def ring_ok_def retire_def newCredentialRing_def)
  have pick: "snd (pick demo_ring [0]) = 2" unfolding demo_ring_def by code_simp
  have map: "modelMap demo_adapter ''gpt'' = Some ''real-gpt''"
    by (simp add: demo_adapter_def ParseModelMap_def cut_at_def)
  have key: "keys (fst (pick demo_ring [0])) = [''k0'', ''k1'', ''k2'']"
    unfolding demo_ring_def by code_simp
  have bm: "bodyModel demo_adapter demo_request = (''real-gpt'', True)"
    using map by (simp add: bodyModel_def demo_request_def)
  have dec: "demo_jdec (rbody demo_request) = Some ?ms" "demo_jenc (?ms(''model'' \<mapsto> ''real-gpt'')) = ''real-gpt|1''"
    "demo_jdec ''real-gpt|1'' = Some (?ms(''model'' \<mapsto> ''real-gpt''))"
    by (simp_all add: demo_jdec_def demo_jenc_def demo_request_def fun_upd_twist)
  let ?fw = "Forward demo_jdec demo_jenc (\<lambda>s. s) (\<lambda>_. True) demo_exchange demo_adapter demo_request"
  have "?fw = (fst ?fw, Inr \<lparr>pstatus = 200, pheaders = [], pbody = ''ok'', pcredential = 2\<rparr>)"
    using bm pick key ring(2) dec
    by (simp add: Forward_def rewriteModelBody_def demo_exchange_def wire_of_def
        demo_adapter_def Let_def case_prod_beta) (simp add: demo_request_def)
  from forward_contract [OF _ ring dec(1) _ this] obtain w sent
    where "demo_exchange w = Some (200, [], ''ok'')" "demo_jdec (wbody w) = Some sent"
      "sent ''model'' = Some ''real-gpt''" "\<forall>k. k \<noteq> ''model'' \<longrightarrow> sent k = ?ms k"
    using bm dec by (auto simp: demo_request_def)
  then show ?thesis by (intro exI [of _ w] exI [of _ sent]) simp
qed

end
