(* ===== verification/Relay.thy ===== *)
theory Relay
  imports Retry Relay_Plan Relay_Stream Upstream Limiter_Gate Circuit_Port Router_Switch Protocol
begin

text \<open>
  The relay engine (\<^verbatim>\<open>internal/relay/executor.go\<close> and \<^verbatim>\<open>exchange.go\<close>): one client
  request executed against candidate upstreams, composed of the attempt loop
  (\<open>Retry\<close>), the fallback plan, the provider adapters with their credential rings, the
  in-flight gate, the breaker port, the stream pumps and the fatal-condition hook of the
  assembly (\<^verbatim>\<open>cmd/breakwater/serve.go\<close>).

  The shared state an attempt touches is the record \<open>world\<close>; the state of the request is
  \<open>run\<close>.  The breaker is any implementation of the port, given by its \<open>allow\<close> and
  \<open>report\<close>.  What an attempt meets outside the program is its environment \<open>attempt_env\<close>:
  clock readings, the exchange on the wire, how the body ends, which of the lease's
  timers (\<^verbatim>\<open>streamlease.go\<close>) had fired when the code reads their flags, and whether the
  client is gone at each point where the code asks.  The JSON codecs are the record
  \<open>libs\<close>.  What the client is sent is the list of \<open>client_event\<close>s; its statuses are read
  off by the renderers of \<open>Protocol\<close> and what \<open>net/http\<close> makes of a status.  The metrics are
  not modelled.

  An error is what the loop and the renderer can find in it; a status error is a
  pointer in the source and compared by identity, which is the number of the attempt
  that created it.
\<close>

subsection \<open>State\<close>

record relay_error = attempt_error +
  circuitOpen :: bool
  saturated :: bool
  identity :: "int option"

definition plain_error :: relay_error where
  "plain_error = \<lparr>canceled = False, deadlineExceeded = False, committed = False, status = None,
     circuitOpen = False, saturated = False, identity = None\<rparr>"

record exchange_snapshot =
  snStatus :: int
  snHeader :: "(string \<times> string) list"
  snBody :: string

record attempt_trace =
  atUpstream :: string
  atCredential :: int
  atStatus :: int

datatype client_event =
    StreamHead
  | StreamBytes string
  | RenderSuccess exchange_snapshot
  | RenderUpstreamError exchange_snapshot
  | RenderError int string

record ('t, 'u) job =
  jModel :: string
  jStream :: bool
  jBody :: string
  jRequestID :: string
  jCandidates :: "string list"
  jFallbacks :: "string list"
  jResolve :: "resolver option"
  jTranscoder :: "('t, 'u) transcoder option"

record executor =
  exPolicy :: policy
  exBulkhead :: "int option"
  exHook :: bool
  exStreamTimeout :: duration
  exSlowCall :: duration

record 'b world =
  wbreaker :: 'b
  wgate :: gate
  wups :: "string \<Rightarrow> openai"
  wswitch :: switch
  wobserved :: "(string \<times> duration \<times> bool) list"

record 'u run =
  rattempts :: int
  rretries :: int
  servedBy :: string
  rusage :: "'u option"
  rstreamed :: bool
  trail :: "attempt_trace list"
  success :: "exchange_snapshot option"
  lastFailed :: "exchange_snapshot option"
  lastFailedErr :: "int option"
  terminal :: "exchange_snapshot option"
  streamBytes :: int
  rotated :: "int option"
  gatewayCode :: string
  rplan :: plan
  excluded :: "string \<Rightarrow> int list"
  responsiveness :: duration
  sent :: "client_event list"

record attempt_env =
  aeAllow :: call_env
  aeReport :: call_env
  aeStart :: instant
  aeFirst :: instant
  aeEnd :: instant
  aeNow :: instant
  aeBuild :: "string \<Rightarrow> bool"
  aeExchange :: "string wire_request \<Rightarrow> (int \<times> (string \<times> string) list \<times> string) option"
  aeNetCanceled :: bool
  aeNetDeadline :: bool
  aeReadError :: "(bool \<times> bool) option"
  aeTtft :: bool
  aeCeiling :: bool
  aeTtftLate :: bool
  aeCut :: bool
  aeGoneFwd :: bool
  aeGonePump :: bool
  aeGoneObs :: bool
  aeRoom :: "nat option"
  aeWriteCanceled :: bool

record ('v, 'u) libs =
  jdec :: "string \<Rightarrow> (string \<rightharpoonup> 'v) option"
  jenc :: "(string \<rightharpoonup> 'v) \<Rightarrow> string"
  jname :: "string \<Rightarrow> 'v"
  decodeError :: "string \<Rightarrow> error_envelope"
  parseUsage :: "string \<Rightarrow> 'u option"
  parseFloat :: "string \<Rightarrow> float_value option"
  parseTime :: "string \<Rightarrow> instant option"
  encodeError :: "stream_error \<Rightarrow> string"

definition maxResponseBytes :: int where "maxResponseBytes = 33554432"

subsection \<open>Small steps of the request\<close>

definition trace_attempt :: "string \<Rightarrow> int \<Rightarrow> int \<Rightarrow> 'u run \<Rightarrow> 'u run" where
  "trace_attempt u cred code r =
     r\<lparr>trail := trail r @ [\<lparr>atUpstream = u, atCredential = cred, atStatus = code\<rparr>]\<rparr>"

definition send :: "client_event list \<Rightarrow> 'u run \<Rightarrow> 'u run" where
  "send evs r = r\<lparr>sent := sent r @ evs\<rparr>"

definition excludeCredential :: "string \<Rightarrow> int \<Rightarrow> 'u run \<Rightarrow> 'u run" where
  "excludeCredential u index r =
     (if index \<in> set (excluded r u) then r
      else r\<lparr>excluded := (excluded r)(u := excluded r u @ [index])\<rparr>)"

definition credentialAlive :: "'b world \<Rightarrow> string \<Rightarrow> int" where
  "credentialAlive w u = AliveCredentials (wups w u)"

definition credentialRotates :: "'b world \<Rightarrow> 'u run \<Rightarrow> string \<Rightarrow> bool" where
  "credentialRotates w r u =
     (if excluded r u = [] then False else credentialAlive w u > int (length (excluded r u)))"

text \<open>The assembly's fatal-condition hook: the ring first, the switch when no credential is left.\<close>

definition autoDisableHook :: "string \<Rightarrow> int \<Rightarrow> string \<Rightarrow> instant \<Rightarrow> 'b world \<Rightarrow> 'b world" where
  "autoDisableHook u index why t w =
     (let (o1, _) = (if index \<ge> 0 then RetireCredential (wups w u) index else (wups w u, False));
          w1 = w\<lparr>wups := (wups w)(u := o1)\<rparr>
      in if index \<ge> 0 \<and> AliveCredentials o1 > 0 then w1
         else w1\<lparr>wswitch := fst (AutoDisableUpstream (wswitch w1) u why t)\<rparr>)"

definition clientFault :: "bool \<Rightarrow> relay_error \<Rightarrow> bool" where
  "clientFault gone err \<longleftrightarrow> canceled err \<and> gone"

definition transportOutcome :: "bool \<Rightarrow> relay_error \<Rightarrow> outcome" where
  "transportOutcome gone err = (if clientFault gone err then OutcomeClientFault else OutcomeServerFault)"

text \<open>\<open>readBounded\<close>: the bytes, or an error when the read broke or the body is over the bound.\<close>

definition readBounded :: "(bool \<times> bool) option \<Rightarrow> string \<Rightarrow> relay_error + string" where
  "readBounded readErr body =
     (case readErr of
        Some (c, d) \<Rightarrow> if int (length body) > maxResponseBytes then Inl plain_error
                      else Inl (plain_error\<lparr>canceled := c, deadlineExceeded := d\<rparr>)
      | None \<Rightarrow> if int (length body) > maxResponseBytes then Inl plain_error else Inr body)"

subsection \<open>One exchange\<close>

definition stashUpstreamError ::
  "('v, 'u) libs \<Rightarrow> executor \<Rightarrow> attempt_env \<Rightarrow> int \<Rightarrow> string \<Rightarrow> string response \<Rightarrow> string \<Rightarrow>
   'u run \<times> 'b world \<Rightarrow> ('u run \<times> 'b world) \<times> outcome \<times> relay_error option" where
  "stashUpstreamError lib ex ae i u resp body rw =
     (let (r, w) = rw;
          r1 = trace_attempt u (pcredential resp) (pstatus resp) (r\<lparr>servedBy := u\<rparr>);
          hint = ParseRetryAfter (parseFloat lib) (parseTime lib) (header_get (pheaders resp) ''Retry-After'') (aeNow ae);
          err = plain_error\<lparr>status := Some (pstatus resp, hint), identity := Some i\<rparr>;
          why = fatalUpstreamReason (pstatus resp) (decodeError lib body);
          w1 = (if why \<noteq> '''' \<and> exHook ex then autoDisableHook u (pcredential resp) why (aeNow ae) w else w);
          r2 = (if pcredential resp \<ge> 0 \<and> (why \<noteq> '''' \<or> pstatus resp = 429)
                then excludeCredential u (pcredential resp) r1 else r1);
          rotates = (why \<noteq> '''' \<and> credentialAlive w1 u > 0);
          r3 = (if rotates then r2\<lparr>rotated := Some i\<rparr> else r2);
          snap = \<lparr>snStatus = pstatus resp, snHeader = pheaders resp, snBody = body\<rparr>
      in if Retryable (Some err) \<or> rotates
         then ((r3\<lparr>lastFailed := Some snap, lastFailedErr := Some i\<rparr>, w1), OutcomeServerFault, Some err)
         else ((r3\<lparr>terminal := Some snap\<rparr>, w1), OutcomeClientFault, Some err))"

definition exchangeBuffered ::
  "('v, 'u) libs \<Rightarrow> executor \<Rightarrow> attempt_env \<Rightarrow> int \<Rightarrow> string \<Rightarrow> string response \<Rightarrow>
   'u run \<times> 'b world \<Rightarrow> ('u run \<times> 'b world) \<times> outcome \<times> relay_error option" where
  "exchangeBuffered lib ex ae i u resp rw =
     (let (r, w) = rw in
      case readBounded (aeReadError ae) (pbody resp) of
        Inl err \<Rightarrow> ((trace_attempt u (pcredential resp) (pstatus resp) r, w), OutcomeServerFault, Some err)
      | Inr body \<Rightarrow>
          if pstatus resp < 200 \<or> pstatus resp > 299 then stashUpstreamError lib ex ae i u resp body (r, w)
          else ((trace_attempt u (pcredential resp) (pstatus resp)
                  (r\<lparr>success := Some \<lparr>snStatus = pstatus resp, snHeader = pheaders resp, snBody = body\<rparr>,
                     responsiveness := time_sub (aeFirst ae) (aeStart ae),
                     rusage := (case parseUsage lib body of Some us \<Rightarrow> Some us | None \<Rightarrow> rusage r)\<rparr>), w),
                OutcomeSuccess, None))"

text \<open>The error a pump ends with, as the loop can inspect it.\<close>

definition pump_error :: "attempt_env \<Rightarrow> pump_end \<Rightarrow> relay_error" where
  "pump_error ae e =
     (case e of
        PumpReadError \<Rightarrow>
          (case aeReadError ae of Some (c, d) \<Rightarrow> plain_error\<lparr>canceled := c, deadlineExceeded := d\<rparr> | None \<Rightarrow> plain_error)
      | PumpWriteError \<Rightarrow> plain_error\<lparr>canceled := aeWriteCanceled ae\<rparr>
      | _ \<Rightarrow> plain_error)"

definition abortCode :: "relay_error \<Rightarrow> stream_code" where
  "abortCode err = (if deadlineExceeded err then CodeUpstreamTimeout else CodeUpstreamReset)"

definition abortMessage :: "stream_code \<Rightarrow> string" where
  "abortMessage code =
     (if code = CodeUpstreamTimeout then ''upstream stream timed out mid-flight''
      else ''upstream stream failed mid-flight'')"

text \<open>
  The pump chosen for the client's wire: the usage it scraped, the bytes it counts, what
  it sent, how it ended and what an abort of the stream would send.
\<close>

definition pump_choice ::
  "('v, 'u) libs \<Rightarrow> attempt_env \<Rightarrow> ('t, 'u) transcoder option \<Rightarrow> string \<Rightarrow> string \<Rightarrow>
   'u option \<times> int \<times> string \<times> pump_end \<times> (stream_code \<Rightarrow> string)" where
  "pump_choice lib ae tc model body =
     (let eof = (aeReadError ae = None) in
      case tc of
        None \<Rightarrow>
          (let (p, e) = pumpStream (parseUsage lib) eof (aeRoom ae) body
           in (pusage p, sentBytes p, written p, e, \<lambda>code. WriteAbort (encodeError lib) code (abortMessage code)))
      | Some t \<Rightarrow>
          (let (p, e) = pumpTranscoded t (parseUsage lib) eof model body
           in (trUsage p, int (length (trWritten p)), trWritten p, e,
               \<lambda>code. fst (snd (trAbort t (trState p) (stream_code_string code) (abortMessage code))))))"

definition exchangeStream ::
  "('v, 'u) libs \<Rightarrow> ('t, 'u) job \<Rightarrow> attempt_env \<Rightarrow> string \<Rightarrow> string \<Rightarrow> string response \<Rightarrow>
   'u run \<times> 'b world \<Rightarrow> ('u run \<times> 'b world) \<times> outcome \<times> relay_error option" where
  "exchangeStream lib jb ae u model resp rw =
     (let (r, w) = rw;
          r1 = trace_attempt u (pcredential resp) (pstatus resp)
                 ((send [StreamHead] r)\<lparr>rstreamed := True, servedBy := u\<rparr>);
          (us, n, out, e, abort) = pump_choice lib ae (jTranscoder jb) model (pbody resp);
          r2 = (send [StreamBytes out] r1)\<lparr>rusage := (case us of Some x \<Rightarrow> Some x | None \<Rightarrow> rusage r1),
                 streamBytes := n\<rparr>;
          err = pump_error ae e;
          cerr = err\<lparr>committed := True\<rparr>
      in if e = PumpOK then ((r2, w), OutcomeSuccess, None)
         else if aeGonePump ae then ((r2, w), OutcomeClientFault, Some cerr)
         else let code = (if aeCut ae then CodeUpstreamTimeout else abortCode err);
                  r3 = send [StreamBytes (abort code)] (r2\<lparr>gatewayCode := stream_code_string code\<rparr>)
              in ((r3, w), if aeCut ae then OutcomeGatewayTerminated else OutcomeServerFault, Some cerr))"

text \<open>The provider call both modes share.\<close>

definition forward_to ::
  "('v, 'u) libs \<Rightarrow> ('t, 'u) job \<Rightarrow> attempt_env \<Rightarrow> string \<Rightarrow> string \<Rightarrow> 'u run \<times> 'b world \<Rightarrow>
   'b world \<times> (relay_error + string response)" where
  "forward_to lib jb ae u model rw =
     (let (r, w) = rw;
          req = \<lparr>rmodel = model, rbodyModel = jModel jb, rstream = jStream jb, rbody = jBody jb,
                 rrequestID = jRequestID jb, rexcluded = excluded r u\<rparr>;
          (o1, res) = Forward (jdec lib) (jenc lib) (jname lib) (aeBuild ae) (aeExchange ae) (wups w u) req;
          w1 = w\<lparr>wups := (wups w)(u := o1)\<rparr>
      in (w1, case res of
                Inl ExchangeFailed \<Rightarrow>
                  Inl (plain_error\<lparr>canceled := aeNetCanceled ae, deadlineExceeded := aeNetDeadline ae\<rparr>)
              | Inl _ \<Rightarrow> Inl plain_error
              | Inr resp \<Rightarrow> Inr resp))"

definition timeoutError :: relay_error where
  "timeoutError = plain_error\<lparr>deadlineExceeded := True\<rparr>"

definition exchange ::
  "('v, 'u) libs \<Rightarrow> executor \<Rightarrow> ('t, 'u) job \<Rightarrow> attempt_env \<Rightarrow> int \<Rightarrow> string \<Rightarrow> string \<Rightarrow>
   'u run \<times> 'b world \<Rightarrow> ('u run \<times> 'b world) \<times> outcome \<times> relay_error option" where
  "exchange lib ex jb ae i u model rw =
     (let (r, w) = rw in
      case forward_to lib jb ae u model (r, w) of
        (w1, Inl err) \<Rightarrow>
          (let r1 = trace_attempt u (-1) 0 r in
           if \<not> jStream jb then ((r1, w1), transportOutcome (aeGoneFwd ae) err, Some err)
           else if aeTtft ae then ((r1, w1), OutcomeServerFault, Some timeoutError)
           else if aeCeiling ae then ((r1, w1), OutcomeGatewayTerminated, Some timeoutError)
           else ((r1, w1), transportOutcome (aeGoneFwd ae) err, Some err))
      | (w1, Inr resp) \<Rightarrow>
          if \<not> jStream jb then exchangeBuffered lib ex ae i u resp (r, w1)
          else if pstatus resp < 200 \<or> pstatus resp > 299
          then (case readBounded (aeReadError ae) (pbody resp) of
                  Inl err \<Rightarrow> ((trace_attempt u (pcredential resp) (pstatus resp) r, w1), OutcomeServerFault, Some err)
                | Inr body \<Rightarrow> stashUpstreamError lib ex ae i u resp body (r, w1))
          else if aeTtftLate ae then ((r, w1), OutcomeServerFault, Some timeoutError)
          else exchangeStream lib jb ae u model resp
                 (r\<lparr>responsiveness := time_sub (aeFirst ae) (aeStart ae)\<rparr>, w1))"

subsection \<open>One attempt\<close>

type_synonym ('b, 'p) breaker_ops =
  "('b \<Rightarrow> string \<Rightarrow> call_env \<Rightarrow> 'b \<times> 'p option) \<times> ('b \<Rightarrow> 'p \<Rightarrow> outcome \<Rightarrow> call_env \<Rightarrow> 'b \<times> 'p)"

text \<open>The exchange with its observation and the report to the breaker, once admitted.\<close>

definition run_exchange ::
  "('v, 'u) libs \<Rightarrow> executor \<Rightarrow> ('t, 'u) job \<Rightarrow> attempt_env \<Rightarrow> int \<Rightarrow> string \<Rightarrow> string \<Rightarrow>
   'u run \<times> 'b world \<Rightarrow> ('u run \<times> 'b world) \<times> outcome \<times> relay_error option" where
  "run_exchange lib ex jb ae i u model rw =
     (let (r, w) = rw;
          ((r1, w1), oc, err) = exchange lib ex jb ae i u model (r\<lparr>responsiveness := 0\<rparr>, w);
          oc1 = (if oc = OutcomeSuccess \<and> exSlowCall ex > 0 \<and> responsiveness r1 > exSlowCall ex
                 then OutcomeSlow else oc);
          failed = (case err of None \<Rightarrow> False | Some e \<Rightarrow> \<not> clientFault (aeGoneObs ae) e)
      in ((r1, w1\<lparr>wobserved := wobserved w1 @ [(u, time_sub (aeEnd ae) (aeStart ae), failed)]\<rparr>), oc1, err))"

text \<open>A hint must not delay a hand-off to another candidate or another credential.\<close>

definition hand_off ::
  "executor \<Rightarrow> ('t, 'u) job \<Rightarrow> int \<Rightarrow> string \<Rightarrow> 'u run \<times> 'b world \<Rightarrow> relay_error option \<Rightarrow>
   ('u run \<times> 'b world) \<times> relay_error option" where
  "hand_off ex jb i u rw err =
     (let (r, w) = rw in
      case err of
        None \<Rightarrow> ((r\<lparr>servedBy := u\<rparr>, w), None)
      | Some e \<Rightarrow>
          if \<not> committed e \<and> MaxAttempts (exPolicy ex) > i
          then (let (p, next_u, _) = target (jResolve jb) (jFallbacks jb) (i + 1) (rplan r);
                    r1 = r\<lparr>rplan := p\<rparr>
                in ((r1, w), Some (if next_u \<noteq> u \<or> credentialRotates w r1 u then StripRetryAfter e else e)))
          else ((r, w), Some e))"

definition admitted ::
  "('v, 'u) libs \<Rightarrow> executor \<Rightarrow> ('b, 'p) breaker_ops option \<Rightarrow> ('t, 'u) job \<Rightarrow> attempt_env \<Rightarrow> int \<Rightarrow> string \<Rightarrow> string \<Rightarrow>
   'u run \<times> 'b world \<Rightarrow> ('u run \<times> 'b world) \<times> relay_error option" where
  "admitted lib ex brk jb ae i u model rw =
     (let (r, w) = rw in
      case brk of
        None \<Rightarrow> (let (rw1, _, err) = run_exchange lib ex jb ae i u model (r, w) in hand_off ex jb i u rw1 err)
      | Some (allow, report) \<Rightarrow>
          (case allow (wbreaker w) u (aeAllow ae) of
             (b, None) \<Rightarrow> ((trace_attempt u (-1) 0 r, w\<lparr>wbreaker := b\<rparr>), Some (plain_error\<lparr>circuitOpen := True\<rparr>))
           | (b, Some p) \<Rightarrow>
               let ((r1, w1), oc, err) = run_exchange lib ex jb ae i u model (r, w\<lparr>wbreaker := b\<rparr>)
               in hand_off ex jb i u (r1, w1\<lparr>wbreaker := fst (report (wbreaker w1) p oc (aeReport ae))\<rparr>) err))"

definition relay_attempt ::
  "('v, 'u) libs \<Rightarrow> executor \<Rightarrow> ('b, 'p) breaker_ops option \<Rightarrow> ('t, 'u) job \<Rightarrow> attempt_env \<Rightarrow> int \<Rightarrow>
   'u run \<times> 'b world \<Rightarrow> ('u run \<times> 'b world) \<times> relay_error option" where
  "relay_attempt lib ex brk jb ae i rw =
     (let (r, w) = rw;
          (p, u, model) = target (jResolve jb) (jFallbacks jb) i (rplan r);
          r0 = r\<lparr>rattempts := i, rplan := p, rretries := (if i > 1 then i - 1 else rretries r)\<rparr>
      in case exBulkhead ex of
           None \<Rightarrow> admitted lib ex brk jb ae i u model (r0, w)
         | Some mx \<Rightarrow>
             (case Acquire (wgate w) u mx of
                (g, None) \<Rightarrow> ((trace_attempt u (-1) 0 r0, w\<lparr>wgate := g\<rparr>), Some (plain_error\<lparr>saturated := True\<rparr>))
              | (g, Some s) \<Rightarrow>
                  let ((r1, w1), err) = admitted lib ex brk jb ae i u model (r0, w\<lparr>wgate := g\<rparr>)
                  in ((r1, w1\<lparr>wgate := fst (release (wgate w1) s)\<rparr>), err)))"

subsection \<open>The request\<close>

definition new_run :: "('t, 'u) job \<Rightarrow> 'u run" where
  "new_run jb =
     \<lparr>rattempts = 0, rretries = 0, servedBy = '''', rusage = None, rstreamed = False, trail = [],
      success = None, lastFailed = None, lastFailedErr = None, terminal = None, streamBytes = 0,
      rotated = None, gatewayCode = '''', rplan = new_plan (jModel jb) (jCandidates jb),
      excluded = (\<lambda>_. []), responsiveness = 0, sent = []\<rparr>"

primrec relay_after ::
  "('v, 'u) libs \<Rightarrow> executor \<Rightarrow> ('b, 'p) breaker_ops option \<Rightarrow> ('t, 'u) job \<Rightarrow> (int \<Rightarrow> attempt_env) \<Rightarrow> 'b world \<Rightarrow>
   nat \<Rightarrow> 'u run \<times> 'b world" where
  "relay_after lib ex brk jb ae w 0 = (new_run jb, w)"
| "relay_after lib ex brk jb ae w (Suc n) =
     fst (relay_attempt lib ex brk jb (ae (int (Suc n))) (int (Suc n)) (relay_after lib ex brk jb ae w n))"

definition runClassifier :: "'u run \<Rightarrow> relay_error \<Rightarrow> bool" where
  "runClassifier r e = (if rotated r \<noteq> None \<and> identity e = rotated r then True else Retryable (Some e))"

definition relay_env ::
  "('v, 'u) libs \<Rightarrow> executor \<Rightarrow> ('b, 'p) breaker_ops option \<Rightarrow> ('t, 'u) job \<Rightarrow> (int \<Rightarrow> attempt_env) \<Rightarrow> 'b world \<Rightarrow>
   relay_error loop_env \<Rightarrow> relay_error loop_env" where
  "relay_env lib ex brk jb ae w env =
     env\<lparr>fn := (\<lambda>i. snd (relay_attempt lib ex brk jb (ae i) i (relay_after lib ex brk jb ae w (nat (i - 1))))),
         classifier := (\<lambda>i. runClassifier (fst (relay_after lib ex brk jb ae w (nat i))))\<rparr>"

record 'u relay_result =
  resStatus :: int
  resUpstream :: string
  resAttempts :: int
  resRetries :: int
  resTrail :: "attempt_trace list"
  resUsage :: "'u option"
  resStreamed :: bool
  resStreamBytes :: int
  resAborted :: bool
  resClientGone :: bool
  resErrorCode :: string

text \<open>The final error as the renderer inspects it: the attempt's error inside the loop's wrapping.\<close>

definition final_error :: "relay_error retry_result \<Rightarrow> relay_error option" where
  "final_error res =
     (case res of Succeeded \<Rightarrow> None | Failed e \<Rightarrow> Some e | BudgetExhausted e \<Rightarrow> Some e | OverallEnded _ e \<Rightarrow> Some e)"

definition budget_spent :: "relay_error retry_result \<Rightarrow> bool" where
  "budget_spent res = (case res of BudgetExhausted _ \<Rightarrow> True | _ \<Rightarrow> False)"

definition passthrough :: "'u run \<Rightarrow> relay_error \<Rightarrow> bool" where
  "passthrough r e \<longleftrightarrow> lastFailed r \<noteq> None \<and> lastFailedErr r \<noteq> None \<and> identity e = lastFailedErr r"

definition intendedStatus :: "'u run \<Rightarrow> relay_error retry_result \<Rightarrow> relay_error \<Rightarrow> int" where
  "intendedStatus r res e =
     (case terminal r of
        Some snap \<Rightarrow> snStatus snap
      | None \<Rightarrow>
          if circuitOpen e \<or> saturated e \<or> budget_spent res then 503
          else if passthrough r e then snStatus (the (lastFailed r))
          else 502)"

definition base_result :: "'u run \<Rightarrow> int \<Rightarrow> 'u relay_result" where
  "base_result r code =
     \<lparr>resStatus = code, resUpstream = '''', resAttempts = rattempts r, resRetries = rretries r,
      resTrail = trail r, resUsage = None, resStreamed = False, resStreamBytes = streamBytes r,
      resAborted = False, resClientGone = False, resErrorCode = ''''\<rparr>"

definition gateway_error :: "'u run \<Rightarrow> int \<Rightarrow> string \<Rightarrow> 'u run \<times> 'u relay_result" where
  "gateway_error r code name = (send [RenderError code name] r, (base_result r code)\<lparr>resErrorCode := name\<rparr>)"

definition upstream_error :: "'u run \<Rightarrow> exchange_snapshot \<Rightarrow> 'u run \<times> 'u relay_result" where
  "upstream_error r snap =
     (send [RenderUpstreamError snap] r, (base_result r (snStatus snap))\<lparr>resUpstream := servedBy r\<rparr>)"

definition finish :: "('t, 'u) job \<Rightarrow> bool \<Rightarrow> 'u run \<Rightarrow> relay_error retry_result \<Rightarrow> 'u run \<times> 'u relay_result" where
  "finish jb gone r res =
     (case final_error res of
        None \<Rightarrow>
          if jStream jb
          then (r, (base_result r 200)\<lparr>resUpstream := servedBy r, resUsage := rusage r, resStreamed := True\<rparr>)
          else (let snap = the (success r) in
                (send [RenderSuccess snap] r,
                 (base_result r (snStatus snap))\<lparr>resUpstream := servedBy r, resUsage := rusage r\<rparr>))
      | Some e \<Rightarrow>
          if committed e
          then (r, (base_result r 200)\<lparr>resUpstream := servedBy r, resUsage := rusage r, resStreamed := True,
                     resAborted := True, resClientGone := gone, resErrorCode := gatewayCode r\<rparr>)
          else if gone
          then (r, (base_result r (intendedStatus r res e))\<lparr>resClientGone := True, resUsage := rusage r\<rparr>)
          else if terminal r \<noteq> None then upstream_error r (the (terminal r))
          else if circuitOpen e then gateway_error r 503 ''circuit_open''
          else if saturated e then gateway_error r 503 ''upstream_saturated''
          else if budget_spent res then gateway_error r 503 ''budget_exhausted''
          else if passthrough r e then upstream_error r (the (lastFailed r))
          else gateway_error r 502 ''upstream_unreachable'')"

definition relay_Execute ::
  "('v, 'u) libs \<Rightarrow> executor \<Rightarrow> ('b, 'p) breaker_ops option \<Rightarrow> ('t, 'u) job \<Rightarrow> (int \<Rightarrow> attempt_env) \<Rightarrow>
   relay_error loop_env \<Rightarrow> bool \<Rightarrow> budget option \<Rightarrow> 'b world \<Rightarrow>
   'u run \<times> 'u relay_result \<times> 'b world \<times> budget option" where
  "relay_Execute lib ex brk jb ae env gone bud w =
     (if jCandidates jb = []
      then (let r = new_run jb in
            (send [RenderError 502 ''no_upstream''] r, (base_result r 502)\<lparr>resErrorCode := ''no_upstream''\<rparr>, w, bud))
      else let (res, bud1, ev) = Execute (exPolicy ex) (relay_env lib ex brk jb ae w env) bud;
               (r, w1) = relay_after lib ex brk jb ae w (length (attempts_of ev));
               (r1, result) = finish jb gone r res
           in (r1, result, w1, bud1))"


subsection \<open>What an exchange leaves behind\<close>

lemma trace_attempt_simps [simp]:
  "trail (trace_attempt u c st r) = trail r @ [\<lparr>atUpstream = u, atCredential = c, atStatus = st\<rparr>]"
  "rplan (trace_attempt u c st r) = rplan r" "rattempts (trace_attempt u c st r) = rattempts r"
  "sent (trace_attempt u c st r) = sent r" "success (trace_attempt u c st r) = success r"
  "excluded (trace_attempt u c st r) = excluded r" "rusage (trace_attempt u c st r) = rusage r"
  by (simp_all add: trace_attempt_def)

lemma send_simps [simp]:
  "trail (send evs r) = trail r" "rplan (send evs r) = rplan r" "rattempts (send evs r) = rattempts r"
  "sent (send evs r) = sent r @ evs" "success (send evs r) = success r" "excluded (send evs r) = excluded r"
  "rusage (send evs r) = rusage r"
  by (simp_all add: send_def)

lemma excludeCredential_simps [simp]:
  "trail (excludeCredential u c r) = trail r" "rplan (excludeCredential u c r) = rplan r"
  "rattempts (excludeCredential u c r) = rattempts r" "sent (excludeCredential u c r) = sent r"
  by (simp_all add: excludeCredential_def)

lemma plain_not_committed [simp]: "\<not> committed plain_error"
  by (simp add: plain_error_def)

lemma timeout_not_committed [simp]: "\<not> committed timeoutError"
  by (simp add: timeoutError_def)

lemma strip_committed [simp]: "committed (StripRetryAfter e) = committed e"
  by (simp add: StripRetryAfter_def split: option.split)

text \<open>A buffered success has left its snapshot, which is a 2xx.\<close>

definition delivered :: "'u run \<Rightarrow> bool" where
  "delivered r \<longleftrightarrow> (\<exists>s. success r = Some s \<and> snStatus s \<in> {200..299})"

lemma delivered_update [simp]:
  "delivered (r\<lparr>servedBy := u\<rparr>) = delivered r" "delivered (r\<lparr>responsiveness := d\<rparr>) = delivered r"
  by (simp_all add: delivered_def)

definition commits :: "'u run \<Rightarrow> 'u run \<Rightarrow> bool" where
  "commits r r1 \<longleftrightarrow> (\<exists>bs. sent r1 = sent r @ StreamHead # map StreamBytes bs)"

text \<open>
  What one exchange may do to the request: nothing reaches the client unless a stream is
  committed, a buffered success leaves its snapshot, the plan is untouched and the trail
  gains at most one entry.
\<close>

definition exchanged :: "bool \<Rightarrow> string \<Rightarrow> 'u run \<Rightarrow> 'u run \<Rightarrow> relay_error option \<Rightarrow> bool" where
  "exchanged stream u r r1 err \<longleftrightarrow>
     rplan r1 = rplan r \<and> rattempts r1 = rattempts r \<and>
     (case err of
        None \<Rightarrow> if stream then commits r r1 else sent r1 = sent r \<and> delivered r1
      | Some e \<Rightarrow> if committed e then stream \<and> commits r r1 else sent r1 = sent r) \<and>
     (\<exists>ts. trail r1 = trail r @ ts \<and> map atUpstream ts \<in> {[], [u]})"

lemma readBounded_error: "readBounded re body = Inl e \<Longrightarrow> \<not> committed e"
  by (auto simp: readBounded_def plain_error_def split: option.splits if_splits prod.splits)

text \<open>The request after the credential verdict of a stashed exchange.\<close>

definition stashed :: "string \<Rightarrow> int \<Rightarrow> string \<Rightarrow> string response \<Rightarrow> 'b world \<Rightarrow> 'u run \<Rightarrow> 'u run \<Rightarrow> bool" where
  "stashed why i u resp w1 r r3 \<longleftrightarrow>
     (let r1 = trace_attempt u (pcredential resp) (pstatus resp) (r\<lparr>servedBy := u\<rparr>);
          r2 = (if pcredential resp \<ge> 0 \<and> (why \<noteq> '''' \<or> pstatus resp = 429)
                then excludeCredential u (pcredential resp) r1 else r1)
      in r3 = (if why \<noteq> '''' \<and> credentialAlive w1 u > 0 then r2\<lparr>rotated := Some i\<rparr> else r2))"

lemma stashed_fields:
  assumes "stashed why i u resp w1 r r3"
  shows "trail r3 = trail r @ [\<lparr>atUpstream = u, atCredential = pcredential resp, atStatus = pstatus resp\<rparr>]"
    and "rplan r3 = rplan r" and "rattempts r3 = rattempts r" and "sent r3 = sent r"
  using assms by (simp_all add: stashed_def Let_def)

lemma stash_eq:
  assumes "stashUpstreamError lib ex ae i u resp body (r, w) = ((r1, w1), oc, err)"
  obtains why e r3 ok where "((r1, w1), oc, err) =
      (if ok then ((r3\<lparr>lastFailed := Some \<lparr>snStatus = pstatus resp, snHeader = pheaders resp, snBody = body\<rparr>,
                      lastFailedErr := Some i\<rparr>, w1), OutcomeServerFault, Some e)
       else ((r3\<lparr>terminal := Some \<lparr>snStatus = pstatus resp, snHeader = pheaders resp, snBody = body\<rparr>\<rparr>, w1),
             OutcomeClientFault, Some e))"
    and "stashed why i u resp w1 r r3" and "\<not> committed e"
proof -
  define e where "e = plain_error\<lparr>status := Some (pstatus resp,
      ParseRetryAfter (parseFloat lib) (parseTime lib) (header_get (pheaders resp) ''Retry-After'') (aeNow ae)),
      identity := Some i\<rparr>"
  define why where "why = fatalUpstreamReason (pstatus resp) (decodeError lib body)"
  define w2 where "w2 = (if why \<noteq> '''' \<and> exHook ex then autoDisableHook u (pcredential resp) why (aeNow ae) w else w)"
  define ok where "ok \<longleftrightarrow> Retryable (Some e) \<or> why \<noteq> '''' \<and> credentialAlive w2 u > 0"
  define q1 where "q1 = trace_attempt u (pcredential resp) (pstatus resp) (r\<lparr>servedBy := u\<rparr>)"
  define q2 where "q2 = (if pcredential resp \<ge> 0 \<and> (why \<noteq> '''' \<or> pstatus resp = 429)
      then excludeCredential u (pcredential resp) q1 else q1)"
  define r3 where "r3 = (if why \<noteq> '''' \<and> credentialAlive w2 u > 0 then q2\<lparr>rotated := Some i\<rparr> else q2)"
  have x: "((r1, w1), oc, err) =
      (if ok then ((r3\<lparr>lastFailed := Some \<lparr>snStatus = pstatus resp, snHeader = pheaders resp, snBody = body\<rparr>,
                      lastFailedErr := Some i\<rparr>, w2), OutcomeServerFault, Some e)
       else ((r3\<lparr>terminal := Some \<lparr>snStatus = pstatus resp, snHeader = pheaders resp, snBody = body\<rparr>\<rparr>, w2),
             OutcomeClientFault, Some e))"
    unfolding assms [symmetric] stashUpstreamError_def Let_def prod.case ok_def r3_def q2_def q1_def w2_def why_def e_def
    by (rule refl)
  then have "w1 = w2" by (cases ok) simp_all
  moreover have "\<not> committed e" by (simp add: e_def plain_error_def)
  moreover have "stashed why i u resp w2 r r3" by (simp only: stashed_def Let_def r3_def q2_def q1_def)
  ultimately show thesis using that x by blast
qed

lemma stash_exchanged:
  assumes "stashUpstreamError lib ex ae i u resp body (r, w) = ((r1, w1), oc, err)"
  shows "exchanged stream u r r1 err \<and> err \<noteq> None \<and> length (trail r1) = Suc (length (trail r))"
proof -
  obtain why e r3 ok where x: "((r1, w1), oc, err) =
      (if ok then ((r3\<lparr>lastFailed := Some \<lparr>snStatus = pstatus resp, snHeader = pheaders resp, snBody = body\<rparr>,
                      lastFailedErr := Some i\<rparr>, w1), OutcomeServerFault, Some e)
       else ((r3\<lparr>terminal := Some \<lparr>snStatus = pstatus resp, snHeader = pheaders resp, snBody = body\<rparr>\<rparr>, w1),
             OutcomeClientFault, Some e))"
    and r3: "stashed why i u resp w1 r r3" and e: "\<not> committed e"
    by (rule stash_eq [OF assms])
  have "trail r3 = trail r @ [\<lparr>atUpstream = u, atCredential = pcredential resp, atStatus = pstatus resp\<rparr>]"
    "rplan r3 = rplan r" "rattempts r3 = rattempts r" "sent r3 = sent r"
    by (simp_all add: stashed_fields [OF r3])
  then show ?thesis using x e by (cases ok) (auto simp: exchanged_def)
qed

lemma stream_exchanged:
  assumes "exchangeStream lib jb ae u model resp (r, w) = ((r1, w1), oc, err)"
  shows "exchanged True u r r1 err \<and> length (trail r1) = Suc (length (trail r)) \<and> w1 = w"
proof -
  obtain us n out e abort where p: "pump_choice lib ae (jTranscoder jb) model (pbody resp) = (us, n, out, e, abort)"
    by (metis prod_cases5)
  let ?x = "exchangeStream lib jb ae u model resp (r, w)"
  have "trail (fst (fst ?x)) =
      trail r @ [\<lparr>atUpstream = u, atCredential = pcredential resp, atStatus = pstatus resp\<rparr>]"
    "rplan (fst (fst ?x)) = rplan r" "rattempts (fst (fst ?x)) = rattempts r" "snd (fst ?x) = w"
    by (simp_all add: exchangeStream_def Let_def p)
  moreover have "\<exists>bs. sent (fst (fst ?x)) = sent r @ StreamHead # map StreamBytes bs"
  proof -
    have "\<exists>bs. [StreamBytes a] = map StreamBytes bs" "\<exists>bs. [StreamBytes a, StreamBytes b] = map StreamBytes bs" for a b
      by (metis list.simps(8,9))+
    then show ?thesis by (simp add: exchangeStream_def Let_def p)
  qed
  moreover have "snd (snd ?x) = None \<or> (\<exists>e. snd (snd ?x) = Some e \<and> committed e)"
    by (simp add: exchangeStream_def Let_def p)
  ultimately show ?thesis unfolding assms by (auto simp: exchanged_def commits_def)
qed

lemma buffered_exchanged:
  assumes "exchangeBuffered lib ex ae i u resp (r, w) = ((r1, w1), oc, err)"
  shows "exchanged False u r r1 err \<and> length (trail r1) = Suc (length (trail r))"
proof (cases "readBounded (aeReadError ae) (pbody resp)")
  case (Inl e)
  then show ?thesis
    using assms readBounded_error [OF Inl] by (auto simp: exchangeBuffered_def exchanged_def)
next
  case (Inr body)
  show ?thesis
  proof (cases "pstatus resp < 200 \<or> pstatus resp > 299")
    case True
    then have "stashUpstreamError lib ex ae i u resp body (r, w) = ((r1, w1), oc, err)"
      using assms Inr by (simp add: exchangeBuffered_def)
    then show ?thesis using stash_exchanged by blast
  next
    case False
    then show ?thesis
      using assms Inr by (auto simp: exchangeBuffered_def exchanged_def delivered_def)
  qed
qed

lemma exchange_exchanged:
  assumes "exchange lib ex jb ae i u model (r, w) = ((r1, w1), oc, err)"
  shows "exchanged (jStream jb) u r r1 err \<and> (\<not> (jStream jb \<and> aeTtftLate ae) \<longrightarrow> length (trail r1) = Suc (length (trail r)))"
proof -
  obtain w2 f where f: "forward_to lib jb ae u model (r, w) = (w2, f)" by fastforce
  note eq = assms [unfolded exchange_def Let_def prod.case f]
  show ?thesis
  proof (cases f)
    case (Inl e)
    have "\<not> committed e"
      using f Inl by (auto simp: forward_to_def Let_def plain_error_def split: prod.splits sum.splits forward_error.splits)
    then show ?thesis using eq Inl by (auto simp: exchanged_def split: if_splits)
  next
    case (Inr resp)
    consider "\<not> jStream jb" | "jStream jb" "pstatus resp < 200 \<or> pstatus resp > 299"
      | "jStream jb" "\<not> (pstatus resp < 200 \<or> pstatus resp > 299)" "aeTtftLate ae"
      | "jStream jb" "\<not> (pstatus resp < 200 \<or> pstatus resp > 299)" "\<not> aeTtftLate ae" by blast
    then show ?thesis
    proof cases
      case 1
      then show ?thesis using eq Inr buffered_exchanged by fastforce
    next
      case 2
      then show ?thesis
        using eq Inr readBounded_error stash_exchanged
        by (cases "readBounded (aeReadError ae) (pbody resp)") (fastforce simp: exchanged_def)+
    next
      case 3
      then show ?thesis using eq Inr by (auto simp: exchanged_def)
    next
      case 4
      then have "exchangeStream lib jb ae u model resp
          (r\<lparr>responsiveness := time_sub (aeFirst ae) (aeStart ae)\<rparr>, w2) = ((r1, w1), oc, err)"
        using eq Inr by simp
      from stream_exchanged [OF this] show ?thesis
        using 4 by (auto simp: exchanged_def commits_def split: option.splits)
    qed
  qed
qed


subsection \<open>What an attempt leaves behind\<close>

text \<open>
  The same for a whole attempt, with the plan: \<open>standing\<close> says that the plan stands in
  the walk of the job, ready for the given attempt.
\<close>

definition standing :: "('t, 'u) job \<Rightarrow> int \<Rightarrow> plan \<Rightarrow> bool" where
  "standing jb i p \<longleftrightarrow>
     stands (jResolve jb) (jFallbacks jb) (job_walk (jResolve jb) (jModel jb) (jCandidates jb) (jFallbacks jb)) p \<and>
     reaches (jResolve jb) (jFallbacks jb) i p"

definition target_of :: "('t, 'u) job \<Rightarrow> int \<Rightarrow> string \<times> string" where
  "target_of jb i = walk_at (job_walk (jResolve jb) (jModel jb) (jCandidates jb) (jFallbacks jb)) i"

definition attempted_ok :: "('t, 'u) job \<Rightarrow> int \<Rightarrow> 'u run \<Rightarrow> 'u run \<Rightarrow> relay_error option \<Rightarrow> bool" where
  "attempted_ok jb i r r1 err \<longleftrightarrow>
     standing jb (i + 1) (rplan r1) \<and> rattempts r1 = i \<and>
     (case err of
        None \<Rightarrow> if jStream jb then commits r r1 else sent r1 = sent r \<and> delivered r1
      | Some e \<Rightarrow> if committed e then jStream jb \<and> commits r r1 else sent r1 = sent r) \<and>
     (\<exists>ts. trail r1 = trail r @ ts \<and> map atUpstream ts \<in> {[], [fst (target_of jb i)]})"

lemma target_standing:
  assumes "standing jb i p" and "target (jResolve jb) (jFallbacks jb) i p = (p1, u, m)"
  shows "(u, m) = target_of jb i \<and> standing jb i p1 \<and> standing jb (i + 1) p1"
  using target_spec [of "jResolve jb" "jFallbacks jb"
      "job_walk (jResolve jb) (jModel jb) (jCandidates jb) (jFallbacks jb)" p i p1 u m] assms
  by (simp add: standing_def target_of_def)

lemma hand_off_ok:
  assumes "standing jb (i + 1) (rplan r1)" and "rattempts r1 = i" and "exchanged (jStream jb) (fst (target_of jb i)) r r1 err"
    and "hand_off ex jb i u (r1, w1) err = ((r2, w2), err2)"
  shows "attempted_ok jb i r r2 err2 \<and> trail r2 = trail r1"
proof (cases err)
  case None
  then show ?thesis using assms by (auto simp: hand_off_def attempted_ok_def exchanged_def commits_def)
next
  case (Some e)
  obtain p nu nm where t: "target (jResolve jb) (jFallbacks jb) (i + 1) (rplan r1) = (p, nu, nm)" by (metis prod_cases3)
  then have "r2 = r1 \<or> r2 = r1\<lparr>rplan := p\<rparr>" and e2: "\<exists>e2. err2 = Some e2 \<and> committed e2 = committed e"
    using assms(4) Some by (auto simp: hand_off_def Let_def split: if_splits)
  moreover have "standing jb (i + 1) p" using target_standing [OF assms(1) t] by simp
  ultimately have "standing jb (i + 1) (rplan r2)" "rattempts r2 = i" "sent r2 = sent r1" "trail r2 = trail r1"
    using assms(1,2) by auto
  then show ?thesis
    using assms(3) e2 Some by (auto simp: attempted_ok_def exchanged_def commits_def)
qed

lemma run_exchange_exchanged:
  assumes "run_exchange lib ex jb ae i u model (r, w) = ((r1, w1), oc, err)"
  shows "exchanged (jStream jb) u r r1 err \<and> (\<not> (jStream jb \<and> aeTtftLate ae) \<longrightarrow> length (trail r1) = Suc (length (trail r)))"
proof -
  obtain r2 w2 oc2 err2 where e: "exchange lib ex jb ae i u model (r\<lparr>responsiveness := 0\<rparr>, w) = ((r2, w2), oc2, err2)"
    by (metis prod.collapse)
  then have "r1 = r2" "err = err2" using assms by (auto simp: run_exchange_def Let_def)
  then show ?thesis using exchange_exchanged [OF e]
    by (auto simp: exchanged_def commits_def split: option.splits)
qed

lemma admitted_ok:
  assumes "admitted lib ex brk jb ae i u model (r, w) = ((r1, w1), err)" and "u = fst (target_of jb i)"
    and "standing jb (i + 1) (rplan r)" and "rattempts r = i"
  shows "attempted_ok jb i r r1 err \<and> (\<not> (jStream jb \<and> aeTtftLate ae) \<longrightarrow> length (trail r1) = Suc (length (trail r)))"
proof -
  have run: "attempted_ok jb i r r1 err \<and> (\<not> (jStream jb \<and> aeTtftLate ae) \<longrightarrow> length (trail r1) = Suc (length (trail r)))"
    if x: "run_exchange lib ex jb ae i u model (r, w0) = ((r2, w2), oc, err2)"
      and h: "hand_off ex jb i u (r2, w3) err2 = ((r1, w1), err)" for w0 r2 w2 oc err2 w3
  proof -
    note rx = run_exchange_exchanged [OF x]
    then have "rplan r2 = rplan r" "rattempts r2 = rattempts r" by (simp_all add: exchanged_def)
    then show ?thesis using hand_off_ok [OF _ _ _ h, of r] rx assms by simp
  qed
  show ?thesis
  proof (cases brk)
    case None
    obtain rw2 oc err2 where "run_exchange lib ex jb ae i u model (r, w) = (rw2, oc, err2)" by (metis prod_cases3)
    then show ?thesis
      using assms(1) run [of w "fst rw2" "snd rw2" oc err2 "snd rw2"] None by (simp add: admitted_def)
  next
    case (Some ops)
    obtain allow report where ops: "ops = (allow, report)" by fastforce
    obtain b perm where a: "allow (wbreaker w) u (aeAllow ae) = (b, perm)" by fastforce
    show ?thesis
    proof (cases perm)
      case None
      then show ?thesis
        using assms Some ops a by (auto simp: admitted_def attempted_ok_def plain_error_def)
    next
      case perm: (Some p)
      obtain rw2 oc err2 where x: "run_exchange lib ex jb ae i u model (r, w\<lparr>wbreaker := b\<rparr>) = (rw2, oc, err2)"
        by (metis prod_cases3)
      have "hand_off ex jb i u (fst rw2, (snd rw2)\<lparr>wbreaker := fst (report (wbreaker (snd rw2)) p oc (aeReport ae))\<rparr>) err2
          = ((r1, w1), err)"
        using assms(1) Some ops a perm x by (simp add: admitted_def case_prod_beta)
      then show ?thesis using run [of "w\<lparr>wbreaker := b\<rparr>" "fst rw2" "snd rw2"] x by simp
    qed
  qed
qed

lemma relay_attempt_ok:
  assumes "relay_attempt lib ex brk jb ae i (r, w) = ((r1, w1), err)" and "standing jb i (rplan r)"
  shows "attempted_ok jb i r r1 err \<and> (\<not> (jStream jb \<and> aeTtftLate ae) \<longrightarrow> length (trail r1) = Suc (length (trail r)))"
proof -
  obtain p u model where t: "target (jResolve jb) (jFallbacks jb) i (rplan r) = (p, u, model)" by (metis prod_cases3)
  note st = target_standing [OF assms(2) t]
  define r0 where "r0 = r\<lparr>rattempts := i, rplan := p, rretries := (if i > 1 then i - 1 else rretries r)\<rparr>"
  have r0: "rplan r0 = p" "rattempts r0 = i" "sent r0 = sent r" "trail r0 = trail r" by (simp_all add: r0_def)
  have u: "u = fst (target_of jb i)" using st by (metis fst_conv)
  have lift: "attempted_ok jb i r r1 err \<longleftrightarrow> attempted_ok jb i r0 r1 err"
    by (simp add: attempted_ok_def commits_def r0 split: option.split)
  show ?thesis
  proof (cases "exBulkhead ex")
    case None
    then have "admitted lib ex brk jb ae i u model (r0, w) = ((r1, w1), err)"
      using assms(1) by (simp add: relay_attempt_def t r0_def Let_def)
    then show ?thesis using admitted_ok [of lib ex brk jb ae i u model r0 w r1 w1 err] u st r0 lift by simp
  next
    case (Some mx)
    obtain g sl where g: "Acquire (wgate w) u mx = (g, sl)" by fastforce
    show ?thesis
    proof (cases sl)
      case None
      then show ?thesis using assms(1) Some g u st r0
        by (auto simp: relay_attempt_def t r0_def [symmetric] Let_def attempted_ok_def plain_error_def)
    next
      case sl: (Some s)
      obtain r2 w2 err2 where x: "admitted lib ex brk jb ae i u model (r0, w\<lparr>wgate := g\<rparr>) = ((r2, w2), err2)"
        by (metis prod.collapse)
      then have "r2 = r1" "err2 = err"
        using assms(1) Some g sl by (simp_all add: relay_attempt_def t r0_def [symmetric] Let_def)
      then show ?thesis using admitted_ok [OF x u] st r0 lift by simp
    qed
  qed
qed


subsection \<open>The whole request\<close>

lemma new_run_standing: "jCandidates jb \<noteq> [] \<Longrightarrow> standing jb 1 (rplan (new_run jb))"
  using stands_new [of "jCandidates jb"] reaches_new [of "jCandidates jb"]
  by (simp add: standing_def new_run_def)

lemma relay_after_step:
  assumes "jCandidates jb \<noteq> []"
  shows "standing jb (int n + 1) (rplan (fst (relay_after lib ex brk jb ae w n)))"
    and "relay_attempt lib ex brk jb (ae (int n + 1)) (int n + 1) (relay_after lib ex brk jb ae w n) = (rw, err) \<Longrightarrow>
      relay_after lib ex brk jb ae w (Suc n) = rw \<and>
      attempted_ok jb (int n + 1) (fst (relay_after lib ex brk jb ae w n)) (fst rw) err \<and>
      (\<not> (jStream jb \<and> aeTtftLate (ae (int n + 1))) \<longrightarrow>
        length (trail (fst rw)) = Suc (length (trail (fst (relay_after lib ex brk jb ae w n)))))"
proof (induction n arbitrary: rw err)
  case 0
  case 1
  show ?case using new_run_standing [OF assms] by simp
  case 2
  then show ?case
    using relay_attempt_ok [of lib ex brk jb "ae 1" 1 "new_run jb" w "fst rw" "snd rw" err] new_run_standing [OF assms]
    by simp
next
  case (Suc n)
  obtain rw1 err1 where a: "relay_attempt lib ex brk jb (ae (int n + 1)) (int n + 1)
      (relay_after lib ex brk jb ae w n) = (rw1, err1)" by fastforce
  note ok = Suc.IH(2) [OF a]
  case 1
  show ?case using ok by (simp add: attempted_ok_def add.commute)
  case 2
  then show ?case
    using relay_attempt_ok [of lib ex brk jb "ae (int (Suc n) + 1)" "int (Suc n) + 1" "fst rw1" "snd rw1"
        "fst rw" "snd rw" err] ok
    by (simp add: attempted_ok_def add.commute add.left_commute)
qed

lemma relay_after_quiet:
  assumes "jCandidates jb \<noteq> []"
    and "\<And>j. 1 \<le> j \<Longrightarrow> j \<le> int n \<Longrightarrow> \<exists>e. fn (relay_env lib ex brk jb ae w env) j = Some e \<and> \<not> committed e"
  shows "sent (fst (relay_after lib ex brk jb ae w n)) = []"
  using assms(2)
proof (induction n)
  case 0
  then show ?case by (simp add: new_run_def)
next
  case (Suc n)
  obtain rw err where a: "relay_attempt lib ex brk jb (ae (int n + 1)) (int n + 1)
      (relay_after lib ex brk jb ae w n) = (rw, err)" by fastforce
  have "\<exists>e. err = Some e \<and> \<not> committed e"
    using Suc.prems [of "int n + 1"] a by (simp add: relay_env_def)
  then show ?case
    using relay_after_step(2) [OF assms(1) a] Suc.IH Suc.prems by (auto simp: attempted_ok_def)
qed

text \<open>
  The trail of the attempts so far: the targets of the walk, less those of streamed attempts
  whose time-to-first-byte timer fired as the headers landed.
\<close>

definition trail_walk :: "('t, 'u) job \<Rightarrow> (int \<Rightarrow> attempt_env) \<Rightarrow> int \<Rightarrow> string list \<Rightarrow> bool" where
  "trail_walk jb ae n us \<longleftrightarrow>
     (\<exists>keep. us = map (\<lambda>i. fst (target_of jb i)) (filter keep [1..n]) \<and>
       (\<forall>i. keep i \<or> jStream jb \<and> aeTtftLate (ae i)))"

lemma trail_walk_0: "trail_walk jb ae 0 []"
  by (auto simp: trail_walk_def intro: exI [of _ "\<lambda>_. True"])

lemma trail_walk_step:
  assumes "trail_walk jb ae (int n) us" and "vs \<in> {[], [fst (target_of jb (int n + 1))]}"
    and "\<not> (jStream jb \<and> aeTtftLate (ae (int n + 1))) \<longrightarrow> vs \<noteq> []"
  shows "trail_walk jb ae (int n + 1) (us @ vs)"
proof -
  obtain keep where k: "us = map (\<lambda>i. fst (target_of jb i)) (filter keep [1..int n])"
    "\<And>i. keep i \<or> jStream jb \<and> aeTtftLate (ae i)"
    using assms(1) by (auto simp: trail_walk_def)
  let ?keep = "keep(int n + 1 := vs \<noteq> [])"
  have "filter ?keep [1..int n] = filter keep [1..int n]" by (rule filter_cong) auto
  moreover have "[1..int n + 1] = [1..int n] @ [int n + 1]" by (simp add: upto_rec2)
  ultimately have "us @ vs = map (\<lambda>i. fst (target_of jb i)) (filter ?keep [1..int n + 1])"
    using k(1) assms(2) by auto
  moreover have "\<forall>i. ?keep i \<or> jStream jb \<and> aeTtftLate (ae i)" using k(2) assms(3) by auto
  ultimately show ?thesis unfolding trail_walk_def by blast
qed

lemma relay_after_trail:
  assumes "jCandidates jb \<noteq> []"
  shows "trail_walk jb ae (int n) (map atUpstream (trail (fst (relay_after lib ex brk jb ae w n)))) \<and>
    rattempts (fst (relay_after lib ex brk jb ae w n)) = int n"
proof (induction n)
  case 0
  then show ?case by (simp add: new_run_def trail_walk_0)
next
  case (Suc n)
  obtain rw err where a: "relay_attempt lib ex brk jb (ae (int n + 1)) (int n + 1)
      (relay_after lib ex brk jb ae w n) = (rw, err)" by fastforce
  note ok = relay_after_step(2) [OF assms(1) a]
  obtain ts where ts: "trail (fst rw) = trail (fst (relay_after lib ex brk jb ae w n)) @ ts"
    "map atUpstream ts \<in> {[], [fst (target_of jb (int n + 1))]}"
    using ok by (auto simp: attempted_ok_def)
  have "\<not> (jStream jb \<and> aeTtftLate (ae (int n + 1))) \<longrightarrow> map atUpstream ts \<noteq> []" using ok ts(1) by auto
  from trail_walk_step [OF conjunct1 [OF Suc.IH] ts(2) this]
  show ?case using ok ts(1) by (simp add: attempted_ok_def add.commute)
qed

text \<open>A run of the loop makes a definite number of attempts, each of the earlier ones retryable.\<close>

lemma relay_loop:
  assumes "Execute pol env bud = (res, bud1, ev)"
  obtains k where "1 \<le> k" and "k \<le> maxAttempts pol" and "length (attempts_of ev) = nat k"
    and "\<And>j. 1 \<le> j \<Longrightarrow> j < k \<Longrightarrow> \<exists>e. fn env j = Some e \<and> \<not> committed e"
    and "fn env k = final_error res" and "budget_spent res \<longrightarrow> (\<exists>e. final_error res = Some e \<and> \<not> committed e)"
proof -
  have "1 \<le> maxAttempts pol" by (simp add: maxAttempts_def)
  then obtain k where k: "run_ok pol env bud 1 None k res ev"
    using execute_from_spec [OF assms [unfolded Execute_def]] by auto
  then have "1 \<le> k" "k \<le> maxAttempts pol" "attempts_of ev = [1..k]" by (simp_all add: run_ok_def)
  moreover have "\<exists>e. fn env j = Some e \<and> \<not> committed e" if "1 \<le> j" "j < k" for j
  proof -
    have "may_retry env j" using k that by (simp add: run_ok_def)
    then show ?thesis by (auto simp: may_retry_def split: option.splits)
  qed
  moreover have "fn env k = final_error res"
    using k by (auto simp: run_ok_def ends_with_def final_error_def split: retry_result.splits)
  moreover have "budget_spent res \<longrightarrow> (\<exists>e. final_error res = Some e \<and> \<not> committed e)"
    using k by (auto simp: run_ok_def ends_with_def final_error_def budget_spent_def may_retry_def
        split: retry_result.splits option.splits)
  ultimately show thesis by (intro that [of k]) simp_all
qed


subsection \<open>Properties\<close>

text \<open>
  What \<open>net/http\<close> does with a status handed to \<open>WriteHeader\<close>: it panics outside 100..999, and a
  1xx other than 101 is an interim head, after which the body's first write sends 200.
\<close>

datatype response_head = HeadWritten int | HeadInterim int | HeadPanics int

definition WriteHeader :: "int \<Rightarrow> response_head" where
  "WriteHeader code =
     (if code < 100 \<or> code > 999 then HeadPanics code
      else if code < 200 \<and> code \<noteq> 101 then HeadInterim code
      else HeadWritten code)"

text \<open>
  The wire of the client's format: what the renderers of \<open>Protocol\<close> are given.  The head an
  event starts, if it starts one, is the status that the format's own renderer writes.
\<close>

record wire =
  wiFormat :: format
  wiMedia :: "string \<Rightarrow> string option"
  wiDec :: "string \<Rightarrow> json option"
  wiEnc :: "json \<Rightarrow> string"

primrec head_status :: "wire \<Rightarrow> client_event \<Rightarrow> response_head option" where
  "head_status wi StreamHead = Some (WriteHeader 200)"
| "head_status wi (StreamBytes b) = None"
| "head_status wi (RenderSuccess s) = Some (WriteHeader (hrStatus
     (Protocol.RenderSuccess (wiMedia wi) (wiDec wi) (wiEnc wi) (wiFormat wi) (snStatus s) (snHeader s) (snBody s))))"
| "head_status wi (RenderUpstreamError s) = Some (WriteHeader (hrStatus
     (Protocol.RenderUpstreamError (wiMedia wi) (wiDec wi) (wiEnc wi) (wiFormat wi) (snStatus s) (snHeader s) (snBody s))))"
| "head_status wi (RenderError code name) = Some (WriteHeader (hrStatus
     (Protocol.RenderError (wiEnc wi) (wiFormat wi) code name [])))"

definition responses :: "wire \<Rightarrow> 'u run \<Rightarrow> response_head list" where
  "responses wi r = List.map_filter (head_status wi) (sent r)"

text \<open>
  The head that answers a reported status: the passthrough formats replace a status
  outside 100..599 by 502, the Messages format writes any status as it is.
\<close>

definition answer_head :: "format \<Rightarrow> int \<Rightarrow> response_head" where
  "answer_head fmt code =
     (if fmt \<noteq> FormatAnthropicMessages \<and> (code < 100 \<or> code > 599) then HeadWritten 502 else WriteHeader code)"

lemma answer_head_final: "code \<in> {200..599} \<Longrightarrow> answer_head fmt code = HeadWritten code"
  by (simp add: answer_head_def WriteHeader_def)

lemma head_stream [simp]: "head_status wi StreamHead = Some (HeadWritten 200)"
  by (simp add: WriteHeader_def)

lemma head_success: "snStatus s \<in> {200..299} \<Longrightarrow>
    head_status wi (RenderSuccess s) = Some (answer_head (wiFormat wi) (snStatus s))"
  by (simp add: answer_head_final Protocol.RenderSuccess_def renderExchangeBody_def writeJSONResponse_def
      WriteHeader_def Let_def split: format.split option.split)

lemma head_upstream_error:
  "head_status wi (RenderUpstreamError s) = Some (answer_head (wiFormat wi) (snStatus s))"
  by (simp add: answer_head_def Protocol.RenderUpstreamError_def renderExchangeBody_def writeJSONResponse_def
      WriteHeader_def Let_def)

lemma head_gateway_error: "code \<in> {200..599} \<Longrightarrow>
    head_status wi (RenderError code name) = Some (answer_head (wiFormat wi) code)"
  by (simp add: answer_head_final Protocol.RenderError_def WriteError_def writeJSONResponse_def WriteHeader_def)

lemma responses_quiet: "sent r = [] \<Longrightarrow> responses wi r = []"
  by (simp add: responses_def List.map_filter_simps)

lemma responses_send: "responses wi (send evs r) = responses wi r @ List.map_filter (head_status wi) evs"
  by (simp add: responses_def List.map_filter_def)

lemma responses_commits:
  assumes "commits r0 r" and "sent r0 = []"
  shows "responses wi r = [HeadWritten 200]"
proof -
  have "List.map_filter (head_status wi) (map StreamBytes bs) = []" for bs
    by (induction bs) (simp_all add: List.map_filter_simps)
  then show ?thesis using assms by (auto simp: commits_def responses_def List.map_filter_simps WriteHeader_def)
qed

lemma finish_fields:
  assumes "finish jb gone r res = (r1, result)"
  shows "resTrail result = trail r" and "resAttempts result = rattempts r"
  using assms
  by (auto simp: finish_def base_result_def gateway_error_def upstream_error_def Let_def
      split: option.splits if_splits)

lemma finish_responses:
  assumes "finish jb gone r res = (r1, result)"
    and "case final_error res of
        None \<Rightarrow> if jStream jb then responses wi r = [HeadWritten 200] else responses wi r = [] \<and> delivered r
      | Some e \<Rightarrow> responses wi r = (if committed e then [HeadWritten 200] else [])"
  shows "responses wi r1 =
    (if resClientGone result \<and> \<not> resStreamed result then [] else [answer_head (wiFormat wi) (resStatus result)])"
  using assms
  by (auto simp: finish_def base_result_def gateway_error_def upstream_error_def Let_def responses_send delivered_def
      head_success head_upstream_error head_gateway_error answer_head_final
      List.map_filter_simps simp del: head_status.simps split: option.splits if_splits)

text \<open>A demonstration: two upstreams without credentials, the first answering 500, the second 200.\<close>

definition demo_libs :: "(unit, unit) libs" where
  "demo_libs = \<lparr>jdec = (\<lambda>_. Some Map.empty), jenc = (\<lambda>_. ''{}''), jname = (\<lambda>_. ()),
     decodeError = (\<lambda>_. \<lparr>envCode = CodeAbsent, envType = ''''\<rparr>), parseUsage = (\<lambda>_. None),
     parseFloat = (\<lambda>_. None), parseTime = (\<lambda>_. None), encodeError = (\<lambda>_. '''')\<rparr>"

definition demo_adapter :: "string \<Rightarrow> openai" where
  "demo_adapter u = \<lparr>oid = u, baseURL = ''http://'' @ u, oring = newCredentialRing [], oprobe = '''',
     modelMap = Map.empty\<rparr>"

definition demo_executor :: executor where
  "demo_executor = \<lparr>exPolicy = demo_policy, exBulkhead = Some 1, exHook = True, exStreamTimeout = 0, exSlowCall = 0\<rparr>"

definition demo_job :: "(unit, unit) job" where
  "demo_job = \<lparr>jModel = ''m'', jStream = False, jBody = ''{}'', jRequestID = '''', jCandidates = [''a''],
     jFallbacks = [''m'', ''n''], jResolve = Some (\<lambda>m. if m = ''n'' then Some [''b''] else None), jTranscoder = None\<rparr>"

definition demo_world :: "unit world" where
  "demo_world = \<lparr>wbreaker = (), wgate = Map.empty, wups = demo_adapter, wswitch = NewSwitch [] [''a'', ''b''] True,
     wobserved = []\<rparr>"

definition demo_attempt :: "int \<Rightarrow> attempt_env" where
  "demo_attempt i =
     (let e = \<lparr>born = 0, now = 0, stamp = 0, draw = 0\<rparr> in
      \<lparr>aeAllow = e, aeReport = e, aeStart = 0, aeFirst = 1, aeEnd = 2, aeNow = 0, aeBuild = (\<lambda>_. True),
       aeExchange = (\<lambda>req. if wurl req = ''http://a/v1/chat/completions'' then Some (500, [], ''e'') else Some (200, [], ''k'')),
       aeNetCanceled = False, aeNetDeadline = False, aeReadError = None, aeTtft = False, aeCeiling = False,
       aeTtftLate = False, aeCut = False, aeGoneFwd = False, aeGonePump = False, aeGoneObs = False,
       aeRoom = None, aeWriteCanceled = False\<rparr>)"

definition demo_loop :: "relay_error loop_env" where
  "demo_loop = \<lparr>fn = (\<lambda>_. None), classifier = (\<lambda>_ _. False), overallAfter = (\<lambda>_. None), sleepEnd = (\<lambda>_. None),
     jitter = (\<lambda>_. 0), liveCount = (\<lambda>_. 10), othersBefore = (\<lambda>_ b. b), othersDuring = (\<lambda>_ b. b)\<rparr>"

definition demo_relay :: "unit run \<times> unit relay_result \<times> unit world \<times> budget option" where
  "demo_relay = relay_Execute demo_libs demo_executor (Some (nop_Allow, nop_Report)) demo_job demo_attempt demo_loop
     False None demo_world"

lemma demo_relay_result:
  "resStatus (fst (snd demo_relay)) = 200" "resAttempts (fst (snd demo_relay)) = 2"
  "resClientGone (fst (snd demo_relay)) = False"
  by code_simp+

text \<open>
  C2: one request, one response.  Whatever the upstreams, the breaker, the budget and the
  client do, the engine starts exactly one response, unless the client left before
  anything was sent, in which case it starts none: an attempt that failed before its
  commit leaves no byte behind, nothing is retried once a stream is committed, and no
  error is rendered on top of a committed stream.  The status written is the reported
  one whenever that lies in 200..599; for an upstream status outside 100..599 the report
  keeps the upstream's and the client gets 502, except on the Messages format, which
  writes it as it is (\<open>net/http\<close> panics on it below 100).  The attempts made stay within
  the policy's cap.
\<close>

theorem one_request_one_response:
  assumes "relay_Execute lib ex brk jb ae env gone bud w = (r, result, w', bud')"
  shows "responses wi r =
      (if resClientGone result \<and> \<not> resStreamed result then [] else [answer_head (wiFormat wi) (resStatus result)]) \<and>
    (resStatus result \<in> {200..599} \<longrightarrow> answer_head (wiFormat wi) (resStatus result) = HeadWritten (resStatus result)) \<and>
    resAttempts result \<le> maxAttempts (exPolicy ex)"
proof (cases "jCandidates jb = []")
  case True
  then show ?thesis
    using assms by (auto simp: relay_Execute_def Let_def base_result_def new_run_def responses_def send_def
        List.map_filter_simps maxAttempts_def head_gateway_error answer_head_final simp del: head_status.simps)
next
  case False
  let ?env = "relay_env lib ex brk jb ae w env"
  let ?after = "relay_after lib ex brk jb ae w"
  obtain res bud1 ev where x: "Execute (exPolicy ex) ?env bud = (res, bud1, ev)" by (metis prod_cases3)
  obtain k where k: "1 \<le> k" "k \<le> maxAttempts (exPolicy ex)" "length (attempts_of ev) = nat k"
    and quiet: "\<And>j. 1 \<le> j \<Longrightarrow> j < k \<Longrightarrow> \<exists>e. fn ?env j = Some e \<and> \<not> committed e"
    and final: "fn ?env k = final_error res"
    by (rule relay_loop [OF x]) blast
  define n where "n = nat (k - 1)"
  have n: "int n + 1 = k" "nat k = Suc n" using k(1) by (simp_all add: n_def)
  have q: "sent (fst (?after n)) = []"
    by (rule relay_after_quiet [OF False, where env = env]) (use quiet n in auto)
  obtain rw err where a: "relay_attempt lib ex brk jb (ae (int n + 1)) (int n + 1) (?after n) = (rw, err)" by fastforce
  note st = relay_after_step(2) [OF False a]
  have err: "err = final_error res"
    using final a n by (simp add: relay_env_def n_def)
  have fin: "finish jb gone (fst (?after (nat k))) res = (r, result)"
    using assms False x k(3) by (auto simp: relay_Execute_def Let_def split: prod.splits)
  have "case final_error res of
        None \<Rightarrow> if jStream jb then responses wi (fst rw) = [HeadWritten 200] else responses wi (fst rw) = [] \<and> delivered (fst rw)
      | Some e \<Rightarrow> responses wi (fst rw) = (if committed e then [HeadWritten 200] else [])"
    using st q responses_commits [of "fst (?after n)" "fst rw"]
    by (auto simp: attempted_ok_def err responses_quiet split: option.splits if_splits)
  moreover have after: "?after (nat k) = rw" using st n(2) by (simp only:)
  ultimately have "responses wi r =
      (if resClientGone result \<and> \<not> resStreamed result then [] else [answer_head (wiFormat wi) (resStatus result)])"
    using finish_responses [OF fin] by (simp only:)
  moreover have "resAttempts result = k"
    using finish_fields [OF fin] st n(1) by (simp only: after attempted_ok_def)
  ultimately show ?thesis using k answer_head_final by simp
qed

text \<open>The wires of the demonstrations: no media type parses, and no reply.\<close>

definition demo_wire :: "format \<Rightarrow> wire" where
  "demo_wire fmt = \<lparr>wiFormat = fmt, wiMedia = (\<lambda>_. None), wiDec = (\<lambda>_. None), wiEnc = (\<lambda>_. [])\<rparr>"

theorem one_request_one_response_witness:
  "responses (demo_wire FormatOpenAIChat) (fst demo_relay) = [HeadWritten 200] \<and>
   resStatus (fst (snd demo_relay)) = 200 \<and> resAttempts (fst (snd demo_relay)) = 2"
proof -
  have "relay_Execute demo_libs demo_executor (Some (nop_Allow, nop_Report)) demo_job demo_attempt demo_loop False None
      demo_world = (fst demo_relay, fst (snd demo_relay), fst (snd (snd demo_relay)), snd (snd (snd demo_relay)))"
    by (simp add: demo_relay_def)
  from one_request_one_response [OF this, of "demo_wire FormatOpenAIChat"] show ?thesis
    by (simp add: demo_relay_result)
qed

text \<open>The one upstream of the job answers with a status no HTTP server may send.\<close>

definition demo_odd_relay :: "int \<Rightarrow> unit run \<times> unit relay_result \<times> unit world \<times> budget option" where
  "demo_odd_relay code = relay_Execute demo_libs demo_executor (Some (nop_Allow, nop_Report)) (demo_job\<lparr>jFallbacks := []\<rparr>)
     (\<lambda>i. (demo_attempt i)\<lparr>aeExchange := (\<lambda>_. Some (code, [], ''odd''))\<rparr>) demo_loop False None demo_world"

text \<open>
  The status reported and the status written part ways: 502 on the canonical format, a
  panic of \<open>WriteHeader\<close> on the Messages format.
\<close>

lemma demo_odd_sent:
  "sent (fst (demo_odd_relay 42)) = [RenderUpstreamError \<lparr>snStatus = 42, snHeader = [], snBody = ''odd''\<rparr>]"
  by code_simp

lemma odd_status_diverges:
  "resStatus (fst (snd (demo_odd_relay 42))) = 42"
  "responses (demo_wire FormatOpenAIChat) (fst (demo_odd_relay 42)) = [HeadWritten 502]"
  "responses (demo_wire FormatAnthropicMessages) (fst (demo_odd_relay 42)) = [HeadPanics 42]"
proof -
  show "resStatus (fst (snd (demo_odd_relay 42))) = 42" by code_simp
qed (simp_all add: responses_def demo_odd_sent head_upstream_error answer_head_def WriteHeader_def demo_wire_def
    List.map_filter_simps del: head_status.simps)

text \<open>
  C36: the access trail is the failover walk.  The trail reported for a request lists,
  in order, one entry per attempt, and they name the upstreams of the job's walk: the
  candidates of the requested model, then those of every fallback model that is new and
  resolves, the last one repeated for attempts beyond them.  The one attempt that may
  leave no entry is that of a streamed request whose time-to-first-byte timer fired just
  as the headers arrived; a buffered request's trail is the whole walk.
\<close>

theorem trail_is_failover_walk:
  assumes "relay_Execute lib ex brk jb ae env gone bud w = (r, result, w', bud')"
    and "jCandidates jb \<noteq> []"
  shows "1 \<le> resAttempts result \<and>
    (\<exists>keep. map atUpstream (resTrail result) = map (\<lambda>i. fst (target_of jb i)) (filter keep [1..resAttempts result]) \<and>
       (\<forall>i. keep i \<or> jStream jb \<and> aeTtftLate (ae i)))"
proof -
  let ?env = "relay_env lib ex brk jb ae w env"
  obtain res bud1 ev where x: "Execute (exPolicy ex) ?env bud = (res, bud1, ev)" by (metis prod_cases3)
  obtain k where k: "1 \<le> k" "length (attempts_of ev) = nat k" by (rule relay_loop [OF x]) blast
  have fin: "finish jb gone (fst (relay_after lib ex brk jb ae w (nat k))) res = (r, result)"
    using assms(1,2) x k by (auto simp: relay_Execute_def Let_def split: prod.splits)
  show ?thesis
    using relay_after_trail [OF assms(2), where n = "nat k" and ae = ae and lib = lib and ex = ex and brk = brk and w = w]
      finish_fields [OF fin] k(1)
    by (simp add: trail_walk_def)
qed

theorem trail_is_failover_walk_witness:
  "map atUpstream (resTrail (fst (snd demo_relay))) = [''a'', ''b'']"
proof -
  have run: "relay_Execute demo_libs demo_executor (Some (nop_Allow, nop_Report)) demo_job demo_attempt demo_loop False None
      demo_world = (fst demo_relay, fst (snd demo_relay), fst (snd (snd demo_relay)), snd (snd (snd demo_relay)))"
    by (simp add: demo_relay_def)
  have "jCandidates demo_job \<noteq> []" "\<not> jStream demo_job" by (simp_all add: demo_job_def)
  then obtain keep where "\<forall>i. keep i" and "map atUpstream (resTrail (fst (snd demo_relay))) =
      map (\<lambda>i. fst (target_of demo_job i)) (filter keep [1..resAttempts (fst (snd demo_relay))])"
    using trail_is_failover_walk [OF run] by blast
  moreover have "[1..2] = [1, 2::int]" by (simp add: upto.simps)
  ultimately show ?thesis
    by (simp add: demo_relay_result target_of_def walk_at_def job_walk_def demo_job_def)
qed

text \<open>
  A streamed attempt that is dropped: its upstream answered 200, the timer had fired by
  then, and the trail of two attempts has one entry.
\<close>

definition demo_late_relay :: "unit run \<times> unit relay_result \<times> unit world \<times> budget option" where
  "demo_late_relay = relay_Execute demo_libs demo_executor (Some (nop_Allow, nop_Report)) (demo_job\<lparr>jStream := True\<rparr>)
     (\<lambda>i. (demo_attempt i)\<lparr>aeExchange := (\<lambda>_. Some (if i = 1 then 200 else 404, [], ''k'')),
         aeTtftLate := (i = 1)\<rparr>) demo_loop False None demo_world"

lemma late_headers_leave_no_entry:
  "resAttempts (fst (snd demo_late_relay)) = 2"
  "map atUpstream (resTrail (fst (snd demo_late_relay))) = [''b'']"
  by code_simp+

end
