(* ===== verification/Inference.thy ===== *)
theory Inference
  imports Governance Router Affinity Relay
begin

text \<open>
  The inference endpoint (\<^verbatim>\<open>internal/server/inference.go\<close>): the last authorization check, the
  router's candidates, the context-window filter, the affinity promotion, the fallback
  resolver, the relay and the settlement count.

  The router and the relay share one breaker and one switch, as \<^verbatim>\<open>serve.go\<close> wires them; they
  are fields of the relay's world.  A fallback model is resolved in the middle of the relay,
  when the candidates before it are exhausted: the state the router and the index have at
  that moment is the request's environment (\<open>ieThen\<close>), and what the lookup leaves in them is
  not threaded further.  The clients' rendering of the relay's events is in \<^verbatim>\<open>Protocol\<close>.
\<close>

subsection \<open>Data\<close>

record 'b inference =
  ifEntries :: "string entry list"
  ifStateOf :: "('b \<Rightarrow> string \<Rightarrow> call_env \<Rightarrow> 'b \<times> cstate) option"
  ifStrategy :: strategy
  ifFallbacks :: "string \<rightharpoonup> string list"
  ifContextLimits :: "string \<rightharpoonup> int"

record 'b iworld =
  iwRelay :: "'b world"
  iwTracker :: tracker
  iwIndex :: "index option"
  iwBudget :: "budget option"

record route_env =
  reClk :: "string \<Rightarrow> call_env"
  reRnd :: nat
  reAt :: instant

record 'b inference_env =
  iePrimary :: route_env
  ieThen :: "string \<Rightarrow> 'b iworld \<times> route_env"
  ieAttempt :: "int \<Rightarrow> attempt_env"
  ieLoop :: "relay_error loop_env"
  ieGone :: bool

datatype 'u inference_answer = InferenceRefused http_reply | Relayed "'u run" "'u relay_result"

subsection \<open>Operations\<close>

definition overContext :: "(string \<rightharpoonup> int) \<Rightarrow> string \<Rightarrow> int \<Rightarrow> bool" where
  "overContext limits model inputTokens =
     (case limits model of None \<Rightarrow> False | Some lmt \<Rightarrow> lmt > 0 \<and> inputTokens > lmt)"

definition routeOfFormat :: "format \<Rightarrow> string" where
  "routeOfFormat fmt =
     (case fmt of
        FormatOpenAIResponses \<Rightarrow> ''POST /v1/responses''
      | FormatAnthropicMessages \<Rightarrow> ''POST /v1/messages''
      | _ \<Rightarrow> ''POST /v1/chat/completions'')"

definition route_candidates ::
  "'b inference \<Rightarrow> 'b iworld \<Rightarrow> route_env \<Rightarrow> string \<Rightarrow> 'b \<times> (router_error + string list)" where
  "route_candidates iv iw re model =
     Candidates (\<lambda>u. u) (Some (wswitch (iwRelay iw))) (ifStateOf iv) (ifStrategy iv) (Some (iwTracker iw))
       (reClk re) (reRnd re) (ifEntries iv) (wbreaker (iwRelay iw)) model"

definition applyAffinity ::
  "index option \<Rightarrow> string \<Rightarrow> string \<Rightarrow> instant \<Rightarrow> string list \<Rightarrow> index option \<times> string list" where
  "applyAffinity ox model prompt t candidates =
     (if ox = None \<or> length candidates < 2 then (ox, candidates)
      else case affinity_Pick ox model prompt candidates t of
             (ox1, j) \<Rightarrow> (ox1, if j > 0 then lead_with (nat j) candidates else candidates))"

definition candidatesRejection :: "string \<Rightarrow> router_error \<Rightarrow> int \<times> string \<times> string" where
  "candidatesRejection model err =
     (case err of
        ErrDisabled \<Rightarrow> (403, ''model_disabled'', ''model '' @ model @ '' is disabled by the operator'')
      | ErrUnavailable \<Rightarrow> (503, ''circuit_open'', ''every upstream serving model '' @ model @ '' is unavailable'')
      | _ \<Rightarrow> (404, ''model_not_found'', ''no upstream serves model '' @ model))"

definition fallback_resolve ::
  "'b inference \<Rightarrow> (string \<Rightarrow> 'b iworld \<times> route_env) \<Rightarrow> tenant \<Rightarrow> int \<Rightarrow> string \<Rightarrow> resolver" where
  "fallback_resolve iv look tn inputTokens promptText model =
     (if tenantID tn \<noteq> '''' \<and> \<not> AllowsModel (tenantTier tn) model then None
      else if overContext (ifContextLimits iv) model inputTokens then None
      else case look model of
             (iw, re) \<Rightarrow>
               (case snd (route_candidates iv iw re model) of
                  Inl _ \<Rightarrow> None
                | Inr cands \<Rightarrow> Some (snd (applyAffinity (iwIndex iw) model promptText (reAt re) cands))))"

definition settleConsumption :: "'r carrier \<Rightarrow> usage relay_result \<Rightarrow> 'r carrier" where
  "settleConsumption c result =
     (if resStatus result < 200 \<or> resStatus result > 299 then c\<lparr>caConsumed := 0\<rparr>
      else if (case resUsage result of None \<Rightarrow> False | Some u \<Rightarrow> uTotal u > 0)
      then c\<lparr>caConsumed := uTotal (the (resUsage result))\<rparr>
      else if resStreamed result
      then (case carrier_EstimatePartialTokens (resStreamBytes result) c of (c1, n) \<Rightarrow> c1\<lparr>caConsumed := n\<rparr>)
      else c\<lparr>caConsumed := caTokens c\<rparr>)"

definition ServeHTTP ::
  "wire_libs \<Rightarrow> ('v, usage) libs \<Rightarrow> executor \<Rightarrow> ('b, 'p) breaker_ops option \<Rightarrow> ('t, usage) transcoder option \<Rightarrow>
   'b inference \<Rightarrow> 'b inference_env \<Rightarrow> Pipeline.request \<Rightarrow> usage relay_result carrier \<Rightarrow> 'b iworld \<Rightarrow>
   usage relay_result carrier \<times> 'b iworld \<times> usage inference_answer" where
  "ServeHTTP lib rl ex brk tc iv ie rq c iw =
     (case AuthorizeModel lib rq c of
        (c1, Some r) \<Rightarrow> (c1, iw, InferenceRefused r)
      | (c1, None) \<Rightarrow>
          let model = chModel (caChat c1); (b, found) = route_candidates iv iw (iePrimary ie) model;
              iw1 = iw\<lparr>iwRelay := (iwRelay iw)\<lparr>wbreaker := b\<rparr>\<rparr>
          in case found of
               Inl err \<Rightarrow>
                 (case candidatesRejection model err of
                    (code, ecode, message) \<Rightarrow>
                      (c1\<lparr>caRejectCode := ecode\<rparr>, iw1, InferenceRefused (refuse lib c1 code ecode message)))
             | Inr cands \<Rightarrow>
                 let (c2, inputTokens) = carrier_PromptTokens c1
                 in if overContext (ifContextLimits iv) model inputTokens
                    then (c2\<lparr>caRejectCode := ''context_window_exceeded''\<rparr>, iw1,
                          InferenceRefused (refuse lib c2 413 ''context_window_exceeded''
                            (''prompt does not fit any candidate model for '' @ model)))
                    else let chain = (case ifFallbacks iv model of None \<Rightarrow> [] | Some ms \<Rightarrow> ms);
                             promptText = (if iwIndex iw1 = None then '''' else PromptText (caChat c2));
                             (ox, cands1) = applyAffinity (iwIndex iw1) model promptText (reAt (iePrimary ie)) cands;
                             jb = \<lparr>jModel = model, jStream = chStream (caChat c2), jBody = caUpstreamBody c2,
                                   jRequestID = caRequestID c2, jCandidates = cands1, jFallbacks = chain,
                                   jResolve = (if chain = [] then None
                                     else Some (fallback_resolve iv (ieThen ie) (caTenant c2) inputTokens promptText)),
                                   jTranscoder = tc\<rparr>;
                             (r, result, w, bud) =
                               relay_Execute rl ex brk jb (ieAttempt ie) (ieLoop ie) (ieGone ie) (iwBudget iw1) (iwRelay iw1)
                         in ((settleConsumption c2 result)\<lparr>caRelay := Some result\<rparr>,
                             iw1\<lparr>iwRelay := w, iwIndex := ox, iwBudget := bud\<rparr>, Relayed r result))"

text \<open>The endpoint behind the chain, whose state carries the endpoint's world.\<close>

definition inference_endpoint ::
  "wire_libs \<Rightarrow> ('v, usage) libs \<Rightarrow> executor \<Rightarrow> ('b, 'p) breaker_ops option \<Rightarrow> ('t, usage) transcoder option \<Rightarrow>
   'b inference \<Rightarrow> 'b inference_env \<Rightarrow> Pipeline.request \<Rightarrow> usage relay_result carrier \<Rightarrow> ('m, 'l, 'b iworld) gov \<Rightarrow>
   usage relay_result carrier \<times> ('m, 'l, 'b iworld) gov \<times> usage inference_answer" where
  "inference_endpoint lib rl ex brk tc iv ie rq c s =
     (case ServeHTTP lib rl ex brk tc iv ie rq c (grest s) of (c1, iw, a) \<Rightarrow> (c1, s\<lparr>grest := iw\<rparr>, a))"

subsection \<open>The candidates an endpoint may try\<close>

lemma eligible_member:
  "eligible uid control brk clk model b es = (b1, n, us) \<Longrightarrow> u \<in> set us \<Longrightarrow>
   \<exists>e \<in> set es. eup e = u \<and> serves model e \<and> switched_on control (uid u)"
proof (induction es arbitrary: b b1 n us)
  case (Cons e es)
  obtain b0 st where st: "(case brk of None \<Rightarrow> (b, StateClosed) | Some f \<Rightarrow> f b (uid (eup e)) (clk (uid (eup e)))) = (b0, st)"
    by fastforce
  show ?case
  proof (cases "serves model e \<and> switched_on control (uid (eup e))")
    case True
    obtain b2 k vs where r: "eligible uid control brk clk model b0 es = (b2, k, vs)" by (metis prod_cases3)
    then show ?thesis using Cons.IH [OF r] Cons.prems True st by (auto split: if_splits)
  next
    case False
    obtain b2 k vs where r: "eligible uid control brk clk model b es = (b2, k, vs)" by (metis prod_cases3)
    then show ?thesis using Cons.IH [OF r] Cons.prems False by (auto split: if_splits)
  qed
qed simp

lemma set_by_latency: "us \<noteq> [] \<Longrightarrow> set (by_latency uid tr rnd us) = set us"
proof -
  assume us: "us \<noteq> []"
  define sc where "sc = sort_key snd (map (\<lambda>u. (u, Score tr (uid u))) us)"
  have sc: "set (map fst sc) = set us" "0 < length sc" using us by (auto simp: sc_def image_image)
  have "tieCut (map snd sc) \<le> length sc"
    using sc(2) length_takeWhile_le [of _ "tl (map snd sc)"] by (fastforce simp: tieCut_def Suc_le_eq intro: le_less_trans)
  then have "set (lead_with (pickTied rnd (tieCut (map snd sc))) (map fst sc)) = set (map fst sc)" if "1 < tieCut (map snd sc)"
    using that by (intro mset_eq_setD mset_lead_with) (auto simp: pickTied_def intro: less_le_trans [OF mod_less_divisor])
  then show ?thesis
    using sc by (auto simp: by_latency_def Let_def sc_def)
qed

lemma route_candidates_member:
  assumes "snd (route_candidates iv iw re model) = Inr cands"
  shows "cands \<noteq> [] \<and> ModelEnabled (wswitch (iwRelay iw)) model \<and>
    (\<forall>u \<in> set cands. UpstreamEnabled (wswitch (iwRelay iw)) u \<and> (\<exists>e \<in> set (ifEntries iv). eup e = u \<and> serves model e))"
proof -
  obtain b n us where el: "eligible (\<lambda>u. u) (Some (wswitch (iwRelay iw))) (ifStateOf iv) (reClk re) model
      (wbreaker (iwRelay iw)) (ifEntries iv) = (b, n, us)" by (metis prod_cases3)
  have ne: "us \<noteq> []" "ModelEnabled (wswitch (iwRelay iw)) model"
    using assms el by (auto simp: route_candidates_def Candidates_def split: if_splits)
  have "set cands = set us"
    using assms el ne set_by_latency [OF ne(1), of "\<lambda>u. u" "iwTracker iw" "reRnd re"]
    by (cases "ifStrategy iv") (auto simp: route_candidates_def Candidates_def)
  then show ?thesis using ne eligible_member [OF el] by (auto simp: switched_on_def)
qed

lemma applyAffinity_permutes: "mset (snd (applyAffinity ox model prompt t cands)) = mset cands"
proof (cases "ox = None \<or> length cands < 2")
  case False
  then obtain x where x: "ox = Some x" by auto
  have ne: "cands \<noteq> []" using False by auto
  obtain ox1 j where j: "affinity_Pick ox model prompt cands t = (ox1, j)" by fastforce
  have "j < int (length cands)"
    using Pick_result [OF ne, of x model prompt t] j positions_deepest_range [OF ne] ne
    by (auto simp: x Let_def split: if_splits)
  then show ?thesis using False j mset_lead_with [of "nat j" cands] by (auto simp: applyAffinity_def)
qed (simp add: applyAffinity_def)

subsection \<open>What a relayed request went through\<close>

text \<open>
  Where an attempt may go: the model is one the tenant may use and its declared window holds
  the prompt, and the router, in the state it had when it was asked, offered the upstream for
  that model, which is bound, enabled and serves it.
\<close>

definition offered :: "'b inference \<Rightarrow> 'b iworld \<Rightarrow> route_env \<Rightarrow> string \<Rightarrow> string \<Rightarrow> bool" where
  "offered iv iw re model u \<longleftrightarrow>
     (\<exists>cands. snd (route_candidates iv iw re model) = Inr cands \<and> u \<in> set cands) \<and>
     ModelEnabled (wswitch (iwRelay iw)) model \<and> UpstreamEnabled (wswitch (iwRelay iw)) u \<and>
     (\<exists>e \<in> set (ifEntries iv). eup e = u \<and> serves model e)"

definition permitted :: "'b inference \<Rightarrow> tenant \<Rightarrow> int \<Rightarrow> string \<Rightarrow> bool" where
  "permitted iv tn inputTokens model \<longleftrightarrow>
     (tenantID tn \<noteq> '''' \<longrightarrow> AllowsModel (tenantTier tn) model) \<and>
     \<not> overContext (ifContextLimits iv) model inputTokens"

lemma offeredI: "snd (route_candidates iv iw re model) = Inr cands \<Longrightarrow> u \<in> set cands \<Longrightarrow> offered iv iw re model u"
  using route_candidates_member [of iv iw re model cands] by (auto simp: offered_def)

lemma set_applyAffinity [simp]: "set (snd (applyAffinity ox model prompt t cands)) = set cands"
  using applyAffinity_permutes by (metis mset_eq_setD)

lemma fallback_resolve_offers:
  assumes "fallback_resolve iv look tn k prompt model = Some cands" and "u \<in> set cands"
  shows "permitted iv tn k model \<and> offered iv (fst (look model)) (snd (look model)) model u"
  using assms
  by (auto simp: fallback_resolve_def permitted_def split: if_splits prod.splits sum.splits intro: offeredI)

lemma fallback_walk_resolved:
  "(u, m) \<in> set (fallback_walk f seen ms) \<Longrightarrow> m \<in> set ms \<and> (\<exists>cands. f m = Some cands \<and> u \<in> set cands)"
  by (induction f seen ms rule: fallback_walk.induct) (auto split: if_splits option.splits intro: sym)

lemma walk_at_member: "w \<noteq> [] \<Longrightarrow> 1 \<le> i \<Longrightarrow> walk_at w i \<in> set w"
  unfolding walk_at_def by (rule nth_mem) (cases w; auto)

lemma relay_after_trail_member:
  assumes "jCandidates jb \<noteq> []" and "t \<in> set (trail (fst (relay_after lib ex brk jb ae w n)))"
  shows "\<exists>m. (atUpstream t, m) \<in> set (job_walk (jResolve jb) (jModel jb) (jCandidates jb) (jFallbacks jb))"
  using assms(2)
proof (induction n)
  case 0
  then show ?case by (simp add: new_run_def)
next
  case (Suc n)
  let ?r = "relay_after lib ex brk jb ae w n"
  obtain rw err where at: "relay_attempt lib ex brk jb (ae (int n + 1)) (int n + 1) ?r = (rw, err)" by fastforce
  note st = relay_after_step(2) [OF assms(1) at]
  then obtain ts where ts: "trail (fst rw) = trail (fst ?r) @ ts"
    "map atUpstream ts \<in> {[], [fst (target_of jb (int n + 1))]}" by (auto simp: attempted_ok_def)
  have "target_of jb (int n + 1) \<in> set (job_walk (jResolve jb) (jModel jb) (jCandidates jb) (jFallbacks jb))"
    unfolding target_of_def using assms(1) by (intro walk_at_member) (auto simp: job_walk_def)
  moreover have "t \<in> set (trail (fst ?r)) \<or> t \<in> set ts" using Suc.prems st ts(1) by auto
  ultimately show ?case using Suc.IH ts(2) by auto (metis prod.collapse)+
qed


lemma relay_Execute_trail:
  assumes "relay_Execute lib ex brk jb ae env gone bud w = (r, result, w', bud')" and "jCandidates jb \<noteq> []"
    and "t \<in> set (resTrail result)"
  shows "\<exists>m. (atUpstream t, m) \<in> set (job_walk (jResolve jb) (jModel jb) (jCandidates jb) (jFallbacks jb))"
proof -
  obtain res bud1 ev where e: "Execute (exPolicy ex) (relay_env lib ex brk jb ae w env) bud = (res, bud1, ev)"
    by (metis prod_cases3)
  obtain r0 w1 where a: "relay_after lib ex brk jb ae w (length (attempts_of ev)) = (r0, w1)" by fastforce
  obtain r1 result1 where f: "finish jb gone r0 res = (r1, result1)" by fastforce
  then have "resTrail result = trail r0" using assms(1,2) e a finish_fields(1) by (auto simp: relay_Execute_def)
  then show ?thesis using relay_after_trail_member [OF assms(2)] assms(3) a by (metis fst_conv)
qed

text \<open>A request that reached the relay: what the endpoint handed over, and what it settled on.\<close>

lemma ServeHTTP_relayed:
  fixes tc :: "('t, usage) transcoder option"
  assumes "ServeHTTP lib rl ex brk tc iv ie rq c iw = (c', iw', Relayed r result)"
    and "caChatSet c" and "caChatErr c = None"
  obtains cands k c2 and jb :: "('t, usage) job" and w bud where "snd (route_candidates iv iw (iePrimary ie) (chModel (caChat c))) = Inr cands"
    "carrier_PromptTokens c = (c2, k)" "permitted iv (caTenant c) k (chModel (caChat c))"
    "set (jCandidates jb) = set cands" "jModel jb = chModel (caChat c)"
    "jFallbacks jb = (case ifFallbacks iv (chModel (caChat c)) of None \<Rightarrow> [] | Some ms \<Rightarrow> ms)"
    "jResolve jb = None \<or> (\<exists>prompt. jResolve jb = Some (fallback_resolve iv (ieThen ie) (caTenant c) k prompt))"
    "relay_Execute rl ex brk jb (ieAttempt ie) (ieLoop ie) (ieGone ie) (iwBudget iw)
       ((iwRelay iw)\<lparr>wbreaker := fst (route_candidates iv iw (iePrimary ie) (chModel (caChat c)))\<rparr>) = (r, result, w, bud)"
    "c' = (settleConsumption c2 result)\<lparr>caRelay := Some result\<rparr>"
proof -
  let ?m = "chModel (caChat c)"
  note au = EnsureBody_again [OF assms(2,3)]
  have ok: "?m \<noteq> ''''" "tenantID (caTenant c) \<noteq> '''' \<longrightarrow> AllowsModel (tenantTier (caTenant c)) ?m"
    using assms(1) by (auto simp: ServeHTTP_def AuthorizeModel_def au split: if_splits)
  then have pass: "AuthorizeModel lib rq c = (c, None)" by (auto simp: AuthorizeModel_def au)
  obtain b found where rc: "route_candidates iv iw (iePrimary ie) ?m = (b, found)" by fastforce
  obtain c2 k where pt: "carrier_PromptTokens c = (c2, k)" by fastforce
  have c2: "caTenant c2 = caTenant c" using pt by (auto simp: carrier_PromptTokens_def Let_def split: if_splits)
  note run = assms(1) [unfolded ServeHTTP_def pass prod.case option.case Let_def rc pt]
  obtain cands where found: "found = Inr cands" using run by (cases found) (auto split: prod.splits)
  have ctx: "\<not> overContext (ifContextLimits iv) ?m k" using run found by (auto split: if_splits)
  let ?chain = "case ifFallbacks iv ?m of None \<Rightarrow> [] | Some ms \<Rightarrow> ms"
  let ?prompt = "if iwIndex iw = None then '''' else PromptText (caChat c2)"
  obtain ox cands1 where af: "applyAffinity (iwIndex iw) ?m ?prompt (reAt (iePrimary ie)) cands = (ox, cands1)" by fastforce
  define jb where "jb = \<lparr>jModel = ?m, jStream = chStream (caChat c2), jBody = caUpstreamBody c2, jRequestID = caRequestID c2,
      jCandidates = cands1, jFallbacks = ?chain,
      jResolve = (if ?chain = [] then None else Some (fallback_resolve iv (ieThen ie) (caTenant c2) k ?prompt)), jTranscoder = tc\<rparr>"
  obtain r1 result1 w bud where ex: "relay_Execute rl ex brk jb (ieAttempt ie) (ieLoop ie) (ieGone ie) (iwBudget iw)
      ((iwRelay iw)\<lparr>wbreaker := b\<rparr>) = (r1, result1, w, bud)" by (metis prod_cases4)
  have "(case relay_Execute rl ex brk jb (ieAttempt ie) (ieLoop ie) (ieGone ie) (iwBudget iw) ((iwRelay iw)\<lparr>wbreaker := b\<rparr>) of
      (r, result, w, bud) \<Rightarrow> ((settleConsumption c2 result)\<lparr>caRelay := Some result\<rparr>,
        iw\<lparr>iwRelay := w, iwIndex := ox, iwBudget := bud\<rparr>, Relayed r result)) = (c', iw', Relayed r result)"
    using run ctx af by (simp add: found jb_def cong: if_cong split del: if_split)
  then have eq: "r1 = r" "result1 = result" "c' = (settleConsumption c2 result)\<lparr>caRelay := Some result\<rparr>"
    by (auto simp: ex)
  have "set cands1 = set cands" using set_applyAffinity [of "iwIndex iw" ?m ?prompt "reAt (iePrimary ie)" cands] af by simp
  then show ?thesis
    by (intro that [of cands c2 k jb w bud]) (use rc found pt ok ctx ex eq c2 in \<open>auto simp: jb_def permitted_def\<close>)
qed

subsection \<open>What a request is billed\<close>

lemma settleConsumption_zero:
  "resStatus result < 200 \<or> 299 < resStatus result \<Longrightarrow> caConsumed (settleConsumption c result) = 0"
  by (auto simp: settleConsumption_def)

lemma settleConsumption_positive:
  assumes "200 \<le> resStatus result" "resStatus result \<le> 299" and "1 \<le> caTokens c"
    and "caPromptKnown c" "1 \<le> caPromptTokens c" "caPromptTokens c \<le> 2 ^ 62"
    and "0 \<le> resStreamBytes result" "resStreamBytes result \<le> 2 ^ 62"
  shows "1 \<le> caConsumed (settleConsumption c result)"
proof (cases "(case resUsage result of None \<Rightarrow> False | Some u \<Rightarrow> uTotal u > 0)")
  case True
  then show ?thesis using assms(1,2) by (auto simp: settleConsumption_def split: option.splits)
next
  case none: False
  show ?thesis
  proof (cases "resStreamed result")
    case True
    have "0 \<le> resStreamBytes result sdiv BytesPerToken" "resStreamBytes result sdiv BytesPerToken \<le> 2 ^ 60"
      using assms(7,8) by (simp_all add: BytesPerToken_def sdiv_nonneg_pos)
    then have "in64 (caPromptTokens c + resStreamBytes result sdiv BytesPerToken)"
      "1 \<le> caPromptTokens c + resStreamBytes result sdiv BytesPerToken"
      using assms(5,6) by (simp_all add: in64_def MinInt64_def MaxInt64_def)
    then show ?thesis
      using True none assms(1,2,4)
      by (simp add: settleConsumption_def carrier_EstimatePartialTokens_def carrier_PromptTokens_def Let_def)
  next
    case False
    then show ?thesis using none assms(1-3) by (simp add: settleConsumption_def)
  qed
qed

lemma inference_keeps_governance: "keeps_governance (inference_endpoint lib rl ex brk tc iv ie)"
  by (auto simp: keeps_governance_def inference_endpoint_def split: prod.splits)

text \<open>An endpoint that did not reach the relay leaves the count where it was.\<close>

lemma ServeHTTP_refused:
  assumes "ServeHTTP lib rl ex brk tc iv ie rq c iw = (c', iw', InferenceRefused r)"
  shows "caConsumed c' = caConsumed c"
proof -
  obtain c1 e where a: "AuthorizeModel lib rq c = (c1, e)" by fastforce
  then have c1: "caConsumed c1 = caConsumed c"
    by (auto simp: AuthorizeModel_def EnsureBody_def SetBody_def split: if_splits prod.splits option.splits sum.splits)
  have pt: "caConsumed (fst (carrier_PromptTokens c1)) = caConsumed c1"
    by (simp add: carrier_PromptTokens_def Let_def)
  then show ?thesis
    using assms a c1
    by (auto simp: ServeHTTP_def Let_def split: option.splits prod.splits sum.splits if_splits)
qed

lemma admitted_estimate_pos:
  assumes "admitted_carrier lib rq fmt tn res n c1" and "decoded_bounded lib"
  shows "1 \<le> EstimateTokens (inChat res) cap"
proof -
  have "content_bytes (caChat c1) \<le> 2 ^ 62" "int_ptr_ok (chMaxTokens (caChat c1))" "prompt_cached c1" "caChat c1 = inChat res"
    using assms by (auto simp: admitted_carrier_def authorized_def decoded_bounded_def prompt_cached_def)
  moreover from this(1) have "content_bytes (caChat c1) \<le> MaxInt64" by (simp add: MaxInt64_def)
  ultimately show ?thesis using ReserveTokens_spec(2,4) [of c1 cap] by simp
qed

text \<open>What a relayed request cost, from the chain's outcome.\<close>

lemma relayed_charge:
  assumes run: "inference_endpoint lib rl ex brk tc iv ie rq c1 s1 = (c', s2, Relayed r result)"
    and c1: "admitted_carrier lib rq fmt tn res n c1" "1 \<le> n" and dec: "decoded_bounded lib"
    and bytes: "0 \<le> resStreamBytes result" "resStreamBytes result \<le> 2 ^ 62"
  shows "if 200 \<le> resStatus result \<and> resStatus result \<le> 299 then 1 \<le> charge n (caConsumed c') else charge n (caConsumed c') = 0"
proof -
  have serve: "ServeHTTP lib rl ex brk tc iv ie rq c1 (grest s1) = (c', grest s2, Relayed r result)"
    using run by (auto simp: inference_endpoint_def split: prod.splits)
  have a: "caChatSet c1" "caChatErr c1 = None" "caPromptKnown c1" "caPromptTokens c1 = promptEstimate (inChat res)" "caTokens c1 = n"
    and len: "content_bytes (inChat res) \<le> 2 ^ 62"
    using c1(1) dec by (auto simp: admitted_carrier_def authorized_def decoded_bounded_def)
  obtain c2 k where c2: "carrier_PromptTokens c1 = (c2, k)" "c' = (settleConsumption c2 result)\<lparr>caRelay := Some result\<rparr>"
    using ServeHTTP_relayed [OF serve a(1,2)] by metis
  then have "c2 = c1" using a(3) by (simp add: carrier_PromptTokens_def)
  moreover have "content_bytes (inChat res) \<le> MaxInt64" using len by (simp add: MaxInt64_def)
  then have "1 \<le> caPromptTokens c1" "caPromptTokens c1 \<le> 2 ^ 62"
    using promptEstimate_bounds [of "inChat res"] len by (auto simp: a(4))
  ultimately have "if 200 \<le> resStatus result \<and> resStatus result \<le> 299 then 1 \<le> caConsumed c' else caConsumed c' = 0"
    using settleConsumption_positive [of result c1] settleConsumption_zero [of result c1] a(3,5) c1(2) bytes c2(2) by auto
  then show ?thesis using c1(2) by (auto simp: charge_def split: if_splits)
qed

subsection \<open>Properties\<close>

text \<open>
  C3: Every attempt of a request goes where the tenant may go.  Whatever the retries, the
  fallback chain and the affinity promotion do, an upstream the relay tried was offered by
  the router, in the state it had when it was asked, for the requested model or for one of
  that model's fallbacks; the tenant's tier allows that model, the model's declared window
  holds the prompt, the operator had the model and the upstream switched on, and the upstream
  is bound to it.
\<close>

theorem attempts_permitted:
  assumes "ServeHTTP lib rl ex brk tc iv ie rq c iw = (c', iw', Relayed r result)"
    and "caChatSet c" and "caChatErr c = None" and "t \<in> set (resTrail result)"
  shows "\<exists>m. permitted iv (caTenant c) (snd (carrier_PromptTokens c)) m \<and>
    (m = chModel (caChat c) \<and> offered iv iw (iePrimary ie) m (atUpstream t) \<or>
     (\<exists>ms. ifFallbacks iv (chModel (caChat c)) = Some ms \<and> m \<in> set ms) \<and>
     offered iv (fst (ieThen ie m)) (snd (ieThen ie m)) m (atUpstream t))"
  using assms(1-3)
proof (cases rule: ServeHTTP_relayed)
  case x: (1 cands k c2 jb w bud)
  have "jCandidates jb \<noteq> []" using route_candidates_member [OF x(1)] x(4) by auto
  then obtain m where m: "(atUpstream t, m) \<in> set (job_walk (jResolve jb) (jModel jb) (jCandidates jb) (jFallbacks jb))"
    using relay_Execute_trail [OF x(8)] assms(4) by blast
  then consider (primary) "m = chModel (caChat c)" "atUpstream t \<in> set cands"
    | (fallback) f where "jResolve jb = Some f" "(atUpstream t, m) \<in> set (fallback_walk f {jModel jb} (jFallbacks jb))"
    using x(4,5) by (cases "jResolve jb") (auto simp: job_walk_def)
  then show ?thesis
  proof cases
    case primary
    then show ?thesis using x(2,3) offeredI [OF x(1)] by auto
  next
    case fallback
    then obtain prompt cs where "f = fallback_resolve iv (ieThen ie) (caTenant c) k prompt" "m \<in> set (jFallbacks jb)"
      "f m = Some cs" "atUpstream t \<in> set cs"
      using x(7) fallback_walk_resolved by fastforce
    then show ?thesis using fallback_resolve_offers x(2,6) by (fastforce split: option.splits)
  qed
qed

text \<open>
  C1: The bill follows the delivery.  A request through the whole chain and the endpoint on
  the in-process ledger: a refusal by a stage leaves the ledger and everything behind the
  chain as they were; a refusal by the endpoint leaves every balance as it was; a relayed
  request was authenticated, entitled, admitted by the in-flight ceiling and by the limiter
  for its estimate, which the tenant's balance covered, and it is charged at least one token
  and at most the estimate when the reply was a success and nothing otherwise.  In every
  case no reservation stays behind and the in-flight counts are what they were.
\<close>

theorem bill_follows_delivery:
  fixes s s' :: "('m, mem_ledger, 'b iworld) gov"
  assumes "inferenceChain lib hmac lo \<lparr>qoReserve = mem_Reserve, qoSettle = mem_Settle, qoCancel = mem_Cancel\<rparr> ge fmt
      (answering (inference_endpoint lib rl ex brk tc iv ie)) rq c0 s = (c', s', rep)"
    and "mem_ok (gledger s)" and "mem_fresh (gledger s) (geLease ge)" and "decoded_bounded lib"
    and "\<forall>u. 0 \<le> inflight (ggate s) u" and "in64 (caConsumed c')"
    and "\<forall>r result. rep = Answered (Relayed r result) \<longrightarrow> 0 \<le> resStreamBytes result \<and> resStreamBytes result \<le> 2 ^ 62"
  shows "inflight (ggate s') = inflight (ggate s) \<and> mem_live (gledger s') = mem_live (gledger s) \<and>
    (case rep of
       Refused r \<Rightarrow> hrStatus r \<in> refusal_codes \<and> gledger s' = gledger s \<and> grest s' = grest s
     | Answered (InferenceRefused r) \<Rightarrow> balances (gledger s') = balances (gledger s)
     | Answered (Relayed r result) \<Rightarrow>
         \<exists>tn res n b cost. n = EstimateTokens (inChat res) (tierMaxTokens (tenantTier tn)) \<and>
           entitled lib hmac ge fmt rq s tn res \<and> within_limits lo ge s tn n \<and>
           balances (gledger s) (tenantID tn) = Some b \<and> n \<le> b \<and>
           balances (gledger s') = (balances (gledger s))(tenantID tn \<mapsto> b - cost) \<and>
           (if 200 \<le> resStatus result \<and> resStatus result \<le> 299 then 1 \<le> cost \<and> cost \<le> n else cost = 0))"
proof -
  have room: "\<forall>v k b. balances (gledger s) v = Some b \<and> k \<le> b \<longrightarrow> True" by simp
  note g = mem.governed_request [OF assms(1-4) assms(5) [rule_format] inference_keeps_governance assms(6) room]
  have frame: "inflight (ggate s') = inflight (ggate s) \<and> mem_live (gledger s') = mem_live (gledger s)"
    using g by blast
  show ?thesis
  proof (cases rep)
    case (Refused r)
    then show ?thesis using g by auto
  next
    case (Answered a)
    then obtain tn res n b c1 and s1 s2 :: "('m, mem_ledger, 'b iworld) gov" where en: "n = EstimateTokens (inChat res) (tierMaxTokens (tenantTier tn))"
        "entitled lib hmac ge fmt rq s tn res" "within_limits lo ge s tn n"
      and b: "balances (gledger s) (tenantID tn) = Some b" "n \<le> b"
        "balances (gledger s') = (balances (gledger s))(tenantID tn \<mapsto> b - charge n (caConsumed c'))"
      and c1: "admitted_carrier lib rq fmt tn res n c1" and e: "inference_endpoint lib rl ex brk tc iv ie rq c1 s1 = (c', s2, a)"
      using g unfolding Answered reply.case by (elim conjE exE) (rule that, assumption+)
    have n: "1 \<le> n" using admitted_estimate_pos [OF c1 assms(4)] by (simp add: en(1))
    show ?thesis
    proof (cases a)
      case (InferenceRefused r)
      then have "caConsumed c' = 0"
        using e ServeHTTP_refused c1
        by (fastforce simp: inference_endpoint_def admitted_carrier_def authorized_def split: prod.splits)
      then have "charge n (caConsumed c') = 0" using n by (simp add: charge_def)
      then show ?thesis using frame b Answered InferenceRefused by (auto simp: fun_upd_idem)
    next
      case (Relayed r result)
      have "charge n (caConsumed c') \<le> n" by (simp add: charge_def)
      moreover note relayed_charge [OF e [unfolded Relayed] c1 n assms(4)] 
      moreover have "0 \<le> resStreamBytes result" "resStreamBytes result \<le> 2 ^ 62"
        using assms(7) Answered Relayed by blast+
      ultimately show ?thesis
        unfolding Answered Relayed reply.case inference_answer.case
        by (intro conjI exI [of _ tn] exI [of _ res] exI [of _ n] exI [of _ b] exI [of _ "charge n (caConsumed c')"])
          (use frame en b in \<open>auto split: if_splits\<close>)
    qed
  qed
qed

text \<open>
  A tenant's request for a model whose only upstream fails and whose fallback serves.
\<close>

definition demo_wire :: wire_libs where
  "demo_wire = \<lparr>wlIter = id,
     wlDec = (\<lambda>s. if s = ''request'' then Some (JObj [(''model'', JStr ''m''),
        (''messages'', JArr [JObj [(''role'', JStr ''user''), (''content'', JStr ''hi'')]])]) else None),
     wlEnc = (\<lambda>_. ''{}''), wlErr = id\<rparr>"

definition demo_usage_libs :: "(unit, usage) libs" where
  "demo_usage_libs = \<lparr>jdec = (\<lambda>_. Some Map.empty), jenc = (\<lambda>_. ''{}''), jname = (\<lambda>_. ()),
     decodeError = (\<lambda>_. \<lparr>envCode = CodeAbsent, envType = ''''\<rparr>),
     parseUsage = (\<lambda>_. Some \<lparr>uPrompt = 1, uCompletion = 2, uTotal = 3\<rparr>),
     parseFloat = (\<lambda>_. None), parseTime = (\<lambda>_. None), encodeError = (\<lambda>_. '''')\<rparr>"

definition demo_inference :: "unit inference" where
  "demo_inference = \<lparr>ifEntries = [\<lparr>emodels = {''m''}, eup = ''a''\<rparr>, \<lparr>emodels = {''n''}, eup = ''b''\<rparr>],
     ifStateOf = None, ifStrategy = StrategyStatic, ifFallbacks = [''m'' \<mapsto> [''m'', ''n'']], ifContextLimits = Map.empty\<rparr>"

definition demo_iworld :: "unit iworld" where
  "demo_iworld = \<lparr>iwRelay = demo_world, iwTracker = Map.empty, iwIndex = None, iwBudget = None\<rparr>"

definition demo_route :: route_env where
  "demo_route = \<lparr>reClk = (\<lambda>_. \<lparr>born = 0, now = 0, stamp = 0, draw = 0\<rparr>), reRnd = 0, reAt = 0\<rparr>"

definition demo_inference_env :: "unit inference_env" where
  "demo_inference_env = \<lparr>iePrimary = demo_route, ieThen = (\<lambda>_. (demo_iworld, demo_route)), ieAttempt = demo_attempt,
     ieLoop = demo_loop, ieGone = False\<rparr>"

definition demo_client :: tenant where
  "demo_client = \<lparr>tenantID = ''t'', tenantName = '''', tenantRole = '''', tenantKeyID = '''',
     tenantTier = \<lparr>tierID = '''', tierRPM = 0, tierTPM = 0, tierMaxTokens = 10, tierMonthlyQuota = 0,
       AllowedModels = [''*''], DeniedModels = [], ModelQuotas = Map.empty, tierConcurrency = 1\<rparr>\<rparr>"

definition demo_gov :: "(mem_limiter, mem_ledger, unit iworld) gov" where
  "demo_gov = \<lparr>ggate = Map.empty, glimiter = NewMemLimiter, gledger = demo_ledger,
     gids = NewCachedStore (Some 2) 60 5 ''s'', grest = demo_iworld\<rparr>"

definition demo_gov_env :: gov_env where
  "demo_gov_env = \<lparr>geLookupAt = 0, geInner = Inr demo_client, geBackfillAt = 0, geAllowAt = 0, geRefundAt = 0,
     geLease = ''l1'', geReserveAt = 1, geSettleAt = 2, geEntropy = None\<rparr>"

definition demo_http :: Pipeline.request where
  "demo_http = \<lparr>rqHeader = [(''Authorization'', ''Bearer k'')], rqBody = ''request'', rqUnreadable = False\<rparr>"

definition demo_run where
  "demo_run = inferenceChain demo_wire (\<lambda>_ k. k) mem_limiter_ops
     \<lparr>qoReserve = mem_Reserve, qoSettle = mem_Settle, qoCancel = mem_Cancel\<rparr> demo_gov_env FormatOpenAIChat
     (answering (inference_endpoint demo_wire demo_usage_libs demo_executor (Some (nop_Allow, nop_Report))
        (None :: (unit, usage) transcoder option) demo_inference demo_inference_env))
     demo_http new_carrier demo_gov"

definition demo_outcome :: "(int \<times> int option \<times> int \<times> int \<times> string list) option" where
  "demo_outcome = (case demo_run of
      (c, s, Answered (Relayed r result)) \<Rightarrow>
        Some (caConsumed c, balances (gledger s) ''t'', resStatus result, resStreamBytes result, map atUpstream (resTrail result))
    | _ \<Rightarrow> None)"

lemma demo_outcome_value: "demo_outcome = Some (3, Some 97, 200, 0, [''a'', ''b''])"
  by code_simp

lemma Ingest_undecodable:
  "dec body = None \<Longrightarrow> \<exists>e. Ingest iter dec enc fmt body = Inl e"
  by (cases fmt) (simp_all add: Ingest_def ingestAnthropic_def ingestResponses_def ParseChatRequest_def Unmarshal_def)

definition small_ingest :: "ingest_error + ingest_result \<Rightarrow> bool" where
  "small_ingest x = (case x of Inl _ \<Rightarrow> True
     | Inr res \<Rightarrow> content_bytes (inChat res) \<le> 4611686018427387904 \<and> int_ptr_ok (chMaxTokens (inChat res)))"

lemma demo_wire_small:
  "list_all (\<lambda>fmt. small_ingest (Ingest (wlIter demo_wire) (wlDec demo_wire) (wlEnc demo_wire) fmt ''request''))
     [FormatOpenAIChat, FormatOpenAIResponses, FormatAnthropicMessages]"
  by code_simp

lemma demo_wire_bounded: "decoded_bounded demo_wire"
proof -
  have "small_ingest (Ingest (wlIter demo_wire) (wlDec demo_wire) (wlEnc demo_wire) fmt body)" for fmt body
  proof (cases "body = ''request''")
    case True
    then show ?thesis using demo_wire_small by (cases fmt) simp_all
  next
    case False
    then have "wlDec demo_wire body = None" by (simp add: demo_wire_def)
    then obtain e where "Ingest (wlIter demo_wire) (wlDec demo_wire) (wlEnc demo_wire) fmt body = Inl e"
      using Ingest_undecodable by blast
    then show ?thesis by (simp only: small_ingest_def sum.case)
  qed
  note small = this
  show ?thesis
    unfolding decoded_bounded_def
  proof (intro allI impI)
    fix fmt body res
    assume "int (length body) \<le> MaxBodyBytes \<and> Ingest (wlIter demo_wire) (wlDec demo_wire) (wlEnc demo_wire) fmt body = Inr res"
    then have "small_ingest (Inr res)" using small [of fmt body] by simp
    then show "content_bytes (inChat res) \<le> 2 ^ 62 \<and> int_ptr_ok (chMaxTokens (inChat res))"
      by (simp add: small_ingest_def)
  qed
qed

lemma demo_run_relayed:
  obtains c s r result where "demo_run = (c, s, Answered (Relayed r result))" "caConsumed c = 3"
    "balances (gledger s) ''t'' = Some 97" "resStatus result = 200" "resStreamBytes result = 0"
    "map atUpstream (resTrail result) = [''a'', ''b'']"
proof -
  obtain c s rep where d: "demo_run = (c, s, rep)" by (metis prod_cases3)
  note v = demo_outcome_value [unfolded demo_outcome_def d prod.case]
  obtain r result where r: "rep = Answered (Relayed r result)"
  proof (cases rep)
    case (Answered a)
    then show ?thesis using v that by (cases a) simp_all
  qed (use v in simp)
  show thesis by (rule that [OF d [unfolded r]]) (use v r in simp_all)
qed

theorem bill_follows_delivery_witness:
  "\<exists>c s r result. demo_run = (c, s, Answered (Relayed r result)) \<and> resStatus result = 200 \<and>
     balances (gledger s) ''t'' = Some 97 \<and> mem_live (gledger s) = mem_live demo_ledger \<and> inflight (ggate s) ''t'' = 0 \<and>
     (\<exists>tn res. entitled demo_wire (\<lambda>_ k. k) demo_gov_env FormatOpenAIChat demo_http demo_gov tn res)"
proof -
  obtain c s r result where d: "demo_run = (c, s, Answered (Relayed r result))" and o: "caConsumed c = 3"
    "balances (gledger s) ''t'' = Some 97" "resStatus result = 200" "resStreamBytes result = 0" by (rule demo_run_relayed)
  have "mem_ok (gledger demo_gov)" "mem_fresh (gledger demo_gov) (geLease demo_gov_env)"
    "\<forall>u. 0 \<le> inflight (ggate demo_gov) u" "in64 (caConsumed c)"
    using demo_ledger_ok o(1)
    by (simp_all add: demo_gov_def demo_gov_env_def mem_fresh_def demo_ledger_def mem_SetBalance_def NewMemory_def
        inflight_def in64_def MinInt64_def MaxInt64_def)
  then have "inflight (ggate s) = inflight (ggate demo_gov) \<and> mem_live (gledger s) = mem_live (gledger demo_gov) \<and>
     (\<exists>tn res. entitled demo_wire (\<lambda>_ k. k) demo_gov_env FormatOpenAIChat demo_http demo_gov tn res)"
    using bill_follows_delivery [OF d [unfolded demo_run_def] _ _ demo_wire_bounded] o(4) by auto
  moreover have "inflight (ggate demo_gov) ''t'' = 0" "gledger demo_gov = demo_ledger"
    by (simp_all add: demo_gov_def inflight_def)
  ultimately show ?thesis using d o by (intro exI [of _ c] exI [of _ s] exI [of _ r] exI [of _ result]) simp
qed

definition demo_carrier :: "usage relay_result carrier" where
  "demo_carrier = new_carrier\<lparr>caChatSet := True, caTenant := demo_client, caChat := zero_chat\<lparr>chModel := ''m''\<rparr>\<rparr>"

definition demo_serve where
  "demo_serve = ServeHTTP demo_wire demo_usage_libs demo_executor (Some (nop_Allow, nop_Report))
     (None :: (unit, usage) transcoder option) demo_inference demo_inference_env demo_http demo_carrier demo_iworld"

lemma demo_serve_value:
  "(case demo_serve of (c, iw, Relayed r result) \<Rightarrow> map atUpstream (resTrail result) | _ \<Rightarrow> []) = [''a'', ''b'']"
  by code_simp

theorem attempts_permitted_witness:
  "\<exists>c iw r result. demo_serve = (c, iw, Relayed r result) \<and> map atUpstream (resTrail result) = [''a'', ''b''] \<and>
     (\<exists>m. permitted demo_inference demo_client (snd (carrier_PromptTokens demo_carrier)) m \<and>
        (\<exists>e \<in> set (ifEntries demo_inference). eup e = ''b'' \<and> serves m e))"
proof -
  obtain c iw r result where d: "demo_serve = (c, iw, Relayed r result)" "map atUpstream (resTrail result) = [''a'', ''b'']"
    using demo_serve_value by (auto split: prod.splits inference_answer.splits)
  then have "''b'' \<in> atUpstream ` set (resTrail result)" by (metis list.set_intros list.set_map)
  then obtain t where t: "t \<in> set (resTrail result)" "atUpstream t = ''b''" by auto
  have "caChatSet demo_carrier" "caChatErr demo_carrier = None" "caTenant demo_carrier = demo_client"
    by (simp_all add: demo_carrier_def new_carrier_def)
  then have "\<exists>m. permitted demo_inference demo_client (snd (carrier_PromptTokens demo_carrier)) m \<and>
      (\<exists>e \<in> set (ifEntries demo_inference). eup e = ''b'' \<and> serves m e)"
    using attempts_permitted [OF d(1) [unfolded demo_serve_def] _ _ t(1)] t(2) by (auto simp: offered_def)
  then show ?thesis using d by (intro exI [of _ c] exI [of _ iw] exI [of _ r] exI [of _ result]) simp
qed

end
