(* ===== verification/Rejection.thy ===== *)
theory Rejection
  imports Inference
begin

text \<open>
  The failure taxonomy: the code a refusing stage stamps on the carrier, which the access log
  and the stability report read, against the code it renders to the client.
  \<^verbatim>\<open>internal/pipeline/carrier.go\<close> promises that the two cannot drift; this is proved here of
  the whole chain and of the endpoint.
\<close>

subsection \<open>The code a refusal leaves\<close>

text \<open>
  A refusal that stamps the carrier renders the stamped code, in the client's format.  A stage
  keeps this of the stage behind it, for a carrier no stage has stamped yet.
\<close>

definition explains :: "wire_libs \<Rightarrow> 'r carrier \<Rightarrow> http_reply \<Rightarrow> bool" where
  "explains lib c r \<longleftrightarrow> caRejectCode c = '''' \<or>
     (\<exists>message. hrBody r = hrBody (refuse lib c (hrStatus r) (caRejectCode c) message))"

text \<open>The same of a handler's outcome; \<open>rej\<close> reads the refusal out of an endpoint's answer.\<close>

definition told :: "wire_libs \<Rightarrow> ('a \<Rightarrow> http_reply option) \<Rightarrow> 'r carrier \<Rightarrow> 'a reply \<Rightarrow> bool" where
  "told lib rej c rep \<longleftrightarrow>
     (case (case rep of Refused r \<Rightarrow> Some r | Answered a \<Rightarrow> rej a) of None \<Rightarrow> True | Some r \<Rightarrow> explains lib c r)"

definition explaining :: "wire_libs \<Rightarrow> ('a \<Rightarrow> http_reply option) \<Rightarrow> ('s, 'r, 'a) handler \<Rightarrow> bool" where
  "explaining lib rej h \<longleftrightarrow>
     (\<forall>rq c s c' s' rep. caRejectCode c = '''' \<longrightarrow> h rq c s = (c', s', rep) \<longrightarrow> told lib rej c' rep)"

lemma told_refused [simp]: "told lib rej c (Refused r) \<longleftrightarrow> explains lib c r"
  by (simp add: told_def)

lemma explains_stamp [simp]:
  "caFormat c1 = caFormat c \<Longrightarrow> explains lib (c1\<lparr>caRejectCode := ecode\<rparr>) (refuse lib c code ecode message)"
  by (auto simp: explains_def refuse_def RenderError_def WriteError_def writeJSONResponse_def)

lemma explains_retry [simp]: "explains lib c (with_retry_after n r) \<longleftrightarrow> explains lib c r"
  by (simp add: explains_def with_retry_after_def)

lemma explains_unstamped [simp]: "caRejectCode c = '''' \<Longrightarrow> explains lib c r"
  by (simp add: explains_def)

lemma EnsureBody_keeps [simp]:
  "EnsureBody lib rq c = (c1, e) \<Longrightarrow> caRejectCode c1 = caRejectCode c \<and> caFormat c1 = caFormat c \<and> caTenant c1 = caTenant c"
  by (auto simp: EnsureBody_def SetBody_def split: if_splits option.splits sum.splits)

lemma AuthorizeModel_explains:
  assumes "AuthorizeModel lib rq c = (c1, e)" and "caRejectCode c = ''''"
  shows "case e of None \<Rightarrow> caRejectCode c1 = '''' | Some r \<Rightarrow> explains lib c1 r"
proof -
  obtain c2 e2 where b: "EnsureBody lib rq c = (c2, e2)" by fastforce
  show ?thesis
    using assms b EnsureBody_keeps [OF b] by (cases e2) (auto simp: AuthorizeModel_def split: if_splits)
qed

lemma explainingI:
  "(\<And>rq c s c' s' rep. caRejectCode c = '''' \<Longrightarrow> h rq c s = (c', s', rep) \<Longrightarrow> told lib rej c' rep) \<Longrightarrow> explaining lib rej h"
  by (simp add: explaining_def)

lemma explainingD:
  "explaining lib rej h \<Longrightarrow> h rq c s = (c', s', rep) \<Longrightarrow> caRejectCode c = '''' \<Longrightarrow> told lib rej c' rep"
  unfolding explaining_def by blast

text \<open>Each stage keeps it.\<close>

named_theorems explaining_intros

lemma AuthStage_explaining [explaining_intros]:
  assumes "explaining lib rej h"
  shows "explaining lib rej (AuthStage lib resolve h)"
proof (rule explainingI)
  fix rq c s c' s' rep
  assume c: "caRejectCode c = ''''" and run: "AuthStage lib resolve h rq c s = (c', s', rep)"
  show "told lib rej c' rep"
  proof (cases "apiKeyOf rq")
    case None
    then show ?thesis using run by (auto simp: AuthStage_def)
  next
    case (Some key)
    obtain s1 ans where a: "resolve key s = (s1, ans)" by fastforce
    show ?thesis
    proof (cases ans)
      case (Inl e)
      then show ?thesis using run Some a by (cases e) (auto simp: AuthStage_def)
    next
      case (Inr tn)
      then have "h rq (c\<lparr>caTenant := tn\<rparr>) s1 = (c', s', rep)" using run Some a by (simp add: AuthStage_def)
      then show ?thesis by (rule explainingD [OF assms]) (simp add: c)
    qed
  qed
qed

lemma ModelAuthzStage_explaining [explaining_intros]:
  assumes "explaining lib rej h"
  shows "explaining lib rej (ModelAuthzStage lib h)"
proof (rule explainingI)
  fix rq c s c' s' rep
  assume c: "caRejectCode c = ''''" and run: "ModelAuthzStage lib h rq c s = (c', s', rep)"
  obtain c1 e where a: "AuthorizeModel lib rq c = (c1, e)" by fastforce
  note x = AuthorizeModel_explains [OF a c]
  show "told lib rej c' rep"
  proof (cases e)
    case None
    then have "h rq c1 s = (c', s', rep)" using run a by (simp add: ModelAuthzStage_def)
    then show ?thesis by (rule explainingD [OF assms]) (use x None in simp)
  next
    case (Some r1)
    then show ?thesis using run a x by (auto simp: ModelAuthzStage_def)
  qed
qed

lemma ConcurrencyMiddleware_explaining [explaining_intros]:
  assumes "explaining lib rej h"
  shows "explaining lib rej (ConcurrencyMiddleware lib h)"
proof (rule explainingI)
  fix rq c s c' s' rep
  assume c: "caRejectCode c = ''''" and run: "ConcurrencyMiddleware lib h rq c s = (c', s', rep)"
  obtain g sl where a: "Acquire (ggate s) (tenantID (caTenant c)) (tierConcurrency (tenantTier (caTenant c))) = (g, sl)"
    by fastforce
  show "told lib rej c' rep"
  proof (cases sl)
    case None
    then show ?thesis using run a by (auto simp: ConcurrencyMiddleware_def)
  next
    case (Some slot)
    obtain c1 s1 rep1 where n: "h rq c (s\<lparr>ggate := g\<rparr>) = (c1, s1, rep1)" by (metis prod_cases3)
    then have "h rq c (s\<lparr>ggate := g\<rparr>) = (c', s1, rep)" using run a Some by (simp add: ConcurrencyMiddleware_def)
    then show ?thesis by (rule explainingD [OF assms]) (rule c)
  qed
qed

lemma ReserveTokens_keeps:
  "ReserveTokens cap c = (c1, n) \<Longrightarrow> caRejectCode c1 = caRejectCode c \<and> caFormat c1 = caFormat c"
  by (auto simp: ReserveTokens_def carrier_PromptTokens_def Let_def split: if_splits)

lemma LimiterMiddleware_explaining [explaining_intros]:
  assumes "explaining lib rej h"
  shows "explaining lib rej (LimiterMiddleware lib lo ge h)"
proof (rule explainingI)
  fix rq c s c' s' rep
  assume c: "caRejectCode c = ''''" and run: "LimiterMiddleware lib lo ge h rq c s = (c', s', rep)"
  obtain c1 e where b: "EnsureBody lib rq c = (c1, e)" by fastforce
  have c1: "caRejectCode c1 = ''''" using EnsureBody_keeps [OF b] c by simp
  show "told lib rej c' rep"
  proof (cases e)
    case (Some r1)
    then show ?thesis using run b c1 by (auto simp: LimiterMiddleware_def)
  next
    case None
    obtain c2 n where t: "ReserveTokens (tierMaxTokens (tenantTier (caTenant c1))) c1 = (c2, n)" by fastforce
    note c2 = ReserveTokens_keeps [OF t]
    obtain m od where al: "loAllow lo (glimiter s) (tenantID (caTenant c1)) \<lparr>RPM = tierRPM (tenantTier (caTenant c1)),
        TPM = tierTPM (tenantTier (caTenant c1))\<rparr> n (geAllowAt ge) = (m, od)" by fastforce
    note eq = run [unfolded LimiterMiddleware_def b prod.case None option.case Let_def t al]
    show ?thesis
    proof (cases "\<exists>d. od = Some d \<and> Allowed d")
      case False
      then show ?thesis using eq by (cases od) auto
    next
      case True
      obtain c3 s1 rep1 where n: "h rq (c2\<lparr>caTokens := n\<rparr>) (s\<lparr>glimiter := m\<rparr>) = (c3, s1, rep1)" by (metis prod_cases3)
      then have "h rq (c2\<lparr>caTokens := n\<rparr>) (s\<lparr>glimiter := m\<rparr>) = (c', s1, rep)" using eq True by auto
      then show ?thesis by (rule explainingD [OF assms]) (simp add: c1 c2)
    qed
  qed
qed

lemma QuotaMiddleware_explaining [explaining_intros]:
  assumes "explaining lib rej h"
  shows "explaining lib rej (QuotaMiddleware lib qo ge h)"
proof (rule explainingI)
  fix rq c s c' s' rep
  assume c: "caRejectCode c = ''''" and run: "QuotaMiddleware lib qo ge h rq c s = (c', s', rep)"
  obtain c1 n where am: "(if caTokens c \<le> 0
      then (case ReserveTokens (tierMaxTokens (tenantTier (caTenant c))) c of (c1, n) \<Rightarrow> (c1\<lparr>caTokens := n\<rparr>, n))
      else (c, caTokens c)) = (c1, n)" by fastforce
  have c1: "caRejectCode c1 = ''''"
    using am c by (auto dest: ReserveTokens_keeps split: if_splits prod.splits)
  obtain l x where rs: "qoReserve qo (gledger s) (geLease ge) (tenantID (caTenant c1)) n (geReserveAt ge) = (l, x)" by fastforce
  note eq = run [unfolded QuotaMiddleware_def am Let_def prod.case rs]
  show "told lib rej c' rep"
  proof (cases x)
    case (Inl e)
    then show ?thesis using eq by (cases e) auto
  next
    case (Inr ls)
    obtain c2 s1 rep1 where nx: "h rq c1 (s\<lparr>gledger := l\<rparr>) = (c2, s1, rep1)" by (metis prod_cases3)
    then have "h rq c1 (s\<lparr>gledger := l\<rparr>) = (c', s1, rep)" using eq Inr by auto
    then show ?thesis by (rule explainingD [OF assms]) (rule c1)
  qed
qed

lemma inferenceChain_explaining:
  assumes "explaining lib rej (answering ep)" and "inferenceChain lib hmac lo qo ge fmt (answering ep) rq c0 s = (c', s', rep)"
  shows "told lib rej c' rep"
proof -
  let ?h = "AuthStage lib (resolve_identity hmac ge) (ModelAuthzStage lib (ConcurrencyMiddleware lib
      (LimiterMiddleware lib lo ge (QuotaMiddleware lib qo ge (answering ep)))))"
  let ?c = "new_carrier\<lparr>caRequestID := adoptRequestID (geEntropy ge) (header_get (rqHeader rq) ''X-Request-Id''), caFormat := fmt\<rparr>"
  have "explaining lib rej ?h" by (intro explaining_intros assms(1))
  moreover have "?h rq ?c s = (c', s', rep)"
    using assms(2) by (simp add: inferenceChain_def Chain_def governance_stages_def CarrierStage_def RequestIDStage_def FormatStage_def)
  ultimately show ?thesis by (rule explainingD) (simp add: new_carrier_def)
qed

text \<open>The endpoint's own refusals.\<close>

definition endpoint_refusal :: "'u inference_answer \<Rightarrow> http_reply option" where
  "endpoint_refusal a = (case a of InferenceRefused r \<Rightarrow> Some r | Relayed r result \<Rightarrow> None)"

lemma ServeHTTP_explains:
  assumes "ServeHTTP lib rl ex brk tc iv ie rq c iw = (c', iw', InferenceRefused r)" and "caRejectCode c = ''''"
  shows "explains lib c' r"
proof -
  obtain c1 e where a: "AuthorizeModel lib rq c = (c1, e)" by fastforce
  note x = AuthorizeModel_explains [OF a assms(2)]
  show ?thesis
  proof (cases e)
    case (Some r1)
    then show ?thesis using assms(1) a x by (auto simp: ServeHTTP_def)
  next
    case None
    obtain b found where rc: "route_candidates iv iw (iePrimary ie) (chModel (caChat c1)) = (b, found)" by fastforce
    obtain c2 k where pt: "carrier_PromptTokens c1 = (c2, k)" by fastforce
    note run = assms(1) [unfolded ServeHTTP_def a None prod.case option.case Let_def rc pt]
    show ?thesis
    proof (cases found)
      case (Inl err)
      then show ?thesis using run by (auto split: prod.splits)
    next
      case (Inr cands)
      then have "overContext (ifContextLimits iv) (chModel (caChat c1)) k"
        using run by (auto split: if_splits prod.splits)
      then show ?thesis using run Inr by auto
    qed
  qed
qed

lemma endpoint_explaining:
  "explaining lib endpoint_refusal (answering (inference_endpoint lib rl ex brk tc iv ie))"
proof (rule explainingI)
  fix rq c s c' s' rep
  assume c: "caRejectCode c = ''''" and run: "answering (inference_endpoint lib rl ex brk tc iv ie) rq c s = (c', s', rep)"
  obtain c1 iw a where sv: "ServeHTTP lib rl ex brk tc iv ie rq c (grest s) = (c1, iw, a)" by (metis prod_cases3)
  then have "c' = c1" "rep = Answered a" using run by (auto simp: answering_def inference_endpoint_def)
  then show "told lib endpoint_refusal c' rep"
    using ServeHTTP_explains [of lib rl ex brk tc iv ie rq c "grest s"] sv c
    by (cases a) (auto simp: told_def endpoint_refusal_def)
qed

subsection \<open>Properties\<close>

text \<open>
  C14: The failure taxonomy cannot drift from what the client was told.  Whatever a request
  runs into, on any ledger and limiter: when it is refused, by a stage or by the endpoint, and
  the refusal left a code on the carrier, the body the client got is the error envelope of
  the request's format with that code and with the reply's own status.
\<close>

theorem refusal_names_its_code:
  assumes "inferenceChain lib hmac lo qo ge fmt (answering (inference_endpoint lib rl ex brk tc iv ie)) rq c0 s = (c', s', rep)"
    and "rep = Refused r \<or> rep = Answered (InferenceRefused r)" and "caRejectCode c' \<noteq> ''''"
  shows "\<exists>message. hrBody r = hrBody (refuse lib c' (hrStatus r) (caRejectCode c') message)"
  using inferenceChain_explaining [OF endpoint_explaining assms(1)] assms(2,3)
  by (auto simp: told_def explains_def endpoint_refusal_def)

text \<open>A request without a key: the first stage refuses, and the code is in the envelope.\<close>

definition demo_anonymous where
  "demo_anonymous = inferenceChain demo_wire (\<lambda>_ k. k) mem_limiter_ops
     \<lparr>qoReserve = mem_Reserve, qoSettle = mem_Settle, qoCancel = mem_Cancel\<rparr> demo_gov_env FormatOpenAIChat
     (answering (inference_endpoint demo_wire demo_usage_libs demo_executor (Some (nop_Allow, nop_Report))
        (None :: (unit, usage) transcoder option) demo_inference demo_inference_env))
     (demo_http\<lparr>rqHeader := []\<rparr>) new_carrier demo_gov"

lemma demo_anonymous_refused:
  obtains c s r where "demo_anonymous = (c, s, Refused r)" "caRejectCode c = ''missing_api_key''" "hrStatus r = 401"
  by (simp add: demo_anonymous_def inferenceChain_def Chain_def governance_stages_def CarrierStage_def RequestIDStage_def
      FormatStage_def AuthStage_def apiKeyOf_def demo_http_def header_get_def bearerPrefix_def has_prefix_def)

theorem refusal_names_its_code_witness:
  "\<exists>c s r message. demo_anonymous = (c, s, Refused r) \<and> caRejectCode c = ''missing_api_key'' \<and>
     hrBody r = hrBody (refuse demo_wire c 401 ''missing_api_key'' message)"
proof -
  obtain c s r where d: "demo_anonymous = (c, s, Refused r)" "caRejectCode c = ''missing_api_key''" "hrStatus r = 401"
    by (rule demo_anonymous_refused)
  then have "\<exists>message. hrBody r = hrBody (refuse demo_wire c 401 ''missing_api_key'' message)"
    using refusal_names_its_code [OF d(1) [unfolded demo_anonymous_def], of r] by simp
  then show ?thesis using d by blast
qed

end
