(* ===== verification/Protocol_Stream.thy ===== *)
theory Protocol_Stream
  imports Protocol "HOL-Library.Sublist"
begin

text \<open>
  The stream translators: \<open>anthropicStream\<close> (\<^verbatim>\<open>internal/protocol/anthropic.go\<close>) and
  \<open>responsesStream\<close> (\<^verbatim>\<open>responses.go\<close>), and what the transcoded pump of
  \<^verbatim>\<open>internal/relay/stream.go\<close> writes through them.

  The interface \<open>StreamTranscoder\<close> is the locale \<open>stream_wire\<close>: after the payloads of
  some data lines the translator is in a state and has written some bytes, which
  \<open>opened\<close> relates; a finish gives a stream that is \<open>closed\<close>.  The pump is proved once
  against it.  The client connection accepts \<open>room\<close> further writes (any number when
  \<open>None\<close>), then fails.
\<close>

subsection \<open>The pump over a translator\<close>

definition frame_payload :: "string \<Rightarrow> string option" where
  "frame_payload line =
     (case dataPayload (trimEOL line) of
        None \<Rightarrow> None
      | Some payload \<Rightarrow> if payload = donePayload then None else Some payload)"

definition payloads :: "string list \<Rightarrow> string list" where
  "payloads ls = List.map_filter frame_payload ls"

lemma payloads_simps [simp]:
  "payloads [] = []"
  "payloads (l # ls) = (case frame_payload l of None \<Rightarrow> payloads ls | Some q \<Rightarrow> q # payloads ls)"
  by (simp_all add: payloads_def map_filter_simps split: option.split)

fun last_usage :: "(string \<Rightarrow> 'u option) \<Rightarrow> string list \<Rightarrow> 'u option \<Rightarrow> 'u option" where
  "last_usage pu [] u = u"
| "last_usage pu (q # qs) u = last_usage pu qs (case pu q of Some v \<Rightarrow> Some v | None \<Rightarrow> u)"

lemma last_usage_append: "last_usage pu (xs @ ys) u = last_usage pu ys (last_usage pu xs u)"
  by (induction xs arbitrary: u) auto

locale stream_wire =
  fixes tc :: "('t, 'u) transcoder"
    and opened :: "string \<Rightarrow> 't \<Rightarrow> string list \<Rightarrow> string \<Rightarrow> bool"
    and closed :: "string \<Rightarrow> string list \<Rightarrow> 'u option \<Rightarrow> string \<Rightarrow> bool"
    and aborted :: "string \<Rightarrow> string list \<Rightarrow> string \<Rightarrow> string \<Rightarrow> string \<Rightarrow> bool"
  assumes start_opens: "trStart tc model = (t, out, False) \<Longrightarrow> opened model t [] out"
    and delta_extends: "opened model t ps w \<Longrightarrow> trDelta tc t q = (t', out, False) \<Longrightarrow>
        opened model t' (ps @ [q]) (w @ out)"
    and finish_closes: "opened model t ps w \<Longrightarrow> trFinish tc t u = (t', out, False) \<Longrightarrow> closed model ps u (w @ out)"
    and abort_aborts: "opened model t ps w \<Longrightarrow> trAbort tc t code msg = (t', out, False) \<Longrightarrow>
        aborted model ps code msg (w @ out)"
begin

text \<open>The pump stands after some payloads: what it wrote and the usage it scraped.\<close>

definition stands :: "(string \<Rightarrow> 'u option) \<Rightarrow> string \<Rightarrow> string list \<Rightarrow> ('t, 'u) tpump \<Rightarrow> bool" where
  "stands pu model ps p \<longleftrightarrow> opened model (trState p) ps (trWritten p) \<and> trUsage p = last_usage pu ps None"

lemma trans_line_stands:
  assumes "stands pu model ps p" and "trans_line tc pu line p = (p1, False)"
  shows "stands pu model (ps @ payloads [line]) p1"
proof (cases "frame_payload line")
  case None
  then have "trState p1 = trState p" "trWritten p1 = trWritten p" "trUsage p1 = trUsage p"
    using assms(2) by (auto simp: trans_line_def frame_payload_def split: option.splits if_splits prod.splits)
  then show ?thesis using assms(1) None by (simp add: stands_def)
next
  case (Some q)
  then obtain t' out where "trDelta tc (trState p) q = (t', out, False)" "trState p1 = t'"
    "trWritten p1 = trWritten p @ out" "trUsage p1 = (case pu q of Some u \<Rightarrow> Some u | None \<Rightarrow> trUsage p)"
    using assms(2) by (auto simp: trans_line_def frame_payload_def split: option.splits if_splits prod.splits)
  then show ?thesis using assms(1) Some delta_extends by (auto simp: stands_def last_usage_append split: option.split)
qed

definition pumped :: "(string \<Rightarrow> 'u option) \<Rightarrow> string \<Rightarrow> string list \<Rightarrow> ('t, 'u) tpump \<Rightarrow> pump_end \<Rightarrow> bool" where
  "pumped pu model ps p e \<longleftrightarrow>
     (e = PumpOK \<longrightarrow> closed model ps (last_usage pu ps None) (trWritten p) \<and> trUsage p = last_usage pu ps None) \<and>
     (e \<in> {PumpTruncated, PumpTooLong, PumpReadError} \<longrightarrow> (\<exists>qs. prefix qs ps \<and> stands pu model qs p))"

lemma trans_loop_pumped:
  "stands pu model ps p \<Longrightarrow> trans_loop tc pu eof body p = (p', e) \<Longrightarrow> pumped pu model (ps @ payloads (lines_of body)) p' e"
proof (induction "length body" arbitrary: body ps p rule: less_induct)
  case less
  note step = less.prems(2) [unfolded trans_loop.simps [of tc pu eof body p]]
  show ?case
  proof (cases "readLine body")
    case LineTooLong
    then show ?thesis using step less.prems(1) by (auto simp: pumped_def intro: exI [of _ ps])
  next
    case r: (Line s rest ended)
    obtain p1 failed where p1: "(if s \<noteq> [] then trans_line tc pu s p else (p, False)) = (p1, failed)" by fastforce
    note ls = lines_of_readLine [OF r]
    show ?thesis
    proof (cases failed)
      case True
      then show ?thesis using step r p1 by (auto simp: pumped_def)
    next
      case nf: False
      let ?qs = "ps @ (if s = [] then [] else payloads [s])"
      have s1: "stands pu model ?qs p1"
        using p1 nf less.prems(1) trans_line_stands [of pu model ps p s p1] by (auto split: if_splits)
      have all: "ps @ payloads (lines_of body) = ?qs @ (if s = [] then [] else payloads (lines_of rest))"
        by (simp add: ls split: option.split)
      show ?thesis
      proof (cases ended)
        case False
        then have "trans_loop tc pu eof rest p1 = (p', e)" using step r p1 nf by simp
        moreover have "length rest < length body" "s \<noteq> []" using readLine_parts [OF r] False by auto
        ultimately show ?thesis using less.hyps [OF _ s1] by (simp add: all)
      next
        case True
        then have rest: "rest = []" using readLine_parts [OF r] by simp
        consider "eof" "trDone p1" "trans_finish tc p1 = (p', e)" | "p' = p1" "e \<in> {PumpTruncated, PumpReadError}"
          using step r p1 nf True by (auto split: if_splits)
        then show ?thesis
        proof cases
          case 1
          obtain t' out f where fin: "trFinish tc (trState p1) (trUsage p1) = (t', out, f)" by (metis prod_cases3)
          then show ?thesis using 1 s1 finish_closes [of model "trState p1" ?qs "trWritten p1"]
            by (cases f) (auto simp: trans_finish_def pumped_def stands_def all rest)
        qed (use s1 in \<open>auto simp: pumped_def all rest\<close>)
      qed
    qed
  qed
qed

lemma pumpTranscoded_pumped:
  assumes "pumpTranscoded tc pu eof model body = (p, e)"
  shows "pumped pu model (payloads (lines_of body)) p e"
proof -
  obtain t out f where st: "trStart tc model = (t, out, f)" by (metis prod_cases3)
  show ?thesis
  proof (cases f)
    case True
    then show ?thesis using assms st by (auto simp: pumpTranscoded_def pumped_def)
  next
    case False
    let ?p = "\<lparr>trState = t, trUsage = None, trWritten = out, trDone = False\<rparr>"
    have "stands pu model [] ?p" using start_opens st False by (simp add: stands_def)
    moreover have "trans_loop tc pu eof body ?p = (p, e)"
      using assms st False by (simp add: pumpTranscoded_def)
    ultimately show ?thesis using trans_loop_pumped by fastforce
  qed
qed

text \<open>Completed, the stream is closed over all payloads; cut, an abort closes it over some of them.\<close>

lemma pump_honest:
  assumes "pumpTranscoded tc pu eof model body = (p, e)"
  shows "(e = PumpOK \<longrightarrow> closed model (payloads (lines_of body)) (last_usage pu (payloads (lines_of body)) None) (trWritten p)) \<and>
    (e \<in> {PumpTruncated, PumpTooLong, PumpReadError} \<longrightarrow> trAbort tc (trState p) code msg = (t', out, False) \<longrightarrow>
       (\<exists>qs. prefix qs (payloads (lines_of body)) \<and> aborted model qs code msg (trWritten p @ out)))"
  using pumpTranscoded_pumped [OF assms] abort_aborts unfolding pumped_def stands_def by blast

end

subsection \<open>Events\<close>

type_synonym event = "string \<times> json"

definition render :: "(json \<Rightarrow> string) \<Rightarrow> event list \<Rightarrow> string" where
  "render enc evs = concat (map (\<lambda>(name, j). writeEventData enc name j) evs)"

lemma render_simps [simp]:
  "render enc [] = []" "render enc (ev # evs) = writeEventData enc (fst ev) (snd ev) @ render enc evs"
  "render enc (xs @ ys) = render enc xs @ render enc ys"
  by (simp_all add: render_def split_beta)

definition WriteEvent :: "(json \<Rightarrow> string) \<Rightarrow> nat option \<Rightarrow> event \<Rightarrow> nat option \<times> string \<times> bool" where
  "WriteEvent enc room ev =
     (if room = Some 0 then (room, '''', True)
      else (take_room room, writeEventData enc (fst ev) (snd ev), False))"

subsection \<open>The Messages translator\<close>

record anthropic_stream =
  asID :: string
  asModel :: string
  asBlock :: bool
  asStop :: string
  asRoom :: "nat option"

definition message_start :: "string \<Rightarrow> string \<Rightarrow> event" where
  "message_start oid model = (''message_start'', go_map [(''type'', JStr ''message_start''),
     (''message'', go_map [(''id'', JStr oid), (''type'', JStr ''message''), (''role'', JStr ''assistant''),
        (''model'', JStr model), (''content'', JArr []),
        (''usage'', go_map [(''input_tokens'', JInt 0), (''output_tokens'', JInt 0)])])])"

definition content_block_start :: event where
  "content_block_start = (''content_block_start'', go_map [(''type'', JStr ''content_block_start''), (''index'', JInt 0),
     (''content_block'', go_map [(''type'', JStr ''text''), (''text'', JStr '''')])])"

definition content_block_delta :: "string \<Rightarrow> event" where
  "content_block_delta t = (''content_block_delta'', go_map [(''type'', JStr ''content_block_delta''), (''index'', JInt 0),
     (''delta'', go_map [(''type'', JStr ''text_delta''), (''text'', JStr t)])])"

definition content_block_stop :: event where
  "content_block_stop = (''content_block_stop'', go_map [(''type'', JStr ''content_block_stop''), (''index'', JInt 0)])"

definition message_delta :: "string \<Rightarrow> usage option \<Rightarrow> event" where
  "message_delta why us = (''message_delta'', go_map [(''type'', JStr ''message_delta''),
     (''delta'', go_map [(''stop_reason'', JStr why), (''stop_sequence'', JNull)]),
     (''usage'', go_map [(''input_tokens'', JInt (case us of Some u \<Rightarrow> uPrompt u | None \<Rightarrow> 0)),
        (''output_tokens'', JInt (case us of Some u \<Rightarrow> uCompletion u | None \<Rightarrow> 0))])])"

definition message_stop :: event where
  "message_stop = (''message_stop'', go_map [(''type'', JStr ''message_stop'')])"

definition dec_anthropic_choice :: "(string \<times> string option) decoder" where
  "dec_anthropic_choice = dec_struct
     [(''delta'', field fst apfst (dec_struct [(''content'', dec_string)])),
      (''finish_reason'', field snd apsnd (dec_pointer '''' dec_string))]"

definition anthropic_chunk :: "(string \<Rightarrow> json option) \<Rightarrow> string \<Rightarrow> (string \<times> string option) option" where
  "anthropic_chunk dec payload =
     (case Unmarshal dec (dec_struct [(''choices'', dec_slice ('''', None) dec_anthropic_choice)]) payload [] of
        (cs, ok) \<Rightarrow> if \<not> ok \<or> cs = [] then None else Some (hd cs))"

definition anthropic_Start ::
  "(json \<Rightarrow> string) \<Rightarrow> anthropic_stream \<Rightarrow> string \<Rightarrow> anthropic_stream \<times> string \<times> bool" where
  "anthropic_Start enc s model =
     (case WriteEvent enc (asRoom s) (message_start (asID s) model) of
        (room, out, failed) \<Rightarrow> (s\<lparr>asModel := model, asRoom := room\<rparr>, out, failed))"

definition anthropic_Delta ::
  "(string \<Rightarrow> json option) \<Rightarrow> (json \<Rightarrow> string) \<Rightarrow> anthropic_stream \<Rightarrow> string \<Rightarrow> anthropic_stream \<times> string \<times> bool" where
  "anthropic_Delta dec enc s payload =
     (case anthropic_chunk dec payload of
        None \<Rightarrow> (s, '''', False)
      | Some (t, finish) \<Rightarrow>
          let s1 = (case finish of Some f \<Rightarrow> s\<lparr>asStop := anthropicStopReason f\<rparr> | None \<Rightarrow> s)
          in if t = '''' then (s1, '''', False)
             else case (if asBlock s1 then (asRoom s1, '''', False)
                        else WriteEvent enc (asRoom s1) content_block_start) of
               (room, out, True) \<Rightarrow> (s1\<lparr>asBlock := True, asRoom := room\<rparr>, out, True)
             | (room, out, False) \<Rightarrow>
                 (case WriteEvent enc room (content_block_delta t) of
                    (room', out', failed) \<Rightarrow> (s1\<lparr>asBlock := True, asRoom := room'\<rparr>, out @ out', failed)))"

definition anthropic_Finish ::
  "(json \<Rightarrow> string) \<Rightarrow> anthropic_stream \<Rightarrow> usage option \<Rightarrow> anthropic_stream \<times> string \<times> bool" where
  "anthropic_Finish enc s us =
     (case (if asBlock s then WriteEvent enc (asRoom s) content_block_stop else (asRoom s, '''', False)) of
        (room, out, True) \<Rightarrow> (s\<lparr>asRoom := room\<rparr>, out, True)
      | (room, out, False) \<Rightarrow>
          let s1 = (if asStop s = '''' then s\<lparr>asStop := ''end_turn''\<rparr> else s)
          in case WriteEvent enc room (message_delta (asStop s1) us) of
               (room1, out1, True) \<Rightarrow> (s1\<lparr>asRoom := room1\<rparr>, out @ out1, True)
             | (room1, out1, False) \<Rightarrow>
                 (case WriteEvent enc room1 message_stop of
                    (room2, out2, failed) \<Rightarrow> (s1\<lparr>asRoom := room2\<rparr>, out @ out1 @ out2, failed)))"

definition error_event :: "string \<Rightarrow> string \<Rightarrow> event" where
  "error_event code msg = (''error'', anthropicErrorBody (anthropicErrorType code) msg)"

definition anthropic_Abort ::
  "(json \<Rightarrow> string) \<Rightarrow> anthropic_stream \<Rightarrow> string \<Rightarrow> string \<Rightarrow> anthropic_stream \<times> string \<times> bool" where
  "anthropic_Abort enc s code msg =
     (case WriteEvent enc (asRoom s) (error_event code msg) of
        (room, out, failed) \<Rightarrow> (s\<lparr>asRoom := room\<rparr>, out, failed))"

definition anthropicStream ::
  "(string \<Rightarrow> json option) \<Rightarrow> (json \<Rightarrow> string) \<Rightarrow> string \<Rightarrow> nat option \<Rightarrow> (anthropic_stream, usage) transcoder" where
  "anthropicStream dec enc oid room =
     \<lparr>trStart = anthropic_Start enc \<lparr>asID = oid, asModel = '''', asBlock = False, asStop = '''', asRoom = room\<rparr>,
      trDelta = anthropic_Delta dec enc, trFinish = anthropic_Finish enc, trAbort = anthropic_Abort enc\<rparr>"

subsection \<open>The Responses translator\<close>

record responses_stream =
  rsID :: string
  rsModel :: string
  rsText :: string
  rsRoom :: "nat option"

definition maxStreamTextBytes :: int where "maxStreamTextBytes = 33554432"

definition response_created :: "string \<Rightarrow> string \<Rightarrow> event" where
  "response_created oid model = (''response.created'', go_map [(''response'', go_map [(''id'', JStr oid),
     (''object'', JStr ''response''), (''status'', JStr ''in_progress''), (''model'', JStr model), (''output'', JArr [])])])"

definition output_text_delta :: "string \<Rightarrow> event" where
  "output_text_delta t = (''response.output_text.delta'', go_map [(''type'', JStr ''response.output_text.delta''),
     (''delta'', JStr t)])"

definition response_completed :: "string \<Rightarrow> string \<Rightarrow> string \<Rightarrow> usage option \<Rightarrow> event" where
  "response_completed oid model t us = (''response.completed'', go_map [(''response'', responsesObject oid model t us)])"

definition response_failed :: "string \<Rightarrow> string \<Rightarrow> string \<Rightarrow> string \<Rightarrow> event" where
  "response_failed oid model code msg = (''response.failed'', go_map [(''response'', go_map [(''id'', JStr oid),
     (''object'', JStr ''response''), (''status'', JStr ''failed''), (''model'', JStr model),
     (''error'', go_map [(''code'', JStr code), (''message'', JStr msg)])])])"

definition responses_chunk :: "(string \<Rightarrow> json option) \<Rightarrow> string \<Rightarrow> string option" where
  "responses_chunk dec payload =
     (case Unmarshal dec (dec_struct [(''choices'', dec_slice '''' (dec_struct
              [(''delta'', dec_struct [(''content'', dec_string)])]))]) payload [] of
        (cs, ok) \<Rightarrow> if \<not> ok \<or> cs = [] then None else Some (hd cs))"

definition responses_Start ::
  "(json \<Rightarrow> string) \<Rightarrow> responses_stream \<Rightarrow> string \<Rightarrow> responses_stream \<times> string \<times> bool" where
  "responses_Start enc s model =
     (case WriteEvent enc (rsRoom s) (response_created (rsID s) model) of
        (room, out, failed) \<Rightarrow> (s\<lparr>rsModel := model, rsRoom := room\<rparr>, out, failed))"

definition responses_Delta ::
  "(string \<Rightarrow> json option) \<Rightarrow> (json \<Rightarrow> string) \<Rightarrow> responses_stream \<Rightarrow> string \<Rightarrow> responses_stream \<times> string \<times> bool" where
  "responses_Delta dec enc s payload =
     (case responses_chunk dec payload of
        None \<Rightarrow> (s, '''', False)
      | Some t \<Rightarrow>
          if t = '''' then (s, '''', False)
          else if int (length (rsText s)) + int (length t) > maxStreamTextBytes then (s, '''', True)
          else case WriteEvent enc (rsRoom s) (output_text_delta t) of
                 (room, out, failed) \<Rightarrow> (s\<lparr>rsText := rsText s @ t, rsRoom := room\<rparr>, out, failed))"

definition responses_Finish ::
  "(json \<Rightarrow> string) \<Rightarrow> responses_stream \<Rightarrow> usage option \<Rightarrow> responses_stream \<times> string \<times> bool" where
  "responses_Finish enc s us =
     (case WriteEvent enc (rsRoom s) (response_completed (rsID s) (rsModel s) (rsText s) us) of
        (room, out, failed) \<Rightarrow> (s\<lparr>rsRoom := room\<rparr>, out, failed))"

definition responses_Abort ::
  "(json \<Rightarrow> string) \<Rightarrow> responses_stream \<Rightarrow> string \<Rightarrow> string \<Rightarrow> responses_stream \<times> string \<times> bool" where
  "responses_Abort enc s code msg =
     (case WriteEvent enc (rsRoom s) (response_failed (rsID s) (rsModel s) code msg) of
        (room, out, failed) \<Rightarrow> (s\<lparr>rsRoom := room\<rparr>, out, failed))"

definition responsesStream ::
  "(string \<Rightarrow> json option) \<Rightarrow> (json \<Rightarrow> string) \<Rightarrow> string \<Rightarrow> nat option \<Rightarrow> (responses_stream, usage) transcoder" where
  "responsesStream dec enc oid room =
     \<lparr>trStart = responses_Start enc \<lparr>rsID = oid, rsModel = '''', rsText = '''', rsRoom = room\<rparr>,
      trDelta = responses_Delta dec enc, trFinish = responses_Finish enc, trAbort = responses_Abort enc\<rparr>"

subsection \<open>The event streams the translators promise\<close>

definition message_texts :: "(string \<Rightarrow> json option) \<Rightarrow> string list \<Rightarrow> string list" where
  "message_texts dec ps =
     filter (\<lambda>t. t \<noteq> '''') (map (\<lambda>p. case anthropic_chunk dec p of Some (t, _) \<Rightarrow> t | None \<Rightarrow> '''') ps)"

definition message_why :: "(string \<Rightarrow> json option) \<Rightarrow> string list \<Rightarrow> string" where
  "message_why dec ps =
     foldl (\<lambda>why p. case anthropic_chunk dec p of Some (_, Some f) \<Rightarrow> anthropicStopReason f | _ \<Rightarrow> why) '''' ps"

definition messages_so_far :: "(string \<Rightarrow> json option) \<Rightarrow> string \<Rightarrow> string \<Rightarrow> string list \<Rightarrow> event list" where
  "messages_so_far dec oid model ps =
     message_start oid model #
     (if message_texts dec ps = [] then []
      else content_block_start # map content_block_delta (message_texts dec ps))"

definition messages_complete ::
  "(string \<Rightarrow> json option) \<Rightarrow> string \<Rightarrow> string \<Rightarrow> string list \<Rightarrow> usage option \<Rightarrow> event list" where
  "messages_complete dec oid model ps us =
     messages_so_far dec oid model ps @
     (if message_texts dec ps = [] then [] else [content_block_stop]) @
     [message_delta (if message_why dec ps = '''' then ''end_turn'' else message_why dec ps) us, message_stop]"

definition response_texts :: "(string \<Rightarrow> json option) \<Rightarrow> string list \<Rightarrow> string list" where
  "response_texts dec ps =
     filter (\<lambda>t. t \<noteq> '''') (map (\<lambda>p. case responses_chunk dec p of Some t \<Rightarrow> t | None \<Rightarrow> '''') ps)"

definition responses_so_far :: "(string \<Rightarrow> json option) \<Rightarrow> string \<Rightarrow> string \<Rightarrow> string list \<Rightarrow> event list" where
  "responses_so_far dec oid model ps = response_created oid model # map output_text_delta (response_texts dec ps)"

definition responses_complete ::
  "(string \<Rightarrow> json option) \<Rightarrow> string \<Rightarrow> string \<Rightarrow> string list \<Rightarrow> usage option \<Rightarrow> event list" where
  "responses_complete dec oid model ps us =
     responses_so_far dec oid model ps @ [response_completed oid model (concat (response_texts dec ps)) us]"

lemma texts_snoc [simp]:
  "message_texts dec (ps @ [q]) = message_texts dec ps @
     (case anthropic_chunk dec q of Some (t, _) \<Rightarrow> if t = '''' then [] else [t] | None \<Rightarrow> [])"
  "message_why dec (ps @ [q]) =
     (case anthropic_chunk dec q of Some (_, Some f) \<Rightarrow> anthropicStopReason f | _ \<Rightarrow> message_why dec ps)"
  "response_texts dec (ps @ [q]) = response_texts dec ps @
     (case responses_chunk dec q of Some t \<Rightarrow> if t = '''' then [] else [t] | None \<Rightarrow> [])"
  by (simp_all add: message_texts_def message_why_def response_texts_def split: option.split)

lemma WriteEvent_ok: "WriteEvent enc room ev = (room', out, False) \<Longrightarrow> out = render enc [ev]"
  by (auto simp: WriteEvent_def split: if_splits)

lemma write_then:
  "(case WriteEvent enc room ev of (room', out', failed) \<Rightarrow> (f room', out', failed)) = (s', out, False) \<Longrightarrow>
     \<exists>room'. s' = f room' \<and> out = writeEventData enc (fst ev) (snd ev)"
  by (auto simp: WriteEvent_def split: if_splits)

definition message_opened ::
  "(string \<Rightarrow> json option) \<Rightarrow> (json \<Rightarrow> string) \<Rightarrow> string \<Rightarrow> string \<Rightarrow> anthropic_stream \<Rightarrow> string list \<Rightarrow> string \<Rightarrow> bool" where
  "message_opened dec enc oid model s ps w \<longleftrightarrow>
     asID s = oid \<and> asBlock s = (message_texts dec ps \<noteq> []) \<and> asStop s = message_why dec ps \<and>
     w = render enc (messages_so_far dec oid model ps)"

definition response_opened ::
  "(string \<Rightarrow> json option) \<Rightarrow> (json \<Rightarrow> string) \<Rightarrow> string \<Rightarrow> string \<Rightarrow> responses_stream \<Rightarrow> string list \<Rightarrow> string \<Rightarrow> bool" where
  "response_opened dec enc oid model s ps w \<longleftrightarrow>
     rsID s = oid \<and> rsModel s = model \<and> rsText s = concat (response_texts dec ps) \<and>
     int (length (rsText s)) \<le> maxStreamTextBytes \<and> w = render enc (responses_so_far dec oid model ps)"

lemma anthropic_Delta_opened:
  assumes "message_opened dec enc oid model s ps w" and "anthropic_Delta dec enc s q = (s', out, False)"
  shows "message_opened dec enc oid model s' (ps @ [q]) (w @ out)"
proof (cases "anthropic_chunk dec q")
  case None
  then show ?thesis using assms by (simp add: anthropic_Delta_def message_opened_def messages_so_far_def)
next
  case (Some tf)
  obtain t finish where tf: "tf = (t, finish)" by fastforce
  define s1 where "s1 = (case finish of Some f \<Rightarrow> s\<lparr>asStop := anthropicStopReason f\<rparr> | None \<Rightarrow> s)"
  have s1: "asID s1 = oid" "asBlock s1 = (message_texts dec ps \<noteq> [])" "asStop s1 = message_why dec (ps @ [q])"
    using assms(1) by (auto simp: s1_def message_opened_def Some tf split: option.split)
  show ?thesis
  proof (cases "t = ''''")
    case True
    then show ?thesis using assms s1 Some
      by (simp add: anthropic_Delta_def message_opened_def messages_so_far_def tf flip: s1_def)
  next
    case False
    obtain room1 o1 f1 where w1: "(if asBlock s1 then (asRoom s1, '''', False)
        else WriteEvent enc (asRoom s1) content_block_start) = (room1, o1, f1)" by (metis prod_cases3)
    obtain room2 o2 f2 where w2: "WriteEvent enc room1 (content_block_delta t) = (room2, o2, f2)" by (metis prod_cases3)
    note step = assms(2) [unfolded anthropic_Delta_def Some tf option.case prod.case, folded s1_def, unfolded Let_def]
    have nf: "\<not> f1" "\<not> f2" "s' = s1\<lparr>asBlock := True, asRoom := room2\<rparr>" "out = o1 @ o2"
      using step False w1 w2 by (auto split: bool.splits)
    have o2: "o2 = render enc [content_block_delta t]" using WriteEvent_ok w2 nf(2) by simp
    have o1: "o1 = render enc (if asBlock s1 then [] else [content_block_start])"
      using w1 nf(1) WriteEvent_ok [of enc "asRoom s1" content_block_start] by (auto split: if_splits)
    show ?thesis using assms(1) s1 False
      by (simp add: message_opened_def messages_so_far_def nf o1 o2 Some tf)
  qed
qed

lemma anthropic_Finish_closes:
  assumes "message_opened dec enc oid model s ps w" and "anthropic_Finish enc s us = (s', out, False)"
  shows "w @ out = render enc (messages_complete dec oid model ps us)"
proof -
  let ?why = "if asStop s = '''' then ''end_turn'' else asStop s"
  obtain room1 o1 f1 where w1: "(if asBlock s then WriteEvent enc (asRoom s) content_block_stop
      else (asRoom s, '''', False)) = (room1, o1, f1)" by (metis prod_cases3)
  obtain room2 o2 f2 where w2: "WriteEvent enc room1 (message_delta ?why us) = (room2, o2, f2)" by (metis prod_cases3)
  obtain room3 o3 f3 where w3: "WriteEvent enc room2 message_stop = (room3, o3, f3)" by (metis prod_cases3)
  have nf: "\<not> f1" "\<not> f2" "\<not> f3" "out = o1 @ o2 @ o3"
    using assms(2) w1 w2 w3 by (auto simp: anthropic_Finish_def Let_def split: bool.splits if_splits)
  have "o1 = render enc (if asBlock s then [content_block_stop] else [])"
    using w1 nf(1) WriteEvent_ok [of enc "asRoom s" content_block_stop] by (auto split: if_splits)
  moreover have "o2 = render enc [message_delta ?why us]" "o3 = render enc [message_stop]"
    using WriteEvent_ok w2 w3 nf by auto
  ultimately show ?thesis
    using assms(1) by (simp add: nf messages_complete_def message_opened_def)
qed

interpretation msg: stream_wire "anthropicStream dec enc oid room" "message_opened dec enc oid"
    "\<lambda>model ps us w. w = render enc (messages_complete dec oid model ps us)"
    "\<lambda>model ps code msg w. w = render enc (messages_so_far dec oid model ps @ [error_event code msg])"
  for dec enc oid room
proof
  fix model t out
  assume "trStart (anthropicStream dec enc oid room) model = (t, out, False)"
  from write_then [OF this [unfolded anthropicStream_def anthropic_Start_def transcoder.simps]]
  show "message_opened dec enc oid model t [] out"
    by (auto simp: message_opened_def messages_so_far_def message_texts_def message_why_def)
next
  fix model t ps w code msg t' out
  assume o: "message_opened dec enc oid model t ps w"
    and "trAbort (anthropicStream dec enc oid room) t code msg = (t', out, False)"
  from write_then [OF this(2) [unfolded anthropicStream_def anthropic_Abort_def transcoder.simps]] o
  show "w @ out = render enc (messages_so_far dec oid model ps @ [error_event code msg])"
    by (auto simp: message_opened_def)
qed (use anthropic_Delta_opened anthropic_Finish_closes in \<open>simp_all add: anthropicStream_def\<close>)

lemma responses_Delta_opened:
  assumes o: "response_opened dec enc oid model s ps w" and "responses_Delta dec enc s q = (s', out, False)"
  shows "response_opened dec enc oid model s' (ps @ [q]) (w @ out)"
proof (cases "responses_chunk dec q = None \<or> responses_chunk dec q = Some ''''")
  case True
  then show ?thesis using assms by (auto simp: responses_Delta_def response_opened_def responses_so_far_def)
next
  case False
  then obtain t where t: "responses_chunk dec q = Some t" "t \<noteq> ''''" by auto
  then have "int (length (rsText s)) + int (length t) \<le> maxStreamTextBytes" and
    "(case WriteEvent enc (rsRoom s) (output_text_delta t) of
        (room, out, failed) \<Rightarrow> (s\<lparr>rsText := rsText s @ t, rsRoom := room\<rparr>, out, failed)) = (s', out, False)"
    using assms(2) by (auto simp: responses_Delta_def split: if_splits)
  from this(1) write_then [OF this(2)] o t show ?thesis
    by (auto simp: response_opened_def responses_so_far_def)
qed

interpretation rsp: stream_wire "responsesStream dec enc oid room" "response_opened dec enc oid"
    "\<lambda>model ps us w. w = render enc (responses_complete dec oid model ps us)"
    "\<lambda>model ps code msg w. w = render enc (responses_so_far dec oid model ps @ [response_failed oid model code msg])"
  for dec enc oid room
proof
  fix model t out
  assume "trStart (responsesStream dec enc oid room) model = (t, out, False)"
  from write_then [OF this [unfolded responsesStream_def responses_Start_def transcoder.simps]]
  show "response_opened dec enc oid model t [] out"
    by (auto simp: response_opened_def responses_so_far_def response_texts_def maxStreamTextBytes_def)
next
  fix model t ps w u t' out
  assume o: "response_opened dec enc oid model t ps w"
    and "trFinish (responsesStream dec enc oid room) t u = (t', out, False)"
  from write_then [OF this(2) [unfolded responsesStream_def responses_Finish_def transcoder.simps]] o
  show "w @ out = render enc (responses_complete dec oid model ps u)"
    by (auto simp: response_opened_def responses_complete_def)
next
  fix model t ps w code msg t' out
  assume o: "response_opened dec enc oid model t ps w"
    and "trAbort (responsesStream dec enc oid room) t code msg = (t', out, False)"
  from write_then [OF this(2) [unfolded responsesStream_def responses_Abort_def transcoder.simps]] o
  show "w @ out = render enc (responses_so_far dec oid model ps @ [response_failed oid model code msg])"
    by (auto simp: response_opened_def)
qed (use responses_Delta_opened in \<open>simp_all add: responsesStream_def\<close>)

subsection \<open>A pump that completes\<close>

definition tireless :: "('t, 'u) transcoder \<Rightarrow> ('t \<Rightarrow> bool) \<Rightarrow> bool" where
  "tireless tc P \<longleftrightarrow>
     (\<forall>m. P (fst (trStart tc m)) \<and> \<not> snd (snd (trStart tc m))) \<and>
     (\<forall>t q. P t \<longrightarrow> P (fst (trDelta tc t q)) \<and> \<not> snd (snd (trDelta tc t q))) \<and>
     (\<forall>t u. P t \<longrightarrow> \<not> snd (snd (trFinish tc t u)))"

lemma trans_line_tireless:
  assumes "tireless tc P" and "P (trState p)"
  obtains p1 where "trans_line tc pu line p = (p1, False)" "P (trState p1)"
    "trDone p1 \<longleftrightarrow> trDone p \<or> is_done line"
proof -
  have "\<not> snd (trans_line tc pu line p) \<and> P (trState (fst (trans_line tc pu line p))) \<and>
      (trDone (fst (trans_line tc pu line p)) \<longleftrightarrow> trDone p \<or> is_done line)"
    using assms by (auto simp: trans_line_def is_done_def tireless_def split_beta split: option.split)
  then show ?thesis using that by (metis prod.collapse)
qed

lemma trans_loop_completes:
  assumes "tireless tc P"
  shows "P (trState p) \<Longrightarrow> \<forall>l \<in> set (lines_of body). line_fits l \<Longrightarrow>
    trDone p \<or> (\<exists>l \<in> set (lines_of body). is_done l) \<Longrightarrow> snd (trans_loop tc pu True body p) = PumpOK"
proof (induction "length body" arbitrary: body p rule: less_induct)
  case less
  obtain s rest ended where r: "readLine body = Line s rest ended"
    using readLine_fits less.prems(2) by (cases "readLine body") auto
  note ls = lines_of_readLine [OF r]
  obtain p1 where p1: "(if s \<noteq> [] then trans_line tc pu s p else (p, False)) = (p1, False)"
    and P: "P (trState p1)" and dn: "trDone p1 \<longleftrightarrow> trDone p \<or> s \<noteq> [] \<and> is_done s"
  proof (cases "s = []")
    case True
    then show ?thesis using that [of p] less.prems(1) by simp
  next
    case False
    then show ?thesis using that trans_line_tireless [OF assms less.prems(1), of pu s] by auto
  qed
  show ?case
  proof (cases ended)
    case True
    then have "trDone p1" using readLine_parts [OF r] less.prems(3) dn ls by (auto split: if_splits)
    then show ?thesis
      using r p1 True assms P
      by (simp add: trans_loop.simps [of tc pu True body p] trans_finish_def tireless_def split_beta)
  next
    case False
    then have "length rest < length body" "s \<noteq> []" using readLine_parts [OF r] by auto
    then have "snd (trans_loop tc pu True rest p1) = PumpOK"
      using less.hyps [OF _ P] less.prems(2,3) dn ls by auto
    then show ?thesis using r p1 False by (simp add: trans_loop.simps [of tc pu True body p])
  qed
qed

lemma pumpTranscoded_completes:
  assumes "tireless tc P" and "\<forall>l \<in> set (lines_of body). line_fits l" and "\<exists>l \<in> set (lines_of body). is_done l"
  shows "snd (pumpTranscoded tc pu True model body) = PumpOK"
  using assms(1) trans_loop_completes [OF assms(1) _ assms(2)] assms(3)
  by (auto simp: pumpTranscoded_def tireless_def split_beta)

lemma translators_tireless:
  "tireless (anthropicStream dec enc oid None) (\<lambda>s. asRoom s = None)"
  by (auto simp: tireless_def anthropicStream_def anthropic_Start_def anthropic_Delta_def anthropic_Finish_def
      WriteEvent_def take_room_def Let_def split: option.split)

subsection \<open>Properties\<close>

text \<open>
  C10: A stream translated for a Messages client is complete or openly broken.  When the
  pump ends well, the bytes it wrote are exactly the event stream of the format: the start,
  one text block opened before its first piece and closed after its last, one delta per
  non-empty piece of the upstream's data lines in order, then the stop reason and usage the
  upstream last reported, and the stop.  When the upstream's stream is cut, the bytes with
  the abort appended are that stream for a prefix of the upstream's data lines, ended by one
  error event and nothing after it.  A body that ends cleanly, carries the terminator and
  keeps its lines within the cap completes on a connection that takes every write.
\<close>

theorem messages_stream_honest:
  assumes "pumpTranscoded (anthropicStream dec enc oid room) (ParseUsage dec) eof model body = (p, e)"
  shows "(e = PumpOK \<longrightarrow>
      trWritten p = render enc (messages_complete dec oid model (payloads (lines_of body))
        (last_usage (ParseUsage dec) (payloads (lines_of body)) None))) \<and>
    (e \<in> {PumpTruncated, PumpTooLong, PumpReadError} \<longrightarrow>
      trAbort (anthropicStream dec enc oid room) (trState p) code msg = (t', out, False) \<longrightarrow>
      (\<exists>qs. prefix qs (payloads (lines_of body)) \<and>
         trWritten p @ out = render enc (messages_so_far dec oid model qs @ [error_event code msg]))) \<and>
    (room = None \<and> eof \<and> (\<forall>l \<in> set (lines_of body). line_fits l) \<and> (\<exists>l \<in> set (lines_of body). is_done l) \<longrightarrow>
      e = PumpOK)"
proof -
  have "e = PumpOK" if "room = None" "eof" "\<forall>l \<in> set (lines_of body). line_fits l" "\<exists>l \<in> set (lines_of body). is_done l"
    using pumpTranscoded_completes [OF translators_tireless that(3,4), of dec enc oid "ParseUsage dec" model]
      assms that(1,2) by simp
  then show ?thesis using msg.pump_honest [OF assms] by blast
qed

definition demo_chunk :: "string \<Rightarrow> json option" where
  "demo_chunk s =
     (if s = ''hello'' then Some (JObj [(''choices'', JArr [JObj [(''delta'', JObj [(''content'', JStr ''hi'')])]])])
      else if s = ''last'' then Some (JObj [(''choices'', JArr [JObj [(''finish_reason'', JStr ''length'')]])])
      else None)"

definition demo_stream_body :: string where
  "demo_stream_body = ''data: hello'' @ [newline, newline] @ ''data: last'' @ [newline, newline] @
     ''data: [DONE]'' @ [newline, newline]"

definition demo_event_enc :: "json \<Rightarrow> string" where "demo_event_enc j = ''{}''"

lemma demo_stream_lines:
  "lines_of demo_stream_body = [''data: hello'' @ [newline], [newline], ''data: last'' @ [newline], [newline],
     ''data: [DONE]'' @ [newline], [newline]]"
proof -
  have n: "newline \<notin> set ''data: hello''" "newline \<notin> set ''data: last''" "newline \<notin> set ''data: [DONE]''"
    by (simp_all add: newline_def)
  have eq: "demo_stream_body = ''data: hello'' @ newline # ([] @ newline # (''data: last'' @ newline # ([] @ newline #
      (''data: [DONE]'' @ newline # ([] @ newline # [])))))"
    by (simp add: demo_stream_body_def)
  show ?thesis
    unfolding eq lines_of_Cons [OF n(1)] lines_of_Cons [OF n(2)] lines_of_Cons [OF n(3)] append_Nil lines_of_blank
      lines_of_Nil ..
qed

lemma demo_stream_frames:
  "payloads (lines_of demo_stream_body) = [''hello'', ''last'']"
  "\<forall>l \<in> set (lines_of demo_stream_body). line_fits l" "\<exists>l \<in> set (lines_of demo_stream_body). is_done l"
  unfolding demo_stream_lines by (code_simp, simp add: short_line_fits, code_simp)

theorem messages_stream_honest_witness:
  "trWritten (fst (pumpTranscoded (anthropicStream demo_chunk demo_event_enc ''msg'' None) (ParseUsage demo_chunk) True ''m''
       demo_stream_body)) =
     render demo_event_enc [message_start ''msg'' ''m'', content_block_start, content_block_delta ''hi'', content_block_stop,
       message_delta ''max_tokens'' None, message_stop]"
proof -
  let ?r = "pumpTranscoded (anthropicStream demo_chunk demo_event_enc ''msg'' None) (ParseUsage demo_chunk) True ''m''
       demo_stream_body"
  have "message_texts demo_chunk [''hello'', ''last''] = [''hi'']"
    "message_why demo_chunk [''hello'', ''last''] = ''max_tokens''"
    "last_usage (ParseUsage demo_chunk) [''hello'', ''last''] None = None"
    by code_simp+
  then have "messages_complete demo_chunk ''msg'' ''m'' [''hello'', ''last'']
      (last_usage (ParseUsage demo_chunk) [''hello'', ''last''] None) =
    [message_start ''msg'' ''m'', content_block_start, content_block_delta ''hi'', content_block_stop,
       message_delta ''max_tokens'' None, message_stop]"
    by (simp add: messages_complete_def messages_so_far_def del: last_usage.simps)
  then show ?thesis
    using messages_stream_honest [of demo_chunk demo_event_enc "''msg''" None True "''m''" demo_stream_body "fst ?r" "snd ?r",
        OF prod.collapse [symmetric]] demo_stream_frames
    by (simp del: last_usage.simps render_simps)
qed

text \<open>The same for the Responses format, whose completion event repeats the whole text.\<close>

theorem responses_stream_honest:
  assumes "pumpTranscoded (responsesStream dec enc oid room) (ParseUsage dec) eof model body = (p, e)"
  shows "(e = PumpOK \<longrightarrow>
      trWritten p = render enc (responses_complete dec oid model (payloads (lines_of body))
        (last_usage (ParseUsage dec) (payloads (lines_of body)) None))) \<and>
    (e \<in> {PumpTruncated, PumpTooLong, PumpReadError} \<longrightarrow>
      trAbort (responsesStream dec enc oid room) (trState p) code msg = (t', out, False) \<longrightarrow>
      (\<exists>qs. prefix qs (payloads (lines_of body)) \<and>
         trWritten p @ out = render enc (responses_so_far dec oid model qs @ [response_failed oid model code msg])))"
  using rsp.pump_honest [OF assms] by blast

end
