(* ===== verification/Recovery.thy ===== *)
theory Recovery
  imports Router_Switch Circuit_Port
begin

text \<open>
  Active recovery (\<^verbatim>\<open>cmd/breakwater/recovery.go\<close>): the loop that probes automatically
  disabled upstreams, lifts the disable after enough healthy answers, spaces failing probes
  out, and offers breaker-ejected upstreams a probe through the breaker's own machine.

  The loop's book is private to its goroutine, the switch is not: while a probe runs, the
  admin API and the relay may call the switch, so every probe carries the calls that
  happened during it.  The probe's answer is an argument.  The calls of the metrics recorder
  and the recovery log line are kept as \<open>rlog\<close>.
\<close>

subsection \<open>The backoff ladder\<close>

fun backoff_loop :: "duration \<Rightarrow> nat \<Rightarrow> duration \<Rightarrow> duration" where
  "backoff_loop top_wait 0 delay = delay"
| "backoff_loop top_wait (Suc k) delay =
     (if delay \<ge> top_wait then top_wait
      else let doubled = i64 (delay * 2)
           in if doubled > top_wait \<or> doubled \<le> 0 then top_wait else backoff_loop top_wait k doubled)"

definition probeBackoff :: "duration \<Rightarrow> duration \<Rightarrow> int \<Rightarrow> duration" where
  "probeBackoff base top_wait fails =
     backoff_loop top_wait (nat (fails - 1)) (if top_wait < base then top_wait else base)"

subsection \<open>The book and one pass\<close>

record probe_retry =
  rfails :: int
  rnext :: instant

record probe_book =
  bpasses :: "string \<rightharpoonup> int"
  bretries :: "string \<rightharpoonup> probe_retry"

definition empty_book :: probe_book where
  "empty_book = \<lparr>bpasses = Map.empty, bretries = Map.empty\<rparr>"

definition due :: "probe_retry \<Rightarrow> instant \<Rightarrow> bool" where
  "due r t \<longleftrightarrow> rnext r \<le> t"

record probe_event =
  peID :: string
  peHealthy :: bool
  peLifted :: bool

record recovery =
  rswitch :: switch
  rbook :: probe_book
  rlog :: "probe_event list"

record recovery_config =
  rcInterval :: duration
  rcBackoff :: duration
  rcPasses :: int
  rcProbes :: "string set"

record pass_env =
  psStart :: instant
  psHealthy :: "string \<Rightarrow> bool"
  psOthers :: "string \<Rightarrow> switch_call list"

definition recover_one :: "recovery_config \<Rightarrow> pass_env \<Rightarrow> recovery \<Rightarrow> string \<Rightarrow> recovery" where
  "recover_one cfg ps st u =
     (if u \<notin> rcProbes cfg then st
      else if rcBackoff cfg > 0 \<and> (case bretries (rbook st) u of None \<Rightarrow> False | Some r \<Rightarrow> \<not> due r (psStart ps)) then st
      else let sw = run_switch (rswitch st) (psOthers ps u); bk = rbook st;
               lg = (\<lambda>lifted. rlog st @ [\<lparr>peID = u, peHealthy = psHealthy ps u, peLifted = lifted\<rparr>])
           in if \<not> psHealthy ps u
              then let r = (case bretries bk u of None \<Rightarrow> \<lparr>rfails = 0, rnext = 0\<rparr> | Some r \<Rightarrow> r);
                       fails = i64 (rfails r + 1);
                       r1 = \<lparr>rfails = fails, rnext = psStart ps + probeBackoff (rcInterval cfg) (rcBackoff cfg) fails\<rparr>
                   in \<lparr>rswitch = sw, rbook = \<lparr>bpasses = (bpasses bk)(u \<mapsto> 0), bretries = (bretries bk)(u \<mapsto> r1)\<rparr>,
                       rlog = lg False\<rparr>
              else let n = i64 ((case bpasses bk u of None \<Rightarrow> 0 | Some n \<Rightarrow> n) + 1);
                       bk1 = \<lparr>bpasses = (bpasses bk)(u \<mapsto> n), bretries = (bretries bk)(u := None)\<rparr>
                   in if n < rcPasses cfg then \<lparr>rswitch = sw, rbook = bk1, rlog = lg False\<rparr>
                      else case AutoEnableUpstream sw u of
                             (sw1, Inl _) \<Rightarrow> \<lparr>rswitch = sw1, rbook = bk1, rlog = lg False\<rparr>
                           | (sw1, Inr _) \<Rightarrow> \<lparr>rswitch = sw1, rbook = bk1\<lparr>bpasses := (bpasses bk1)(u := None)\<rparr>, rlog = lg True\<rparr>)"

definition recoverAutoDisabled :: "recovery_config \<Rightarrow> pass_env \<Rightarrow> recovery \<Rightarrow> recovery" where
  "recoverAutoDisabled cfg ps st = foldl (recover_one cfg ps) st (AutoDisabledIDs (rswitch st))"

text \<open>
  The breaker-ejected upstreams: \<open>ids\<close> is the map's iteration order, the environments of a
  target are those of the state read, of the admission and of the report.
\<close>

record revive_env =
  rvRead :: call_env
  rvAllow :: call_env
  rvReport :: call_env
  rvCtxDone :: bool
  rvError :: "probe_error option"

definition revive_one ::
  "('b \<Rightarrow> string \<Rightarrow> call_env \<Rightarrow> 'b \<times> 'p option) \<Rightarrow> ('b \<Rightarrow> 'p \<Rightarrow> outcome \<Rightarrow> call_env \<Rightarrow> 'b \<times> 'p) \<Rightarrow>
   ('b \<Rightarrow> string \<Rightarrow> call_env \<Rightarrow> 'b \<times> cstate) \<Rightarrow> (string \<Rightarrow> revive_env) \<Rightarrow> 'b \<times> (string \<times> bool) list \<Rightarrow> string \<Rightarrow>
   'b \<times> (string \<times> bool) list" where
  "revive_one allow report state_of env bl u =
     (case bl of (b, lg) \<Rightarrow>
      (case state_of b u (rvRead (env u)) of (b1, st) \<Rightarrow>
       if st \<noteq> StateOpen \<and> st \<noteq> StateHalfOpen then (b1, lg)
       else case ActiveProbe allow report b1 u (rvAllow (env u)) (rvCtxDone (env u)) (rvError (env u)) (rvReport (env u)) of
              (b2, asked, err) \<Rightarrow> if \<not> asked then (b2, lg) else (b2, lg @ [(u, err = None)])))"

definition reviveEjected ::
  "('b \<Rightarrow> string \<Rightarrow> call_env \<Rightarrow> 'b \<times> 'p option) \<Rightarrow> ('b \<Rightarrow> 'p \<Rightarrow> outcome \<Rightarrow> call_env \<Rightarrow> 'b \<times> 'p) \<Rightarrow>
   ('b \<Rightarrow> string \<Rightarrow> call_env \<Rightarrow> 'b \<times> cstate) \<Rightarrow> (string \<Rightarrow> revive_env) \<Rightarrow> string list \<Rightarrow> 'b \<Rightarrow>
   'b \<times> (string \<times> bool) list" where
  "reviveEjected allow report state_of env ids b = foldl (revive_one allow report state_of env) (b, []) ids"

text \<open>The loop: a tick runs one pass, and between the ticks others call the switch.\<close>

datatype recovery_event = OtherCall switch_call | Tick pass_env

fun recovery_step :: "recovery_config \<Rightarrow> recovery \<Rightarrow> recovery_event \<Rightarrow> recovery" where
  "recovery_step cfg st (OtherCall c) = st\<lparr>rswitch := switch_step (rswitch st) c\<rparr>"
| "recovery_step cfg st (Tick ps) = recoverAutoDisabled cfg ps st"

definition start_recovery :: "string list \<Rightarrow> string list \<Rightarrow> bool \<Rightarrow> recovery" where
  "start_recovery ms us w = \<lparr>rswitch = NewSwitch ms us w, rbook = empty_book, rlog = []\<rparr>"

subsection \<open>The ladder is a capped power\<close>

lemma backoff_loop_exact:
  assumes "0 < delay" and "delay \<le> top_wait" and "top_wait \<le> MaxInt64"
  shows "backoff_loop top_wait k delay = min top_wait (delay * 2 ^ k)"
  using assms
proof (induction k arbitrary: delay)
  case (Suc k)
  have "(1 :: int) \<le> 2 ^ Suc k" by (rule one_le_power) simp
  then have le: "delay \<le> delay * 2 ^ Suc k" using Suc.prems(1) mult_left_mono [of 1 "2 ^ Suc k" delay] by simp
  show ?case
  proof (cases "delay \<ge> top_wait")
    case True
    then show ?thesis using Suc.prems le by simp
  next
    case small: False
    show ?thesis
    proof (cases "delay * 2 > top_wait")
      case True
      have "delay * 2 \<le> delay * 2 ^ Suc k" using Suc.prems(1) by simp
      then have "top_wait \<le> delay * 2 ^ Suc k" using True by linarith
      moreover have "i64 (delay * 2) > top_wait \<or> i64 (delay * 2) \<le> 0"
        using True small Suc.prems i64_over [of "delay * 2"] i64_in_range [of "delay * 2"] in64_nonneg [of "delay * 2"]
        by (cases "delay * 2 \<le> MaxInt64") auto
      ultimately show ?thesis using True small by (auto simp: Let_def min_def)
    next
      case False
      then have "i64 (delay * 2) = delay * 2" using Suc.prems by (intro i64_in_range in64_nonneg) auto
      then show ?thesis using False small Suc.prems Suc.IH [of "delay * 2"] by (simp add: Let_def mult.assoc)
    qed
  qed
qed simp

lemma probeBackoff_exact:
  assumes "0 < base" and "0 \<le> top_wait" and "top_wait \<le> MaxInt64" and "1 \<le> fails"
  shows "probeBackoff base top_wait fails = min top_wait (base * 2 ^ nat (fails - 1))"
proof -
  let ?k = "nat (fails - 1)"
  have pow: "base \<le> base * 2 ^ ?k" using assms(1) by (simp add: mult_le_cancel_left1)
  show ?thesis
  proof (cases "top_wait \<le> base")
    case True
    have "backoff_loop top_wait ?k top_wait = top_wait" by (cases ?k) auto
    then show ?thesis using True pow by (auto simp: probeBackoff_def)
  next
    case False
    then show ?thesis using backoff_loop_exact [of base top_wait ?k] assms by (simp add: probeBackoff_def)
  qed
qed

subsection \<open>The counter is the streak\<close>

text \<open>
  The healthy answers of an upstream since its last failing one and since its last restore,
  read off the log.
\<close>

definition own :: "string \<Rightarrow> probe_event list \<Rightarrow> probe_event list" where
  "own u lg = filter (\<lambda>e. peID e = u) lg"

definition streak :: "string \<Rightarrow> probe_event list \<Rightarrow> nat" where
  "streak u lg = length (takeWhile (\<lambda>e. peHealthy e \<and> \<not> peLifted e) (rev (own u lg)))"

lemma streak_simps [simp]:
  "streak u [] = 0"
  "streak u (lg @ [e]) = (if peID e \<noteq> u then streak u lg else if peHealthy e \<and> \<not> peLifted e then Suc (streak u lg) else 0)"
  by (simp_all add: streak_def own_def)

definition justified :: "int \<Rightarrow> probe_event list \<Rightarrow> bool" where
  "justified passes lg \<longleftrightarrow> (\<forall>pre e post. lg = pre @ e # post \<longrightarrow>
     (peLifted e \<longleftrightarrow> peHealthy e \<and> passes \<le> int (streak (peID e) pre) + 1))"

lemma justified_Nil [simp]: "justified passes []"
  by (simp add: justified_def)

lemma justified_snoc:
  "justified passes (lg @ [e]) \<longleftrightarrow> justified passes lg \<and>
     (peLifted e \<longleftrightarrow> peHealthy e \<and> passes \<le> int (streak (peID e) lg) + 1)"
proof -
  have "lg @ [e] = pre @ x # post \<longleftrightarrow> (post = [] \<and> pre = lg \<and> x = e \<or> (\<exists>p. post = p @ [e] \<and> lg = pre @ x # p))" for pre x post
    by (cases post rule: rev_cases) auto
  then show ?thesis by (simp add: justified_def) blast
qed

definition recovery_ok :: "recovery_config \<Rightarrow> recovery \<Rightarrow> bool" where
  "recovery_ok cfg st \<longleftrightarrow> switch_ok (rswitch st) \<and> Mapping.keys (autoDisabled (rswitch st)) \<subseteq> knownUpstreams (rswitch st) \<and>
     justified (rcPasses cfg) (rlog st) \<and>
     (\<forall>u. (case bpasses (rbook st) u of None \<Rightarrow> 0 | Some n \<Rightarrow> n) = int (streak u (rlog st))) \<and>
     (\<forall>u. streak u (rlog st) = 0 \<or> int (streak u (rlog st)) < rcPasses cfg)"

text \<open>A probe is made when the upstream declares one and no backoff is running.\<close>

definition probing :: "recovery_config \<Rightarrow> pass_env \<Rightarrow> recovery \<Rightarrow> string \<Rightarrow> bool" where
  "probing cfg ps st u \<longleftrightarrow> u \<in> rcProbes cfg \<and>
     \<not> (rcBackoff cfg > 0 \<and> (case bretries (rbook st) u of None \<Rightarrow> False | Some r \<Rightarrow> \<not> due r (psStart ps)))"

text \<open>What one probe does, in the three ways it can end.\<close>

lemma recover_one_cases:
  fixes cfg :: recovery_config and ps :: pass_env and st :: recovery
  assumes "recovery_ok cfg st" and "u \<in> knownUpstreams (rswitch st)" and "rcPasses cfg \<le> MaxInt64"
  defines "sw \<equiv> run_switch (rswitch st) (psOthers ps u)" and "k \<equiv> int (streak u (rlog st))"
  obtains (skip) "\<not> probing cfg ps st u" "recover_one cfg ps st u = st"
  | (failing) r where "probing cfg ps st u" "\<not> psHealthy ps u" "recover_one cfg ps st u = \<lparr>rswitch = sw,
        rbook = \<lparr>bpasses = (bpasses (rbook st))(u \<mapsto> 0), bretries = r\<rparr>,
        rlog = rlog st @ [\<lparr>peID = u, peHealthy = False, peLifted = False\<rparr>]\<rparr>"
  | (counting) r where "probing cfg ps st u" "psHealthy ps u" "k + 1 < rcPasses cfg" "recover_one cfg ps st u = \<lparr>rswitch = sw,
        rbook = \<lparr>bpasses = (bpasses (rbook st))(u \<mapsto> k + 1), bretries = r\<rparr>,
        rlog = rlog st @ [\<lparr>peID = u, peHealthy = True, peLifted = False\<rparr>]\<rparr>"
  | (lifting) r where "probing cfg ps st u" "psHealthy ps u" "rcPasses cfg \<le> k + 1" "recover_one cfg ps st u = \<lparr>rswitch = switch_step sw (CallAutoEnable u),
        rbook = \<lparr>bpasses = (bpasses (rbook st))(u := None), bretries = r\<rparr>,
        rlog = rlog st @ [\<lparr>peID = u, peHealthy = True, peLifted = True\<rparr>]\<rparr>"
proof -
  have k: "(case bpasses (rbook st) u of None \<Rightarrow> 0 | Some n \<Rightarrow> n) = k" "k = 0 \<or> k < rcPasses cfg" "0 \<le> k"
    using assms(1) by (auto simp: recovery_ok_def k_def)
  then have n: "i64 (k + 1) = k + 1" using assms(3) by (intro i64_in_range in64_nonneg) (auto simp: MaxInt64_def)
  have known: "u \<in> knownUpstreams sw"
    using run_switch_rotation assms(1,2) by (auto simp: sw_def recovery_ok_def)
  show ?thesis
  proof (cases "\<not> probing cfg ps st u")
    case True
    then show ?thesis using skip by (auto simp: recover_one_def probing_def)
  next
    case False
    then have a: "\<not> u \<notin> rcProbes cfg"
      and b: "\<not> (rcBackoff cfg > 0 \<and> (case bretries (rbook st) u of None \<Rightarrow> False | Some r \<Rightarrow> \<not> due r (psStart ps)))"
      by (auto simp: probing_def)
    note eq = recover_one_def [of cfg ps st u, unfolded Let_def k(1) n if_not_P [OF a] if_not_P [OF b], folded sw_def]
    consider "\<not> psHealthy ps u" | "psHealthy ps u" "k + 1 < rcPasses cfg" | "psHealthy ps u" "rcPasses cfg \<le> k + 1" by linarith
    then show ?thesis
    proof cases
      case 1
      then show ?thesis using failing eq False by simp
    next
      case 2
      then show ?thesis using counting eq False by simp
    next
      case 3
      then show ?thesis using lifting eq known False by (simp add: AutoEnableUpstream_def)
    qed
  qed
qed

lemma switch_step_auto_known:
  "Mapping.keys (autoDisabled s) \<subseteq> knownUpstreams s \<Longrightarrow> Mapping.keys (autoDisabled (switch_step s c)) \<subseteq> knownUpstreams s"
  by (cases c) (auto simp: switch_ops_def)

lemma run_switch_keeps:
  "switch_ok s \<Longrightarrow> Mapping.keys (autoDisabled s) \<subseteq> knownUpstreams s \<Longrightarrow>
   switch_ok (run_switch s cs) \<and> Mapping.keys (autoDisabled (run_switch s cs)) \<subseteq> knownUpstreams (run_switch s cs) \<and>
   knownUpstreams (run_switch s cs) = knownUpstreams s"
proof (induction cs arbitrary: s)
  case (Cons c cs)
  then show ?case
    using Cons.IH [of "switch_step s c"] switch_step_ok [of s c] switch_step_auto_known [of s c] by simp
qed simp

lemma recover_one_ok:
  assumes "recovery_ok cfg st" and "u \<in> knownUpstreams (rswitch st)" and "rcPasses cfg \<le> MaxInt64"
  shows "recovery_ok cfg (recover_one cfg ps st u) \<and>
    knownUpstreams (rswitch (recover_one cfg ps st u)) = knownUpstreams (rswitch st) \<and>
    (\<exists>cs. rswitch (recover_one cfg ps st u) = run_switch (rswitch st) cs \<and> set cs \<subseteq> set (psOthers ps u) \<union> {CallAutoEnable u})"
proof -
  note ok = assms(1) [unfolded recovery_ok_def]
  note keeps = run_switch_keeps [of "rswitch st" "psOthers ps u"]
  show ?thesis
    using assms
  proof (cases rule: recover_one_cases [where ps = ps])
    case skip
    then show ?thesis using assms(1) by (auto intro!: exI [of _ "[]"])
  next
    case failing
    then show ?thesis
      using ok keeps by (auto simp: recovery_ok_def justified_snoc intro!: exI [of _ "psOthers ps u"])
  next
    case counting
    then show ?thesis
      using ok keeps by (auto simp: recovery_ok_def justified_snoc intro!: exI [of _ "psOthers ps u"])
  next
    case lifting
    then show ?thesis
      using ok keeps switch_step_ok [of "run_switch (rswitch st) (psOthers ps u)" "CallAutoEnable u"]
        switch_step_auto_known [of "run_switch (rswitch st) (psOthers ps u)" "CallAutoEnable u"]
      by (auto simp del: switch_step.simps simp: recovery_ok_def justified_snoc intro!: exI [of _ "psOthers ps u @ [CallAutoEnable u]"])
  qed
qed

lemma recover_ids_ok:
  assumes "recovery_ok cfg st" and "set ids \<subseteq> knownUpstreams (rswitch st)" and "rcPasses cfg \<le> MaxInt64"
  shows "recovery_ok cfg (foldl (recover_one cfg ps) st ids) \<and>
    knownUpstreams (rswitch (foldl (recover_one cfg ps) st ids)) = knownUpstreams (rswitch st) \<and>
    (\<exists>cs. rswitch (foldl (recover_one cfg ps) st ids) = run_switch (rswitch st) cs \<and>
       set cs \<subseteq> (\<Union>u. set (psOthers ps u)) \<union> range CallAutoEnable)"
  using assms(1,2)
proof (induction ids arbitrary: st)
  case Nil
  then show ?case by (auto intro!: exI [of _ "[]"])
next
  case (Cons u ids)
  let ?st = "recover_one cfg ps st u"
  obtain cs where one: "recovery_ok cfg ?st" "knownUpstreams (rswitch ?st) = knownUpstreams (rswitch st)"
    "rswitch ?st = run_switch (rswitch st) cs" "set cs \<subseteq> set (psOthers ps u) \<union> {CallAutoEnable u}"
    using recover_one_ok [OF Cons.prems(1) _ assms(3), of u ps] Cons.prems(2) by auto
  obtain ds where "recovery_ok cfg (foldl (recover_one cfg ps) ?st ids)"
    "knownUpstreams (rswitch (foldl (recover_one cfg ps) ?st ids)) = knownUpstreams (rswitch st)"
    "rswitch (foldl (recover_one cfg ps) ?st ids) = run_switch (rswitch ?st) ds"
    "set ds \<subseteq> (\<Union>u. set (psOthers ps u)) \<union> range CallAutoEnable"
    using Cons.IH [OF one(1)] Cons.prems(2) one(2) by auto
  moreover have "set cs \<subseteq> (\<Union>u. set (psOthers ps u)) \<union> range CallAutoEnable" using one(4) by blast
  ultimately show ?case using one(3) by (intro conjI exI [of _ "cs @ ds"]) simp_all
qed

text \<open>
  The rotation of an upstream over a tick during which nobody else switches it.  The book's
  wait and the streak that decide are those at the start of the tick.
\<close>

fun switches :: "string \<Rightarrow> switch_call \<Rightarrow> bool" where
  "switches u (CallSetModel _ _) = False"
| "switches u (CallSetUpstream v _) = (v = u)"
| "switches u (CallAutoDisable v _ _) = (v = u)"
| "switches u (CallAutoEnable v) = (v = u)"

lemma rotate_other: "\<not> switches u c \<Longrightarrow> rotate u r c = r"
  by (cases c) auto

lemma foldl_rotate_other: "\<forall>c \<in> set cs. \<not> switches u c \<Longrightarrow> foldl (rotate u) r cs = r"
  by (induction cs) (simp_all add: rotate_other)

definition earned :: "recovery_config \<Rightarrow> pass_env \<Rightarrow> recovery \<Rightarrow> string \<Rightarrow> bool" where
  "earned cfg ps st u \<longleftrightarrow> probing cfg ps st u \<and> psHealthy ps u \<and> rcPasses cfg \<le> int (streak u (rlog st)) + 1"

lemma recover_one_own:
  assumes "recovery_ok cfg st" and "u \<in> knownUpstreams (rswitch st)" and "rcPasses cfg \<le> MaxInt64"
    and "\<forall>c \<in> set (psOthers ps u). \<not> switches u c"
  shows "rotation_of (rswitch (recover_one cfg ps st u)) u =
    (if earned cfg ps st u then rotate u (rotation_of (rswitch st) u) (CallAutoEnable u) else rotation_of (rswitch st) u)"
proof -
  have sw: "switch_ok (run_switch (rswitch st) (psOthers ps u))" "u \<in> knownUpstreams (run_switch (rswitch st) (psOthers ps u))"
    "rotation_of (run_switch (rswitch st) (psOthers ps u)) u = rotation_of (rswitch st) u"
    using run_switch_rotation [of "rswitch st" u "psOthers ps u"] assms(1,2) foldl_rotate_other [OF assms(4)]
    by (simp_all add: recovery_ok_def)
  show ?thesis
    using assms(1-3)
  proof (cases rule: recover_one_cases [where ps = ps])
    case lifting
    then show ?thesis
      using sw switch_step_rotation [OF sw(1,2), of "CallAutoEnable u"]
      by (simp add: earned_def del: switch_step.simps rotate.simps)
  qed (simp_all add: earned_def sw)
qed

lemma recover_one_other:
  assumes "recovery_ok cfg st" and "u \<in> knownUpstreams (rswitch st)" and "rcPasses cfg \<le> MaxInt64"
    and "\<forall>c \<in> set (psOthers ps v). \<not> switches u c" and "v \<noteq> u" and "v \<in> knownUpstreams (rswitch st)"
  shows "rotation_of (rswitch (recover_one cfg ps st v)) u = rotation_of (rswitch st) u"
    and "earned cfg ps (recover_one cfg ps st v) u = earned cfg ps st u"
proof -
  obtain cs where "rswitch (recover_one cfg ps st v) = run_switch (rswitch st) cs"
    "set cs \<subseteq> set (psOthers ps v) \<union> {CallAutoEnable v}"
    using recover_one_ok [OF assms(1,6,3)] by blast
  moreover from this(2) have "\<forall>c \<in> set cs. \<not> switches u c" using assms(4,5) by auto
  ultimately show "rotation_of (rswitch (recover_one cfg ps st v)) u = rotation_of (rswitch st) u"
    using run_switch_rotation [of "rswitch st" u cs] assms(1,2) foldl_rotate_other by (simp add: recovery_ok_def)
  have "bretries (rbook (recover_one cfg ps st v)) u = bretries (rbook st) u"
    "streak u (rlog (recover_one cfg ps st v)) = streak u (rlog st)"
    using assms(5) by (auto simp: recover_one_def Let_def split: prod.split sum.split)
  then show "earned cfg ps (recover_one cfg ps st v) u = earned cfg ps st u"
    by (simp add: earned_def probing_def)
qed

lemma recover_ids_rotation:
  assumes "recovery_ok cfg st" and "set ids \<subseteq> knownUpstreams (rswitch st)" and "rcPasses cfg \<le> MaxInt64"
    and "u \<in> knownUpstreams (rswitch st)" and "\<forall>v. \<forall>c \<in> set (psOthers ps v). \<not> switches u c" and "distinct ids"
  shows "rotation_of (rswitch (foldl (recover_one cfg ps) st ids)) u =
    (if u \<in> set ids \<and> earned cfg ps st u then rotate u (rotation_of (rswitch st) u) (CallAutoEnable u)
     else rotation_of (rswitch st) u)"
  using assms(1,2,4,6)
proof (induction ids arbitrary: st)
  case (Cons v ids)
  let ?st = "recover_one cfg ps st v"
  have one: "recovery_ok cfg ?st" "knownUpstreams (rswitch ?st) = knownUpstreams (rswitch st)"
    using recover_one_ok [OF Cons.prems(1) _ assms(3), of v ps] Cons.prems(2) by auto
  have ih: "rotation_of (rswitch (foldl (recover_one cfg ps) ?st ids)) u =
      (if u \<in> set ids \<and> earned cfg ps ?st u then rotate u (rotation_of (rswitch ?st) u) (CallAutoEnable u)
       else rotation_of (rswitch ?st) u)"
    using Cons.IH [OF one(1)] Cons.prems one(2) by simp
  show ?case
  proof (cases "v = u")
    case True
    then show ?thesis
      using ih recover_one_own [OF Cons.prems(1,3) assms(3), of ps] assms(5) Cons.prems(4)
      by (simp del: rotate.simps)
  next
    case False
    then show ?thesis
      using ih recover_one_other [OF Cons.prems(1,3) assms(3) _ False, of ps] assms(5) Cons.prems(2)
      by (simp del: rotate.simps)
  qed
qed simp

lemma recoverAutoDisabled_rotation:
  assumes "recovery_ok cfg st" and "rcPasses cfg \<le> MaxInt64" and "u \<in> knownUpstreams (rswitch st)"
    and "\<forall>v. \<forall>c \<in> set (psOthers ps v). \<not> switches u c"
  shows "rotation_of (rswitch (recoverAutoDisabled cfg ps st)) u =
    (if (\<exists>a. rotation_of (rswitch st) u = AutoOff a) \<and> earned cfg ps st u then InRotation else rotation_of (rswitch st) u)"
proof -
  have sw: "switch_ok (rswitch st)" using assms(1) by (simp add: recovery_ok_def)
  have "set (AutoDisabledIDs (rswitch st)) \<subseteq> knownUpstreams (rswitch st)" "distinct (AutoDisabledIDs (rswitch st))"
    using assms(1) by (auto simp: recovery_ok_def AutoDisabledIDs_def switch_ok_def)
  from recover_ids_rotation [OF assms(1) this(1) assms(2-4) this(2)] show ?thesis
    using AutoDisabledIDs_rotation [OF sw, of u] by (auto simp: recoverAutoDisabled_def)
qed

lemma recovery_step_ok:
  assumes "recovery_ok cfg st" and "rcPasses cfg \<le> MaxInt64"
  shows "recovery_ok cfg (recovery_step cfg st ev)"
proof (cases ev)
  case (OtherCall c)
  then show ?thesis
    using assms(1) switch_step_ok [of "rswitch st" c] switch_step_auto_known [of "rswitch st" c] by (simp add: recovery_ok_def)
next
  case (Tick ps)
  have "set (AutoDisabledIDs (rswitch st)) \<subseteq> knownUpstreams (rswitch st)"
    using assms(1) by (auto simp: recovery_ok_def AutoDisabledIDs_def switch_ok_def)
  then show ?thesis using Tick recover_ids_ok [OF assms(1) _ assms(2)] by (simp add: recoverAutoDisabled_def)
qed

abbreviation run_recovery :: "recovery_config \<Rightarrow> recovery \<Rightarrow> recovery_event list \<Rightarrow> recovery" where
  "run_recovery cfg \<equiv> foldl (recovery_step cfg)"

lemma run_recovery_ok:
  assumes "rcPasses cfg \<le> MaxInt64"
  shows "recovery_ok cfg (run_recovery cfg (start_recovery ms us w) evs)"
proof -
  have "recovery_ok cfg st \<Longrightarrow> recovery_ok cfg (run_recovery cfg st evs)" for st
    by (induction evs arbitrary: st) (simp_all add: recovery_step_ok assms)
  moreover have "recovery_ok cfg (start_recovery ms us w)"
    by (simp add: recovery_ok_def start_recovery_def NewSwitch_def switch_ok_def empty_book_def)
  ultimately show ?thesis .
qed

text \<open>The probes a breaker-ejected upstream is offered leave the breaker sound.\<close>

context breaker_port
begin

lemma reviveEjected_sound: "invar b \<Longrightarrow> invar (fst (reviveEjected allow report state_of env ids b))"
proof -
  have one: "invar (fst bl) \<Longrightarrow> invar (fst (revive_one allow report state_of env bl u))" for bl u
    using invar_state_of [of "fst bl" u "rvRead (env u)"] active_probe_invar
    by (auto simp: revive_one_def split: prod.splits) (metis fst_conv)+
  have "invar (fst bl) \<Longrightarrow> invar (fst (foldl (revive_one allow report state_of env) bl ids))" for bl
    by (induction ids arbitrary: bl) (simp_all add: one)
  then show "invar b \<Longrightarrow> invar (fst (reviveEjected allow report state_of env ids b))"
    by (simp add: reviveEjected_def)
qed

end

subsection \<open>Properties\<close>

text \<open>
  C13: Recovery lifts a disable exactly when it was earned, and only its own.  However ticks,
  probe answers and calls of others interleave: a tick during which nobody else switches an
  upstream puts it back in rotation exactly when it was automatically disabled, has a probe
  that is due, answers healthily, and so completes \<open>passes\<close> healthy answers since its last
  failing answer and since its last restore; in every other case, a manual disable included,
  its rotation is what it was.  The log's restores are those of this rule, whatever the
  others call meanwhile.  The streak is counted over the probes alone: answers given to an
  earlier disable that an operator lifted still count (lemma \<open>stale_passes_restore\<close>).
\<close>

theorem recovery_earned:
  assumes "rcPasses cfg \<le> MaxInt64" and "st = run_recovery cfg (start_recovery ms us w) evs"
  shows "(u \<in> knownUpstreams (rswitch st) \<and> (\<forall>v. \<forall>c \<in> set (psOthers ps v). \<not> switches u c) \<longrightarrow>
      rotation_of (rswitch (recoverAutoDisabled cfg ps st)) u =
        (if (\<exists>a. rotation_of (rswitch st) u = AutoOff a) \<and> probing cfg ps st u \<and> psHealthy ps u \<and>
            rcPasses cfg \<le> int (streak u (rlog st)) + 1
         then InRotation else rotation_of (rswitch st) u)) \<and>
    (rlog st = pre @ e # post \<longrightarrow>
      (peLifted e \<longleftrightarrow> peHealthy e \<and> rcPasses cfg \<le> int (streak (peID e) pre) + 1)) \<and>
    (u \<in> knownUpstreams (rswitch st) \<and> rotation_of (rswitch st) u = ManualOff \<and>
      (\<forall>v. \<forall>enabled. CallSetUpstream u enabled \<notin> set (psOthers ps v)) \<longrightarrow>
      rotation_of (rswitch (recoverAutoDisabled cfg ps st)) u = ManualOff)"
proof -
  note ok = run_recovery_ok [OF assms(1), of ms us w evs, folded assms(2)]
  have "set (AutoDisabledIDs (rswitch st)) \<subseteq> knownUpstreams (rswitch st)"
    using ok by (auto simp: recovery_ok_def AutoDisabledIDs_def switch_ok_def)
  then obtain cs where cs: "rswitch (recoverAutoDisabled cfg ps st) = run_switch (rswitch st) cs"
    "set cs \<subseteq> (\<Union>u. set (psOthers ps u)) \<union> range CallAutoEnable"
    using recover_ids_ok [OF ok _ assms(1), of "AutoDisabledIDs (rswitch st)" ps] by (auto simp: recoverAutoDisabled_def)
  have "rotation_of (run_switch (rswitch st) cs) u = ManualOff"
    if "u \<in> knownUpstreams (rswitch st)" "rotation_of (rswitch st) u = ManualOff"
      "\<forall>v. \<forall>enabled. CallSetUpstream u enabled \<notin> set (psOthers ps v)"
  proof -
    have "\<forall>c \<in> set cs. \<forall>enabled. c \<noteq> CallSetUpstream u enabled" using cs(2) that(3) by blast
    then show ?thesis
      using manual_off_stays run_switch_rotation [of "rswitch st" u cs] ok that(1,2) by (simp add: recovery_ok_def)
  qed
  moreover have "\<forall>pre e post. rlog st = pre @ e # post \<longrightarrow>
      (peLifted e \<longleftrightarrow> peHealthy e \<and> rcPasses cfg \<le> int (streak (peID e) pre) + 1)"
    using ok by (simp add: recovery_ok_def justified_def)
  ultimately show ?thesis
    using recoverAutoDisabled_rotation [OF ok assms(1), of u ps] unfolding cs(1) earned_def by blast
qed

text \<open>
  The backoff ladder.  For every streak of failures the wait before the next probe is the
  interval doubled once per failure after the first, capped at the ceiling, without a wrap
  however long the streak grows.
\<close>

theorem probe_ladder_exact:
  assumes "0 < base" and "0 \<le> top_wait" and "top_wait \<le> MaxInt64" and "1 \<le> fails"
  shows "probeBackoff base top_wait fails = min top_wait (base * 2 ^ nat (fails - 1))"
  using assms by (rule probeBackoff_exact)

theorem probe_ladder_exact_witness:
  "probeBackoff (10 * Second) Minute 3 = 40 * Second \<and> probeBackoff (10 * Second) Minute 100 = Minute"
proof -
  have "probeBackoff (10 * Second) Minute 100 = min Minute (10 * Second * 2 ^ nat (100 - 1))"
    by (rule probe_ladder_exact) (simp_all add: MaxInt64_def)
  moreover have "probeBackoff (10 * Second) Minute 3 = min Minute (10 * Second * 2 ^ nat (3 - 1))"
    by (rule probe_ladder_exact) (simp_all add: MaxInt64_def)
  ultimately show ?thesis by simp
qed

text \<open>
  Two healthy answers, then an operator enables the upstream, the relay disables it again,
  and a single healthy answer restores it: the count of the earlier disable is still in the
  book, and the failure that caused the second disable did not reset it.
\<close>

definition demo_recovery :: recovery_config where
  "demo_recovery = \<lparr>rcInterval = 1, rcBackoff = 0, rcPasses = 3, rcProbes = {''a''}\<rparr>"

definition healthy_tick :: "instant \<Rightarrow> recovery_event" where
  "healthy_tick t = Tick \<lparr>psStart = t, psHealthy = (\<lambda>_. True), psOthers = (\<lambda>_. [])\<rparr>"

definition demo_flap :: "recovery_event list" where
  "demo_flap = [OtherCall (CallAutoDisable ''a'' ''auth'' 0), healthy_tick 1, healthy_tick 2,
     OtherCall (CallSetUpstream ''a'' True), OtherCall (CallAutoDisable ''a'' ''auth'' 3), healthy_tick 4]"

lemma stale_passes_restore:
  "rlog (run_recovery demo_recovery (start_recovery [] [''a''] True) demo_flap) =
     [\<lparr>peID = ''a'', peHealthy = True, peLifted = False\<rparr>, \<lparr>peID = ''a'', peHealthy = True, peLifted = False\<rparr>,
      \<lparr>peID = ''a'', peHealthy = True, peLifted = True\<rparr>]"
  by code_simp

lemma stale_passes_rotation:
  "rotation_of (rswitch (run_recovery demo_recovery (start_recovery [] [''a''] True) (take 5 demo_flap))) ''a'' =
     AutoOff \<lparr>reason = ''auth'', since = 3\<rparr>"
  "''a'' \<in> knownUpstreams (rswitch (run_recovery demo_recovery (start_recovery [] [''a''] True) (take 5 demo_flap)))"
  "rlog (run_recovery demo_recovery (start_recovery [] [''a''] True) (take 5 demo_flap)) =
     [\<lparr>peID = ''a'', peHealthy = True, peLifted = False\<rparr>, \<lparr>peID = ''a'', peHealthy = True, peLifted = False\<rparr>]"
  by code_simp+

theorem recovery_earned_witness:
  "let st = run_recovery demo_recovery (start_recovery [] [''a''] True) (take 5 demo_flap);
       ps = \<lparr>psStart = 4, psHealthy = (\<lambda>_. True), psOthers = (\<lambda>_. [])\<rparr>
   in rotation_of (rswitch st) ''a'' = AutoOff \<lparr>reason = ''auth'', since = 3\<rparr> \<and>
      rotation_of (rswitch (recoverAutoDisabled demo_recovery ps st)) ''a'' = InRotation \<and>
      \<not> peLifted (rlog st ! 1)"
proof -
  let ?st = "run_recovery demo_recovery (start_recovery [] [''a''] True) (take 5 demo_flap)"
  let ?ps = "\<lparr>psStart = 4, psHealthy = (\<lambda>_. True), psOthers = (\<lambda>_. [])\<rparr>"
  let ?h = "\<lparr>peID = ''a'', peHealthy = True, peLifted = False\<rparr>"
  have p: "rcPasses demo_recovery \<le> MaxInt64" by (simp add: demo_recovery_def MaxInt64_def)
  have k: "streak ''a'' [?h] = 1" "streak ''a'' [?h, ?h] = 2" by (simp_all add: streak_def own_def)
  have log: "rlog ?st = [?h] @ ?h # []" by (simp add: stale_passes_rotation)
  have "probing demo_recovery ?ps ?st ''a''" "rcPasses demo_recovery = 3" by (simp_all add: probing_def demo_recovery_def)
  moreover note recovery_earned [OF p refl, of "''a''" "[]" "[''a'']" True "take 5 demo_flap" ?ps "[?h]" ?h "[]"]
  ultimately show ?thesis
    using stale_passes_rotation k log by (simp add: Let_def del: take_Suc_Cons)
qed

end
