(* ===== verification/Relay_Lease.thy ===== *)
theory Relay_Lease
  imports Prelude
begin

text \<open>
  The timer set of one streaming attempt (\<^verbatim>\<open>internal/relay/streamlease.go\<close>) as a step
  relation.  Three timers share one derived context: time to first byte, the ceiling of the
  whole body and the idle watchdog.  A callback runs in its own goroutine and makes two
  steps, storing its fired flag and cancelling the context; stopping or resetting a timer
  does not reach a callback that has started, so any number of callbacks of a timer may be
  between those steps while the timer is armed again.

  The operations of the attempt are functions on the lease; the relation interleaves them
  with the firings and with the end of the request's own context.
\<close>

subsection \<open>The lease\<close>

datatype timer = Ttft | Ceiling | Idle

record timer_state =
  tset :: bool
  tarmed :: bool
  tstarted :: nat
  tstored :: nat
  tfired :: bool

record stream_lease =
  ltimers :: "timer \<Rightarrow> timer_state"
  lcanceled :: bool
  lparent :: bool
  lended :: bool
  lheaders :: bool

record lease_config =
  lcAttempt :: duration
  lcStream :: duration

definition no_timer :: timer_state where
  "no_timer = \<lparr>tset = False, tarmed = False, tstarted = 0, tstored = 0, tfired = False\<rparr>"

definition after_func :: "duration \<Rightarrow> timer_state" where
  "after_func d = (if d > 0 then no_timer\<lparr>tset := True, tarmed := True\<rparr> else no_timer)"

definition beginStream :: "lease_config \<Rightarrow> bool \<Rightarrow> stream_lease" where
  "beginStream cfg gone =
     \<lparr>ltimers = (\<lambda>k. case k of Ttft \<Rightarrow> after_func (lcAttempt cfg) | Ceiling \<Rightarrow> after_func (lcStream cfg) | Idle \<Rightarrow> no_timer),
      lcanceled = gone, lparent = gone, lended = False, lheaders = False\<rparr>"

definition stop_timer :: "timer \<Rightarrow> stream_lease \<Rightarrow> stream_lease" where
  "stop_timer k l = (if tset (ltimers l k) then l\<lparr>ltimers := (ltimers l)(k := (ltimers l k)\<lparr>tarmed := False\<rparr>)\<rparr> else l)"

definition ttftPassed :: "stream_lease \<Rightarrow> stream_lease" where
  "ttftPassed l = (stop_timer Ttft l)\<lparr>lheaders := True\<rparr>"

definition armIdle :: "duration \<Rightarrow> stream_lease \<Rightarrow> stream_lease" where
  "armIdle d l =
     (if d \<le> 0 then l
      else l\<lparr>ltimers := (ltimers l)(Idle := (ltimers l Idle)\<lparr>tset := True, tarmed := True\<rparr>)\<rparr>)"

definition activity :: "stream_lease \<Rightarrow> stream_lease" where
  "activity l =
     (if tset (ltimers l Idle) then l\<lparr>ltimers := (ltimers l)(Idle := (ltimers l Idle)\<lparr>tarmed := True\<rparr>)\<rparr> else l)"

definition drop_timer :: "timer \<Rightarrow> stream_lease \<Rightarrow> stream_lease" where
  "drop_timer k l =
     (let l1 = stop_timer k l in l1\<lparr>ltimers := (ltimers l1)(k := (ltimers l1 k)\<lparr>tset := False\<rparr>)\<rparr>)"

definition end_lease_stream :: "stream_lease \<Rightarrow> stream_lease" where
  "end_lease_stream l = (drop_timer Idle (drop_timer Ceiling (drop_timer Ttft l)))\<lparr>lcanceled := True, lended := True\<rparr>"

text \<open>The callback's steps: it starts when the timer expires, stores its flag, then cancels.\<close>

definition expire :: "timer \<Rightarrow> stream_lease \<Rightarrow> stream_lease" where
  "expire k l = l\<lparr>ltimers := (ltimers l)(k := (ltimers l k)\<lparr>tarmed := False, tstarted := tstarted (ltimers l k) + 1\<rparr>)\<rparr>"

definition store_flag :: "timer \<Rightarrow> stream_lease \<Rightarrow> stream_lease" where
  "store_flag k l =
     l\<lparr>ltimers := (ltimers l)(k := (ltimers l k)\<lparr>tstarted := tstarted (ltimers l k) - 1, tstored := tstored (ltimers l k) + 1, tfired := True\<rparr>)\<rparr>"

definition cancel_lease :: "timer \<Rightarrow> stream_lease \<Rightarrow> stream_lease" where
  "cancel_lease k l =
     l\<lparr>ltimers := (ltimers l)(k := (ltimers l k)\<lparr>tstored := tstored (ltimers l k) - 1\<rparr>), lcanceled := True\<rparr>"

inductive lease_reach :: "lease_config \<Rightarrow> duration \<Rightarrow> stream_lease \<Rightarrow> bool" for cfg idle where
  lease_begin: "lease_reach cfg idle (beginStream cfg gone)"
| lease_headers: "lease_reach cfg idle l \<Longrightarrow> \<not> lended l \<Longrightarrow> lease_reach cfg idle (ttftPassed l)"
| lease_commit: "lease_reach cfg idle l \<Longrightarrow> \<not> lended l \<Longrightarrow> lheaders l \<Longrightarrow> \<not> tset (ltimers l Idle) \<Longrightarrow> lease_reach cfg idle (armIdle idle l)"
| lease_read: "lease_reach cfg idle l \<Longrightarrow> lease_reach cfg idle (activity l)"
| lease_end: "lease_reach cfg idle l \<Longrightarrow> lease_reach cfg idle (end_lease_stream l)"
| lease_expire: "lease_reach cfg idle l \<Longrightarrow> tarmed (ltimers l k) \<Longrightarrow> lease_reach cfg idle (expire k l)"
| lease_store: "lease_reach cfg idle l \<Longrightarrow> tstarted (ltimers l k) > 0 \<Longrightarrow> lease_reach cfg idle (store_flag k l)"
| lease_cancel: "lease_reach cfg idle l \<Longrightarrow> tstored (ltimers l k) > 0 \<Longrightarrow> lease_reach cfg idle (cancel_lease k l)"
| lease_gone: "lease_reach cfg idle l \<Longrightarrow> lease_reach cfg idle (l\<lparr>lcanceled := True, lparent := True\<rparr>)"

subsection \<open>The invariant\<close>

definition configured :: "lease_config \<Rightarrow> duration \<Rightarrow> timer \<Rightarrow> bool" where
  "configured cfg idle k = (case k of Ttft \<Rightarrow> lcAttempt cfg > 0 | Ceiling \<Rightarrow> lcStream cfg > 0 | Idle \<Rightarrow> idle > 0)"

definition timer_ok :: "bool \<Rightarrow> timer_state \<Rightarrow> bool" where
  "timer_ok conf t \<longleftrightarrow> (tstored t > 0 \<longrightarrow> tfired t) \<and> (tarmed t \<longrightarrow> tset t) \<and>
     (tset t \<or> tstarted t > 0 \<or> tfired t \<longrightarrow> conf)"

definition lease_ok :: "lease_config \<Rightarrow> duration \<Rightarrow> stream_lease \<Rightarrow> bool" where
  "lease_ok cfg idle l \<longleftrightarrow> (\<forall>k. timer_ok (configured cfg idle k) (ltimers l k)) \<and>
     (lcanceled l \<longrightarrow> lparent l \<or> lended l \<or> (\<exists>k. tfired (ltimers l k))) \<and>
     (lended l \<longrightarrow> lcanceled l \<and> (\<forall>k. \<not> tset (ltimers l k))) \<and>
     (lheaders l \<longrightarrow> \<not> tarmed (ltimers l Ttft)) \<and>
     (\<not> lheaders l \<longrightarrow> \<not> tset (ltimers l Idle) \<and> tstarted (ltimers l Idle) = 0 \<and> \<not> tfired (ltimers l Idle))"

lemma lease_okD:
  assumes "lease_ok cfg idle l"
  shows "timer_ok (configured cfg idle k) (ltimers l k)" and "lended l \<Longrightarrow> \<not> tset (ltimers l k)"
    and "lheaders l \<Longrightarrow> \<not> tarmed (ltimers l Ttft)"
    and "\<not> lheaders l \<Longrightarrow> \<not> tset (ltimers l Idle) \<and> tstarted (ltimers l Idle) = 0 \<and> \<not> tfired (ltimers l Idle)"
  using assms by (simp_all add: lease_ok_def)

text \<open>Changing one timer: what the operations and the callbacks do.\<close>

lemma lease_ok_upd:
  assumes "lease_ok cfg idle l" and "timer_ok (configured cfg idle k) t" and "tfired (ltimers l k) \<Longrightarrow> tfired t"
    and "lended l \<Longrightarrow> \<not> tset t" and "lheaders l \<Longrightarrow> k = Ttft \<Longrightarrow> \<not> tarmed t"
    and "\<not> lheaders l \<Longrightarrow> k = Idle \<Longrightarrow> \<not> tset t \<and> tstarted t = 0 \<and> \<not> tfired t"
  shows "lease_ok cfg idle (l\<lparr>ltimers := (ltimers l)(k := t)\<rparr>)"
proof -
  let ?T = "(ltimers l)(k := t)"
  note ok = assms(1) [unfolded lease_ok_def]
  have "lcanceled l \<longrightarrow> lparent l \<or> lended l \<or> (\<exists>j. tfired (?T j))" using ok assms(3) by (metis fun_upd_apply)
  moreover have "\<forall>j. timer_ok (configured cfg idle j) (?T j)" using ok assms(2) by simp
  moreover have "lended l \<longrightarrow> lcanceled l \<and> (\<forall>j. \<not> tset (?T j))" using ok assms(4) by simp
  moreover have "lheaders l \<longrightarrow> \<not> tarmed (?T Ttft)" using ok assms(5) by auto
  moreover have "\<not> lheaders l \<longrightarrow> \<not> tset (?T Idle) \<and> tstarted (?T Idle) = 0 \<and> \<not> tfired (?T Idle)" using ok assms(6) by auto
  ultimately show ?thesis unfolding lease_ok_def by (simp del: fun_upd_apply)
qed

lemma lease_ok_cancel:
  "lease_ok cfg idle l \<Longrightarrow> lparent l \<or> lended l \<or> tfired (ltimers l k) \<Longrightarrow> lease_ok cfg idle (l\<lparr>lcanceled := True\<rparr>)"
  by (auto simp: lease_ok_def)

lemma stop_timer_ok: "lease_ok cfg idle l \<Longrightarrow> lease_ok cfg idle (stop_timer k l)"
  using lease_okD [of cfg idle l]
  by (auto simp: stop_timer_def timer_ok_def intro!: lease_ok_upd)

lemma drop_timer_ok:
  assumes "lease_ok cfg idle l"
  shows "lease_ok cfg idle (drop_timer k l) \<and> \<not> tset (ltimers (drop_timer k l) k) \<and>
    (\<forall>j. \<not> tset (ltimers l j) \<longrightarrow> \<not> tset (ltimers (drop_timer k l) j))"
proof -
  let ?l = "stop_timer k l"
  have s: "lease_ok cfg idle ?l" using assms by (rule stop_timer_ok)
  have a: "tset (ltimers l k) \<Longrightarrow> \<not> tarmed (ltimers ?l k)" by (simp add: stop_timer_def)
  have "\<not> tarmed (ltimers ?l k)"
    using a lease_okD(1) [OF s, of k] by (auto simp: stop_timer_def timer_ok_def split: if_splits)
  then have "lease_ok cfg idle (drop_timer k l)"
    unfolding drop_timer_def Let_def
    using lease_okD [OF s] by (intro lease_ok_upd [OF s]) (auto simp: timer_ok_def)
  then show ?thesis by (auto simp: drop_timer_def stop_timer_def Let_def)
qed

lemma end_lease_ok:
  assumes "lease_ok cfg idle l"
  shows "lease_ok cfg idle (end_lease_stream l)"
proof -
  let ?a = "drop_timer Ttft l" and ?b = "drop_timer Ceiling (drop_timer Ttft l)"
  let ?c = "drop_timer Idle ?b"
  note a = drop_timer_ok [OF assms, of Ttft]
  note b = drop_timer_ok [of cfg idle ?a Ceiling] and c = drop_timer_ok [of cfg idle ?b Idle]
  have "lease_ok cfg idle ?c" "\<not> tset (ltimers ?c k)" for k
    using a b c by (auto, cases k) auto
  then show ?thesis by (simp add: end_lease_stream_def lease_ok_def)
qed

lemma lease_invar: "lease_reach cfg idle l \<Longrightarrow> lease_ok cfg idle l"
proof (induction rule: lease_reach.induct)
  case (lease_begin gone)
  have "timer_ok (configured cfg idle k) (ltimers (beginStream cfg gone) k)" for k
    by (cases k) (simp_all add: beginStream_def after_func_def no_timer_def timer_ok_def configured_def)
  then show ?case by (simp add: lease_ok_def) (simp add: beginStream_def no_timer_def)
next
  case (lease_headers l)
  have "lease_ok cfg idle (stop_timer Ttft l)" using lease_headers.IH by (rule stop_timer_ok)
  moreover have "\<not> tarmed (ltimers (stop_timer Ttft l) Ttft)"
    using lease_okD(1) [OF lease_headers.IH, of Ttft] by (auto simp: stop_timer_def timer_ok_def)
  ultimately show ?case by (auto simp: ttftPassed_def lease_ok_def)
next
  case (lease_commit l)
  then show ?case
    using lease_okD [OF lease_commit.IH]
    by (auto simp: armIdle_def timer_ok_def configured_def intro!: lease_ok_upd split: timer.splits)
next
  case (lease_read l)
  then show ?case
    using lease_okD [OF lease_read.IH] by (auto simp: activity_def timer_ok_def intro!: lease_ok_upd)
next
  case (lease_expire l k)
  then show ?case
    using lease_okD [OF lease_expire.IH] unfolding expire_def by (intro lease_ok_upd) (auto simp: timer_ok_def)
next
  case (lease_store l k)
  then show ?case
    using lease_okD [OF lease_store.IH] unfolding store_flag_def by (intro lease_ok_upd) (auto simp: timer_ok_def)
next
  case (lease_cancel l k)
  let ?l = "l\<lparr>ltimers := (ltimers l)(k := (ltimers l k)\<lparr>tstored := tstored (ltimers l k) - 1\<rparr>)\<rparr>"
  have "lease_ok cfg idle ?l"
    using lease_cancel lease_okD [OF lease_cancel.IH] by (intro lease_ok_upd) (auto simp: timer_ok_def)
  moreover have "tfired (ltimers ?l k)" using lease_cancel lease_okD(1) [OF lease_cancel.IH, of k] by (simp add: timer_ok_def)
  ultimately show ?case using lease_ok_cancel [of cfg idle ?l k] by (simp add: cancel_lease_def)
next
  case (lease_gone l)
  then show ?case by (auto simp: lease_ok_def)
qed (simp add: end_lease_ok)

subsection \<open>Property\<close>

text \<open>
  C39: A cut stream can always be told why.  In every reachable state of a lease: when its
  context has been cancelled while neither the request's own context ended nor the attempt
  released the lease, the fired flag of some timer is set, and only of a timer that is
  configured; the idle flag is never set before the headers were accepted; and a released
  lease is cancelled and has no timer left that could fire.
\<close>

theorem cut_is_attributed:
  assumes "lease_reach cfg idle l"
  shows "(lcanceled l \<longrightarrow> lparent l \<or> lended l \<or> (\<exists>k. tfired (ltimers l k) \<and> configured cfg idle k)) \<and>
    (tfired (ltimers l Idle) \<longrightarrow> lheaders l \<and> idle > 0) \<and>
    (lended l \<longrightarrow> lcanceled l \<and> (\<forall>k. \<not> tarmed (ltimers l k)))"
proof -
  note ok = lease_invar [OF assms]
  note t = lease_okD(1) [OF ok]
  have "configured cfg idle k" if "tfired (ltimers l k)" for k using t [of k] that by (simp add: timer_ok_def)
  moreover have "\<not> tarmed (ltimers l k)" if "lended l" for k
    using t [of k] lease_okD(2) [OF ok that, of k] by (simp add: timer_ok_def)
  moreover have "lheaders l \<and> idle > 0" if "tfired (ltimers l Idle)"
    using lease_okD(4) [OF ok] t [of Idle] that by (auto simp: timer_ok_def configured_def)
  ultimately show ?thesis using ok by (auto simp: lease_ok_def)
qed

text \<open>The watchdog fires after the headers arrived: the context is cut and its flag is set.\<close>

definition demo_lease_config :: lease_config where
  "demo_lease_config = \<lparr>lcAttempt = 5, lcStream = 0\<rparr>"

definition demo_cut :: stream_lease where
  "demo_cut = cancel_lease Idle (store_flag Idle (expire Idle (activity (armIdle 3 (ttftPassed (beginStream demo_lease_config False))))))"

lemma demo_cut_reach: "lease_reach demo_lease_config 3 demo_cut"
proof -
  let ?b = "beginStream demo_lease_config False"
  have "lease_reach demo_lease_config 3 (activity (armIdle 3 (ttftPassed ?b)))"
    by (intro lease_read lease_commit lease_headers lease_begin) (simp_all add: ttftPassed_def stop_timer_def beginStream_def no_timer_def)
  then have "lease_reach demo_lease_config 3 (expire Idle (activity (armIdle 3 (ttftPassed ?b))))"
    by (rule lease_expire) (simp add: activity_def armIdle_def)
  then have "lease_reach demo_lease_config 3 (store_flag Idle (expire Idle (activity (armIdle 3 (ttftPassed ?b)))))"
    by (rule lease_store) (simp add: expire_def)
  then show ?thesis unfolding demo_cut_def by (rule lease_cancel) (simp add: store_flag_def)
qed

theorem cut_is_attributed_witness:
  "lcanceled demo_cut \<and> (\<exists>k. tfired (ltimers demo_cut k) \<and> configured demo_lease_config 3 k)"
proof -
  have "lcanceled demo_cut" "\<not> lparent demo_cut" "\<not> lended demo_cut" by code_simp+
  then show ?thesis using cut_is_attributed [OF demo_cut_reach] by simp
qed

end
