(* ===== verification/Cache_Admission.thy ===== *)
theory Cache_Admission
  imports Prelude "HOL-Library.Word"
begin

unbundle bit_operations_syntax

text \<open>
  The admission gate of the response cache (\<^verbatim>\<open>internal/cache/admission.go\<close>): a
  count-min sketch of 4-bit counters packed two to a byte, behind a doorkeeper bloom
  filter.  Bytes are 8-bit words and hashes 64-bit words, with Go's shifts, masks and
  wrapping products.  The key hash (\<open>maphash\<close>, seeded at start-up) is the caller's.
  The loop that sizes the sketch is a partial function into \<open>option\<close>: \<open>None\<close> would be
  a loop that never ends.
\<close>

definition sketchRows :: nat where "sketchRows = 4"
definition nibblemask :: "8 word" where "nibblemask = 0x77"
definition maxNibble :: "8 word" where "maxNibble = 15"
definition doorBitsPerKey :: int where "doorBitsPerKey = 10"
definition doorProbeCount :: nat where "doorProbeCount = 7"
definition maxTrackedKeys :: int where "maxTrackedKeys = 2097152"
definition golden :: "64 word" where "golden = 0x9E3779B97F4A7C15"

record admission =
  rows :: "8 word list list"
  seeds :: "64 word list"
  mask :: "64 word"
  door :: "8 word list"
  doorM :: "64 word"
  incrs :: int
  resetAt :: int

partial_function (option) grow_width :: "int \<Rightarrow> int \<Rightarrow> int option" where
  "grow_width w n = (if w < n then grow_width (i64 (2 * w)) n else Some w)"

declare grow_width.simps [code]

definition admissionWidth :: "int \<Rightarrow> int option" where
  "admissionWidth trackedKeys =
     (let n = (if trackedKeys > maxTrackedKeys then maxTrackedKeys else trackedKeys);
          n = (if n < 1 then 1 else n)
      in grow_width 1 n)"

definition newAdmission :: "int \<Rightarrow> admission option" where
  "newAdmission trackedKeys =
     map_option (\<lambda>width.
       \<lparr>rows = replicate sketchRows (replicate (nat ((width + 1) div 2)) 0),
        seeds = map (\<lambda>i. word_of_nat i * golden + 1) [0..<sketchRows],
        mask = word_of_int (width - 1),
        door = replicate (nat ((doorBitsPerKey * width + 7) div 8)) 0,
        doorM = word_of_int (doorBitsPerKey * width - 1),
        incrs = 0, resetAt = width\<rparr>) (admissionWidth trackedKeys)"

definition slot :: "admission \<Rightarrow> 64 word \<Rightarrow> nat \<Rightarrow> 64 word" where
  "slot a h row = (let x = (h XOR seeds a ! row) * golden in (x XOR drop_bit 31 x) AND mask a)"

definition nibble :: "64 word \<Rightarrow> 8 word list \<Rightarrow> 8 word" where
  "nibble idx row = drop_bit (unat ((idx AND 1) * 4)) (row ! unat (drop_bit 1 idx)) AND 15"

definition bump :: "64 word \<Rightarrow> 8 word list \<Rightarrow> 8 word list" where
  "bump idx row =
     (let shift = unat ((idx AND 1) * 4); cell = row ! unat (drop_bit 1 idx)
      in if drop_bit shift cell AND 15 < maxNibble
         then row[unat (drop_bit 1 idx) := cell + push_bit shift 1] else row)"

definition sketchIncrement :: "admission \<Rightarrow> 64 word \<Rightarrow> admission" where
  "sketchIncrement a h = a\<lparr>rows := map (\<lambda>i. bump (slot a h i) (rows a ! i)) [0..<length (rows a)]\<rparr>"

definition sketchHalve :: "admission \<Rightarrow> admission" where
  "sketchHalve a = a\<lparr>rows := map (map (\<lambda>cell. drop_bit 1 cell AND nibblemask)) (rows a)\<rparr>"

definition doorBit :: "admission \<Rightarrow> 64 word \<Rightarrow> 64 word \<Rightarrow> 64 word" where
  "doorBit a h probe = (h + probe * (drop_bit 32 h OR 1)) AND doorM a"

definition door_at :: "8 word list \<Rightarrow> 64 word \<Rightarrow> bool" where
  "door_at d b \<longleftrightarrow> d ! unat (drop_bit 3 b) AND push_bit (unat (b AND 7)) 1 \<noteq> 0"

definition door_set :: "8 word list \<Rightarrow> 64 word \<Rightarrow> 8 word list" where
  "door_set d b = d[unat (drop_bit 3 b) := d ! unat (drop_bit 3 b) OR push_bit (unat (b AND 7)) 1]"

definition door_probes :: "admission \<Rightarrow> 64 word \<Rightarrow> 64 word list" where
  "door_probes a h = map (\<lambda>i. doorBit a h (word_of_nat i)) [0..<doorProbeCount]"

definition doorHas :: "admission \<Rightarrow> 64 word \<Rightarrow> bool" where
  "doorHas a h \<longleftrightarrow> list_all (door_at (door a)) (door_probes a h)"

definition doorAdd :: "admission \<Rightarrow> 64 word \<Rightarrow> admission \<times> bool" where
  "doorAdd a h =
     (if list_all (door_at (door a)) (door_probes a h) then (a, True)
      else (a\<lparr>door := foldl door_set (door a) (door_probes a h)\<rparr>, False))"

definition doorReset :: "admission \<Rightarrow> admission" where
  "doorReset a = a\<lparr>door := map (\<lambda>_. 0) (door a)\<rparr>"

definition record_read :: "admission \<Rightarrow> 64 word \<Rightarrow> admission" where
  "record_read a h =
     (let (a1, present) = doorAdd a h;
          a2 = (if present then sketchIncrement a1 h else a1);
          a3 = a2\<lparr>incrs := incrs a2 + 1\<rparr>
      in if incrs a3 \<ge> resetAt a3 then sketchHalve (doorReset (a3\<lparr>incrs := 0\<rparr>)) else a3)"

definition estimateLocked :: "admission \<Rightarrow> 64 word \<Rightarrow> int" where
  "estimateLocked a h =
     (let floor = foldl (\<lambda>floor i. let v = nibble (slot a h i) (rows a ! i) in if v < floor then v else floor)
                    maxNibble [0..<length (rows a)]
      in uint (if doorHas a h then floor + 1 else floor))"

subsection \<open>Packed counters\<close>

text \<open>The value of one 4-bit counter of a row, as a number.\<close>

definition counter :: "8 word list \<Rightarrow> nat \<Rightarrow> nat" where
  "counter row j = (if even j then unat (row ! (j div 2)) mod 16 else unat (row ! (j div 2)) div 16)"

lemma byte_lt: "unat (c :: 8 word) < 256"
  using unsigned_less [of c, where 'a = nat] by simp

lemma shift_of: "unat (((idx :: 64 word) AND 1) * 4) = (if even (unat idx) then 0 else 4)"
proof -
  have "unat (idx AND 1) = unat idx mod 2" by (subst unsigned_and_eq) (simp add: and_one_eq)
  then have "idx AND 1 = word_of_nat (unat idx mod 2)"
    using of_nat_unat [of "idx AND 1", where 'a = "64 word"] by (simp add: unsigned_of_nat)
  then show ?thesis by (cases "even (unat idx)") (simp_all add: odd_iff_mod_2_eq_one)
qed

lemma half_of: "unat (drop_bit 1 (idx :: 64 word)) = unat idx div 2"
  by (subst unat_drop_bit_eq) (simp add: drop_bit_eq_div)

lemmas half_simps = half_of half_of [unfolded One_nat_def]

lemma and_mod: "(n :: nat) AND (2 ^ k - 1) = n mod 2 ^ k"
  using take_bit_eq_mask [of k n] by (simp add: take_bit_eq_mod mask_eq_exp_minus_1)

lemma low_nibble: "unat (c AND 15 :: 8 word) = unat c mod 16"
  using and_mod [of "unat c" 4] by (simp add: unsigned_and_eq)

lemma high_nibble: "unat (drop_bit 4 (c :: 8 word) AND 15) = unat c div 16"
proof -
  have "unat c div 16 < 16" using byte_lt [of c] by linarith
  then show ?thesis by (subst low_nibble, subst unat_drop_bit_eq) (simp add: drop_bit_eq_div)
qed

lemma nibble_counter: "unat (nibble idx row) = counter row (unat idx)"
  using low_nibble high_nibble by (simp add: nibble_def shift_of half_simps counter_def)

lemma counter_lt: "counter row j \<le> 15"
  unfolding counter_def using byte_lt [of "row ! (j div 2)"] by (auto simp: less_mult_imp_div_less)

lemma counter_bump:
  assumes "unat idx div 2 < length row"
  shows "counter (bump idx row) j = (if j = unat idx then min 15 (counter row j + 1) else counter row j)"
proof -
  define c where "c = row ! (unat idx div 2)"
  have lt: "drop_bit (unat ((idx AND 1) * 4)) c AND 15 < maxNibble \<longleftrightarrow> counter row (unat idx) < 15"
    using low_nibble [of c] high_nibble [of c]
    by (simp add: shift_of word_less_nat_alt maxNibble_def counter_def c_def)
  have sum: "unat (c + push_bit (unat ((idx AND 1) * 4)) 1) = unat c + (if even (unat idx) then 1 else 16)"
    if "counter row (unat idx) < 15"
  proof -
    have "unat c + (if even (unat idx) then 1 else 16) < 256"
      using that byte_lt [of c] by (auto simp: counter_def c_def split: if_splits) presburger+
    moreover have "unat (push_bit (if even (unat idx) then 0 else 4) 1 :: 8 word) = (if even (unat idx) then 1 else 16)"
      by (simp add: push_bit_eq_mult)
    ultimately show ?thesis unfolding shift_of unat_word_ariths(1) by simp
  qed
  show ?thesis
  proof (cases "counter row (unat idx) < 15")
    case True
    let ?r = "row[unat idx div 2 := c + push_bit (unat ((idx AND 1) * 4)) 1]"
    have "bump idx row = ?r" using True lt unfolding bump_def Let_def half_of c_def by simp
    moreover have "counter ?r j = counter row j" if "j \<noteq> unat idx"
    proof (cases "j div 2 = unat idx div 2")
      case same: True
      then have "even j \<longleftrightarrow> odd (unat idx)" using that by presburger
      moreover have "Suc n div 16 = n div 16" if "n mod 16 < 15" for n :: nat using that by (simp add: div_Suc mod_Suc)
      ultimately show ?thesis
        using same sum [OF True] True assms
        by (auto simp: counter_def c_def split: if_splits)
    qed (simp add: counter_def)
    moreover have "counter ?r (unat idx) = counter row (unat idx) + 1"
      using sum [OF True] True assms by (auto simp: counter_def c_def mod_Suc split: if_splits)
    ultimately show ?thesis using True by auto
  next
    case False
    then have "counter row (unat idx) = 15" using counter_lt [of row "unat idx"] by simp
    moreover have "bump idx row = row" using False lt unfolding bump_def Let_def half_of c_def by simp
    ultimately show ?thesis by simp
  qed
qed

lemma counter_halve:
  assumes "j div 2 < length row"
  shows "counter (map (\<lambda>cell. drop_bit 1 cell AND nibblemask) row) j = counter row j div 2"
proof -
  define c where "c = row ! (j div 2)"
  have "unat (drop_bit 1 c AND nibblemask) = unat c div 2 AND 119"
    by (simp only: nibblemask_def unsigned_and_eq unat_drop_bit_eq) (simp add: drop_bit_eq_div)
  moreover have "(n AND 119) mod 16 = n mod 8" for n :: nat
  proof -
    have "(n AND 119) mod 16 = n AND (119 AND 15)"
      using and_mod [of "n AND 119" 4] by (simp add: and.assoc)
    then show ?thesis using and_mod [of n 3] by simp
  qed
  moreover have "(n AND 119) div 16 = n div 16 mod 8" for n :: nat
  proof -
    have "(n AND 119) div 16 = drop_bit 4 (n AND 119)" by (simp add: drop_bit_eq_div)
    also have "\<dots> = n div 16 AND drop_bit 4 119" by (simp only: drop_bit_and) (simp add: drop_bit_eq_div)
    finally show ?thesis using and_mod [of "n div 16" 3] by (simp add: drop_bit_eq_div)
  qed
  moreover have "n div 2 mod 8 = n mod 16 div 2" for n :: nat using mod_mult2_eq [of n 2 8] by simp
  moreover have "n div 2 div 16 mod 8 = n div 16 div 2" if "n < 256" for n :: nat
    using that div_mult2_eq [of n 2 16] div_mult2_eq [of n 16 2] by (simp add: less_mult_imp_div_less)
  moreover note byte_lt [of c]
  ultimately show ?thesis using assms by (simp add: counter_def c_def)
qed

subsection \<open>The doorkeeper's bits\<close>

lemma door_at_bit: "door_at d b \<longleftrightarrow> bit (d ! (unat b div 8)) (unat b mod 8)"
proof -
  have "unat (b AND 7) = unat b mod 8"
    using and_mod [of "unat b" 3] by (simp add: unsigned_and_eq)
  moreover have "unat (drop_bit 3 b) = unat b div 8"
    by (subst unat_drop_bit_eq) (simp add: drop_bit_eq_div)
  ultimately show ?thesis
    by (simp only: door_at_def bit_iff_and_push_bit_not_eq_0)
qed

lemma door_set_at:
  assumes "unat b div 8 < length d"
  shows "door_at (door_set d b) b" "door_at d c \<Longrightarrow> door_at (door_set d b) c"
proof -
  have m: "unat (b AND 7) = unat b mod 8" using and_mod [of "unat b" 3] by (simp add: unsigned_and_eq)
  have "unat (drop_bit 3 b) = unat b div 8"
    by (subst unat_drop_bit_eq) (simp add: drop_bit_eq_div)
  then have s: "door_set d b = d[unat b div 8 := d ! (unat b div 8) OR push_bit (unat b mod 8) 1]"
    by (simp only: door_set_def m)
  have "unat b mod 8 < 8" by simp
  then show "door_at (door_set d b) b"
    unfolding door_at_bit s using assms by (simp add: bit_or_iff bit_exp_iff)
  show "door_at d c \<Longrightarrow> door_at (door_set d b) c"
    unfolding door_at_bit s using assms by (cases "unat c div 8 = unat b div 8") (auto simp: bit_or_iff)
qed

lemma door_set_all:
  "\<forall>b \<in> set bs. unat b div 8 < length d \<Longrightarrow> door_at d c \<or> c \<in> set bs \<Longrightarrow> door_at (foldl door_set d bs) c"
proof (induction bs arbitrary: d)
  case (Cons b bs)
  have "length (door_set d b) = length d" by (simp add: door_set_def)
  then show ?case using Cons door_set_at [of b d] by auto
qed simp

subsection \<open>The gate within one epoch\<close>

definition adm_ok :: "admission \<Rightarrow> bool" where
  "adm_ok a \<longleftrightarrow> length (rows a) = sketchRows \<and> (\<forall>row \<in> set (rows a). unat (mask a) div 2 < length row) \<and>
     unat (doorM a) div 8 < length (door a)"

definition same_shape :: "admission \<Rightarrow> admission \<Rightarrow> bool" where
  "same_shape a b \<longleftrightarrow> mask b = mask a \<and> seeds b = seeds a \<and> doorM b = doorM a \<and> resetAt b = resetAt a"

lemma slot_bound: "unat (slot a h i) \<le> unat (mask a)"
  by (simp add: slot_def Let_def word_and_le1 flip: word_le_nat_alt)

lemma probe_bound: "adm_ok a \<Longrightarrow> b \<in> set (door_probes a h) \<Longrightarrow> unat b div 8 < length (door a)"
proof -
  assume "adm_ok a" "b \<in> set (door_probes a h)"
  then have "b \<le> doorM a" "unat (doorM a) div 8 < length (door a)"
    by (auto simp: door_probes_def doorBit_def adm_ok_def word_and_le1)
  then show ?thesis by (meson div_le_mono le_less_trans word_le_nat_alt)
qed

lemma slot_same: "same_shape a b \<Longrightarrow> slot b h i = slot a h i"
  by (simp add: same_shape_def slot_def)

lemma probes_same: "same_shape a b \<Longrightarrow> door_probes b h = door_probes a h"
  by (simp add: same_shape_def door_probes_def doorBit_def)

definition level :: "admission \<Rightarrow> 64 word \<Rightarrow> nat \<Rightarrow> nat" where
  "level a h i = counter (rows a ! i) (unat (slot a h i))"

text \<open>One read that does not end the epoch.\<close>

lemma record_read_step:
  assumes "adm_ok a" and "incrs a + 1 < resetAt a" and b_def: "b = record_read a h"
  shows "adm_ok b \<and> same_shape a b \<and> incrs b = incrs a + 1 \<and> doorHas b h \<and>
    (doorHas a g \<longrightarrow> doorHas b g) \<and> (i < sketchRows \<longrightarrow> level a g i \<le> level b g i) \<and>
    (i < sketchRows \<longrightarrow> doorHas a h \<longrightarrow> level b h i = min 15 (level a h i + 1))"
proof (cases "doorHas a h")
  case True
  then have b: "b = (sketchIncrement a h)\<lparr>incrs := incrs a + 1\<rparr>"
    using assms(2) by (simp add: b_def record_read_def doorAdd_def doorHas_def sketchIncrement_def)
  have shape: "same_shape a b" "door b = door a" by (simp_all add: b same_shape_def sketchIncrement_def)
  have len: "length (bump idx row) = length row" for idx row by (simp add: bump_def Let_def)
  have ok: "adm_ok b"
    using assms(1) by (auto simp: adm_ok_def b sketchIncrement_def len)
  have lev: "level b g i = (if slot a g i = slot a h i then min 15 (level a g i + 1) else level a g i)"
    if "i < sketchRows" for g i
  proof -
    have row: "rows a ! i \<in> set (rows a)" "i < length (rows a)" using that assms(1) by (simp_all add: adm_ok_def)
    then have lt: "unat (slot a h i) div 2 < length (rows a ! i)"
      using assms(1) slot_bound [of a h i] by (meson adm_ok_def div_le_mono le_less_trans)
    have "rows b ! i = bump (slot a h i) (rows a ! i)"
      using row(2) by (simp add: b sketchIncrement_def)
    then show ?thesis
      unfolding level_def slot_same [OF shape(1)] by (simp only: counter_bump [OF lt] word_unat_eq_iff)
  qed
  have "doorHas b g = doorHas a g" for g
    by (simp add: doorHas_def probes_same [OF shape(1)] shape(2))
  moreover have "level a g i \<le> min 15 (level a g i + 1)" for g i
    using counter_lt [of "rows a ! i" "unat (slot a g i)"] unfolding level_def by linarith
  moreover have "incrs b = incrs a + 1" by (simp add: b)
  ultimately show ?thesis using True ok shape(1) lev by simp
next
  case False
  then have b: "b = a\<lparr>door := foldl door_set (door a) (door_probes a h), incrs := incrs a + 1\<rparr>"
    using assms(2) by (simp add: b_def record_read_def doorAdd_def doorHas_def)
  have len: "length (foldl door_set d bs) = length d" for d bs
    by (induction bs arbitrary: d) (simp_all add: door_set_def)
  have shape: "same_shape a b" "rows b = rows a" by (simp_all add: b same_shape_def)
  have "adm_ok b" using assms(1) by (simp add: adm_ok_def b len)
  moreover have "doorHas b g" if "doorHas a g \<or> g = h" for g
    unfolding doorHas_def probes_same [OF shape(1)]
    using that door_set_all [of "door_probes a h" "door a"] probe_bound [OF assms(1)]
    by (auto simp: b list_all_iff doorHas_def)
  moreover have "level b g i = level a g i" for g i
    by (simp add: level_def slot_same [OF shape(1)] shape(2))
  ultimately show ?thesis using False shape(1) by (simp add: b)
qed

lemma reads_in_epoch:
  assumes "adm_ok a" and "incrs a + int (length hs) < resetAt a" and "b = foldl record_read a hs"
  shows "adm_ok b \<and> same_shape a b \<and> incrs b = incrs a + int (length hs) \<and>
    (0 < count_list hs h \<longrightarrow> doorHas b h) \<and>
    (\<forall>i < sketchRows. min 15 (count_list hs h - 1) \<le> level b h i)"
  using assms(2,3)
proof (induction hs arbitrary: b rule: rev_induct)
  case Nil
  then show ?case using assms(1) by (simp add: same_shape_def)
next
  case (snoc x hs)
  define c where "c = foldl record_read a hs"
  have IH: "adm_ok c" "same_shape a c" "incrs c = incrs a + int (length hs)"
    "0 < count_list hs h \<Longrightarrow> doorHas c h" "\<And>i. i < sketchRows \<Longrightarrow> min 15 (count_list hs h - 1) \<le> level c h i"
    using snoc.IH [OF _ c_def] snoc.prems(1) by simp_all
  have b: "b = record_read c x" using snoc.prems(2) by (simp add: c_def)
  have "incrs c + 1 < resetAt c" using IH(2,3) snoc.prems(1) by (simp add: same_shape_def)
  note step = record_read_step [OF IH(1) this b]
  have "min 15 (count_list (hs @ [x]) h - 1) \<le> level b h i" if "i < sketchRows" for i
  proof (cases "x = h \<and> 0 < count_list hs h")
    case True
    then have x: "x = h" "doorHas c x" using IH(4) by blast+
    have "level b x i = min 15 (level c x i + 1)" using step [of x i] x(2) that by blast
    moreover have "count_list (hs @ [x]) h - 1 = count_list hs h" using x(1) by simp
    ultimately show ?thesis using IH(5) [OF that] True unfolding x(1) by linarith
  next
    case False
    then have "count_list (hs @ [x]) h - 1 = count_list hs h - 1" by auto
    moreover have "level c h i \<le> level b h i" using step [of h i] that by blast
    ultimately show ?thesis using IH(5) [OF that] by linarith
  qed
  moreover have "doorHas b h" if "0 < count_list (hs @ [x]) h"
    using that step [of h] IH(4) by (cases "x = h") auto
  moreover have "same_shape a b" using step IH(2) by (simp add: same_shape_def)
  ultimately show ?case using step IH(3) by simp
qed

lemma floor_fold:
  fixes g :: "nat \<Rightarrow> 8 word"
  assumes "k \<le> unat m" and "\<forall>i \<in> set is. k \<le> unat (g i)"
  shows "k \<le> unat (foldl (\<lambda>f i. let v = g i in if v < f then v else f) m is) \<and>
    unat (foldl (\<lambda>f i. let v = g i in if v < f then v else f) m is) \<le> unat m"
  using assms
proof (induction "is" arbitrary: m)
  case (Cons i "is")
  define m' where "m' = (if g i < m then g i else m)"
  have "k \<le> unat m'" "unat m' \<le> unat m" using Cons.prems by (auto simp: m'_def word_less_nat_alt)
  then show ?case using Cons.IH [of m'] Cons.prems(2) by (simp add: Let_def m'_def [symmetric])
qed simp

lemma estimate_bounds:
  assumes "\<forall>i < length (rows a). k \<le> level a h i" and "k \<le> 15"
  shows "int k + (if doorHas a h then 1 else 0) \<le> estimateLocked a h \<and> estimateLocked a h \<le> 16"
proof -
  define f where "f = foldl (\<lambda>f i. let v = nibble (slot a h i) (rows a ! i) in if v < f then v else f)
      maxNibble [0..<length (rows a)]"
  have "k \<le> unat f \<and> unat f \<le> unat maxNibble"
    unfolding f_def using assms
    by (intro floor_fold) (auto simp: maxNibble_def nibble_counter level_def)
  then have f: "k \<le> unat f" "unat f \<le> 15" by (simp_all add: maxNibble_def)
  then have "unat (f + 1) = unat f + 1" by (simp add: unat_word_ariths)
  moreover have "estimateLocked a h = int (unat (if doorHas a h then f + 1 else f))"
    by (simp only: estimateLocked_def f_def Let_def uint_nat)
  ultimately show ?thesis using f by (cases "doorHas a h"; simp only: if_True if_False; linarith)
qed

subsection \<open>The width of the sketch\<close>

lemma grow_width_finds:
  assumes "k \<le> 21" and "n \<le> 2 ^ 21" and "1 \<le> n" and "k = 0 \<or> 2 ^ (k - 1) < n"
  shows "\<exists>m \<le> 21. grow_width (2 ^ k) n = Some (2 ^ m) \<and> n \<le> 2 ^ m \<and> 2 ^ m < 2 * n"
  using assms
proof (induction "21 - k" arbitrary: k)
  case 0
  then have "k = 21" by simp
  then show ?case using 0 by (auto simp: grow_width.simps [of "2097152"])
next
  case (Suc d)
  show ?case
  proof (cases "(2 :: int) ^ k < n")
    case True
    have "(2 :: int) ^ Suc k \<le> 2 ^ 21" using Suc by (intro power_increasing) simp_all
    then have "i64 (2 * 2 ^ k) = 2 ^ Suc k"
      by (subst i64_in_range) (auto simp: MaxInt64_def intro!: in64_nonneg)
    then show ?thesis
      using Suc.hyps(1) [of "Suc k"] Suc.hyps(2) Suc.prems True by (simp add: grow_width.simps [of "2 ^ k"])
  next
    case False
    then have "grow_width (2 ^ k) n = Some (2 ^ k)" by (simp add: grow_width.simps [of "2 ^ k"])
    moreover have "(2 :: int) ^ k < 2 * n"
      using Suc.prems(3,4) by (cases k) auto
    ultimately show ?thesis using False Suc.prems(1) by auto
  qed
qed

lemma grow_width_zero: "0 < n \<Longrightarrow> grow_width 0 n = None"
proof -
  have "w = 0 \<Longrightarrow> n \<le> 0" if "grow_width w n = Some r" for w n r
    using grow_width.raw_induct [of "\<lambda>w n r. w = 0 \<longrightarrow> n \<le> 0" w n r] that
    by (auto split: if_splits simp: i64_def)
  then show "0 < n \<Longrightarrow> grow_width 0 n = None" by (metis not_le option.exhaust)
qed

lemma grow_width_unrepresentable:
  assumes "k \<le> 62" and "2 ^ 62 < n"
  shows "grow_width (2 ^ k) n = None"
  using assms(1)
proof (induction "62 - k" arbitrary: k)
  case 0
  then have "k = 62" by simp
  have "i64 (2 * 2 ^ 62) = - (2 ^ 63)" "i64 (2 * - (2 ^ 63)) = 0" by (simp_all add: i64_def)
  then have "grow_width (2 ^ 62) n = grow_width 0 n"
    using assms(2) by (simp add: grow_width.simps [of "4611686018427387904"] grow_width.simps [of "- 9223372036854775808"])
  then show ?case using grow_width_zero assms(2) \<open>k = 62\<close> by simp
next
  case (Suc d)
  have le: "(2 :: int) ^ Suc k \<le> 2 ^ 62" using Suc by (intro power_increasing) simp_all
  then have "(2 :: int) ^ k < n" using assms(2) by simp
  moreover have "i64 (2 * 2 ^ k) = 2 ^ Suc k"
    using le by (subst i64_in_range) (auto simp: MaxInt64_def intro!: in64_nonneg)
  ultimately show ?case
    using Suc.hyps(1) [of "Suc k"] Suc.hyps(2) by (simp add: grow_width.simps [of "2 ^ k"])
qed

lemma admissionWidth_clamp: "admissionWidth n = grow_width 1 (max 1 (min n maxTrackedKeys))"
  by (simp add: admissionWidth_def Let_def max_def min_def maxTrackedKeys_def)

lemma admissionWidth_finds:
  "\<exists>m \<le> 21. admissionWidth n = Some (2 ^ m) \<and> max 1 (min n maxTrackedKeys) \<le> 2 ^ m \<and>
     2 ^ m < 2 * max 1 (min n maxTrackedKeys)"
  unfolding admissionWidth_clamp
  using grow_width_finds [of 0 "max 1 (min n maxTrackedKeys)"] by (simp add: maxTrackedKeys_def)

lemma newAdmission_ok:
  assumes "newAdmission n = Some a"
  shows "adm_ok a \<and> incrs a = 0 \<and> 0 < resetAt a"
proof -
  obtain m where m: "m \<le> 21" "admissionWidth n = Some (2 ^ m)"
    using admissionWidth_finds [of n] by blast
  define w :: int where "w = 2 ^ m"
  have "w \<le> 2 ^ 21" unfolding w_def using m(1) by (intro power_increasing) simp_all
  then have w: "1 \<le> w" "w \<le> 2097152" by (simp_all add: w_def)
  have u: "unat (word_of_int k :: 64 word) = nat k" if "0 \<le> k" "k < 2 ^ 64" for k
    using that by (simp add: unat_eq_nat_uint uint_word_of_int)
  have "unat (word_of_int (w - 1) :: 64 word) = nat (w - 1)" using w by (intro u) simp_all
  moreover have "unat (word_of_int (10 * w - 1) :: 64 word) = nat (10 * w - 1)" using w by (intro u) simp_all
  moreover have "nat (x - 1) div k < nat ((x - 1 + int k) div int k)" if "1 \<le> x" "0 < k" for x k
  proof -
    have "nat (x - 1) div k = nat ((x - 1) div int k)" using that by (simp add: nat_div_distrib)
    moreover have "(x - 1 + int k) div int k = (x - 1) div int k + 1" using that by simp
    moreover have "0 \<le> (x - 1) div int k" using that by (simp add: pos_imp_zdiv_nonneg_iff)
    ultimately show ?thesis by simp
  qed
  from this [of w 2] this [of "10 * w" 8]
  have "nat (w - 1) div 2 < nat ((w + 1) div 2)" "nat (10 * w - 1) div 8 < nat ((10 * w + 7) div 8)"
    using w by (simp_all add: add.commute)
  moreover have "rows a = replicate sketchRows (replicate (nat ((w + 1) div 2)) 0)"
    "mask a = word_of_int (w - 1)" "door a = replicate (nat ((10 * w + 7) div 8)) 0"
    "doorM a = word_of_int (10 * w - 1)" "incrs a = 0" "resetAt a = w"
    using assms unfolding newAdmission_def m(2) w_def [symmetric] doorBitsPerKey_def by auto
  ultimately show ?thesis using w(1) by (simp add: adm_ok_def)
qed

subsection \<open>Properties\<close>

text \<open>
  C32: sizing the gate always returns.  For every budget, negative or past the ceiling,
  the doubling loop ends at the least power of two that covers the clamped budget, at
  most 2^21; without the clamp a budget above 2^62 would make the width wrap to zero and
  the loop would never end.
\<close>

theorem admission_width_terminates:
  "(\<exists>m \<le> 21. admissionWidth n = Some (2 ^ m) \<and> max 1 (min n maxTrackedKeys) \<le> 2 ^ m \<and>
      2 ^ m < 2 * max 1 (min n maxTrackedKeys)) \<and>
   (2 ^ 62 < n \<longrightarrow> grow_width 1 n = None)"
  using admissionWidth_finds [of n] grow_width_unrepresentable [of 0 n] by simp

theorem admission_width_terminates_witness: "grow_width 1 (2 ^ 62 + 1) = None"
  using admission_width_terminates [of "2 ^ 62 + 1"] by simp

text \<open>
  C31: within an epoch the gate never underestimates.  Whatever other keys are read in
  between, a key read \<open>k\<close> times since the last decay is estimated at least \<open>k\<close>, up to the
  ceiling of 16 the packed counters saturate at; no estimate exceeds it, so no counter
  ever wraps.
\<close>

theorem gate_never_underestimates:
  assumes "adm_ok a" and "incrs a + int (length hs) < resetAt a"
  shows "min 16 (int (count_list hs h)) \<le> estimateLocked (foldl record_read a hs) h \<and>
    estimateLocked (foldl record_read a hs) h \<le> 16"
proof -
  let ?b = "foldl record_read a hs"
  note e = reads_in_epoch [OF assms refl, of h]
  have "\<forall>i < length (rows ?b). min 15 (count_list hs h - 1) \<le> level ?b h i"
    using e by (simp add: adm_ok_def)
  note b = estimate_bounds [OF this]
  show ?thesis
  proof (cases "0 < count_list hs h")
    case True
    then have "doorHas ?b h" using e by simp
    then have "int (min 15 (count_list hs h - 1)) + 1 \<le> estimateLocked ?b h" "estimateLocked ?b h \<le> 16"
      using b by simp_all
    moreover have "min 16 (int (count_list hs h)) = int (min 15 (count_list hs h - 1)) + 1"
      using True by (cases "count_list hs h") auto
    ultimately show ?thesis by linarith
  next
    case False
    then show ?thesis using b by (auto split: if_splits)
  qed
qed

definition demo_gate :: admission where
  "demo_gate = \<lparr>rows = replicate 4 [0, 0], seeds = [1, 2, 3, 4], mask = 3, door = [0, 0, 0, 0, 0],
     doorM = 39, incrs = 0, resetAt = 4\<rparr>"

theorem gate_never_underestimates_witness:
  "2 \<le> estimateLocked (foldl record_read demo_gate [7, 5, 7]) 7"
proof -
  have "adm_ok demo_gate" "incrs demo_gate + int (length [7, 5, 7]) < resetAt demo_gate"
    by (simp_all add: demo_gate_def adm_ok_def sketchRows_def)
  from gate_never_underestimates [OF this, of 7] show ?thesis by simp
qed

end
