(* ===== verification/Cache.thy ===== *)
theory Cache
  imports Cache_Admission Float64 "HOL-Library.AList" "HOL-Library.Multiset"
begin

text \<open>
  The in-process response cache (\<^verbatim>\<open>internal/cache/memory.go\<close>, \<^verbatim>\<open>cache.go\<close>) and what
  may be cached (\<^verbatim>\<open>eligibility.go\<close>).

  The entry map is an association list with distinct keys.  Go ranges over it in an
  arbitrary order: \<open>iter\<close> is that order, as a function of the keys.  The key hash of the
  admission gate is \<open>hash\<close>, the jitter draw \<open>r\<close> is what \<open>rand.Float64\<close> returned, and
  the TTL arithmetic is float64.  Entries are values, so the private copies of the
  source are the entries themselves.
\<close>

record cache_entry =
  estatus :: int
  eheader :: "string \<rightharpoonup> string"
  ebody :: string

record mem_entry =
  mentry :: cache_entry
  mexpires :: instant

record mem_cache =
  centries :: "(string \<times> mem_entry) list"
  cmax :: int
  sweepAt :: instant
  jitterFraction :: rat
  cgate :: admission

definition sweepInterval :: duration where "sweepInterval = Second"
definition admissionKeysPerEntry :: int where "admissionKeysPerEntry = 8"

definition trackedKeyBudget :: "int \<Rightarrow> int" where
  "trackedKeyBudget capacity =
     (if capacity > maxTrackedKeys div admissionKeysPerEntry then maxTrackedKeys
      else capacity * admissionKeysPerEntry)"

definition NewMemCache :: "int option \<Rightarrow> mem_cache option" where
  "NewMemCache capacity =
     (let m = (case capacity of Some n \<Rightarrow> if n \<ge> 1 then n else 1024 | None \<Rightarrow> 1024)
      in map_option (\<lambda>gate. \<lparr>centries = [], cmax = m, sweepAt = 0, jitterFraction = fl (1 / 10), cgate = gate\<rparr>)
           (newAdmission (trackedKeyBudget m)))"

definition cache_Get ::
  "(string \<Rightarrow> 64 word) \<Rightarrow> mem_cache \<Rightarrow> string \<Rightarrow> instant \<Rightarrow> mem_cache \<times> cache_entry option" where
  "cache_Get hash c key t =
     (c\<lparr>cgate := record_read (cgate c) (hash key)\<rparr>,
      case map_of (centries c) key of
        None \<Rightarrow> None
      | Some me \<Rightarrow> if \<not> t < mexpires me then None else Some (mentry me))"

text \<open>Conversion of a float to an integer type truncates towards zero.\<close>

definition trunc_float :: "rat \<Rightarrow> int" where
  "trunc_float x = (if 0 \<le> x then \<lfloor>x\<rfloor> else \<lceil>x\<rceil>)"

definition jitter_ttl :: "rat \<Rightarrow> duration \<Rightarrow> rat \<Rightarrow> duration" where
  "jitter_ttl fraction baseTTL r =
     (let jitter = fl (1 + fl (fl (fl (2 * r) - 1) * fraction));
          scaled = fl (f64 baseTTL * jitter);
          d = trunc_float scaled
      in if scaled \<ge> f64 MaxInt64 then MaxInt64
         else if d < Millisecond then Millisecond else d)"

definition cache_sweep :: "mem_cache \<Rightarrow> instant \<Rightarrow> mem_cache" where
  "cache_sweep c t = c\<lparr>centries := filter (\<lambda>(key, me). t < mexpires me) (centries c)\<rparr>"

fun sample_victim ::
  "(string \<Rightarrow> 64 word) \<Rightarrow> admission \<Rightarrow> string \<times> int \<Rightarrow> string list \<Rightarrow> string \<times> int" where
  "sample_victim hash gate best [] = best"
| "sample_victim hash gate (victim, victimEstimate) (candidate # cs) =
     (let est = estimateLocked gate (hash candidate)
      in sample_victim hash gate
           (if victimEstimate < 0 \<or> est < victimEstimate then (candidate, est) else (victim, victimEstimate)) cs)"

definition admitLocked ::
  "(string \<Rightarrow> 64 word) \<Rightarrow> (string list \<Rightarrow> string list) \<Rightarrow> mem_cache \<Rightarrow> string \<Rightarrow> mem_cache \<times> bool" where
  "admitLocked hash iter c key =
     (let incoming = estimateLocked (cgate c) (hash key);
          (victim, victimEstimate) =
            sample_victim hash (cgate c) ('''', -1) (take 5 (iter (map fst (centries c))))
      in if incoming < victimEstimate then (c, False)
         else (c\<lparr>centries := AList.delete victim (centries c)\<rparr>, True))"

definition cache_Set ::
  "(string \<Rightarrow> 64 word) \<Rightarrow> (string list \<Rightarrow> string list) \<Rightarrow> rat \<Rightarrow> mem_cache \<Rightarrow> string \<Rightarrow> cache_entry \<Rightarrow>
   duration \<Rightarrow> instant \<Rightarrow> mem_cache" where
  "cache_Set hash iter r c key entry baseTTL t =
     (if baseTTL \<le> 0 then c
      else let d = jitter_ttl (jitterFraction c) baseTTL r;
               c1 = (if is_zero (sweepAt c) \<or> \<not> sweepAt c > t
                     then (cache_sweep c t)\<lparr>sweepAt := t + sweepInterval\<rparr> else c);
               (c2, ok) = (if map_of (centries c1) key = None \<and> int (length (centries c1)) \<ge> cmax c1
                           then admitLocked hash iter c1 key else (c1, True))
           in if \<not> ok then c2
              else c2\<lparr>centries := AList.update key \<lparr>mentry = entry, mexpires = t + d\<rparr> (centries c2)\<rparr>)"

subsection \<open>Eligibility\<close>

record sampling =
  stemperature :: "rat option"
  stopP :: "rat option"
  sn :: "int option"

definition cache_Eligible :: "sampling \<Rightarrow> bool" where
  "cache_Eligible req =
     (if stemperature req = None \<or> the (stemperature req) \<noteq> 0 then False
      else if stopP req \<noteq> None \<and> the (stopP req) \<noteq> 1 then False
      else if sn req \<noteq> None \<and> the (sn req) \<noteq> 1 then False
      else True)"

subsection \<open>The eviction sample\<close>

lemma sample_victim_min:
  assumes "\<forall>k \<in> set cs. 0 \<le> estimateLocked gate (hash k)"
    and "sample_victim hash gate (v, e) cs = (v', e')"
  shows "(e < 0 \<and> cs = [] \<longrightarrow> v' = v \<and> e' = e) \<and> (0 \<le> e \<longrightarrow> e' \<le> e \<and> 0 \<le> e') \<and>
    (\<forall>k \<in> set cs. e' \<le> estimateLocked gate (hash k)) \<and>
    (cs \<noteq> [] \<longrightarrow> 0 \<le> e') \<and>
    ((v' = v \<and> e' = e) \<or> v' \<in> set cs \<and> e' = estimateLocked gate (hash v'))"
  using assms
proof (induction cs arbitrary: v e)
  case (Cons k cs)
  let ?e = "estimateLocked gate (hash k)"
  have k: "0 \<le> ?e" using Cons.prems(1) by simp
  show ?case
  proof (cases "e < 0 \<or> ?e < e")
    case True
    then have "sample_victim hash gate (k, ?e) cs = (v', e')" using Cons.prems(2) by (simp add: Let_def)
    from Cons.IH [OF _ this] show ?thesis using k True Cons.prems(1) by auto
  next
    case False
    then have "sample_victim hash gate (v, e) cs = (v', e')" using Cons.prems(2) by (simp add: Let_def)
    from Cons.IH [OF _ this] show ?thesis using k False Cons.prems(1) by auto
  qed
qed simp

lemma estimate_nonneg: "0 \<le> estimateLocked a h"
  by (simp add: estimateLocked_def Let_def)

lemma admit_verdict:
  assumes "set (iter (map fst (centries c))) = fst ` set (centries c)" and "centries c \<noteq> []"
    and "admitLocked hash iter c key = (c', ok)"
  shows "\<exists>victim \<in> fst ` set (centries c).
    (\<forall>k \<in> set (take 5 (iter (map fst (centries c)))).
       estimateLocked (cgate c) (hash victim) \<le> estimateLocked (cgate c) (hash k)) \<and>
    (ok \<longleftrightarrow> estimateLocked (cgate c) (hash victim) \<le> estimateLocked (cgate c) (hash key)) \<and>
    c' = (if ok then c\<lparr>centries := AList.delete victim (centries c)\<rparr> else c)"
proof -
  let ?cs = "take 5 (iter (map fst (centries c)))"
  obtain v e where s: "sample_victim hash (cgate c) ('''', -1) ?cs = (v, e)" by fastforce
  have "iter (map fst (centries c)) \<noteq> []" using assms(1,2) by auto
  then have "?cs \<noteq> []" by simp
  then have "v \<in> set ?cs" "e = estimateLocked (cgate c) (hash v)"
    "\<forall>k \<in> set ?cs. e \<le> estimateLocked (cgate c) (hash k)"
    using sample_victim_min [OF _ s] estimate_nonneg by auto
  moreover have "v \<in> fst ` set (centries c)" using calculation(1) assms(1) by (auto dest: in_set_takeD)
  ultimately show ?thesis
    using assms(3) s by (intro bexI [of _ v]) (auto simp: admitLocked_def Let_def split: if_splits)
qed

subsection \<open>Histories and the store they specify\<close>

datatype cache_call =
    CallGet string instant
  | CallSet rat string cache_entry duration instant

fun cache_step :: "(string \<Rightarrow> 64 word) \<Rightarrow> (string list \<Rightarrow> string list) \<Rightarrow> mem_cache \<Rightarrow> cache_call \<Rightarrow> mem_cache" where
  "cache_step hash iter c (CallGet key t) = fst (cache_Get hash c key t)"
| "cache_step hash iter c (CallSet r key entry baseTTL t) = cache_Set hash iter r c key entry baseTTL t"

text \<open>An unbounded store that keeps the last entry of every key with its expiry.\<close>

fun stored :: "rat \<Rightarrow> (string \<rightharpoonup> mem_entry) \<Rightarrow> cache_call \<Rightarrow> (string \<rightharpoonup> mem_entry)" where
  "stored fraction m (CallGet key t) = m"
| "stored fraction m (CallSet r key entry baseTTL t) =
     (if baseTTL \<le> 0 then m
      else m(key \<mapsto> \<lparr>mentry = entry, mexpires = t + jitter_ttl fraction baseTTL r\<rparr>))"

definition cache_ok :: "(string \<rightharpoonup> mem_entry) \<Rightarrow> mem_cache \<Rightarrow> bool" where
  "cache_ok m c \<longleftrightarrow> distinct (map fst (centries c)) \<and> int (length (centries c)) \<le> cmax c \<and> 1 \<le> cmax c \<and>
     jitterFraction c = fl (1 / 10) \<and> map_of (centries c) \<subseteq>\<^sub>m m"

lemma map_of_filter_sub: "distinct (map fst xs) \<Longrightarrow> map_of (filter P xs) \<subseteq>\<^sub>m map_of xs"
  by (auto simp: map_le_def distinct_map_filter intro!: map_of_is_SomeI dest!: map_of_SomeD)

lemma length_delete:
  "distinct (map fst xs) \<Longrightarrow> k \<in> fst ` set xs \<Longrightarrow> length (AList.delete k xs) = length xs - 1"
proof (induction xs)
  case (Cons x xs)
  show ?case
  proof (cases "k = fst x")
    case True
    then have "AList.delete k xs = xs" using Cons.prems(1) by (auto simp: AList.delete_eq filter_id_conv image_iff)
    then show ?thesis using True by (simp add: AList.delete_eq case_prod_beta)
  next
    case False
    then have "k \<in> fst ` set xs" "xs \<noteq> []" using Cons.prems(2) by auto
    then show ?thesis using Cons False by (cases xs) (simp_all add: AList.delete_eq case_prod_beta)
  qed
qed simp

lemma length_update_alist:
  "length (AList.update k v xs) = (if k \<in> fst ` set xs then length xs else Suc (length xs))"
  by (induction xs) auto

lemma distinct_delete_alist: "distinct (map fst xs) \<Longrightarrow> distinct (map fst (AList.delete k xs))"
  by (simp add: AList.delete_eq distinct_map_filter)

lemma cache_Set_ok:
  assumes ok: "cache_ok m c" and iter: "\<forall>ks. set (iter ks) = set ks"
  shows "cache_ok (stored (fl (1 / 10)) m (CallSet r key entry baseTTL t)) (cache_Set hash iter r c key entry baseTTL t)"
proof (cases "baseTTL \<le> 0")
  case False
  define c1 where "c1 = (if is_zero (sweepAt c) \<or> \<not> sweepAt c > t
      then (cache_sweep c t)\<lparr>sweepAt := t + sweepInterval\<rparr> else c)"
  have c1: "cache_ok m c1"
  proof -
    let ?P = "\<lambda>(key, me). t < mexpires me"
    have "distinct (map fst (filter ?P (centries c)))" "map_of (filter ?P (centries c)) \<subseteq>\<^sub>m m"
      "int (length (filter ?P (centries c))) \<le> cmax c"
      using ok map_of_filter_sub [of "centries c" ?P] map_le_trans
        le_trans [OF length_filter_le [of ?P "centries c"], of "nat (cmax c)"]
      by (auto simp: cache_ok_def distinct_map_filter le_nat_iff)
    then show ?thesis using ok by (auto simp: c1_def cache_ok_def cache_sweep_def)
  qed
  define full where "full \<longleftrightarrow> map_of (centries c1) key = None \<and> int (length (centries c1)) \<ge> cmax c1"
  obtain c2 b where c2: "(if full then admitLocked hash iter c1 key else (c1, True)) = (c2, b)" by fastforce
  have "cache_ok m c2 \<and> (b \<longrightarrow> map_of (centries c2) key = None \<longrightarrow> int (length (centries c2)) < cmax c2)"
  proof (cases full)
    case True
    have "centries c1 \<noteq> []" using True c1 by (auto simp: full_def cache_ok_def)
    moreover have "set (iter (map fst (centries c1))) = fst ` set (centries c1)" using iter by simp
    ultimately obtain v where v: "v \<in> fst ` set (centries c1)"
      "c2 = (if b then c1\<lparr>centries := AList.delete v (centries c1)\<rparr> else c1)"
      using admit_verdict [of iter c1 hash key c2 b] True c2 by auto
    have "map_of (AList.delete v (centries c1)) \<subseteq>\<^sub>m m"
      using c1 by (auto simp: cache_ok_def delete_conv map_le_def)
    moreover have "length (centries c1) > 0" using v(1) by auto
    ultimately show ?thesis
      using v c1 length_delete [OF _ v(1)] by (auto simp: cache_ok_def distinct_delete_alist)
  next
    case False
    then show ?thesis using c1 c2 by (auto simp: full_def)
  qed
  moreover have "cache_Set hash iter r c key entry baseTTL t =
      (if b then c2\<lparr>centries := AList.update key
          \<lparr>mentry = entry, mexpires = t + jitter_ttl (fl (1 / 10)) baseTTL r\<rparr> (centries c2)\<rparr> else c2)"
    unfolding cache_Set_def Let_def c1_def [symmetric] full_def [symmetric] c2
    using False ok by (simp add: cache_ok_def)
  moreover have "map_of (centries c2) key = None" if "\<not> b"
  proof -
    have "full" using that c2 by (auto split: if_splits)
    then have "map_of (centries c1) key = None" by (simp add: full_def)
    moreover have "c2 = c1" using that c2 \<open>full\<close> by (auto simp: admitLocked_def Let_def split: prod.splits if_splits)
    ultimately show ?thesis by simp
  qed
  moreover have "f(key \<mapsto> v) \<subseteq>\<^sub>m m(key \<mapsto> v)" if "f \<subseteq>\<^sub>m m" for f v
    using that by (rule map_le_upd)
  moreover have "f \<subseteq>\<^sub>m m(key \<mapsto> v)" if "f \<subseteq>\<^sub>m m" "f key = None" for f v
    using that by (auto simp: map_le_def)
  ultimately show ?thesis
    using False
    by (cases b) (auto simp: cache_ok_def distinct_update length_update_alist map_of_eq_None_iff update_conv')
qed (use ok in \<open>simp add: cache_Set_def\<close>)

lemma cache_step_ok:
  "cache_ok m c \<Longrightarrow> \<forall>ks. set (iter ks) = set ks \<Longrightarrow>
     cache_ok (stored (fl (1 / 10)) m op) (cache_step hash iter c op)"
proof (cases op)
  case (CallGet key t)
  assume "cache_ok m c"
  then show ?thesis by (simp add: CallGet cache_Get_def cache_ok_def)
next
  case (CallSet r key entry baseTTL t)
  assume "cache_ok m c" "\<forall>ks. set (iter ks) = set ks"
  then show ?thesis by (simp add: CallSet cache_Set_ok del: stored.simps)
qed

lemma cache_run_ok:
  "cache_ok m c \<Longrightarrow> \<forall>ks. set (iter ks) = set ks \<Longrightarrow>
     cache_ok (foldl (stored (fl (1 / 10))) m ops) (foldl (cache_step hash iter) c ops)"
  by (induction ops arbitrary: m c) (simp_all add: cache_step_ok del: cache_step.simps stored.simps)

subsection \<open>The jitter\<close>

lemma jitter_range:
  assumes "0 \<le> r" and "r \<le> 1"
  shows "899 / 1000 \<le> fl (1 + fl (fl (fl (2 * r) - 1) * fl (1 / 10))) \<and>
    fl (1 + fl (fl (fl (2 * r) - 1) * fl (1 / 10))) \<le> 1101 / 1000"
proof -
  define q :: rat where "q = fl (1 / 10)"
  have q: "0 \<le> q" "fl q = q" by (simp_all add: q_def fl_nonneg)
  have two: "fl 2 = 2" using fl_int [of 2] by simp
  have "0 \<le> fl (2 * r)" "fl (2 * r) \<le> 2"
    using assms fl_mono [of "2 * r" 2] by (simp_all add: fl_nonneg two)
  then have "- 1 \<le> fl (fl (2 * r) - 1)" "fl (fl (2 * r) - 1) \<le> 1"
    using fl_mono [of "- 1" "fl (2 * r) - 1"] fl_mono [of "fl (2 * r) - 1" 1] by (simp_all add: fl_minus)
  then have "- q \<le> fl (fl (2 * r) - 1) * q" "fl (fl (2 * r) - 1) * q \<le> q"
    using q(1) mult_right_mono [of "-1" "fl (fl (2 * r) - 1)" q] mult_right_mono [of "fl (fl (2 * r) - 1)" 1 q]
    by simp_all
  then have "- q \<le> fl (fl (fl (2 * r) - 1) * q)" "fl (fl (fl (2 * r) - 1) * q) \<le> q"
    using fl_mono [of "- q"] fl_mono [of _ q] by (fastforce simp: fl_minus q(2))+
  then have "fl (1 - q) \<le> fl (1 + fl (fl (fl (2 * r) - 1) * q))" "fl (1 + fl (fl (fl (2 * r) - 1) * q)) \<le> fl (1 + q)"
    by (auto intro!: fl_mono)
  moreover have "899 / 1000 \<le> fl (1 - q)" "fl (1 + q) \<le> 1101 / 1000"
    unfolding q_def by code_simp+
  ultimately show ?thesis unfolding q_def by linarith
qed

lemma jitter_ttl_bounds:
  assumes "0 \<le> r" and "r \<le> 1" and "2 * Millisecond \<le> baseTTL" and "baseTTL \<le> MaxInt64"
  shows "Millisecond \<le> jitter_ttl (fl (1 / 10)) baseTTL r \<and> jitter_ttl (fl (1 / 10)) baseTTL r \<le> MaxInt64 \<and>
    (baseTTL * 898 div 1000 \<le> jitter_ttl (fl (1 / 10)) baseTTL r) \<and>
    1000 * jitter_ttl (fl (1 / 10)) baseTTL r \<le> 1102 * baseTTL"
proof -
  define J where "J = fl (1 + fl (fl (fl (2 * r) - 1) * fl (1 / 10)))"
  define B where "B = f64 baseTTL"
  define x where "x = fl (B * J)"
  have J: "899 / 1000 \<le> J" "J \<le> 1101 / 1000" using jitter_range [OF assms(1,2)] by (simp_all add: J_def)
  have b: "0 \<le> (of_int baseTTL :: rat)" using assms(3) by simp
  have B: "of_int baseTTL * (9999 / 10000) \<le> B" "B \<le> of_int baseTTL * (10001 / 10000)"
    using fl_lower [OF b] fl_upper [OF b] b by (simp_all add: B_def f64_def field_simps)
  have BJ: "of_int baseTTL * (9999 / 10000) * (899 / 1000) \<le> B * J" "B * J \<le> of_int baseTTL * (10001 / 10000) * (1101 / 1000)"
    using B J b by (intro mult_mono; simp)+
  have pos: "0 \<le> B * J" using BJ(1) b by (simp add: order_trans [rotated])
  have x: "of_int baseTTL * (898 / 1000) \<le> x" "x \<le> of_int baseTTL * (1102 / 1000)"
    using fl_lower [OF pos] fl_upper [OF pos] BJ b by (simp_all add: x_def field_simps)
  have Max: "f64 MaxInt64 = 9223372036854775808" by code_simp
  have J': "jitter_ttl (fl (1 / 10)) baseTTL r =
      (if x \<ge> 9223372036854775808 then MaxInt64 else if \<lfloor>x\<rfloor> < Millisecond then Millisecond else \<lfloor>x\<rfloor>)"
    using x(1) b by (simp add: jitter_ttl_def Let_def J_def [symmetric] B_def [symmetric] x_def [symmetric] Max
        trunc_float_def order_trans [of 0 "of_int baseTTL * (898 / 1000)" x])
  have "baseTTL * 898 div 1000 = \<lfloor>of_int (baseTTL * 898) / (1000 :: rat)\<rfloor>"
    using floor_divide_of_int_eq [of "baseTTL * 898" 1000, where 'a = rat] by simp
  then have lo: "baseTTL * 898 div 1000 \<le> \<lfloor>x\<rfloor>" using x(1) by (simp add: floor_mono)
  have "of_int \<lfloor>x\<rfloor> \<le> x" by simp
  then have "of_int (1000 * \<lfloor>x\<rfloor>) \<le> (of_int (1102 * baseTTL) :: rat)" using x(2) by (simp del: of_int_floor_le) 
  then have hi: "1000 * \<lfloor>x\<rfloor> \<le> 1102 * baseTTL" by (simp only: of_int_le_iff)
  show ?thesis
  proof (cases "x \<ge> 9223372036854775808")
    case True
    then have "9223372036854775808 \<le> \<lfloor>x\<rfloor>" by (simp add: le_floor_iff)
    moreover have "baseTTL * 898 div 1000 \<le> baseTTL" using assms(3) by linarith
    moreover have "jitter_ttl (fl (1 / 10)) baseTTL r = 9223372036854775807" using True by (simp add: J' MaxInt64_def)
    ultimately show ?thesis using hi assms(4) unfolding MaxInt64_def by linarith
  next
    case False
    then have "\<lfloor>x\<rfloor> < 9223372036854775808" by (simp add: floor_less_iff)
    moreover have "Millisecond \<le> \<lfloor>x\<rfloor>" using lo assms(3) by linarith
    ultimately show ?thesis using False lo hi by (simp add: J' MaxInt64_def)
  qed
qed

subsection \<open>Properties\<close>

text \<open>
  C11: the cache answers with the last stored entry or not at all.  After any history of
  reads and writes on a fresh cache, whatever the map iteration order, the key hash, the
  admission verdicts, the evictions and the sweeps: an answer is the entry of the last
  write to that key and has not expired, and the cache holds at most its capacity.
\<close>

theorem cache_answers_last_store:
  assumes "NewMemCache capacity = Some c0" and "\<forall>ks. set (iter ks) = set ks"
    and "c = foldl (cache_step hash iter) c0 ops" and "m = foldl (stored (fl (1 / 10))) Map.empty ops"
  shows "int (length (centries c)) \<le> cmax c0 \<and>
    (\<forall>entry. snd (cache_Get hash c key t) = Some entry \<longrightarrow>
       (\<exists>expires. m key = Some \<lparr>mentry = entry, mexpires = expires\<rparr> \<and> t < expires))"
proof -
  have "cache_ok Map.empty c0"
    using assms(1) by (auto simp: NewMemCache_def Let_def cache_ok_def split: option.splits if_splits)
  then have ok: "cache_ok m c" using cache_run_ok assms(2-4) by blast
  have max: "cmax (foldl (cache_step hash iter) d ops) = cmax d" for d
  proof (induction ops arbitrary: d)
    case (Cons op ops)
    have "cmax (cache_step hash iter d op) = cmax d"
      by (cases op) (auto simp: cache_Get_def cache_Set_def cache_sweep_def admitLocked_def Let_def
          split: if_splits prod.splits)
    then show ?case using Cons by simp
  qed simp
  have "\<exists>expires. m key = Some \<lparr>mentry = entry, mexpires = expires\<rparr> \<and> t < expires"
    if get: "snd (cache_Get hash c key t) = Some entry" for entry
  proof -
    obtain me where me: "map_of (centries c) key = Some me" "t < mexpires me" "mentry me = entry"
      using get by (cases "map_of (centries c) key") (auto simp: cache_Get_def split: if_splits)
    then have "m key = Some me" using ok by (auto simp: cache_ok_def map_le_def dom_def)
    then show ?thesis using me by (intro exI [of _ "mexpires me"]) (cases me; simp)
  qed
  then show ?thesis using ok max [of c0] assms(3) by (auto simp: cache_ok_def)
qed

definition demo_entry :: "string \<Rightarrow> cache_entry" where
  "demo_entry b = \<lparr>estatus = 200, eheader = Map.empty, ebody = b\<rparr>"

definition demo_cache :: mem_cache where
  "demo_cache = \<lparr>centries = [], cmax = 1, sweepAt = 0, jitterFraction = fl (1 / 10),
     cgate = the (newAdmission (trackedKeyBudget 1))\<rparr>"

theorem cache_answers_last_store_witness:
  "let c = foldl (cache_step (\<lambda>_. 7) id) demo_cache
       [CallSet 0 ''k'' (demo_entry ''old'') Hour 1, CallSet 0 ''k'' (demo_entry ''new'') Hour 2] in
     snd (cache_Get (\<lambda>_. 7) c ''k'' Minute) = Some (demo_entry ''new'') \<and> int (length (centries c)) \<le> 1"
proof -
  let ?ops = "[CallSet 0 ''k'' (demo_entry ''old'') Hour 1, CallSet 0 ''k'' (demo_entry ''new'') Hour 2]"
  obtain gate where g: "newAdmission (trackedKeyBudget 1) = Some gate"
    using admissionWidth_finds [of "trackedKeyBudget 1"] by (auto simp: newAdmission_def)
  then have new: "NewMemCache (Some 1) = Some demo_cache" by (simp add: NewMemCache_def demo_cache_def)
  have ttl: "Minute \<le> jitter_ttl (fl (1 / 10)) Hour 0"
    using jitter_ttl_bounds [of 0 Hour] by (simp add: MaxInt64_def)
  have "snd (cache_Get (\<lambda>_. 7) (foldl (cache_step (\<lambda>_. 7) id) demo_cache ?ops) ''k'' Minute) \<noteq> None"
    using ttl by (simp add: demo_cache_def cache_Set_def cache_Get_def cache_sweep_def is_zero_def sweepInterval_def Let_def)
  moreover have "mentry (the (foldl (stored (fl (1 / 10))) Map.empty ?ops ''k'')) = demo_entry ''new''" by simp
  ultimately show ?thesis
    using cache_answers_last_store [OF new _ refl refl, of id "\<lambda>_. 7" ?ops "''k''" Minute]
    by (auto simp: demo_cache_def Let_def)
qed

end
