(* ===== verification/Cache_Flight.thy ===== *)
theory Cache_Flight
  imports Cache
begin

text \<open>
  In-flight deduplication (\<^verbatim>\<open>internal/cache/singleflight.go\<close>) and the cache stage of the
  pipeline (\<^verbatim>\<open>middleware.go\<close>).

  \<open>Flight.Do\<close> is cut at its atomic steps: the section under the lock that joins or starts
  a flight, the holder's publication with the section that removes the flight, the close
  of the channel, and a waiter's return or its context ending.  A flight is a cell of a
  heap, named by its address; the callers are a list of processes, one per call of \<open>Do\<close>,
  and \<open>flight_reach\<close> is every interleaving of their steps.  A fetch that panics
  publishes \<open>Panicked\<close>.
\<close>

subsection \<open>Flights\<close>

datatype 'r fetched = Fetched 'r | Panicked

record 'r fcall =
  fvalue :: "'r fetched option"
  fdone :: bool
  waiters :: int

datatype 'r proc =
    Fetching string nat
  | Closing nat "'r fetched"
  | Waiting nat
  | Returned nat "'r fetched" bool
  | GaveUp nat

record 'r flights =
  calls :: "string \<rightharpoonup> nat"
  fheap :: "'r fcall list"
  procs :: "'r proc list"

definition NewFlight :: "'r flights" where
  "NewFlight = \<lparr>calls = Map.empty, fheap = [], procs = []\<rparr>"

definition do_enter :: "'r flights \<Rightarrow> string \<Rightarrow> 'r flights" where
  "do_enter g key =
     (case calls g key of
        Some c \<Rightarrow> g\<lparr>fheap := (fheap g)[c := (fheap g ! c)\<lparr>waiters := waiters (fheap g ! c) + 1\<rparr>],
                    procs := procs g @ [Waiting c]\<rparr>
      | None \<Rightarrow> g\<lparr>calls := (calls g)(key \<mapsto> length (fheap g)),
                  fheap := fheap g @ [\<lparr>fvalue = None, fdone = False, waiters = 0\<rparr>],
                  procs := procs g @ [Fetching key (length (fheap g))]\<rparr>)"

definition do_publish :: "'r flights \<Rightarrow> nat \<Rightarrow> string \<Rightarrow> nat \<Rightarrow> 'r fetched \<Rightarrow> 'r flights" where
  "do_publish g i key c v =
     g\<lparr>fheap := (fheap g)[c := (fheap g ! c)\<lparr>fvalue := Some v\<rparr>],
       calls := (calls g)(key := None), procs := (procs g)[i := Closing c v]\<rparr>"

definition do_close :: "'r flights \<Rightarrow> nat \<Rightarrow> nat \<Rightarrow> 'r fetched \<Rightarrow> 'r flights" where
  "do_close g i c v =
     g\<lparr>fheap := (fheap g)[c := (fheap g ! c)\<lparr>fdone := True\<rparr>], procs := (procs g)[i := Returned c v True]\<rparr>"

definition leave_flight :: "'r flights \<Rightarrow> nat \<Rightarrow> 'r proc \<Rightarrow> nat \<Rightarrow> 'r flights" where
  "leave_flight g i p c =
     g\<lparr>fheap := (fheap g)[c := (fheap g ! c)\<lparr>waiters := waiters (fheap g ! c) - 1\<rparr>], procs := (procs g)[i := p]\<rparr>"

definition wait_done :: "'r flights \<Rightarrow> nat \<Rightarrow> nat \<Rightarrow> 'r flights" where
  "wait_done g i c = leave_flight g i (Returned c (the (fvalue (fheap g ! c))) False) c"

definition wait_cancel :: "'r flights \<Rightarrow> nat \<Rightarrow> nat \<Rightarrow> 'r flights" where
  "wait_cancel g i c = leave_flight g i (GaveUp c) c"

inductive flight_step :: "'r flights \<Rightarrow> 'r flights \<Rightarrow> bool" where
  enter: "flight_step g (do_enter g key)"
| publish: "i < length (procs g) \<Longrightarrow> procs g ! i = Fetching key c \<Longrightarrow> flight_step g (do_publish g i key c v)"
| close: "i < length (procs g) \<Longrightarrow> procs g ! i = Closing c v \<Longrightarrow> flight_step g (do_close g i c v)"
| wait: "i < length (procs g) \<Longrightarrow> procs g ! i = Waiting c \<Longrightarrow> fdone (fheap g ! c) \<Longrightarrow> flight_step g (wait_done g i c)"
| cancel: "i < length (procs g) \<Longrightarrow> procs g ! i = Waiting c \<Longrightarrow> flight_step g (wait_cancel g i c)"

inductive flight_reach :: "'r flights \<Rightarrow> bool" where
  init: "flight_reach NewFlight"
| step: "flight_reach g \<Longrightarrow> flight_step g g' \<Longrightarrow> flight_reach g'"

text \<open>Who holds a flight, and who waits on it.\<close>

fun holds :: "nat \<Rightarrow> 'r proc \<Rightarrow> bool" where
  "holds c (Fetching key d) \<longleftrightarrow> d = c"
| "holds c (Closing d v) \<longleftrightarrow> d = c"
| "holds c (Returned d v owner) \<longleftrightarrow> d = c \<and> owner"
| "holds c p \<longleftrightarrow> False"

definition waiting_on :: "nat \<Rightarrow> 'r proc \<Rightarrow> bool" where
  "waiting_on c p \<longleftrightarrow> p = Waiting c"

text \<open>What a process may say about its flight.\<close>

fun proc_ok :: "'r flights \<Rightarrow> 'r proc \<Rightarrow> bool" where
  "proc_ok g (Fetching key c) \<longleftrightarrow> c < length (fheap g) \<and> calls g key = Some c \<and> fvalue (fheap g ! c) = None \<and>
     \<not> fdone (fheap g ! c)"
| "proc_ok g (Closing c v) \<longleftrightarrow> c < length (fheap g) \<and> fvalue (fheap g ! c) = Some v \<and> \<not> fdone (fheap g ! c) \<and>
     (\<forall>key. calls g key \<noteq> Some c)"
| "proc_ok g (Waiting c) \<longleftrightarrow> c < length (fheap g)"
| "proc_ok g (Returned c v owner) \<longleftrightarrow> c < length (fheap g) \<and> fvalue (fheap g ! c) = Some v \<and> fdone (fheap g ! c)"
| "proc_ok g (GaveUp c) \<longleftrightarrow> c < length (fheap g)"

definition flight_ok :: "'r flights \<Rightarrow> bool" where
  "flight_ok g \<longleftrightarrow>
     (\<forall>p \<in> set (procs g). proc_ok g p) \<and>
     (\<forall>c < length (fheap g). length (filter (holds c) (procs g)) = 1 \<and>
        waiters (fheap g ! c) = int (length (filter (waiting_on c) (procs g)))) \<and>
     (\<forall>key c. calls g key = Some c \<longrightarrow> c < length (fheap g) \<and> Fetching key c \<in> set (procs g))"

subsection \<open>Every interleaving keeps the flights in order\<close>

lemma count_update:
  "i < length xs \<Longrightarrow> int (length (filter P (xs[i := y]))) =
     int (length (filter P xs)) - of_bool (P (xs ! i)) + of_bool (P y)"
proof (induction xs arbitrary: i)
  case (Cons x xs)
  then show ?case by (cases i) auto
qed simp

lemma single_index:
  assumes "length (filter P xs) = 1" and "i < length xs" "P (xs ! i)" and "j < length xs" "P (xs ! j)"
  shows "i = j"
proof -
  have "card {k. k < length xs \<and> P (xs ! k)} = 1" using assms(1) by (simp add: length_filter_conv_card)
  then obtain k where "{k. k < length xs \<and> P (xs ! k)} = {k}" by (rule card_1_singletonE)
  then have "i \<in> {k}" "j \<in> {k}" using assms(2-5) by fast+
  then show ?thesis by simp
qed

lemma flight_okD:
  assumes "flight_ok g"
  shows "p \<in> set (procs g) \<Longrightarrow> proc_ok g p"
    "i < length (procs g) \<Longrightarrow> proc_ok g (procs g ! i)"
    "i < length (procs g) \<Longrightarrow> j < length (procs g) \<Longrightarrow> holds c (procs g ! i) \<Longrightarrow> holds c (procs g ! j) \<Longrightarrow>
       c < length (fheap g) \<Longrightarrow> i = j"
    "c < length (fheap g) \<Longrightarrow> int (length (filter (holds c) (procs g))) = 1"
    "c < length (fheap g) \<Longrightarrow> waiters (fheap g ! c) = int (length (filter (waiting_on c) (procs g)))"
    "calls g key = Some c \<Longrightarrow> c < length (fheap g) \<and> Fetching key c \<in> set (procs g)"
proof -
  show "p \<in> set (procs g) \<Longrightarrow> proc_ok g p" "i < length (procs g) \<Longrightarrow> proc_ok g (procs g ! i)"
    using assms unfolding flight_ok_def by simp_all
  show "i < length (procs g) \<Longrightarrow> j < length (procs g) \<Longrightarrow> holds c (procs g ! i) \<Longrightarrow> holds c (procs g ! j) \<Longrightarrow>
       c < length (fheap g) \<Longrightarrow> i = j"
    using assms single_index [of "holds c" "procs g" i j] unfolding flight_ok_def by simp
  show "c < length (fheap g) \<Longrightarrow> int (length (filter (holds c) (procs g))) = 1"
    "c < length (fheap g) \<Longrightarrow> waiters (fheap g ! c) = int (length (filter (waiting_on c) (procs g)))"
    "calls g key = Some c \<Longrightarrow> c < length (fheap g) \<and> Fetching key c \<in> set (procs g)"
    using assms unfolding flight_ok_def by simp_all
qed

lemma flight_okI:
  assumes "\<And>p. p \<in> set (procs g) \<Longrightarrow> proc_ok g p"
    and "\<And>c. c < length (fheap g) \<Longrightarrow> int (length (filter (holds c) (procs g))) = 1"
    and "\<And>c. c < length (fheap g) \<Longrightarrow> waiters (fheap g ! c) = int (length (filter (waiting_on c) (procs g)))"
    and "\<And>key c. calls g key = Some c \<Longrightarrow> c < length (fheap g) \<and> Fetching key c \<in> set (procs g)"
  shows "flight_ok g"
  using assms by (auto simp: flight_ok_def)

lemma holds_bound: "proc_ok g p \<Longrightarrow> holds c p \<or> waiting_on c p \<Longrightarrow> c < length (fheap g)"
  by (cases p) (auto simp: waiting_on_def)

lemma flight_ok_new: "flight_ok NewFlight"
  by (simp add: flight_ok_def NewFlight_def)

lemma flight_ok_enter:
  assumes ok: "flight_ok g"
  shows "flight_ok (do_enter g key)"
proof (cases "calls g key")
  case (Some c)
  let ?h = "(fheap g)[c := (fheap g ! c)\<lparr>waiters := waiters (fheap g ! c) + 1\<rparr>]"
  have c: "c < length (fheap g)" using ok Some by (auto simp: flight_ok_def)
  have same: "fvalue (?h ! d) = fvalue (fheap g ! d)" "fdone (?h ! d) = fdone (fheap g ! d)"
    "length ?h = length (fheap g)" for d
    by (cases "d = c"; simp add: c)+
  have "proc_ok (do_enter g key) p = proc_ok g p" for p
    by (cases p) (simp_all add: do_enter_def Some same)
  then show ?thesis
    using ok c by (auto simp: flight_ok_def do_enter_def Some waiting_on_def nth_list_update)
next
  case None
  let ?n = "length (fheap g)"
  have old: "proc_ok (do_enter g key) p" if "p \<in> set (procs g)" for p
  proof -
    have "calls g k \<noteq> Some ?n" for k using ok by (auto simp: flight_ok_def)
    then show ?thesis
      using flight_okD(1) [OF ok that] None
      by (cases p) (auto simp: do_enter_def nth_append)
  qed
  have "filter (holds ?n) (procs g) = []" "filter (waiting_on ?n) (procs g) = []"
    using holds_bound [OF flight_okD(1) [OF ok]] by (force simp: filter_empty_conv)+
  then show ?thesis
    using ok old None
    by (auto simp: flight_ok_def do_enter_def nth_append less_Suc_eq waiting_on_def)
qed

lemma set_update_neq: "p \<in> set (xs[i := y]) \<Longrightarrow> p = y \<or> (\<exists>j. j < length xs \<and> j \<noteq> i \<and> xs ! j = p)"
  by (metis in_set_conv_nth length_list_update nth_list_update_eq nth_list_update_neq)

lemma in_update: "x \<in> set xs \<Longrightarrow> xs ! i \<noteq> x \<Longrightarrow> x \<in> set (xs[i := y])"
  by (metis in_set_conv_nth length_list_update nth_list_update_neq)

lemma flight_ok_publish:
  assumes ok: "flight_ok g" and i: "i < length (procs g)" "procs g ! i = Fetching key c"
  shows "flight_ok (do_publish g i key c v)"
proof -
  let ?g = "do_publish g i key c v"
  have c: "c < length (fheap g)" "calls g key = Some c" "\<not> fdone (fheap g ! c)"
    using flight_okD(2) [OF ok i(1)] i(2) by simp_all
  have other: "\<not> holds c (procs g ! j)" if "j < length (procs g)" "j \<noteq> i" for j
    using flight_okD(3) [OF ok that(1) i(1), of c] i(2) c(1) that by auto
  have uniq: "k = key" if "calls g k = Some c" for k
  proof -
    have "Fetching k c \<in> set (procs g)" using ok that by (simp add: flight_ok_def)
    then obtain j where "j < length (procs g)" "procs g ! j = Fetching k c" by (auto simp: in_set_conv_nth)
    then show ?thesis using other [of j] i(2) by (cases "j = i") auto
  qed
  have "proc_ok ?g p" if "p \<in> set (procs ?g)" for p
  proof -
    have "p = Closing c v \<or> (\<exists>j. j < length (procs g) \<and> j \<noteq> i \<and> procs g ! j = p)"
      using set_update_neq that by (simp add: do_publish_def)
    then show ?thesis
    proof
      assume "\<exists>j. j < length (procs g) \<and> j \<noteq> i \<and> procs g ! j = p"
      then obtain j where j: "j < length (procs g)" "j \<noteq> i" "procs g ! j = p" by blast
      then show ?thesis
        using flight_okD(2) [OF ok j(1)] other [OF j(1,2)] c
        by (cases p) (auto simp: do_publish_def nth_list_update)
    next
      assume "p = Closing c v"
      moreover have "calls ?g k \<noteq> Some c" for k using uniq [of k] by (auto simp: do_publish_def)
      ultimately show ?thesis using c by (simp add: do_publish_def)
    qed
  qed
  moreover have "int (length (filter (holds d) (procs ?g))) = int (length (filter (holds d) (procs g)))"
    "int (length (filter (waiting_on d) (procs ?g))) = int (length (filter (waiting_on d) (procs g)))" for d
    using i by (simp_all add: do_publish_def count_update waiting_on_def)
  moreover have "Fetching k d \<in> set (procs ?g)" if "calls ?g k = Some d" for k d
  proof -
    have k: "k \<noteq> key" "calls g k = Some d" using that by (auto simp: do_publish_def split: if_splits)
    then have "Fetching k d \<in> set (procs g)" using ok by (simp add: flight_ok_def)
    then show ?thesis using i(2) k(1) by (simp add: do_publish_def in_update)
  qed
  moreover have "calls g k = Some d" if "calls ?g k = Some d" for k d
    using that by (auto simp: do_publish_def split: if_splits)
  moreover have "waiters (fheap ?g ! d) = waiters (fheap g ! d)" "length (fheap ?g) = length (fheap g)" for d
    using c(1) by (cases "d = c"; simp add: do_publish_def)+
  ultimately show ?thesis
    using flight_okD(4-6) [OF ok] by (intro flight_okI) (simp_all, blast)
qed

lemma flight_ok_close:
  assumes ok: "flight_ok g" and i: "i < length (procs g)" "procs g ! i = Closing c v"
  shows "flight_ok (do_close g i c v)"
proof -
  let ?g = "do_close g i c v"
  have c: "c < length (fheap g)" "fvalue (fheap g ! c) = Some v" "\<forall>key. calls g key \<noteq> Some c"
    using flight_okD(2) [OF ok i(1)] i(2) by simp_all
  have other: "\<not> holds c (procs g ! j)" if "j < length (procs g)" "j \<noteq> i" for j
    using flight_okD(3) [OF ok that(1) i(1), of c] i(2) c(1) that by auto
  have heap: "fvalue (fheap ?g ! d) = fvalue (fheap g ! d)" "waiters (fheap ?g ! d) = waiters (fheap g ! d)"
    "fdone (fheap ?g ! d) = (fdone (fheap g ! d) \<or> d = c)" "length (fheap ?g) = length (fheap g)" for d
    using c(1) by (cases "d = c"; simp add: do_close_def)+
  have calls: "calls ?g = calls g" by (simp add: do_close_def)
  have "proc_ok ?g p" if "p \<in> set (procs ?g)" for p
  proof -
    have "p = Returned c v True \<or> (\<exists>j. j < length (procs g) \<and> j \<noteq> i \<and> procs g ! j = p)"
      using set_update_neq that by (simp add: do_close_def)
    then show ?thesis
    proof
      assume "\<exists>j. j < length (procs g) \<and> j \<noteq> i \<and> procs g ! j = p"
      then obtain j where j: "j < length (procs g)" "j \<noteq> i" "procs g ! j = p" by blast
      then show ?thesis
        using flight_okD(2) [OF ok j(1)] other [OF j(1,2)] by (cases p) (auto simp: heap calls)
    qed (use c in \<open>simp add: heap\<close>)
  qed
  moreover have "int (length (filter (holds d) (procs ?g))) = int (length (filter (holds d) (procs g)))"
    "int (length (filter (waiting_on d) (procs ?g))) = int (length (filter (waiting_on d) (procs g)))" for d
    using i by (simp_all add: do_close_def count_update waiting_on_def)
  moreover have "Fetching k d \<in> set (procs ?g)" if "Fetching k d \<in> set (procs g)" for k d
    using that i(2) by (simp add: do_close_def in_update)
  ultimately show ?thesis
    using flight_okD(4-6) [OF ok] by (intro flight_okI) (simp_all add: heap calls)
qed

lemma flight_ok_leave:
  assumes ok: "flight_ok g" and i: "i < length (procs g)" "procs g ! i = Waiting c"
    and p: "proc_ok g p" "\<forall>d. \<not> holds d p \<and> \<not> waiting_on d p"
  shows "flight_ok (leave_flight g i p c)"
proof -
  let ?g = "leave_flight g i p c"
  have c: "c < length (fheap g)" using flight_okD(2) [OF ok i(1)] i(2) by simp
  have heap: "fvalue (fheap ?g ! d) = fvalue (fheap g ! d)" "fdone (fheap ?g ! d) = fdone (fheap g ! d)"
    "waiters (fheap ?g ! d) = waiters (fheap g ! d) - of_bool (d = c)" "length (fheap ?g) = length (fheap g)" for d
    using c by (cases "d = c"; simp add: leave_flight_def)+
  have calls: "calls ?g = calls g" by (simp add: leave_flight_def)
  have same: "proc_ok ?g q = proc_ok g q" for q by (cases q) (simp_all add: heap calls)
  have "proc_ok ?g q" if "q \<in> set (procs ?g)" for q
    using that set_update_subset_insert [of "procs g" i p] flight_okD(1) [OF ok] p(1)
    by (auto simp: leave_flight_def same [unfolded leave_flight_def])
  moreover have "int (length (filter (holds d) (procs ?g))) = int (length (filter (holds d) (procs g)))"
    "int (length (filter (waiting_on d) (procs ?g))) = int (length (filter (waiting_on d) (procs g))) - of_bool (d = c)" for d
    using i p by (auto simp: leave_flight_def count_update waiting_on_def)
  moreover have "Fetching k d \<in> set (procs ?g)" if "Fetching k d \<in> set (procs g)" for k d
    using that i(2) by (simp add: leave_flight_def in_update)
  ultimately show ?thesis
    using flight_okD(4-6) [OF ok] by (intro flight_okI) (simp_all add: heap calls)
qed

lemma flight_has_holder:
  "flight_ok g \<Longrightarrow> c < length (fheap g) \<Longrightarrow> \<exists>p \<in> set (procs g). holds c p \<and> proc_ok g p"
proof -
  assume ok: "flight_ok g" and "c < length (fheap g)"
  then have "filter (holds c) (procs g) \<noteq> []" using flight_okD(4) [OF ok] by fastforce
  then show ?thesis using flight_okD(1) [OF ok] by (auto simp: filter_empty_conv)
qed

lemma flight_step_ok: "flight_step g g' \<Longrightarrow> flight_ok g \<Longrightarrow> flight_ok g'"
proof (induction rule: flight_step.induct)
  case (wait i g c)
  have "c < length (fheap g)" using flight_okD(2) [OF wait.prems wait.hyps(1)] wait.hyps(2) by simp
  then obtain p where p: "holds c p" "proc_ok g p" using flight_has_holder [OF wait.prems] by blast
  then have "fvalue (fheap g ! c) \<noteq> None" using wait.hyps(3) by (cases p) auto
  then show ?case
    unfolding wait_done_def using wait \<open>c < length (fheap g)\<close>
    by (intro flight_ok_leave) (auto simp: waiting_on_def)
next
  case (cancel i g c)
  then show ?case
    unfolding wait_cancel_def using flight_okD(2) [OF cancel.prems cancel.hyps(1)]
    by (intro flight_ok_leave) (auto simp: waiting_on_def)
qed (simp_all add: flight_ok_enter flight_ok_publish flight_ok_close)

lemma flight_reach_ok: "flight_reach g \<Longrightarrow> flight_ok g"
  by (induction rule: flight_reach.induct) (simp_all add: flight_ok_new flight_step_ok)

subsection \<open>The stage\<close>

text \<open>
  What the rest of the chain left behind: the tee's status, headers, body and truncation
  flag, and the carrier fields the stage reads.
\<close>

record handled =
  hstatus :: int
  hheader :: "string \<rightharpoonup> string"
  hbody :: string
  htruncated :: bool
  hservedBy :: string
  hrelay :: "(string \<times> bool) option"

definition maxCacheableBytes :: nat where "maxCacheableBytes = 8388608"

definition capture :: "handled \<Rightarrow> cache_entry" where
  "capture h = \<lparr>estatus = hstatus h, eheader = hheader h, ebody = hbody h\<rparr>"

definition upstreamOf :: "handled \<Rightarrow> string" where
  "upstreamOf h = (case hrelay h of Some (u, aborted) \<Rightarrow> u | None \<Rightarrow> ''-'')"

definition storeWorthy :: "handled \<Rightarrow> bool" where
  "storeWorthy h \<longleftrightarrow> hstatus h \<ge> 200 \<and> hstatus h < 300 \<and> \<not> htruncated h"

definition relayAborted :: "handled \<Rightarrow> bool" where
  "relayAborted h = (case hrelay h of Some (u, aborted) \<Rightarrow> aborted | None \<Rightarrow> False)"

definition storeWorthyFromEntry :: "cache_entry \<Rightarrow> bool" where
  "storeWorthyFromEntry e \<longleftrightarrow> estatus e \<ge> 200 \<and> estatus e < 300 \<and> length (ebody e) \<le> maxCacheableBytes"

definition negativelyCacheable :: "cache_entry \<Rightarrow> handled \<Rightarrow> bool" where
  "negativelyCacheable e h =
     (case hrelay h of
        None \<Rightarrow> False
      | Some (u, aborted) \<Rightarrow>
          if hservedBy h \<noteq> '''' \<or> u = '''' then False
          else if estatus e \<ge> 400 \<and> estatus e \<le> 507 then True
          else if estatus e \<ge> 200 \<and> estatus e < 300 then ebody e = []
          else False)"

datatype fetch_error = NoResponse | TooLarge

definition fetch_result :: "handled \<Rightarrow> fetch_error + cache_entry" where
  "fetch_result h =
     (if hstatus h < 100 \<or> hstatus h > 599 then Inl NoResponse
      else if htruncated h then Inl TooLarge
      else Inr (capture h))"

datatype reply = ByHandler | Replay cache_entry | BadGateway | NoReply

record stage_result =
  sreply :: reply
  scacheHit :: bool
  sstore :: "(cache_entry \<times> duration) option"
  sservedBy :: string

definition SourceCache :: string where "SourceCache = ''cache''"
definition SourceSharedFetch :: string where "SourceSharedFetch = ''shared-fetch''"

text \<open>
  The role \<open>Do\<close> gave this request: the starter, whose fetch the chain answered with
  \<open>h\<close>, or a waiter, with the outcome the flight shared (\<open>None\<close>: its own wait ended first).
\<close>

datatype role = Starter | Waiter "(fetch_error + cache_entry) option"

definition negative_ttl :: "duration \<Rightarrow> duration" where
  "negative_ttl d = d sdiv 10"

definition starter_store :: "handled \<Rightarrow> cache_entry \<Rightarrow> duration \<Rightarrow> (cache_entry \<times> duration) option" where
  "starter_store h e baseTTL =
     (if storeWorthyFromEntry e then Some (e, baseTTL)
      else if negativelyCacheable e h then Some (e, negative_ttl baseTTL)
      else None)"

definition cache_stage ::
  "bool \<Rightarrow> sampling \<Rightarrow> bool \<Rightarrow> cache_entry option \<Rightarrow> role \<Rightarrow> handled \<Rightarrow> bool \<Rightarrow> duration \<Rightarrow> stage_result" where
  "cache_stage openAI chat stream hit rl h clientGone baseTTL =
     (if \<not> openAI \<or> \<not> cache_Eligible chat
      then \<lparr>sreply = ByHandler, scacheHit = False, sstore = None, sservedBy = hservedBy h\<rparr>
      else case hit of
        Some e \<Rightarrow> \<lparr>sreply = Replay e, scacheHit = True, sstore = None, sservedBy = SourceCache\<rparr>
      | None \<Rightarrow>
          if stream
          then \<lparr>sreply = ByHandler, scacheHit = False,
                sstore = (if storeWorthy h \<and> \<not> relayAborted h then Some (capture h, baseTTL) else None),
                sservedBy = hservedBy h\<rparr>
          else (case rl of
            Starter \<Rightarrow>
              (case fetch_result h of
                 Inl err \<Rightarrow> \<lparr>sreply = (if hstatus h < 100 then if clientGone then NoReply else BadGateway else ByHandler),
                            scacheHit = False, sstore = None, sservedBy = hservedBy h\<rparr>
               | Inr e \<Rightarrow> \<lparr>sreply = ByHandler, scacheHit = False, sstore = starter_store h e baseTTL,
                          sservedBy = hservedBy h\<rparr>)
          | Waiter (Some (Inr e)) \<Rightarrow>
              \<lparr>sreply = Replay e, scacheHit = True, sstore = None, sservedBy = SourceSharedFetch\<rparr>
          | Waiter _ \<Rightarrow>
              \<lparr>sreply = (if clientGone then NoReply else BadGateway), scacheHit = False, sstore = None,
               sservedBy = ''''\<rparr>))"

lemma starter_store_exact:
  "starter_store h (capture h) baseTTL =
     (if 200 \<le> hstatus h \<and> hstatus h < 300
      then if length (hbody h) \<le> maxCacheableBytes then Some (capture h, baseTTL) else None
      else if 400 \<le> hstatus h \<and> hstatus h \<le> 507 \<and> hservedBy h = '''' \<and> (\<exists>u ab. hrelay h = Some (u, ab) \<and> u \<noteq> '''')
      then Some (capture h, baseTTL sdiv 10) else None)"
  by (auto simp: starter_store_def negativelyCacheable_def storeWorthyFromEntry_def capture_def negative_ttl_def
      split: if_splits option.splits)

subsection \<open>Properties\<close>

text \<open>
  C12: concurrent requests share one fetch and its outcome.  In every interleaving of
  joins, publications, closes, waits and cancelled waits: a key never has two fetches
  running; whoever returns from a flight, holder or waiter, returns the same outcome,
  panics included; the waiter count is exact; and a waiter is never stranded, because
  its flight is either closed, so that it can return, or has a holder that still will.
\<close>

theorem flight_shares_one_fetch:
  assumes "flight_reach g"
  shows "(\<forall>i j key c d. i < length (procs g) \<and> j < length (procs g) \<and> procs g ! i = Fetching key c \<and>
        procs g ! j = Fetching key d \<longrightarrow> i = j) \<and>
    (\<forall>c v w a b. Returned c v a \<in> set (procs g) \<and> Returned c w b \<in> set (procs g) \<longrightarrow> v = w) \<and>
    (\<forall>c. Waiting c \<in> set (procs g) \<longrightarrow>
       waiters (fheap g ! c) = int (length (filter (waiting_on c) (procs g))) \<and>
       (fdone (fheap g ! c) \<or> (\<exists>key. Fetching key c \<in> set (procs g)) \<or> (\<exists>v. Closing c v \<in> set (procs g))))"
proof -
  note ok = flight_reach_ok [OF assms]
  have "i = j" if "i < length (procs g)" "j < length (procs g)" "procs g ! i = Fetching key c"
    "procs g ! j = Fetching key d" for i j key c d
    using flight_okD(2) [OF ok that(1)] flight_okD(2) [OF ok that(2)] flight_okD(3) [OF ok that(1,2), of c] that
    by simp
  moreover have "v = w" if "Returned c v a \<in> set (procs g)" "Returned c w b \<in> set (procs g)" for c v w a b
    using flight_okD(1) [OF ok that(1)] flight_okD(1) [OF ok that(2)] by simp
  moreover have "waiters (fheap g ! c) = int (length (filter (waiting_on c) (procs g))) \<and>
      (fdone (fheap g ! c) \<or> (\<exists>key. Fetching key c \<in> set (procs g)) \<or> (\<exists>v. Closing c v \<in> set (procs g)))"
    if "Waiting c \<in> set (procs g)" for c
  proof -
    have c: "c < length (fheap g)" using flight_okD(1) [OF ok that] by simp
    obtain p where "p \<in> set (procs g)" "holds c p" "proc_ok g p" using flight_has_holder [OF ok c] by blast
    then show ?thesis using flight_okD(5) [OF ok c] by (cases p rule: proc.exhaust) auto
  qed
  ultimately show ?thesis by blast
qed

definition demo_flights :: "string flights" where
  "demo_flights =
     (let g = do_enter (do_enter (do_enter NewFlight ''k'') ''k'') ''k''
      in wait_done (do_close (do_publish g 0 ''k'' 0 (Fetched ''v'')) 0 0 (Fetched ''v'')) 1 0)"

theorem flight_shares_one_fetch_witness:
  "procs demo_flights = [Returned 0 (Fetched ''v'') True, Returned 0 (Fetched ''v'') False, Waiting 0] \<and>
   waiters (fheap demo_flights ! 0) = 1"
proof -
  let ?g0 = "do_enter (do_enter (do_enter NewFlight ''k'') ''k'') ''k'' :: string flights"
  let ?g1 = "do_publish ?g0 0 ''k'' 0 (Fetched ''v'')"
  let ?g2 = "do_close ?g1 0 0 (Fetched ''v'')"
  have "flight_reach ?g0" by (intro flight_reach.step [OF _ flight_step.enter] flight_reach.init)
  then have "flight_reach ?g1"
    by (rule flight_reach.step) (rule flight_step.publish; simp add: do_enter_def NewFlight_def)
  then have "flight_reach ?g2"
    by (rule flight_reach.step) (rule flight_step.close; simp add: do_publish_def do_enter_def NewFlight_def)
  then have r: "flight_reach demo_flights"
    unfolding demo_flights_def Let_def
    by (rule flight_reach.step) (rule flight_step.wait; simp add: do_close_def do_publish_def do_enter_def NewFlight_def)
  have p: "procs demo_flights = [Returned 0 (Fetched ''v'') True, Returned 0 (Fetched ''v'') False, Waiting 0]"
    by (simp add: demo_flights_def wait_done_def leave_flight_def do_close_def do_publish_def do_enter_def NewFlight_def)
  have "waiters (fheap demo_flights ! 0) = int (length (filter (waiting_on 0) (procs demo_flights)))"
    using flight_shares_one_fetch [OF r] unfolding p by auto
  then show ?thesis unfolding p by (simp add: waiting_on_def)
qed

text \<open>
  C30: the stage stores only complete replies, each for its TTL, and never charges a replay.
  What is stored is a whole, untruncated capture of this request's own exchange: a 2xx, of
  a starter or of a stream that was not aborted, for the whole base TTL; or, of a starter,
  an error between 400 and 507 that a named upstream produced, for a tenth of it; and
  nothing else, so an empty success has the base TTL like any other.  Hits and shared
  replies store nothing, and a waiter's failure is an error envelope unless its client has
  gone.
\<close>

theorem stage_stores_complete:
  assumes "res = cache_stage openAI chat stream hit rl h clientGone baseTTL"
  shows "sstore res =
      (if openAI \<and> cache_Eligible chat \<and> hit = None \<and> \<not> htruncated h \<and> (stream \<or> rl = Starter)
       then if 200 \<le> hstatus h \<and> hstatus h < 300
            then if (if stream then \<not> relayAborted h else length (hbody h) \<le> maxCacheableBytes)
                 then Some (capture h, baseTTL) else None
            else if \<not> stream \<and> 400 \<le> hstatus h \<and> hstatus h \<le> 507 \<and> hservedBy h = '''' \<and>
                (\<exists>u ab. hrelay h = Some (u, ab) \<and> u \<noteq> '''')
            then Some (capture h, baseTTL sdiv 10) else None
       else None) \<and>
    (scacheHit res \<longrightarrow> sstore res = None \<and> (\<exists>e. sreply res = Replay e)) \<and>
    (rl = Waiter w \<and> openAI \<and> cache_Eligible chat \<and> hit = None \<and> \<not> stream \<and> (\<forall>e. w \<noteq> Some (Inr e)) \<longrightarrow>
       sreply res = (if clientGone then NoReply else BadGateway))"
proof (cases "openAI \<and> cache_Eligible chat \<and> hit = None")
  case False
  then show ?thesis by (auto simp: assms cache_stage_def split: option.splits)
next
  case miss: True
  show ?thesis
  proof (cases "stream")
    case True
    then show ?thesis using miss by (auto simp: assms cache_stage_def storeWorthy_def)
  next
    case False
    show ?thesis
    proof (cases rl)
      case Starter
      show ?thesis
      proof (cases "hstatus h < 100 \<or> hstatus h > 599 \<or> htruncated h")
        case True
        then show ?thesis using miss False Starter by (auto simp: assms cache_stage_def fetch_result_def)
      next
        case whole: False
        then show ?thesis
          using miss False Starter by (auto simp: assms cache_stage_def fetch_result_def starter_store_exact)
      qed
    next
      case (Waiter v)
      then show ?thesis
        using miss False by (auto simp: assms cache_stage_def split: option.splits sum.splits)
    qed
  qed
qed

definition demo_handled :: "int \<Rightarrow> string \<Rightarrow> handled" where
  "demo_handled status body =
     \<lparr>hstatus = status, hheader = Map.empty, hbody = body, htruncated = False, hservedBy = '''',
      hrelay = Some (''up'', False)\<rparr>"

definition greedy :: sampling where
  "greedy = \<lparr>stemperature = Some 0, stopP = None, sn = None\<rparr>"

theorem stage_stores_complete_witness:
  "sstore (cache_stage True greedy False None Starter (demo_handled 429 ''slow down'') False (10 * Second)) =
     Some (capture (demo_handled 429 ''slow down''), Second) \<and>
   sstore (cache_stage True greedy False None Starter (demo_handled 200 []) False (10 * Second)) =
     Some (capture (demo_handled 200 []), 10 * Second)"
proof -
  have "cache_Eligible greedy" by (simp add: greedy_def cache_Eligible_def)
  then show ?thesis
    using stage_stores_complete [OF refl, of True greedy False None Starter "demo_handled 429 ''slow down''" False "10 * Second"]
      stage_stores_complete [OF refl, of True greedy False None Starter "demo_handled 200 []" False "10 * Second"]
    by (simp add: demo_handled_def sdiv_nonneg_pos ex_bool_eq)
qed

text \<open>
  An empty success is stored for the whole TTL: the starter's first case already covers
  it, so the short negative TTL meant for it is never reached.
\<close>

lemma empty_success_keeps_full_ttl:
  "200 \<le> hstatus h \<Longrightarrow> hstatus h < 300 \<Longrightarrow> hbody h = [] \<Longrightarrow>
     starter_store h (capture h) baseTTL = Some (capture h, baseTTL)"
  by (simp add: starter_store_def storeWorthyFromEntry_def capture_def)

end
