(* ===== verification/Go_Time.thy ===== *)
theory Go_Time
  imports Go_Strings Float64
begin

text \<open>
  \<open>time.ParseDuration\<close> of Go's standard library, which reads every duration of the
  configuration: a signed sequence of decimal numbers with a unit, summed in unsigned 64-bit
  arithmetic, the fraction of a number in doubles.
\<close>

definition two63 :: int where "two63 = 9223372036854775808"

fun leadingInt :: "int \<Rightarrow> string \<Rightarrow> (int \<times> string) option" where
  "leadingInt x [] = Some (x, [])"
| "leadingInt x (c # cs) =
     (case digit_val c of
        None \<Rightarrow> Some (x, c # cs)
      | Some d \<Rightarrow>
          if x > two63 div 10 then None
          else let y = x * 10 + d in if y > two63 then None else leadingInt y cs)"

text \<open>Digits past the precision of an integer are skipped, they only lose accuracy.\<close>

fun leadingFraction :: "int \<Rightarrow> rat \<Rightarrow> bool \<Rightarrow> string \<Rightarrow> int \<times> rat \<times> string" where
  "leadingFraction x scale overflow [] = (x, scale, [])"
| "leadingFraction x scale overflow (c # cs) =
     (case digit_val c of
        None \<Rightarrow> (x, scale, c # cs)
      | Some d \<Rightarrow>
          if overflow \<or> x > (two63 - 1) div 10 then leadingFraction x scale True cs
          else let y = x * 10 + d
               in if y > two63 then leadingFraction x scale True cs
                  else leadingFraction y (fl (scale * 10)) False cs)"

definition unitMap :: "string \<Rightarrow> int option" where
  "unitMap u =
     (if u = ''ns'' then Some 1
      else if u = ''us'' \<or> u = [CHR 0xC2, CHR 0xB5, CHR ''s''] \<or> u = [CHR 0xCE, CHR 0xBC, CHR ''s''] then Some 1000
      else if u = ''ms'' then Some 1000000
      else if u = ''s'' then Some 1000000000
      else if u = ''m'' then Some 60000000000
      else if u = ''h'' then Some 3600000000000
      else None)"

definition number_start :: "char \<Rightarrow> bool" where
  "number_start c \<longleftrightarrow> c = CHR ''.'' \<or> digit_val c \<noteq> None"

text \<open>One number with its unit, in nanoseconds, and what follows it.\<close>

definition parse_term :: "string \<Rightarrow> (int \<times> string) option" where
  "parse_term s =
     (if s = [] \<or> \<not> number_start (hd s) then None
      else case leadingInt 0 s of
             None \<Rightarrow> None
           | Some (v, s1) \<Rightarrow>
               let pre = (length s \<noteq> length s1);
                   (f, scale, s2, post) =
                     (if s1 \<noteq> [] \<and> hd s1 = CHR ''.''
                      then (case leadingFraction 0 1 False (tl s1) of
                              (f, scale, s2) \<Rightarrow> (f, scale, s2, length (tl s1) \<noteq> length s2))
                      else (0, 1, s1, False));
                   u = takeWhile (\<lambda>c. \<not> number_start c) s2
               in if \<not> pre \<and> \<not> post then None
                  else if u = [] then None
                  else case unitMap u of
                         None \<Rightarrow> None
                       | Some n \<Rightarrow>
                           if v > two63 div n then None
                           else let w = (if f > 0 then (v * n + \<lfloor>fl (f64 f * fl (f64 n / scale))\<rfloor>) mod 2 ^ 64 else v * n)
                                in if f > 0 \<and> w > two63 then None
                                   else Some (w, dropWhile (\<lambda>c. \<not> number_start c) s2))"

lemma leadingInt_length: "leadingInt x s = Some (v, r) \<Longrightarrow> length r \<le> length s"
  by (induction s arbitrary: x) (fastforce simp: Let_def split: option.splits if_splits)+

lemma leadingFraction_length: "leadingFraction x sc ov s = (f, sc', r) \<Longrightarrow> length r \<le> length s"
  by (induction s arbitrary: x sc ov) (fastforce simp: Let_def split: option.splits if_splits)+

lemma dropWhile_shorter: "takeWhile P s \<noteq> [] \<Longrightarrow> length (dropWhile P s) < length s"
  by (induction s) (auto simp: less_Suc_eq_le length_dropWhile_le split: if_splits)

lemma parse_term_shorter:
  assumes "parse_term s = Some (v, rest)"
  shows "length rest < length s"
proof -
  obtain v0 s1 where l: "leadingInt 0 s = Some (v0, s1)"
    using assms by (auto simp: parse_term_def split: if_splits option.splits)
  obtain f sc s2 post where q: "(if s1 \<noteq> [] \<and> hd s1 = CHR ''.''
      then (case leadingFraction 0 1 False (tl s1) of (f, scale, s2) \<Rightarrow> (f, scale, s2, length (tl s1) \<noteq> length s2))
      else (0, 1, s1, False)) = (f, sc, s2, post)"
    by (rule prod_cases4)
  have "length s2 \<le> length s1"
    using q by (auto dest!: leadingFraction_length split: if_splits prod.splits)
  moreover have "takeWhile (\<lambda>c. \<not> number_start c) s2 \<noteq> []" "rest = dropWhile (\<lambda>c. \<not> number_start c) s2"
    using assms l q by (auto simp: parse_term_def Let_def split: if_splits option.splits)
  ultimately show ?thesis
    using leadingInt_length [OF l] dropWhile_shorter [of "\<lambda>c. \<not> number_start c" s2] by simp
qed

function parse_terms :: "int \<Rightarrow> string \<Rightarrow> int option" where
  "parse_terms d s =
     (if s = [] then Some d
      else case parse_term s of
             None \<Rightarrow> None
           | Some (v, rest) \<Rightarrow>
               let d1 = (d + v) mod 2 ^ 64 in if d1 > two63 then None else parse_terms d1 rest)"
  by pat_completeness auto

termination by (relation "measure (\<lambda>(d, s). length s)") (auto simp: parse_term_shorter)

declare parse_terms.simps [simp del]

definition ParseDuration :: "string \<Rightarrow> duration option" where
  "ParseDuration s =
     (let neg = (s \<noteq> [] \<and> hd s = CHR ''-'');
          t = (if s \<noteq> [] \<and> (hd s = CHR ''-'' \<or> hd s = CHR ''+'') then tl s else s)
      in if t = ''0'' then Some 0
         else if t = [] then None
         else case parse_terms 0 t of
                None \<Rightarrow> None
              | Some d \<Rightarrow> if neg then Some (i64 (- i64 d)) else if d > two63 - 1 then None else Some d)"

lemma parse_terms_nonneg: "parse_terms d s = Some d' \<Longrightarrow> 0 \<le> d \<Longrightarrow> 0 \<le> d'"
proof (induction d s rule: parse_terms.induct)
  case (1 d s)
  then show ?case by (subst (asm) parse_terms.simps) (auto simp: Let_def split: if_splits option.splits)
qed

lemma ParseDuration_range: "ParseDuration s = Some d \<Longrightarrow> in64 d"
  unfolding ParseDuration_def Let_def
  using in64_nonneg [of d]
  by (auto dest!: parse_terms_nonneg simp: two63_def MaxInt64_def split: if_splits option.splits)

end
