(* ===== verification/Config.thy ===== *)
theory Config
  imports Go_Json Go_Time "HOL-Library.AList"
begin

text \<open>
  The configuration of the process (\<^verbatim>\<open>internal/config/config.go\<close>, \<^verbatim>\<open>env.go\<close>): the schema, the
  defaults, the parsers of one environment variable, the loaders and validators of each
  subsystem in load order, and the guard on the deployment's posture.

  The environment, the file system, the JSON syntax, \<open>url.Parse\<close> and \<open>strconv.ParseFloat\<close> are
  the argument \<open>env_libs\<close>.  An error is named by the variable and the rule it breaks; the
  rendered message is not modelled.  A Go map is an association list with distinct keys, which
  is walked in its order: the runtime picks an order of its own, on which only the choice among
  several errors depends.
\<close>

subsection \<open>Schema\<close>

text \<open>A double as \<open>ParseFloat\<close> may return it.\<close>

datatype go_float = Finite rat | Infinite bool | NotANumber

record server_cfg =
  svAddr :: string
  svShutdownGrace :: duration

record redis_cfg =
  rdAddr :: string
  rdNamespace :: string
  rdTLS :: bool

record obs_cfg =
  obAccessLogQueueSize :: int
  obAccessLogPath :: string
  obInsightsDSN :: string

record upstream_cfg =
  upID :: string
  upBaseURL :: string
  upAPIKey :: string
  upAPIKeys :: "string list"
  upProbeURL :: string
  upModels :: "string list"

record retry_cfg =
  rtMaxAttempts :: int
  rtAttemptTimeout :: duration
  rtOverallDeadline :: duration
  rtBackoffInitial :: duration
  rtBackoffMax :: duration
  rtBudgetMaxInFlight :: int
  rtBudgetPercent :: int
  rtBudgetMinInFlight :: int
  rtStreamTimeout :: duration
  rtStreamIdleTimeout :: duration

record cache_cfg =
  chEnabled :: bool
  chTTL :: duration
  chCapacity :: int

record circuit_cfg =
  ciEnabled :: bool
  ciStrategy :: string
  ciFailThreshold :: int
  ciCooldown :: duration
  ciProbeTimeout :: duration
  ciSlowRatio :: go_float
  ciSlowCallThreshold :: duration

record security_cfg =
  scAdminToken :: string
  scAllowUnauthenticated :: bool

record probe_cfg =
  pbInterval :: duration
  pbTimeout :: duration
  pbThreshold :: int
  pbBackoffMax :: duration

record routing_cfg =
  roStrategy :: string
  roAffinityTTL :: duration

record gateway_config =
  cfServer :: server_cfg
  cfRedis :: redis_cfg
  cfPostgresDSN :: string
  cfObs :: obs_cfg
  cfQuotaLeaseTTL :: duration
  cfUpstreams :: "upstream_cfg list"
  cfRetry :: retry_cfg
  cfIdentity :: string
  cfKeyPepper :: string
  cfFallbacks :: "(string \<times> string list) list"
  cfContextLimits :: "(string \<times> int) list"
  cfReconcileInterval :: duration
  cfUpstreamMaxInFlight :: int
  cfCache :: cache_cfg
  cfCircuit :: circuit_cfg
  cfSecurity :: security_cfg
  cfProbe :: probe_cfg
  cfRouting :: routing_cfg

definition Credentials :: "upstream_cfg \<Rightarrow> string list" where
  "Credentials u = (if upAPIKey u \<noteq> '''' then [upAPIKey u] else []) @ upAPIKeys u"

subsection \<open>The horizon of a request\<close>

definition leaseTTLHeadroom :: duration where "leaseTTLHeadroom = Minute"
definition unboundedRequestLeaseTTL :: duration where "unboundedRequestLeaseTTL = 24 * Hour"

definition addDuration :: "duration \<Rightarrow> duration \<Rightarrow> duration" where
  "addDuration a b = (let sum = i64 (a + b) in if sum < 0 then MaxInt64 else sum)"

definition requestBudget :: "gateway_config \<Rightarrow> duration option" where
  "requestBudget c =
     (if rtOverallDeadline (cfRetry c) \<le> 0 \<or> rtStreamTimeout (cfRetry c) \<le> 0 then None
      else Some (addDuration (rtOverallDeadline (cfRetry c)) (rtStreamTimeout (cfRetry c))))"

definition RequestCeiling :: "gateway_config \<Rightarrow> duration" where
  "RequestCeiling c = (case requestBudget c of Some budget \<Rightarrow> budget | None \<Rightarrow> unboundedRequestLeaseTTL)"

definition LeaseTTL :: "gateway_config \<Rightarrow> duration" where
  "LeaseTTL c =
     (if cfQuotaLeaseTTL c > 0 then cfQuotaLeaseTTL c
      else case requestBudget c of
             Some budget \<Rightarrow> addDuration budget leaseTTLHeadroom
           | None \<Rightarrow> unboundedRequestLeaseTTL)"

subsection \<open>The variables\<close>

datatype env_key =
    envAddr | envShutdownGrace | envRedisAddr | envRedisTLS | envPostgresDSN | envAccessLogQueue | envUpstreams
  | envAllowUnauthenticated | EnvRedisNamespace | envQuotaLeaseTTL
  | envRetryMaxAttempts | envRetryAttemptTimeout | envRetryOverall | envRetryBackoffInitial | envRetryBackoffMax
  | envRetryBudget | envRetryBudgetPercent | envRetryBudgetMin | envStreamTimeout | envStreamIdleTimeout
  | envReconcileInterval | envIdentity | envKeyPepper
  | envCacheEnabled | envCacheTTL | envCacheCapacity
  | envCircuitEnabled | envCircuitStrategy | envCircuitThreshold | envCircuitCooldown | envCircuitProbe
  | envCircuitSlowRatio | envCircuitSlowThresh
  | envAccessLogPath | envAdminToken | envRouting | envAffinity | envInsightsDSN
  | envProbeInterval | envProbeTimeout | envProbeThreshold | envProbeBackoff
  | envFallbacks | envContextLimits | envUpstreamMaxInFlight

primrec env_name :: "env_key \<Rightarrow> string" where
  "env_name envAddr = ''BREAKWATER_ADDR''"
| "env_name envShutdownGrace = ''BREAKWATER_SHUTDOWN_GRACE''"
| "env_name envRedisAddr = ''BREAKWATER_REDIS_ADDR''"
| "env_name envRedisTLS = ''BREAKWATER_REDIS_TLS''"
| "env_name envPostgresDSN = ''BREAKWATER_POSTGRES_DSN''"
| "env_name envAccessLogQueue = ''BREAKWATER_ACCESS_LOG_QUEUE_SIZE''"
| "env_name envUpstreams = ''BREAKWATER_UPSTREAMS''"
| "env_name envAllowUnauthenticated = ''BREAKWATER_ALLOW_UNAUTHENTICATED''"
| "env_name EnvRedisNamespace = ''BREAKWATER_REDIS_NAMESPACE''"
| "env_name envQuotaLeaseTTL = ''BREAKWATER_QUOTA_LEASE_TTL''"
| "env_name envRetryMaxAttempts = ''BREAKWATER_RETRY_MAX_ATTEMPTS''"
| "env_name envRetryAttemptTimeout = ''BREAKWATER_RETRY_ATTEMPT_TIMEOUT''"
| "env_name envRetryOverall = ''BREAKWATER_RETRY_OVERALL_DEADLINE''"
| "env_name envRetryBackoffInitial = ''BREAKWATER_RETRY_BACKOFF_INITIAL''"
| "env_name envRetryBackoffMax = ''BREAKWATER_RETRY_BACKOFF_MAX''"
| "env_name envRetryBudget = ''BREAKWATER_RETRY_BUDGET_MAX_IN_FLIGHT''"
| "env_name envRetryBudgetPercent = ''BREAKWATER_RETRY_BUDGET_PERCENT''"
| "env_name envRetryBudgetMin = ''BREAKWATER_RETRY_BUDGET_MIN_IN_FLIGHT''"
| "env_name envStreamTimeout = ''BREAKWATER_STREAM_TIMEOUT''"
| "env_name envStreamIdleTimeout = ''BREAKWATER_STREAM_IDLE_TIMEOUT''"
| "env_name envReconcileInterval = ''BREAKWATER_RECONCILE_INTERVAL''"
| "env_name envIdentity = ''BREAKWATER_IDENTITY''"
| "env_name envKeyPepper = ''BREAKWATER_KEY_PEPPER''"
| "env_name envCacheEnabled = ''BREAKWATER_CACHE_ENABLED''"
| "env_name envCacheTTL = ''BREAKWATER_CACHE_TTL''"
| "env_name envCacheCapacity = ''BREAKWATER_CACHE_CAPACITY''"
| "env_name envCircuitEnabled = ''BREAKWATER_CIRCUIT_ENABLED''"
| "env_name envCircuitStrategy = ''BREAKWATER_CIRCUIT_STRATEGY''"
| "env_name envCircuitThreshold = ''BREAKWATER_CIRCUIT_FAIL_THRESHOLD''"
| "env_name envCircuitCooldown = ''BREAKWATER_CIRCUIT_COOLDOWN''"
| "env_name envCircuitProbe = ''BREAKWATER_CIRCUIT_PROBE_TIMEOUT''"
| "env_name envCircuitSlowRatio = ''BREAKWATER_CIRCUIT_SLOW_RATIO''"
| "env_name envCircuitSlowThresh = ''BREAKWATER_CIRCUIT_SLOW_THRESHOLD''"
| "env_name envAccessLogPath = ''BREAKWATER_ACCESS_LOG_PATH''"
| "env_name envAdminToken = ''BREAKWATER_ADMIN_TOKEN''"
| "env_name envRouting = ''BREAKWATER_ROUTING_STRATEGY''"
| "env_name envAffinity = ''BREAKWATER_ROUTING_AFFINITY_TTL''"
| "env_name envInsightsDSN = ''BREAKWATER_INSIGHTS_DSN''"
| "env_name envProbeInterval = ''BREAKWATER_PROBE_INTERVAL''"
| "env_name envProbeTimeout = ''BREAKWATER_PROBE_TIMEOUT''"
| "env_name envProbeThreshold = ''BREAKWATER_PROBE_THRESHOLD''"
| "env_name envProbeBackoff = ''BREAKWATER_PROBE_BACKOFF_MAX''"
| "env_name envFallbacks = ''BREAKWATER_FALLBACKS''"
| "env_name envContextLimits = ''BREAKWATER_CONTEXT_LIMITS''"
| "env_name envUpstreamMaxInFlight = ''BREAKWATER_UPSTREAM_MAX_INFLIGHT''"

text \<open>
  What the process reads from outside: \<open>elGetenv\<close> gives the empty string for an unset
  variable, \<open>elJSON\<close> the first value of a document and whether nothing follows it,
  \<open>elParseURL\<close> the scheme and the host.
\<close>

record env_libs =
  elGetenv :: "string \<Rightarrow> string"
  elReadFile :: "string \<Rightarrow> string option"
  elJSON :: "string \<Rightarrow> (json \<times> bool) option"
  elParseFloat :: "string \<Rightarrow> go_float option"
  elParseURL :: "string \<Rightarrow> (string \<times> string) option"

datatype upstream_fault =
    NeedsIdAndURL | InvalidID | RepeatedID | UnparsableURL | BadSchemeOrHost | NoModels | BadBinding string
  | EmptyCredential int | RepeatedCredential

datatype config_error =
    CannotParse env_key | TrailingData env_key | NamesNoFile env_key | CannotRead env_key
  | MustNotBeNegative env_key | MustBePositive env_key | MustBeAtMost env_key int | NotAllowed env_key
  | LeaseTooShort duration duration
  | NeedsAtLeastOne env_key env_key | NeedsLoop env_key env_key | NeededBy env_key env_key
  | EmptyModelName env_key | LimitNotPositive string | NoFallbacks string | EmptyFallback string
  | BadUpstream nat upstream_fault
  | OpenProxy | OpenIdentitySurface | OpenAdminSurface

subsection \<open>Errors as values\<close>

definition andThen :: "'e + 'a \<Rightarrow> ('a \<Rightarrow> 'e + 'b) \<Rightarrow> 'e + 'b" where
  "andThen r f = (case r of Inl e \<Rightarrow> Inl e | Inr x \<Rightarrow> f x)"

definition refuse_if :: "bool \<Rightarrow> 'e \<Rightarrow> 'e + unit" where
  "refuse_if b e = (if b then Inl e else Inr ())"

lemma andThen_Inr [simp]: "andThen r f = Inr y \<longleftrightarrow> (\<exists>x. r = Inr x \<and> f x = Inr y)"
  by (cases r) (auto simp: andThen_def)

lemma refuse_if_Inr [simp]: "refuse_if b e = Inr x \<longleftrightarrow> \<not> b"
  by (simp add: refuse_if_def)

subsection \<open>One variable\<close>

definition env_raw :: "env_libs \<Rightarrow> env_key \<Rightarrow> string" where
  "env_raw L key = trim_space (elGetenv L (env_name key))"

definition envString :: "env_libs \<Rightarrow> env_key \<Rightarrow> string \<Rightarrow> string" where
  "envString L key fallback = (let v = env_raw L key in if v \<noteq> '''' then v else fallback)"

definition envDuration :: "env_libs \<Rightarrow> env_key \<Rightarrow> duration \<Rightarrow> config_error + duration" where
  "envDuration L key fallback =
     (let raw = env_raw L key in
      if raw = '''' then Inr fallback
      else case ParseDuration raw of None \<Rightarrow> Inl (CannotParse key) | Some d \<Rightarrow> Inr d)"

definition envInt :: "env_libs \<Rightarrow> env_key \<Rightarrow> int \<Rightarrow> config_error + int" where
  "envInt L key fallback =
     (let raw = env_raw L key in
      if raw = '''' then Inr fallback
      else case parse_int64 raw of None \<Rightarrow> Inl (CannotParse key) | Some n \<Rightarrow> Inr n)"

definition envFloat :: "env_libs \<Rightarrow> env_key \<Rightarrow> go_float \<Rightarrow> config_error + go_float" where
  "envFloat L key fallback =
     (let raw = env_raw L key in
      if raw = '''' then Inr fallback
      else case elParseFloat L raw of None \<Rightarrow> Inl (CannotParse key) | Some f \<Rightarrow> Inr f)"

text \<open>\<open>strconv.ParseBool\<close>.\<close>

definition parse_bool :: "string \<Rightarrow> bool option" where
  "parse_bool s =
     (if s \<in> {''1'', ''t'', ''T'', ''true'', ''TRUE'', ''True''} then Some True
      else if s \<in> {''0'', ''f'', ''F'', ''false'', ''FALSE'', ''False''} then Some False
      else None)"

definition envBool :: "env_libs \<Rightarrow> env_key \<Rightarrow> bool \<Rightarrow> config_error + bool" where
  "envBool L key fallback =
     (let raw = env_raw L key in
      if raw = '''' then Inr fallback
      else case parse_bool raw of None \<Rightarrow> Inl (CannotParse key) | Some b \<Rightarrow> Inr b)"

text \<open>A decoder that refuses unknown members, as \<open>DisallowUnknownFields\<close> asks.\<close>

definition dec_strict :: "(string \<times> 's decoder) list \<Rightarrow> 's decoder" where
  "dec_strict fs j s =
     (case dec_struct fs j s of
        (s1, ok) \<Rightarrow>
          (s1, ok \<and> (case j of
                        JObj ms \<Rightarrow> list_all (\<lambda>(k, _). list_ex (\<lambda>f. fold_name (fst f) = fold_name k) fs) ms
                      | _ \<Rightarrow> True)))"

definition zero_upstream :: upstream_cfg where
  "zero_upstream = \<lparr>upID = '''', upBaseURL = '''', upAPIKey = '''', upAPIKeys = [], upProbeURL = '''', upModels = []\<rparr>"

definition dec_upstream :: "upstream_cfg decoder" where
  "dec_upstream = dec_strict
     [(''id'', field upID upID_update dec_string),
      (''base_url'', field upBaseURL upBaseURL_update dec_string),
      (''api_key'', field upAPIKey upAPIKey_update dec_string),
      (''api_keys'', field upAPIKeys upAPIKeys_update (dec_slice '''' dec_string)),
      (''probe_url'', field upProbeURL upProbeURL_update dec_string),
      (''models'', field upModels upModels_update (dec_slice '''' dec_string))]"

definition envJSON :: "env_libs \<Rightarrow> 'a decoder \<Rightarrow> 'a \<Rightarrow> env_key \<Rightarrow> config_error + 'a list" where
  "envJSON L d zero key =
     (let raw = env_raw L key in
      if raw = '''' then Inr []
      else case elJSON L raw of
             None \<Rightarrow> Inl (CannotParse key)
           | Some (j, alone) \<Rightarrow>
               (case dec_slice zero d j [] of
                  (out, ok) \<Rightarrow>
                    if \<not> ok then Inl (CannotParse key) else if \<not> alone then Inl (TrailingData key) else Inr out))"

definition dec_map :: "'a \<Rightarrow> 'a decoder \<Rightarrow> (string \<times> 'a) list decoder" where
  "dec_map zero d j old =
     (case j of
        JObj ms \<Rightarrow> (foldl (\<lambda>m (k, e). AList.update k (fst (d e zero)) m) old ms, list_all (\<lambda>(k, e). snd (d e zero)) ms)
      | JNull \<Rightarrow> ([], True)
      | _ \<Rightarrow> (old, False))"

definition envJSONMap :: "env_libs \<Rightarrow> 'a decoder \<Rightarrow> 'a \<Rightarrow> env_key \<Rightarrow> config_error + (string \<times> 'a) list" where
  "envJSONMap L d zero key =
     (let raw = env_raw L key in
      if raw = '''' then Inr []
      else case elJSON L raw of
             Some (j, True) \<Rightarrow>
               (case dec_map zero d j [] of (out, ok) \<Rightarrow> if ok then Inr out else Inl (CannotParse key))
           | _ \<Rightarrow> Inl (CannotParse key))"

subsection \<open>Loading\<close>

definition defaultConfig :: "env_libs \<Rightarrow> gateway_config" where
  "defaultConfig L =
     \<lparr>cfServer = \<lparr>svAddr = envString L envAddr '':8080'', svShutdownGrace = 15 * Second\<rparr>,
      cfRedis = \<lparr>rdAddr = envString L envRedisAddr '''', rdNamespace = env_raw L EnvRedisNamespace, rdTLS = False\<rparr>,
      cfPostgresDSN = env_raw L envPostgresDSN,
      cfObs = \<lparr>obAccessLogQueueSize = 4096, obAccessLogPath = env_raw L envAccessLogPath,
               obInsightsDSN = env_raw L envInsightsDSN\<rparr>,
      cfQuotaLeaseTTL = 0,
      cfUpstreams = [],
      cfRetry = \<lparr>rtMaxAttempts = 3, rtAttemptTimeout = 30 * Second, rtOverallDeadline = 60 * Second,
                 rtBackoffInitial = 100 * Millisecond, rtBackoffMax = 2 * Second, rtBudgetMaxInFlight = 64,
                 rtBudgetPercent = 0, rtBudgetMinInFlight = 3, rtStreamTimeout = 10 * Minute, rtStreamIdleTimeout = 0\<rparr>,
      cfIdentity = env_raw L envIdentity,
      cfKeyPepper = env_raw L envKeyPepper,
      cfFallbacks = [],
      cfContextLimits = [],
      cfReconcileInterval = Minute,
      cfUpstreamMaxInFlight = 0,
      cfCache = \<lparr>chEnabled = True, chTTL = 60 * Second, chCapacity = 1024\<rparr>,
      cfCircuit = \<lparr>ciEnabled = True, ciStrategy = ''consecutive'', ciFailThreshold = 5, ciCooldown = 30 * Second,
                   ciProbeTimeout = 5 * Second, ciSlowRatio = Finite (1 / 2), ciSlowCallThreshold = 0\<rparr>,
      cfSecurity = \<lparr>scAdminToken = env_raw L envAdminToken, scAllowUnauthenticated = False\<rparr>,
      cfProbe = \<lparr>pbInterval = 30 * Second, pbTimeout = 5 * Second, pbThreshold = 2, pbBackoffMax = 0\<rparr>,
      cfRouting = \<lparr>roStrategy = envString L envRouting ''static'', roAffinityTTL = 0\<rparr>\<rparr>"

definition loadIdentitySource :: "env_libs \<Rightarrow> env_key \<Rightarrow> string \<Rightarrow> config_error + string" where
  "loadIdentitySource L key raw =
     (if \<not> has_prefix raw ''file://'' then Inr raw
      else let path = drop (length ''file://'') raw
           in if path = '''' then Inl (NamesNoFile key)
              else case elReadFile L path of None \<Rightarrow> Inl (CannotRead key) | Some s \<Rightarrow> Inr s)"

definition loadSecurity :: "env_libs \<Rightarrow> gateway_config \<Rightarrow> config_error + gateway_config" where
  "loadSecurity L cfg =
     andThen (envBool L envAllowUnauthenticated False) (\<lambda>a.
     Inr (cfg\<lparr>cfSecurity := (cfSecurity cfg)\<lparr>scAllowUnauthenticated := a\<rparr>\<rparr>))"

definition loadRetry :: "env_libs \<Rightarrow> gateway_config \<Rightarrow> config_error + gateway_config" where
  "loadRetry L cfg =
     andThen (envInt L envRetryMaxAttempts (rtMaxAttempts (cfRetry cfg))) (\<lambda>attempts.
     andThen (envDuration L envRetryAttemptTimeout (rtAttemptTimeout (cfRetry cfg))) (\<lambda>timeout.
     andThen (envDuration L envRetryOverall (rtOverallDeadline (cfRetry cfg))) (\<lambda>overall.
     andThen (envDuration L envRetryBackoffInitial (rtBackoffInitial (cfRetry cfg))) (\<lambda>initial.
     andThen (envDuration L envRetryBackoffMax (rtBackoffMax (cfRetry cfg))) (\<lambda>most.
     andThen (refuse_if (timeout < 0) (MustNotBeNegative envRetryAttemptTimeout)) (\<lambda>_.
     andThen (refuse_if (overall < 0) (MustNotBeNegative envRetryOverall)) (\<lambda>_.
     andThen (refuse_if (initial < 0) (MustNotBeNegative envRetryBackoffInitial)) (\<lambda>_.
     andThen (refuse_if (most < 0) (MustNotBeNegative envRetryBackoffMax)) (\<lambda>_.
     andThen (envInt L envRetryBudget (rtBudgetMaxInFlight (cfRetry cfg))) (\<lambda>budget.
     andThen (envInt L envRetryBudgetPercent (rtBudgetPercent (cfRetry cfg))) (\<lambda>percent.
     andThen (envInt L envRetryBudgetMin (rtBudgetMinInFlight (cfRetry cfg))) (\<lambda>least.
     andThen (envDuration L envStreamTimeout (rtStreamTimeout (cfRetry cfg))) (\<lambda>stream.
     andThen (refuse_if (stream < 0) (MustNotBeNegative envStreamTimeout)) (\<lambda>_.
     andThen (envDuration L envStreamIdleTimeout (rtStreamIdleTimeout (cfRetry cfg))) (\<lambda>idle.
     andThen (refuse_if (idle < 0) (MustNotBeNegative envStreamIdleTimeout)) (\<lambda>_.
     Inr (cfg\<lparr>cfRetry := \<lparr>rtMaxAttempts = attempts, rtAttemptTimeout = timeout, rtOverallDeadline = overall,
       rtBackoffInitial = initial, rtBackoffMax = most, rtBudgetMaxInFlight = budget, rtBudgetPercent = percent,
       rtBudgetMinInFlight = least, rtStreamTimeout = stream, rtStreamIdleTimeout = idle\<rparr>\<rparr>)))))))))))))))))"

definition loadQuota :: "env_libs \<Rightarrow> gateway_config \<Rightarrow> config_error + gateway_config" where
  "loadQuota L cfg =
     andThen (envDuration L envReconcileInterval (cfReconcileInterval cfg)) (\<lambda>reconcile.
     andThen (refuse_if (reconcile < 0) (MustNotBeNegative envReconcileInterval)) (\<lambda>_.
     andThen (envDuration L envQuotaLeaseTTL (cfQuotaLeaseTTL cfg)) (\<lambda>ttl.
     andThen (refuse_if (ttl < 0) (MustNotBeNegative envQuotaLeaseTTL)) (\<lambda>_.
     andThen (case requestBudget cfg of
                Some budget \<Rightarrow> refuse_if (ttl > 0 \<and> ttl \<le> budget) (LeaseTooShort ttl budget)
              | None \<Rightarrow> Inr ()) (\<lambda>_.
     Inr (cfg\<lparr>cfReconcileInterval := reconcile, cfQuotaLeaseTTL := ttl\<rparr>))))))"

definition loadCache :: "env_libs \<Rightarrow> gateway_config \<Rightarrow> config_error + gateway_config" where
  "loadCache L cfg =
     andThen (envBool L envCacheEnabled (chEnabled (cfCache cfg))) (\<lambda>enabled.
     andThen (envDuration L envCacheTTL (chTTL (cfCache cfg))) (\<lambda>ttl.
     andThen (envInt L envCacheCapacity (chCapacity (cfCache cfg))) (\<lambda>capacity.
     Inr (cfg\<lparr>cfCache := \<lparr>chEnabled = enabled, chTTL = ttl, chCapacity = capacity\<rparr>\<rparr>))))"

definition loadCircuit :: "env_libs \<Rightarrow> gateway_config \<Rightarrow> config_error + gateway_config" where
  "loadCircuit L cfg =
     andThen (envBool L envCircuitEnabled (ciEnabled (cfCircuit cfg))) (\<lambda>enabled.
     let strategy = envString L envCircuitStrategy (ciStrategy (cfCircuit cfg)) in
     andThen (envInt L envCircuitThreshold (ciFailThreshold (cfCircuit cfg))) (\<lambda>fails.
     andThen (envDuration L envCircuitCooldown (ciCooldown (cfCircuit cfg))) (\<lambda>cooldown.
     andThen (envDuration L envCircuitProbe (ciProbeTimeout (cfCircuit cfg))) (\<lambda>probe.
     andThen (envFloat L envCircuitSlowRatio (ciSlowRatio (cfCircuit cfg))) (\<lambda>ratio.
     andThen (envDuration L envCircuitSlowThresh (ciSlowCallThreshold (cfCircuit cfg))) (\<lambda>slow.
     andThen (refuse_if (slow < 0) (MustNotBeNegative envCircuitSlowThresh)) (\<lambda>_.
     Inr (cfg\<lparr>cfCircuit := \<lparr>ciEnabled = enabled, ciStrategy = strategy, ciFailThreshold = fails,
       ciCooldown = cooldown, ciProbeTimeout = probe, ciSlowRatio = ratio, ciSlowCallThreshold = slow\<rparr>\<rparr>))))))))"

definition loadProbe :: "env_libs \<Rightarrow> gateway_config \<Rightarrow> config_error + gateway_config" where
  "loadProbe L cfg =
     andThen (envDuration L envProbeInterval (pbInterval (cfProbe cfg))) (\<lambda>interval.
     andThen (envDuration L envProbeTimeout (pbTimeout (cfProbe cfg))) (\<lambda>timeout.
     andThen (envInt L envProbeThreshold (pbThreshold (cfProbe cfg))) (\<lambda>threshold.
     andThen (envDuration L envProbeBackoff (pbBackoffMax (cfProbe cfg))) (\<lambda>backoff.
     Inr (cfg\<lparr>cfProbe := \<lparr>pbInterval = interval, pbTimeout = timeout, pbThreshold = threshold,
       pbBackoffMax = backoff\<rparr>\<rparr>)))))"

definition loadModelTables :: "env_libs \<Rightarrow> gateway_config \<Rightarrow> config_error + gateway_config" where
  "loadModelTables L cfg =
     andThen (envJSONMap L (dec_slice '''' dec_string) [] envFallbacks) (\<lambda>fallbacks.
     andThen (envJSONMap L dec_int 0 envContextLimits) (\<lambda>limits.
     Inr (cfg\<lparr>cfFallbacks := fallbacks, cfContextLimits := limits\<rparr>)))"

definition loadRouting :: "env_libs \<Rightarrow> gateway_config \<Rightarrow> config_error + gateway_config" where
  "loadRouting L cfg =
     andThen (envDuration L envAffinity (roAffinityTTL (cfRouting cfg))) (\<lambda>affinity.
     andThen (refuse_if (affinity < 0) (MustNotBeNegative envAffinity)) (\<lambda>_.
     andThen (envInt L envUpstreamMaxInFlight (cfUpstreamMaxInFlight cfg)) (\<lambda>inflight.
     andThen (refuse_if (inflight < 0) (MustNotBeNegative envUpstreamMaxInFlight)) (\<lambda>_.
     Inr (cfg\<lparr>cfRouting := (cfRouting cfg)\<lparr>roAffinityTTL := affinity\<rparr>, cfUpstreamMaxInFlight := inflight\<rparr>)))))"

subsection \<open>Validation\<close>

definition maxCacheCapacity :: int where "maxCacheCapacity = 262144"

definition validateRetryBudget :: "gateway_config \<Rightarrow> config_error + unit" where
  "validateRetryBudget cfg =
     (let r = cfRetry cfg in
      andThen (refuse_if (rtMaxAttempts r \<le> 0) (MustBePositive envRetryMaxAttempts)) (\<lambda>_.
      andThen (refuse_if (rtBudgetMaxInFlight r < 0) (MustNotBeNegative envRetryBudget)) (\<lambda>_.
      andThen (refuse_if (rtBudgetPercent r < 0 \<or> rtBudgetPercent r > 100) (NotAllowed envRetryBudgetPercent)) (\<lambda>_.
      refuse_if (rtBudgetPercent r > 0 \<and> rtBudgetMinInFlight r < 1)
        (NeedsAtLeastOne envRetryBudgetMin envRetryBudgetPercent)))))"

definition validateCache :: "gateway_config \<Rightarrow> config_error + unit" where
  "validateCache cfg =
     (let c = cfCache cfg in
      if \<not> chEnabled c then Inr ()
      else andThen (refuse_if (chTTL c \<le> 0) (MustBePositive envCacheTTL)) (\<lambda>_.
           andThen (refuse_if (chCapacity c \<le> 0) (MustBePositive envCacheCapacity)) (\<lambda>_.
           refuse_if (chCapacity c > maxCacheCapacity) (MustBeAtMost envCacheCapacity maxCacheCapacity))))"

text \<open>Comparisons with a double that is not a number are false.\<close>

definition in_unit_range :: "go_float \<Rightarrow> bool" where
  "in_unit_range f = (case f of Finite q \<Rightarrow> q > 0 \<and> q \<le> 1 | Infinite _ \<Rightarrow> False | NotANumber \<Rightarrow> False)"

definition validateCircuit :: "gateway_config \<Rightarrow> config_error + unit" where
  "validateCircuit cfg =
     (let c = cfCircuit cfg in
      if \<not> ciEnabled c then Inr ()
      else andThen (if ciStrategy c = ''consecutive'' \<or> ciStrategy c = ''ratio'' then Inr ()
                    else if ciStrategy c = ''slow-call''
                    then andThen (refuse_if (\<not> in_unit_range (ciSlowRatio c)) (NotAllowed envCircuitSlowRatio)) (\<lambda>_.
                         refuse_if (ciSlowCallThreshold c \<le> 0) (NeededBy envCircuitSlowThresh envCircuitStrategy))
                    else Inl (NotAllowed envCircuitStrategy)) (\<lambda>_.
           andThen (refuse_if (ciFailThreshold c \<le> 0) (MustBePositive envCircuitThreshold)) (\<lambda>_.
           andThen (refuse_if (ciCooldown c \<le> 0) (MustBePositive envCircuitCooldown)) (\<lambda>_.
           refuse_if (ciProbeTimeout c \<le> 0) (MustBePositive envCircuitProbe)))))"

definition validateProbe :: "gateway_config \<Rightarrow> config_error + unit" where
  "validateProbe cfg =
     (let p = cfProbe cfg in
      andThen (refuse_if (pbInterval p < 0) (MustNotBeNegative envProbeInterval)) (\<lambda>_.
      andThen (refuse_if (pbBackoffMax p < 0) (MustNotBeNegative envProbeBackoff)) (\<lambda>_.
      andThen (refuse_if (pbBackoffMax p > 0 \<and> pbInterval p \<le> 0) (NeedsLoop envProbeBackoff envProbeInterval)) (\<lambda>_.
      andThen (refuse_if (pbInterval p > 0 \<and> pbTimeout p \<le> 0) (NeededBy envProbeTimeout envProbeInterval)) (\<lambda>_.
      refuse_if (pbInterval p > 0 \<and> pbThreshold p < 1) (NeededBy envProbeThreshold envProbeInterval))))))"

fun validate_limits :: "(string \<times> int) list \<Rightarrow> config_error + unit" where
  "validate_limits [] = Inr ()"
| "validate_limits ((model, limit) # ms) =
     (if model = '''' then Inl (EmptyModelName envContextLimits)
      else if limit \<le> 0 then Inl (LimitNotPositive model)
      else validate_limits ms)"

fun validate_fallbacks :: "(string \<times> string list) list \<Rightarrow> config_error + unit" where
  "validate_fallbacks [] = Inr ()"
| "validate_fallbacks ((model, chain) # ms) =
     (if model = '''' then Inl (EmptyModelName envFallbacks)
      else if chain = [] then Inl (NoFallbacks model)
      else if list_ex (\<lambda>f. f = '''') chain then Inl (EmptyFallback model)
      else validate_fallbacks ms)"

definition validateModelTables :: "gateway_config \<Rightarrow> config_error + unit" where
  "validateModelTables cfg = andThen (validate_limits (cfContextLimits cfg)) (\<lambda>_. validate_fallbacks (cfFallbacks cfg))"

definition id_char :: "char \<Rightarrow> bool" where
  "id_char c \<longleftrightarrow> 65 \<le> byte c \<and> byte c \<le> 90 \<or> 97 \<le> byte c \<and> byte c \<le> 122 \<or> 48 \<le> byte c \<and> byte c \<le> 57 \<or>
     c = CHR ''.'' \<or> c = CHR ''_'' \<or> c = CHR ''-''"

definition validID :: "string \<Rightarrow> bool" where
  "validID s \<longleftrightarrow> 1 \<le> length s \<and> length s \<le> 128 \<and> list_all id_char s"

text \<open>\<open>strings.Cut\<close> at the first equals sign.\<close>

definition cut_binding :: "string \<Rightarrow> (string \<times> string) option" where
  "cut_binding m =
     (case dropWhile (\<lambda>c. c \<noteq> CHR ''='') m of
        [] \<Rightarrow> None
      | _ # provider \<Rightarrow> Some (takeWhile (\<lambda>c. c \<noteq> CHR ''='') m, provider))"

definition bad_binding :: "string \<Rightarrow> bool" where
  "bad_binding m =
     (case cut_binding m of
        None \<Rightarrow> False
      | Some (client, provider) \<Rightarrow> client = '''' \<or> provider = '''' \<or> client = ''*'')"

definition validateUpstream :: "env_libs \<Rightarrow> upstream_cfg \<Rightarrow> nat \<Rightarrow> string list \<Rightarrow> config_error + string list" where
  "validateUpstream L u i seen =
     (if upID u = '''' \<or> upBaseURL u = '''' then Inl (BadUpstream i NeedsIdAndURL)
      else if \<not> validID (upID u) then Inl (BadUpstream i InvalidID)
      else if upID u \<in> set seen then Inl (BadUpstream i RepeatedID)
      else case elParseURL L (upBaseURL u) of
             None \<Rightarrow> Inl (BadUpstream i UnparsableURL)
           | Some (scheme, host) \<Rightarrow>
               if scheme \<noteq> ''http'' \<and> scheme \<noteq> ''https'' \<or> host = '''' then Inl (BadUpstream i BadSchemeOrHost)
               else if upModels u = [] then Inl (BadUpstream i NoModels)
               else case List.find bad_binding (upModels u) of
                      Some m \<Rightarrow> Inl (BadUpstream i (BadBinding m))
                    | None \<Rightarrow> Inr (upID u # seen))"

fun validate_ring :: "nat \<Rightarrow> int \<Rightarrow> string list \<Rightarrow> string list \<Rightarrow> config_error + unit" where
  "validate_ring i j seen [] = Inr ()"
| "validate_ring i j seen (key # ks) =
     (if key = '''' then Inl (BadUpstream i (EmptyCredential j))
      else if key \<in> set seen then Inl (BadUpstream i RepeatedCredential)
      else validate_ring i (j + 1) (key # seen) ks)"

definition validateCredentialRing :: "upstream_cfg \<Rightarrow> nat \<Rightarrow> config_error + unit" where
  "validateCredentialRing u i = validate_ring i 0 [] (Credentials u)"

fun validate_upstreams :: "env_libs \<Rightarrow> nat \<Rightarrow> string list \<Rightarrow> upstream_cfg list \<Rightarrow> config_error + unit" where
  "validate_upstreams L i seen [] = Inr ()"
| "validate_upstreams L i seen (u # us) =
     andThen (validateUpstream L u i seen) (\<lambda>seen1.
     andThen (validateCredentialRing u i) (\<lambda>_. validate_upstreams L (i + 1) seen1 us))"

definition validateUpstreams :: "env_libs \<Rightarrow> gateway_config \<Rightarrow> config_error + unit" where
  "validateUpstreams L cfg = validate_upstreams L 0 [] (cfUpstreams cfg)"

definition validate :: "env_libs \<Rightarrow> gateway_config \<Rightarrow> config_error + unit" where
  "validate L cfg =
     andThen (refuse_if (svShutdownGrace (cfServer cfg) \<le> 0) (MustBePositive envShutdownGrace)) (\<lambda>_.
     andThen (refuse_if (roStrategy (cfRouting cfg) \<notin> {'''', ''static'', ''latency''}) (NotAllowed envRouting)) (\<lambda>_.
     andThen (refuse_if (obAccessLogQueueSize (cfObs cfg) \<le> 0) (MustBePositive envAccessLogQueue)) (\<lambda>_.
     andThen (validateRetryBudget cfg) (\<lambda>_.
     andThen (validateCache cfg) (\<lambda>_.
     andThen (validateCircuit cfg) (\<lambda>_.
     andThen (validateProbe cfg) (\<lambda>_.
     andThen (validateModelTables cfg) (\<lambda>_.
     validateUpstreams L cfg))))))))"

definition adminSurfaceArmed :: "gateway_config \<Rightarrow> bool" where
  "adminSurfaceArmed cfg \<longleftrightarrow> cfUpstreams cfg \<noteq> [] \<or> cfIdentity cfg \<noteq> '''' \<or> obInsightsDSN (cfObs cfg) \<noteq> ''''"

definition guardDeploymentPosture :: "gateway_config \<Rightarrow> config_error + unit" where
  "guardDeploymentPosture cfg =
     (if scAllowUnauthenticated (cfSecurity cfg) then Inr ()
      else if cfUpstreams cfg \<noteq> [] \<and> cfIdentity cfg = '''' \<and> cfPostgresDSN cfg = '''' then Inl OpenProxy
      else if cfPostgresDSN cfg \<noteq> '''' \<and> scAdminToken (cfSecurity cfg) = '''' then Inl OpenIdentitySurface
      else if scAdminToken (cfSecurity cfg) = '''' \<and> adminSurfaceArmed cfg then Inl OpenAdminSurface
      else Inr ())"

definition Load :: "env_libs \<Rightarrow> config_error + gateway_config" where
  "Load L =
     (let cfg = defaultConfig L in
      andThen (loadIdentitySource L envIdentity (cfIdentity cfg)) (\<lambda>identity.
      andThen (envBool L envRedisTLS False) (\<lambda>tls.
      andThen (envDuration L envShutdownGrace (svShutdownGrace (cfServer cfg))) (\<lambda>grace.
      andThen (envInt L envAccessLogQueue (obAccessLogQueueSize (cfObs cfg))) (\<lambda>queue.
      andThen (envJSON L dec_upstream zero_upstream envUpstreams) (\<lambda>upstreams.
      let cfg1 = cfg\<lparr>cfIdentity := identity, cfRedis := (cfRedis cfg)\<lparr>rdTLS := tls\<rparr>,
                     cfServer := (cfServer cfg)\<lparr>svShutdownGrace := grace\<rparr>,
                     cfObs := (cfObs cfg)\<lparr>obAccessLogQueueSize := queue\<rparr>, cfUpstreams := upstreams\<rparr> in
      andThen (loadRetry L cfg1) (\<lambda>cfg2.
      andThen (loadQuota L cfg2) (\<lambda>cfg3.
      andThen (loadCache L cfg3) (\<lambda>cfg4.
      andThen (loadCircuit L cfg4) (\<lambda>cfg5.
      andThen (loadProbe L cfg5) (\<lambda>cfg6.
      andThen (loadModelTables L cfg6) (\<lambda>cfg7.
      andThen (loadRouting L cfg7) (\<lambda>cfg8.
      andThen (loadSecurity L cfg8) (\<lambda>cfg9.
      andThen (validate L cfg9) (\<lambda>_.
      andThen (guardDeploymentPosture cfg9) (\<lambda>_.
      Inr cfg9))))))))))))))))"

subsection \<open>What a configuration promises\<close>

text \<open>
  The specification in two halves, neither of which mentions an order: \<open>settings\<close> says that
  every field holds what its variable says, or its default; \<open>sound\<close> says what the fields
  promise the components that read them.
\<close>

definition reads :: "env_libs \<Rightarrow> env_key \<Rightarrow> (string \<Rightarrow> 'a option) \<Rightarrow> 'a \<Rightarrow> 'a \<Rightarrow> bool" where
  "reads L key parse fallback v \<longleftrightarrow>
     (if env_raw L key = '''' then v = fallback else parse (env_raw L key) = Some v)"

definition read_table :: "env_libs \<Rightarrow> 'a decoder \<Rightarrow> 'a \<Rightarrow> string \<Rightarrow> 'a list option" where
  "read_table L d zero raw =
     (case elJSON L raw of
        Some (j, True) \<Rightarrow> (case dec_slice zero d j [] of (out, ok) \<Rightarrow> if ok then Some out else None)
      | _ \<Rightarrow> None)"

definition read_map :: "env_libs \<Rightarrow> 'a decoder \<Rightarrow> 'a \<Rightarrow> string \<Rightarrow> (string \<times> 'a) list option" where
  "read_map L d zero raw =
     (case elJSON L raw of
        Some (j, True) \<Rightarrow> (case dec_map zero d j [] of (out, ok) \<Rightarrow> if ok then Some out else None)
      | _ \<Rightarrow> None)"

definition retry_settings :: "env_libs \<Rightarrow> retry_cfg \<Rightarrow> retry_cfg \<Rightarrow> bool" where
  "retry_settings L d r \<longleftrightarrow>
     reads L envRetryMaxAttempts parse_int64 (rtMaxAttempts d) (rtMaxAttempts r) \<and>
     reads L envRetryAttemptTimeout ParseDuration (rtAttemptTimeout d) (rtAttemptTimeout r) \<and>
     reads L envRetryOverall ParseDuration (rtOverallDeadline d) (rtOverallDeadline r) \<and>
     reads L envRetryBackoffInitial ParseDuration (rtBackoffInitial d) (rtBackoffInitial r) \<and>
     reads L envRetryBackoffMax ParseDuration (rtBackoffMax d) (rtBackoffMax r) \<and>
     reads L envRetryBudget parse_int64 (rtBudgetMaxInFlight d) (rtBudgetMaxInFlight r) \<and>
     reads L envRetryBudgetPercent parse_int64 (rtBudgetPercent d) (rtBudgetPercent r) \<and>
     reads L envRetryBudgetMin parse_int64 (rtBudgetMinInFlight d) (rtBudgetMinInFlight r) \<and>
     reads L envStreamTimeout ParseDuration (rtStreamTimeout d) (rtStreamTimeout r) \<and>
     reads L envStreamIdleTimeout ParseDuration (rtStreamIdleTimeout d) (rtStreamIdleTimeout r)"

definition cache_settings :: "env_libs \<Rightarrow> cache_cfg \<Rightarrow> cache_cfg \<Rightarrow> bool" where
  "cache_settings L d c \<longleftrightarrow>
     reads L envCacheEnabled parse_bool (chEnabled d) (chEnabled c) \<and>
     reads L envCacheTTL ParseDuration (chTTL d) (chTTL c) \<and>
     reads L envCacheCapacity parse_int64 (chCapacity d) (chCapacity c)"

definition circuit_settings :: "env_libs \<Rightarrow> circuit_cfg \<Rightarrow> circuit_cfg \<Rightarrow> bool" where
  "circuit_settings L d c \<longleftrightarrow>
     reads L envCircuitEnabled parse_bool (ciEnabled d) (ciEnabled c) \<and>
     reads L envCircuitStrategy Some (ciStrategy d) (ciStrategy c) \<and>
     reads L envCircuitThreshold parse_int64 (ciFailThreshold d) (ciFailThreshold c) \<and>
     reads L envCircuitCooldown ParseDuration (ciCooldown d) (ciCooldown c) \<and>
     reads L envCircuitProbe ParseDuration (ciProbeTimeout d) (ciProbeTimeout c) \<and>
     reads L envCircuitSlowRatio (elParseFloat L) (ciSlowRatio d) (ciSlowRatio c) \<and>
     reads L envCircuitSlowThresh ParseDuration (ciSlowCallThreshold d) (ciSlowCallThreshold c)"

definition probe_settings :: "env_libs \<Rightarrow> probe_cfg \<Rightarrow> probe_cfg \<Rightarrow> bool" where
  "probe_settings L d p \<longleftrightarrow>
     reads L envProbeInterval ParseDuration (pbInterval d) (pbInterval p) \<and>
     reads L envProbeTimeout ParseDuration (pbTimeout d) (pbTimeout p) \<and>
     reads L envProbeThreshold parse_int64 (pbThreshold d) (pbThreshold p) \<and>
     reads L envProbeBackoff ParseDuration (pbBackoffMax d) (pbBackoffMax p)"

definition settings :: "env_libs \<Rightarrow> gateway_config \<Rightarrow> bool" where
  "settings L cfg \<longleftrightarrow> (let d = defaultConfig L in
     loadIdentitySource L envIdentity (cfIdentity d) = Inr (cfIdentity cfg) \<and>
     reads L envRedisTLS parse_bool False (rdTLS (cfRedis cfg)) \<and>
     (cfRedis cfg)\<lparr>rdTLS := rdTLS (cfRedis d)\<rparr> = cfRedis d \<and>
     reads L envShutdownGrace ParseDuration (svShutdownGrace (cfServer d)) (svShutdownGrace (cfServer cfg)) \<and>
     (cfServer cfg)\<lparr>svShutdownGrace := svShutdownGrace (cfServer d)\<rparr> = cfServer d \<and>
     reads L envAccessLogQueue parse_int64 (obAccessLogQueueSize (cfObs d)) (obAccessLogQueueSize (cfObs cfg)) \<and>
     (cfObs cfg)\<lparr>obAccessLogQueueSize := obAccessLogQueueSize (cfObs d)\<rparr> = cfObs d \<and>
     reads L envAffinity ParseDuration (roAffinityTTL (cfRouting d)) (roAffinityTTL (cfRouting cfg)) \<and>
     (cfRouting cfg)\<lparr>roAffinityTTL := roAffinityTTL (cfRouting d)\<rparr> = cfRouting d \<and>
     reads L envAllowUnauthenticated parse_bool False (scAllowUnauthenticated (cfSecurity cfg)) \<and>
     (cfSecurity cfg)\<lparr>scAllowUnauthenticated := scAllowUnauthenticated (cfSecurity d)\<rparr> = cfSecurity d \<and>
     cfPostgresDSN cfg = cfPostgresDSN d \<and> cfKeyPepper cfg = cfKeyPepper d \<and>
     reads L envUpstreams (read_table L dec_upstream zero_upstream) [] (cfUpstreams cfg) \<and>
     retry_settings L (cfRetry d) (cfRetry cfg) \<and>
     reads L envReconcileInterval ParseDuration (cfReconcileInterval d) (cfReconcileInterval cfg) \<and>
     reads L envQuotaLeaseTTL ParseDuration (cfQuotaLeaseTTL d) (cfQuotaLeaseTTL cfg) \<and>
     cache_settings L (cfCache d) (cfCache cfg) \<and>
     circuit_settings L (cfCircuit d) (cfCircuit cfg) \<and>
     probe_settings L (cfProbe d) (cfProbe cfg) \<and>
     reads L envFallbacks (read_map L (dec_slice '''' dec_string) []) [] (cfFallbacks cfg) \<and>
     reads L envContextLimits (read_map L dec_int 0) [] (cfContextLimits cfg) \<and>
     reads L envUpstreamMaxInFlight parse_int64 (cfUpstreamMaxInFlight d) (cfUpstreamMaxInFlight cfg))"

definition retry_sound :: "retry_cfg \<Rightarrow> bool" where
  "retry_sound r \<longleftrightarrow>
     0 < rtMaxAttempts r \<and> 0 \<le> rtAttemptTimeout r \<and> 0 \<le> rtOverallDeadline r \<and> 0 \<le> rtBackoffInitial r \<and>
     0 \<le> rtBackoffMax r \<and> 0 \<le> rtStreamTimeout r \<and> 0 \<le> rtStreamIdleTimeout r \<and> 0 \<le> rtBudgetMaxInFlight r \<and>
     0 \<le> rtBudgetPercent r \<and> rtBudgetPercent r \<le> 100 \<and> (0 < rtBudgetPercent r \<longrightarrow> 1 \<le> rtBudgetMinInFlight r)"

definition lease_sound :: "gateway_config \<Rightarrow> bool" where
  "lease_sound c \<longleftrightarrow>
     0 \<le> cfReconcileInterval c \<and> 0 \<le> cfQuotaLeaseTTL c \<and>
     (0 < cfQuotaLeaseTTL c \<and> 0 < rtOverallDeadline (cfRetry c) \<and> 0 < rtStreamTimeout (cfRetry c) \<longrightarrow>
        rtOverallDeadline (cfRetry c) + rtStreamTimeout (cfRetry c) < cfQuotaLeaseTTL c)"

definition cache_sound :: "cache_cfg \<Rightarrow> bool" where
  "cache_sound c \<longleftrightarrow> (chEnabled c \<longrightarrow> 0 < chTTL c \<and> 0 < chCapacity c \<and> chCapacity c \<le> 2 ^ 18)"

definition circuit_sound :: "circuit_cfg \<Rightarrow> bool" where
  "circuit_sound c \<longleftrightarrow> 0 \<le> ciSlowCallThreshold c \<and>
     (ciEnabled c \<longrightarrow> 0 < ciFailThreshold c \<and> 0 < ciCooldown c \<and> 0 < ciProbeTimeout c \<and>
        (ciStrategy c = ''consecutive'' \<or> ciStrategy c = ''ratio'' \<or>
         ciStrategy c = ''slow-call'' \<and> 0 < ciSlowCallThreshold c \<and>
         (\<exists>q. ciSlowRatio c = Finite q \<and> 0 < q \<and> q \<le> 1)))"

definition probe_sound :: "probe_cfg \<Rightarrow> bool" where
  "probe_sound p \<longleftrightarrow> 0 \<le> pbInterval p \<and> 0 \<le> pbBackoffMax p \<and> (0 < pbBackoffMax p \<longrightarrow> 0 < pbInterval p) \<and>
     (0 < pbInterval p \<longrightarrow> 0 < pbTimeout p \<and> 1 \<le> pbThreshold p)"

definition tables_sound :: "gateway_config \<Rightarrow> bool" where
  "tables_sound c \<longleftrightarrow>
     (\<forall>(model, limit) \<in> set (cfContextLimits c). model \<noteq> '''' \<and> 0 < limit) \<and>
     (\<forall>(model, chain) \<in> set (cfFallbacks c). model \<noteq> '''' \<and> chain \<noteq> [] \<and> '''' \<notin> set chain)"

definition binding_sound :: "string \<Rightarrow> bool" where
  "binding_sound m \<longleftrightarrow>
     (\<forall>client provider. m = client @ CHR ''='' # provider \<and> CHR ''='' \<notin> set client \<longrightarrow>
        client \<noteq> '''' \<and> provider \<noteq> '''' \<and> client \<noteq> ''*'')"

definition upstream_sound :: "env_libs \<Rightarrow> upstream_cfg \<Rightarrow> bool" where
  "upstream_sound L u \<longleftrightarrow> validID (upID u) \<and> upBaseURL u \<noteq> '''' \<and>
     (\<exists>scheme host. elParseURL L (upBaseURL u) = Some (scheme, host) \<and> scheme \<in> {''http'', ''https''} \<and> host \<noteq> '''') \<and>
     upModels u \<noteq> [] \<and> (\<forall>m \<in> set (upModels u). binding_sound m) \<and>
     distinct (Credentials u) \<and> '''' \<notin> set (Credentials u)"

definition posture_sound :: "gateway_config \<Rightarrow> bool" where
  "posture_sound c \<longleftrightarrow> scAllowUnauthenticated (cfSecurity c) \<or>
     (cfUpstreams c \<noteq> [] \<longrightarrow> cfIdentity c \<noteq> '''' \<or> cfPostgresDSN c \<noteq> '''') \<and>
     (scAdminToken (cfSecurity c) = '''' \<longrightarrow>
        cfPostgresDSN c = '''' \<and> cfUpstreams c = [] \<and> cfIdentity c = '''' \<and> obInsightsDSN (cfObs c) = '''')"

definition sound :: "env_libs \<Rightarrow> gateway_config \<Rightarrow> bool" where
  "sound L c \<longleftrightarrow> 0 < svShutdownGrace (cfServer c) \<and> 0 < obAccessLogQueueSize (cfObs c) \<and>
     roStrategy (cfRouting c) \<in> {''static'', ''latency''} \<and> 0 \<le> roAffinityTTL (cfRouting c) \<and>
     0 \<le> cfUpstreamMaxInFlight c \<and>
     retry_sound (cfRetry c) \<and> lease_sound c \<and> cache_sound (cfCache c) \<and> circuit_sound (cfCircuit c) \<and>
     probe_sound (cfProbe c) \<and> tables_sound c \<and>
     distinct (map upID (cfUpstreams c)) \<and> (\<forall>u \<in> set (cfUpstreams c). upstream_sound L u) \<and>
     posture_sound c"

subsection \<open>The parsers read\<close>

lemma env_reads [simp]:
  "envDuration L k fb = Inr d \<longleftrightarrow> reads L k ParseDuration fb d"
  "envInt L k fb = Inr d \<longleftrightarrow> reads L k parse_int64 fb d"
  "envFloat L k fbf = Inr f \<longleftrightarrow> reads L k (elParseFloat L) fbf f"
  "envBool L k fbb = Inr b \<longleftrightarrow> reads L k parse_bool fbb b"
  by (auto simp: envDuration_def envInt_def envFloat_def envBool_def reads_def Let_def split: option.splits)

lemma env_tables_read [simp]:
  "envJSON L dc zero k = Inr xs \<longleftrightarrow> reads L k (read_table L dc zero) [] xs"
  "envJSONMap L dc zero k = Inr ms \<longleftrightarrow> reads L k (read_map L dc zero) [] ms"
  by (auto simp: envJSON_def envJSONMap_def reads_def read_table_def read_map_def Let_def
      split: option.splits prod.splits bool.splits if_splits)

text \<open>To run a loader forward, the facts that a variable reads are turned back into results.\<close>

lemmas run_dels = env_reads env_tables_read andThen_Inr refuse_if_Inr
lemmas run_simps = env_reads [symmetric] env_tables_read [symmetric] andThen_def refuse_if_def Let_def not_less

lemma envString_reads: "reads L k Some fb s \<longleftrightarrow> s = envString L k fb"
  by (auto simp: reads_def envString_def Let_def)

lemma reads_duration: "reads L k ParseDuration fb d \<Longrightarrow> in64 fb \<Longrightarrow> in64 d"
  by (auto simp: reads_def ParseDuration_range split: if_splits)

subsection \<open>The loaders read and check\<close>

lemma loadRetry_iff:
  "loadRetry L cfg = Inr cfg' \<longleftrightarrow> (\<exists>r. cfg' = cfg\<lparr>cfRetry := r\<rparr> \<and> retry_settings L (cfRetry cfg) r \<and>
     0 \<le> rtAttemptTimeout r \<and> 0 \<le> rtOverallDeadline r \<and> 0 \<le> rtBackoffInitial r \<and> 0 \<le> rtBackoffMax r \<and>
     0 \<le> rtStreamTimeout r \<and> 0 \<le> rtStreamIdleTimeout r)"
  (is "?L = (\<exists>r. ?R r)")
proof
  assume ?L
  then show "\<exists>r. ?R r" by (auto simp: loadRetry_def retry_settings_def not_less)
next
  assume "\<exists>r. ?R r"
  then obtain r where "?R r" ..
  then show ?L by (cases r) (simp add: loadRetry_def retry_settings_def run_simps del: run_dels)
qed

lemma loadCache_iff:
  "loadCache L cfg = Inr cfg' \<longleftrightarrow> (\<exists>c. cfg' = cfg\<lparr>cfCache := c\<rparr> \<and> cache_settings L (cfCache cfg) c)"
  (is "?L = (\<exists>c. ?R c)")
proof
  assume "\<exists>c. ?R c"
  then obtain c where "?R c" ..
  then show ?L by (cases c) (simp add: loadCache_def cache_settings_def run_simps del: run_dels)
qed (auto simp: loadCache_def cache_settings_def)

lemma loadCircuit_iff:
  "loadCircuit L cfg = Inr cfg' \<longleftrightarrow>
     (\<exists>c. cfg' = cfg\<lparr>cfCircuit := c\<rparr> \<and> circuit_settings L (cfCircuit cfg) c \<and> 0 \<le> ciSlowCallThreshold c)"
  (is "?L = (\<exists>c. ?R c)")
proof
  assume "\<exists>c. ?R c"
  then obtain c where "?R c" ..
  then show ?L by (cases c) (simp add: loadCircuit_def circuit_settings_def envString_reads run_simps del: run_dels)
qed (auto simp: loadCircuit_def circuit_settings_def envString_reads Let_def not_less)

lemma loadProbe_iff:
  "loadProbe L cfg = Inr cfg' \<longleftrightarrow> (\<exists>p. cfg' = cfg\<lparr>cfProbe := p\<rparr> \<and> probe_settings L (cfProbe cfg) p)"
  (is "?L = (\<exists>p. ?R p)")
proof
  assume "\<exists>p. ?R p"
  then obtain p where "?R p" ..
  then show ?L by (cases p) (simp add: loadProbe_def probe_settings_def run_simps del: run_dels)
qed (auto simp: loadProbe_def probe_settings_def)

lemma addDuration_exact:
  assumes "0 \<le> a" and "0 \<le> b" and "in64 a" and "in64 b"
  shows "addDuration a b = min (a + b) MaxInt64"
proof (cases "a + b \<le> MaxInt64")
  case True
  then show ?thesis using assms by (simp add: addDuration_def in64_nonneg)
next
  case False
  then have "i64 (a + b) < 0" using assms by (intro i64_over) (auto simp: in64_def)
  then show ?thesis using False by (simp add: addDuration_def)
qed


lemma lease_check:
  assumes "in64 (cfQuotaLeaseTTL c)" and "in64 (rtOverallDeadline (cfRetry c))" and "in64 (rtStreamTimeout (cfRetry c))"
  shows "(\<forall>budget. requestBudget c = Some budget \<longrightarrow> 0 < cfQuotaLeaseTTL c \<longrightarrow> budget < cfQuotaLeaseTTL c) \<longleftrightarrow>
    (0 < cfQuotaLeaseTTL c \<and> 0 < rtOverallDeadline (cfRetry c) \<and> 0 < rtStreamTimeout (cfRetry c) \<longrightarrow>
      rtOverallDeadline (cfRetry c) + rtStreamTimeout (cfRetry c) < cfQuotaLeaseTTL c)"
  using assms addDuration_exact [of "rtOverallDeadline (cfRetry c)" "rtStreamTimeout (cfRetry c)"]
  by (auto simp: requestBudget_def in64_def min_def not_le split: if_splits)

lemma horizon_check:
  "(case requestBudget cfg of Some budget \<Rightarrow> refuse_if (b > 0 \<and> b \<le> budget) (LeaseTooShort b budget) | None \<Rightarrow> Inr ()) =
     Inr u \<longleftrightarrow> (\<forall>budget. requestBudget cfg = Some budget \<longrightarrow> 0 < b \<longrightarrow> budget < b)"
  by (cases "requestBudget cfg") auto

lemma loadQuota_iff:
  "loadQuota L cfg = Inr cfg' \<longleftrightarrow> (\<exists>a b. cfg' = cfg\<lparr>cfReconcileInterval := a, cfQuotaLeaseTTL := b\<rparr> \<and>
     reads L envReconcileInterval ParseDuration (cfReconcileInterval cfg) a \<and> 0 \<le> a \<and>
     reads L envQuotaLeaseTTL ParseDuration (cfQuotaLeaseTTL cfg) b \<and> 0 \<le> b \<and>
     (\<forall>budget. requestBudget cfg = Some budget \<longrightarrow> 0 < b \<longrightarrow> budget < b))"
  by (auto simp: loadQuota_def horizon_check not_less)

lemma loadModelTables_iff:
  "loadModelTables L cfg = Inr cfg' \<longleftrightarrow> (\<exists>a b. cfg' = cfg\<lparr>cfFallbacks := a, cfContextLimits := b\<rparr> \<and>
     reads L envFallbacks (read_map L (dec_slice '''' dec_string) []) [] a \<and>
     reads L envContextLimits (read_map L dec_int 0) [] b)"
  by (auto simp: loadModelTables_def)

lemma loadRouting_iff:
  "loadRouting L cfg = Inr cfg' \<longleftrightarrow>
     (\<exists>a n. cfg' = cfg\<lparr>cfRouting := (cfRouting cfg)\<lparr>roAffinityTTL := a\<rparr>, cfUpstreamMaxInFlight := n\<rparr> \<and>
     reads L envAffinity ParseDuration (roAffinityTTL (cfRouting cfg)) a \<and> 0 \<le> a \<and>
     reads L envUpstreamMaxInFlight parse_int64 (cfUpstreamMaxInFlight cfg) n \<and> 0 \<le> n)"
  by (auto simp: loadRouting_def not_less)

lemma loadSecurity_iff:
  "loadSecurity L cfg = Inr cfg' \<longleftrightarrow> (\<exists>a. cfg' = cfg\<lparr>cfSecurity := (cfSecurity cfg)\<lparr>scAllowUnauthenticated := a\<rparr>\<rparr> \<and>
     reads L envAllowUnauthenticated parse_bool False a)"
  by (auto simp: loadSecurity_def)

subsection \<open>The validators check\<close>

lemma validate_limits_iff: "validate_limits ms = Inr u \<longleftrightarrow> (\<forall>(model, limit) \<in> set ms. model \<noteq> '''' \<and> 0 < limit)"
  by (induction ms rule: validate_limits.induct) auto

lemma validate_fallbacks_iff:
  "validate_fallbacks ms = Inr u \<longleftrightarrow> (\<forall>(model, chain) \<in> set ms. model \<noteq> '''' \<and> chain \<noteq> [] \<and> '''' \<notin> set chain)"
  by (induction ms rule: validate_fallbacks.induct) (auto simp: list_ex_iff)

lemma cut_unique:
  "x \<notin> set cl \<Longrightarrow> takeWhile (\<lambda>c. c \<noteq> x) (cl @ x # pr) = cl \<and> dropWhile (\<lambda>c. c \<noteq> x) (cl @ x # pr) = x # pr"
  by (induction cl) auto

lemma cut_parts:
  "dropWhile (\<lambda>c. c \<noteq> x) m = c # pr \<Longrightarrow> takeWhile (\<lambda>c. c \<noteq> x) m @ x # pr = m \<and> x \<notin> set (takeWhile (\<lambda>c. c \<noteq> x) m)"
proof (induction m)
  case (Cons a m)
  then show ?case by (cases "a = x") simp_all
qed simp

lemma bad_binding_iff: "bad_binding m \<longleftrightarrow> \<not> binding_sound m"
proof (cases "cut_binding m")
  case None
  then have "CHR ''='' \<notin> set m" by (auto simp: cut_binding_def dropWhile_eq_Nil_conv split: list.splits)
  then have "m \<noteq> cl @ CHR ''='' # pr" for cl pr by auto
  then show ?thesis using None by (simp add: binding_sound_def bad_binding_def)
next
  case (Some cp)
  obtain cl pr where cp: "cp = (cl, pr)" by fastforce
  obtain c where c: "dropWhile (\<lambda>c. c \<noteq> CHR ''='') m = c # pr" "cl = takeWhile (\<lambda>c. c \<noteq> CHR ''='') m"
    using Some cp by (auto simp: cut_binding_def split: list.splits)
  note m = cut_parts [OF c(1), folded c(2)]
  have "cl' = cl \<and> pr' = pr" if "m = cl' @ CHR ''='' # pr'" "CHR ''='' \<notin> set cl'" for cl' pr'
    using cut_unique [OF that(2), of pr'] c unfolding that(1) [symmetric] by (simp only: list.inject)
  then have "(m = cl' @ CHR ''='' # pr' \<and> CHR ''='' \<notin> set cl') = (cl' = cl \<and> pr' = pr)" for cl' pr'
    using m by metis
  then show ?thesis using Some cp by (simp add: binding_sound_def bad_binding_def)
qed

lemma validateUpstream_iff:
  "validateUpstream L u i seen = Inr seen' \<longleftrightarrow>
     seen' = upID u # seen \<and> upID u \<notin> set seen \<and> validID (upID u) \<and> upBaseURL u \<noteq> '''' \<and>
     (\<exists>scheme host. elParseURL L (upBaseURL u) = Some (scheme, host) \<and> scheme \<in> {''http'', ''https''} \<and> host \<noteq> '''') \<and>
     upModels u \<noteq> [] \<and> (\<forall>m \<in> set (upModels u). binding_sound m)"
  by (auto simp: validateUpstream_def validID_def find_None_iff bad_binding_iff split: option.split)
    (auto simp: find_Some_iff bad_binding_iff)

lemma validate_ring_iff:
  "validate_ring i j seen ks = Inr u \<longleftrightarrow> distinct ks \<and> '''' \<notin> set ks \<and> set ks \<inter> set seen = {}"
  by (induction ks arbitrary: j seen) auto

lemma validate_upstreams_iff:
  "validate_upstreams L i seen us = Inr x \<longleftrightarrow>
     distinct (map upID us) \<and> upID ` set us \<inter> set seen = {} \<and> (\<forall>u \<in> set us. upstream_sound L u)"
  by (induction us arbitrary: i seen)
    (auto simp: validateUpstream_iff validateCredentialRing_def validate_ring_iff upstream_sound_def)

lemma validateRetryBudget_iff:
  "validateRetryBudget cfg = Inr u \<longleftrightarrow> 0 < rtMaxAttempts (cfRetry cfg) \<and> 0 \<le> rtBudgetMaxInFlight (cfRetry cfg) \<and>
     0 \<le> rtBudgetPercent (cfRetry cfg) \<and> rtBudgetPercent (cfRetry cfg) \<le> 100 \<and>
     (0 < rtBudgetPercent (cfRetry cfg) \<longrightarrow> 1 \<le> rtBudgetMinInFlight (cfRetry cfg))"
  by (auto simp: validateRetryBudget_def Let_def)

lemma validateCache_iff: "validateCache cfg = Inr u \<longleftrightarrow> cache_sound (cfCache cfg)"
  by (auto simp: validateCache_def cache_sound_def maxCacheCapacity_def Let_def)

lemma in_unit_range_iff: "in_unit_range f \<longleftrightarrow> (\<exists>q. f = Finite q \<and> 0 < q \<and> q \<le> 1)"
  by (cases f) (auto simp: in_unit_range_def)

lemma validateCircuit_iff:
  "0 \<le> ciSlowCallThreshold (cfCircuit cfg) \<Longrightarrow> validateCircuit cfg = Inr u \<longleftrightarrow> circuit_sound (cfCircuit cfg)"
  by (auto simp: validateCircuit_def circuit_sound_def in_unit_range_iff Let_def not_le)

lemma validateProbe_iff: "validateProbe cfg = Inr u \<longleftrightarrow> probe_sound (cfProbe cfg)"
  by (auto simp: validateProbe_def probe_sound_def Let_def not_le not_less)

lemma validateModelTables_iff: "validateModelTables cfg = Inr u \<longleftrightarrow> tables_sound cfg"
  by (simp add: validateModelTables_def validate_limits_iff validate_fallbacks_iff tables_sound_def)

lemma guardDeploymentPosture_iff: "guardDeploymentPosture cfg = Inr u \<longleftrightarrow> posture_sound cfg"
  by (auto simp: guardDeploymentPosture_def posture_sound_def adminSurfaceArmed_def)

lemmas loaders_iff = loadRetry_iff loadQuota_iff loadCache_iff loadCircuit_iff loadProbe_iff loadModelTables_iff
  loadRouting_iff loadSecurity_iff

text \<open>What the loaders left to check, in one predicate.\<close>

definition loaded :: "gateway_config \<Rightarrow> bool" where
  "loaded c \<longleftrightarrow>
     0 \<le> rtAttemptTimeout (cfRetry c) \<and> 0 \<le> rtOverallDeadline (cfRetry c) \<and> 0 \<le> rtBackoffInitial (cfRetry c) \<and>
     0 \<le> rtBackoffMax (cfRetry c) \<and> 0 \<le> rtStreamTimeout (cfRetry c) \<and> 0 \<le> rtStreamIdleTimeout (cfRetry c) \<and>
     0 \<le> cfReconcileInterval c \<and> 0 \<le> cfQuotaLeaseTTL c \<and>
     (\<forall>budget. requestBudget c = Some budget \<longrightarrow> 0 < cfQuotaLeaseTTL c \<longrightarrow> budget < cfQuotaLeaseTTL c) \<and>
     0 \<le> ciSlowCallThreshold (cfCircuit c) \<and> 0 \<le> roAffinityTTL (cfRouting c) \<and> 0 \<le> cfUpstreamMaxInFlight c"

lemma defaultConfig_in64:
  "in64 (cfQuotaLeaseTTL (defaultConfig L))" "in64 (rtOverallDeadline (cfRetry (defaultConfig L)))"
  "in64 (rtStreamTimeout (cfRetry (defaultConfig L)))"
  by (simp_all add: defaultConfig_def in64_def MinInt64_def MaxInt64_def)

lemma default_strategy: "roStrategy (cfRouting (defaultConfig L)) \<noteq> ''''"
  by (simp add: defaultConfig_def envString_def Let_def)

lemma settings_routing:
  assumes "settings L cfg"
  shows "roStrategy (cfRouting cfg) \<noteq> ''''"
proof -
  have "roStrategy (cfRouting cfg) = roStrategy ((cfRouting cfg)\<lparr>roAffinityTTL := x\<rparr>)" for x by simp
  then show ?thesis using default_strategy [of L] assms unfolding settings_def Let_def by metis
qed

lemma checks_sound:
  assumes "settings L cfg"
  shows "loaded cfg \<and> validate L cfg = Inr u \<and> guardDeploymentPosture cfg = Inr v \<longleftrightarrow> sound L cfg"
proof -
  have "in64 (cfQuotaLeaseTTL cfg)" "in64 (rtOverallDeadline (cfRetry cfg))" "in64 (rtStreamTimeout (cfRetry cfg))"
    using assms defaultConfig_in64 [of L] by (auto simp: settings_def retry_settings_def Let_def intro: reads_duration)
  note lease = lease_check [OF this]
  show ?thesis
  proof (cases "0 \<le> ciSlowCallThreshold (cfCircuit cfg)")
    case True
    then show ?thesis
      using settings_routing [OF assms]
      unfolding loaded_def lease sound_def retry_sound_def lease_sound_def validate_def
      by (simp add: validateRetryBudget_iff validateCache_iff validateCircuit_iff validateProbe_iff validateModelTables_iff
          validateUpstreams_def validate_upstreams_iff guardDeploymentPosture_iff not_le) argo
  qed (simp add: loaded_def sound_def circuit_sound_def)
qed

lemma requestBudget_retry: "cfRetry c = cfRetry c' \<Longrightarrow> requestBudget c = requestBudget c'"
  by (simp add: requestBudget_def)

lemma Load_settings:
  assumes "Load L = Inr cfg"
  shows "settings L cfg \<and> loaded cfg"
  using assms
  by (clarsimp simp: Load_def Let_def loaders_iff settings_def loaded_def)
    (erule allE, erule mp, erule requestBudget_retry [THEN trans, rotated], simp)

lemma others_kept:
  "a\<lparr>rdTLS := rdTLS b\<rparr> = b \<Longrightarrow> a = b\<lparr>rdTLS := rdTLS a\<rparr>"
  "c\<lparr>svShutdownGrace := svShutdownGrace d\<rparr> = d \<Longrightarrow> c = d\<lparr>svShutdownGrace := svShutdownGrace c\<rparr>"
  "e\<lparr>obAccessLogQueueSize := obAccessLogQueueSize f\<rparr> = f \<Longrightarrow> e = f\<lparr>obAccessLogQueueSize := obAccessLogQueueSize e\<rparr>"
  "g\<lparr>roAffinityTTL := roAffinityTTL h\<rparr> = h \<Longrightarrow> g = h\<lparr>roAffinityTTL := roAffinityTTL g\<rparr>"
  "s\<lparr>scAllowUnauthenticated := scAllowUnauthenticated t\<rparr> = t \<Longrightarrow> s = t\<lparr>scAllowUnauthenticated := scAllowUnauthenticated s\<rparr>"
  by (metis redis_cfg.surjective redis_cfg.update_convs(3) redis_cfg.select_convs(3),
      metis server_cfg.surjective server_cfg.update_convs(2) server_cfg.select_convs(2),
      metis obs_cfg.surjective obs_cfg.update_convs(1) obs_cfg.select_convs(1),
      metis routing_cfg.surjective routing_cfg.update_convs(2) routing_cfg.select_convs(2),
      metis security_cfg.surjective security_cfg.update_convs(2) security_cfg.select_convs(2))

lemma settings_Load:
  assumes "settings L cfg" and "loaded cfg" and "validate L cfg = Inr ()" and "guardDeploymentPosture cfg = Inr ()"
  shows "Load L = Inr cfg"
proof -
  let ?d = "defaultConfig L"
  note s = assms(1) [unfolded settings_def Let_def] and l = assms(2) [unfolded loaded_def]
  have p: "cfRedis cfg = (cfRedis ?d)\<lparr>rdTLS := rdTLS (cfRedis cfg)\<rparr>"
      "cfServer cfg = (cfServer ?d)\<lparr>svShutdownGrace := svShutdownGrace (cfServer cfg)\<rparr>"
      "cfObs cfg = (cfObs ?d)\<lparr>obAccessLogQueueSize := obAccessLogQueueSize (cfObs cfg)\<rparr>"
      "cfRouting cfg = (cfRouting ?d)\<lparr>roAffinityTTL := roAffinityTTL (cfRouting cfg)\<rparr>"
      "cfSecurity cfg = (cfSecurity ?d)\<lparr>scAllowUnauthenticated := scAllowUnauthenticated (cfSecurity cfg)\<rparr>"
    by (rule others_kept; use s in blast)+
  define c1 where "c1 = ?d\<lparr>cfIdentity := cfIdentity cfg, cfRedis := cfRedis cfg, cfServer := cfServer cfg,
      cfObs := cfObs cfg, cfUpstreams := cfUpstreams cfg\<rparr>"
  define c2 where "c2 = c1\<lparr>cfRetry := cfRetry cfg\<rparr>"
  define c3 where "c3 = c2\<lparr>cfReconcileInterval := cfReconcileInterval cfg, cfQuotaLeaseTTL := cfQuotaLeaseTTL cfg\<rparr>"
  define c4 where "c4 = c3\<lparr>cfCache := cfCache cfg\<rparr>"
  define c5 where "c5 = c4\<lparr>cfCircuit := cfCircuit cfg\<rparr>"
  define c6 where "c6 = c5\<lparr>cfProbe := cfProbe cfg\<rparr>"
  define c7 where "c7 = c6\<lparr>cfFallbacks := cfFallbacks cfg, cfContextLimits := cfContextLimits cfg\<rparr>"
  define c8 where "c8 = c7\<lparr>cfRouting := cfRouting cfg, cfUpstreamMaxInFlight := cfUpstreamMaxInFlight cfg\<rparr>"
  note cs = c8_def c7_def c6_def c5_def c4_def c3_def c2_def c1_def
  have "loadRetry L c1 = Inr c2" using s l by (auto simp: loadRetry_iff c2_def c1_def)
  moreover have "requestBudget c2 = requestBudget cfg" by (rule requestBudget_retry) (simp add: cs)
  then have "loadQuota L c2 = Inr c3"
    using s l unfolding loadQuota_iff c3_def
    by (intro exI [of _ "cfReconcileInterval cfg"] exI [of _ "cfQuotaLeaseTTL cfg"]) (simp add: c2_def c1_def)
  moreover note this
  moreover have "loadCache L c3 = Inr c4" using s by (auto simp: loadCache_iff cs)
  moreover have "loadCircuit L c4 = Inr c5" using s l by (auto simp: loadCircuit_iff cs)
  moreover have "loadProbe L c5 = Inr c6" using s by (auto simp: loadProbe_iff cs)
  moreover have "loadModelTables L c6 = Inr c7" using s by (auto simp: loadModelTables_iff cs)
  moreover have "loadRouting L c7 = Inr c8" using s l p(4) [symmetric] unfolding loadRouting_iff c8_def
    by (intro exI [of _ "roAffinityTTL (cfRouting cfg)"] exI [of _ "cfUpstreamMaxInFlight cfg"]) (simp add: cs)
  moreover have "loadSecurity L c8 = Inr cfg"
    using s p(5) [symmetric] unfolding loadSecurity_iff
    by (intro exI [of _ "scAllowUnauthenticated (cfSecurity cfg)"] conjI gateway_config.equality) (simp_all add: cs)
  moreover have "c1 = ?d\<lparr>cfIdentity := cfIdentity cfg, cfRedis := (cfRedis ?d)\<lparr>rdTLS := rdTLS (cfRedis cfg)\<rparr>,
      cfServer := (cfServer ?d)\<lparr>svShutdownGrace := svShutdownGrace (cfServer cfg)\<rparr>,
      cfObs := (cfObs ?d)\<lparr>obAccessLogQueueSize := obAccessLogQueueSize (cfObs cfg)\<rparr>, cfUpstreams := cfUpstreams cfg\<rparr>"
    unfolding c1_def by (simp only: p(1-3) [symmetric])
  moreover have "reads L envUpstreams (read_table L dec_upstream zero_upstream) [] (cfUpstreams cfg)"
    "loadIdentitySource L envIdentity (cfIdentity ?d) = Inr (cfIdentity cfg)"
    "reads L envRedisTLS parse_bool False (rdTLS (cfRedis cfg))"
    "reads L envShutdownGrace ParseDuration (svShutdownGrace (cfServer ?d)) (svShutdownGrace (cfServer cfg))"
    "reads L envAccessLogQueue parse_int64 (obAccessLogQueueSize (cfObs ?d)) (obAccessLogQueueSize (cfObs cfg))"
    using s by simp_all
  ultimately show ?thesis using assms(3,4) by (simp add: Load_def run_simps del: run_dels)
qed

text \<open>
  C15: A configuration is accepted exactly when it is sound.  Whatever the environment, the
  process starts with a configuration if and only if every field holds what its variable says
  (or its default) and the whole keeps the promises its components rely on: positive or
  bounded sizes and times, a lease horizon above the longest bounded request, a cache within
  the sketch it sizes, a usable breaker strategy, upstreams with distinct usable ids, parsable
  addresses, well-formed model bindings and clean credential rings, and no surface left open
  to unauthenticated callers unless the operator said so.
\<close>

theorem load_accepts_sound: "Load L = Inr cfg \<longleftrightarrow> settings L cfg \<and> sound L cfg"
proof
  assume l: "Load L = Inr cfg"
  then have "validate L cfg = Inr () \<and> guardDeploymentPosture cfg = Inr ()" by (auto simp: Load_def Let_def)
  then show "settings L cfg \<and> sound L cfg" using Load_settings [OF l] checks_sound by blast
next
  assume "settings L cfg \<and> sound L cfg"
  then show "Load L = Inr cfg" using settings_Load checks_sound [of L cfg "()" "()"] by blast
qed

subsection \<open>The horizon outlives the request\<close>

lemma Load_ranges:
  assumes "Load L = Inr cfg"
  shows "loaded cfg" "in64 (cfQuotaLeaseTTL cfg)" "in64 (rtOverallDeadline (cfRetry cfg))"
    "in64 (rtStreamTimeout (cfRetry cfg))"
  using Load_settings [OF assms] defaultConfig_in64 [of L]
  by (auto simp: settings_def retry_settings_def Let_def intro: reads_duration)

text \<open>
  C40: A lease outlives the request that holds it.  For every accepted configuration whose
  attempt phase and stream are bounded, the ceiling of a request is the exact sum of the two
  bounds, saturated at the largest duration and never wrapped, and the reclaim horizon is
  above it, unless the sum saturates, where it is equal.  When a bound is missing the ceiling
  is a day, and so is the horizon unless the operator chose one.
\<close>

theorem lease_outlives_request:
  assumes "Load L = Inr cfg"
  shows "0 < LeaseTTL cfg \<and> in64 (LeaseTTL cfg) \<and>
    (if 0 < rtOverallDeadline (cfRetry cfg) \<and> 0 < rtStreamTimeout (cfRetry cfg)
     then RequestCeiling cfg = min (rtOverallDeadline (cfRetry cfg) + rtStreamTimeout (cfRetry cfg)) MaxInt64 \<and>
       (RequestCeiling cfg < LeaseTTL cfg \<or> RequestCeiling cfg = MaxInt64 \<and> LeaseTTL cfg = MaxInt64)
     else RequestCeiling cfg = 24 * Hour \<and> (cfQuotaLeaseTTL cfg = 0 \<longrightarrow> LeaseTTL cfg = 24 * Hour))"
proof -
  note r = Load_ranges [OF assms]
  show ?thesis
  proof (cases "0 < rtOverallDeadline (cfRetry cfg) \<and> 0 < rtStreamTimeout (cfRetry cfg)")
    case True
    let ?b = "min (rtOverallDeadline (cfRetry cfg) + rtStreamTimeout (cfRetry cfg)) MaxInt64"
    have b: "requestBudget cfg = Some ?b" using True addDuration_exact [OF _ _ r(3,4)] by (simp add: requestBudget_def)
    have "0 < ?b" "in64 ?b" using True by (auto simp: MaxInt64_def in64_def MinInt64_def)
    moreover have "addDuration ?b leaseTTLHeadroom = min (?b + leaseTTLHeadroom) MaxInt64"
      using \<open>0 < ?b\<close> \<open>in64 ?b\<close> by (intro addDuration_exact) (auto simp: leaseTTLHeadroom_def in64_def MinInt64_def MaxInt64_def)
    moreover have "0 < cfQuotaLeaseTTL cfg \<longrightarrow> ?b < cfQuotaLeaseTTL cfg" using r(1) b by (simp add: loaded_def)
    ultimately show ?thesis
      using True b r(2) by (auto simp: RequestCeiling_def LeaseTTL_def leaseTTLHeadroom_def in64_def MinInt64_def MaxInt64_def)
  next
    case False
    then have "requestBudget cfg = None" by (auto simp: requestBudget_def not_less)
    then show ?thesis
      using False r(1,2) by (auto simp: RequestCeiling_def LeaseTTL_def unboundedRequestLeaseTTL_def loaded_def
          in64_def MinInt64_def MaxInt64_def)
  qed
qed

text \<open>
  An environment with a few variables set.  With none the defaults load; a horizon below the
  longest request is refused; when the stream is unbounded, any horizon is accepted, the
  check is skipped.
\<close>

definition demo_env :: "(string \<times> string) list \<Rightarrow> env_libs" where
  "demo_env vs = \<lparr>elGetenv = (\<lambda>k. case map_of vs k of Some v \<Rightarrow> v | None \<Rightarrow> ''''), elReadFile = (\<lambda>_. None),
     elJSON = (\<lambda>_. None), elParseFloat = (\<lambda>_. None), elParseURL = (\<lambda>_. None)\<rparr>"

definition demo_horizon :: "(string \<times> string) list \<Rightarrow> config_error + (duration \<times> duration)" where
  "demo_horizon vs = (case Load (demo_env vs) of Inl e \<Rightarrow> Inl e | Inr c \<Rightarrow> Inr (RequestCeiling c, LeaseTTL c))"

lemma demo_horizon_default: "demo_horizon [] = Inr (11 * Minute, 12 * Minute)"
  by code_simp

lemma demo_horizon_short:
  "demo_horizon [(''BREAKWATER_QUOTA_LEASE_TTL'', '' 5m0.5s'')] = Inl (LeaseTooShort 300500000000 (11 * Minute))"
  by code_simp

lemma demo_horizon_unchecked:
  "demo_horizon [(''BREAKWATER_QUOTA_LEASE_TTL'', ''1s''), (''BREAKWATER_STREAM_TIMEOUT'', ''0'')] = Inr (24 * Hour, Second)"
  by code_simp

theorem lease_outlives_request_witness:
  "\<exists>cfg. Load (demo_env []) = Inr cfg \<and> RequestCeiling cfg < LeaseTTL cfg"
proof -
  obtain cfg where c: "Load (demo_env []) = Inr cfg" "RequestCeiling cfg = 11 * Minute"
    using demo_horizon_default by (auto simp: demo_horizon_def split: sum.splits)
  then show ?thesis
    using lease_outlives_request [OF c(1)] by (auto simp: MaxInt64_def split: if_splits)
qed

end
