(* ===== verification/Admin.thy ===== *)
theory Admin
  imports Config Protocol Auth Router_Switch Quota_Memory Quota_Redis Circuit_Breaker
begin

text \<open>
  The management surface (\<^verbatim>\<open>internal/server/admin.go\<close>, \<^verbatim>\<open>identityadmin.go\<close>) and the bindings that
  connect it to the live components (\<^verbatim>\<open>cmd/breakwater/adminassembly.go\<close>): the bearer guard, the
  dispatch on path and method, the strict body decoder and every endpoint.

  An endpoint maps a world (ledger, breakers, switches, identity store) to a world and a reply.
  A reply carries the values its JSON shows, an error its status and code; the messages and the
  bytes are not modelled.  The ledger and the breaker are bound by their ports, as the assembly
  binds whichever is configured: the locale \<open>balance_port\<close> says what the surface needs of a
  ledger, and the in-process and the Redis ledger are interpretations of it.  The identity
  store, the report of the insights store, an upstream's probe, the digest and the JSON syntax
  are parameters.
\<close>

subsection \<open>Requests, replies and the world\<close>

record admin_request =
  arMethod :: string
  arPath :: string
  arHours :: string
  arHeader :: "(string \<times> string) list"
  arBody :: string
  arBroken :: bool

datatype identity_error = ErrUnknownUser | ErrUnknownKey | ErrUnknownTier | ErrTooManyKeys | IdentityStoreFailed

datatype admin_error = AdminUnknownUpstream | SwitchUnknownUpstream | ErrProbeUnconfigured | ActionFailed

datatype switchTarget = modelSwitch | upstreamSwitch

datatype override_layer = UserLayer | KeyLayer

datatype ('v, 'r) admin_reply =
    NotFound
  | MethodNotAllowed "string list"
  | Unauthorized
  | Rejected int string
  | BalanceOf string int
  | BreakerList "(string \<times> cstate) list"
  | BreakerClosed string
  | ProbeOK string
  | InsightsReport 'r
  | RoutingView switch_view
  | Switched switchTarget string bool
  | UserCreated string string string string
  | LimitsReplaced override_layer string limit_override
  | KeyIssued 'v
  | Listing 'v
  | KeyStatus string bool

fun reply_status :: "('v, 'r) admin_reply \<Rightarrow> int" where
  "reply_status NotFound = 404"
| "reply_status (MethodNotAllowed _) = 405"
| "reply_status Unauthorized = 401"
| "reply_status (Rejected code _) = code"
| "reply_status (UserCreated _ _ _ _) = 201"
| "reply_status (KeyIssued _) = 201"
| "reply_status _ = 200"

record ('i, 'v) identity_ops =
  ioCreateUser :: "string \<Rightarrow> string \<Rightarrow> string \<Rightarrow> 'i \<Rightarrow> 'i \<times> (identity_error + string)"
  ioUsers :: "'i \<Rightarrow> 'i \<times> (identity_error + 'v)"
  ioSetUserLimits :: "string \<Rightarrow> limit_override \<Rightarrow> 'i \<Rightarrow> 'i \<times> (identity_error + unit)"
  ioCreateKey :: "string \<Rightarrow> string \<Rightarrow> 'i \<Rightarrow> 'i \<times> (identity_error + 'v)"
  ioKeys :: "string \<Rightarrow> 'i \<Rightarrow> 'i \<times> (identity_error + 'v)"
  ioSetKeyLimits :: "string \<Rightarrow> limit_override \<Rightarrow> 'i \<Rightarrow> 'i \<times> (identity_error + unit)"
  ioSetKeyStatus :: "string \<Rightarrow> bool \<Rightarrow> 'i \<Rightarrow> 'i \<times> (identity_error + unit)"

record ('l, 'b, 'i) admin_world =
  awLedger :: 'l
  awBreaker :: 'b
  awSwitch :: switch
  awIdentity :: 'i

record ('l, 'b, 'i, 'v, 'r) admin =
  adToken :: string
  adBalances :: "(string \<Rightarrow> 'l \<Rightarrow> quota_error + int) option"
  adSetBalance :: "(string \<Rightarrow> int \<Rightarrow> 'l \<Rightarrow> 'l \<times> quota_error option) option"
  adBreakers :: "('b \<Rightarrow> 'b \<times> (string \<times> cstate) list) option"
  adBreakerReset :: "(string \<Rightarrow> 'b \<Rightarrow> 'b \<times> admin_error option) option"
  adUpstreamProbe :: "(string \<Rightarrow> admin_error option) option"
  adRouting :: bool
  adIdentity :: "('i, 'v) identity_ops option"
  adInsights :: "(int \<Rightarrow> 'r option) option"

text \<open>The outside: the first value of a JSON document (or none), and the digest.\<close>

datatype json_head = NoValue | BadSyntax | FirstValue json bool

record admin_libs =
  alJSON :: "string \<Rightarrow> json_head"
  alSha256 :: "string \<Rightarrow> string"

subsection \<open>Shared machinery\<close>

definition trim_prefix :: "string \<Rightarrow> string \<Rightarrow> string" where
  "trim_prefix s p = (if has_prefix s p then drop (length p) s else s)"

definition trim_suffix :: "string \<Rightarrow> string \<Rightarrow> string" where
  "trim_suffix s p = (if has_suffix s p then take (length s - length p) s else s)"

definition maxAdminBodyBytes :: nat where "maxAdminBodyBytes = 4096"

definition admin_authorized :: "admin_libs \<Rightarrow> string \<Rightarrow> admin_request \<Rightarrow> bool" where
  "admin_authorized lib token rq \<longleftrightarrow>
     token = '''' \<or>
     (let raw = header_get (arHeader rq) ''Authorization'' in
      has_prefix raw ''Bearer '' \<and>
      alSha256 lib (trim_space (drop (length ''Bearer '') raw)) = alSha256 lib token)"

definition guarded ::
  "admin_request \<Rightarrow> string \<Rightarrow> ('w \<Rightarrow> 'w \<times> ('v, 'r) admin_reply) \<Rightarrow> 'w \<Rightarrow> 'w \<times> ('v, 'r) admin_reply" where
  "guarded rq method fn w = (if arMethod rq \<noteq> method then (w, MethodNotAllowed [method]) else fn w)"

definition guardedPair ::
  "admin_request \<Rightarrow> string \<Rightarrow> ('w \<Rightarrow> 'w \<times> ('v, 'r) admin_reply) \<Rightarrow> ('w \<Rightarrow> 'w \<times> ('v, 'r) admin_reply) \<Rightarrow>
   'w \<Rightarrow> 'w \<times> ('v, 'r) admin_reply" where
  "guardedPair rq writeMethod rd wr w =
     (if arMethod rq = ''GET'' then rd w
      else if arMethod rq = writeMethod then wr w
      else (w, MethodNotAllowed [''GET'', writeMethod]))"

text \<open>
  The reader stops one byte past the cap, so a connection that breaks later is not noticed.
\<close>

definition decodeAdminBody ::
  "admin_libs \<Rightarrow> bool \<Rightarrow> 'a decoder \<Rightarrow> 'a \<Rightarrow> admin_request \<Rightarrow> ('v, 'r) admin_reply + 'a" where
  "decodeAdminBody lib optional d zero rq =
     (let raw = take (maxAdminBodyBytes + 1) (arBody rq) in
      if arBroken rq \<and> length (arBody rq) \<le> maxAdminBodyBytes then Inl (Rejected 400 ''invalid_request'')
      else if length raw > maxAdminBodyBytes then Inl (Rejected 400 ''invalid_request'')
      else case alJSON lib raw of
             NoValue \<Rightarrow> if optional then Inr zero else Inl (Rejected 400 ''invalid_request'')
           | BadSyntax \<Rightarrow> Inl (Rejected 400 ''invalid_request'')
           | FirstValue j alone \<Rightarrow>
               (case d j zero of
                  (v, ok) \<Rightarrow>
                    if \<not> ok then Inl (Rejected 400 ''invalid_request'')
                    else if \<not> alone then Inl (Rejected 400 ''invalid_request'')
                    else Inr v))"

definition decodeAdminJSON :: "admin_libs \<Rightarrow> 'a decoder \<Rightarrow> 'a \<Rightarrow> admin_request \<Rightarrow> ('v, 'r) admin_reply + 'a" where
  "decodeAdminJSON lib d zero rq = decodeAdminBody lib False d zero rq"

definition decodeAdminJSONOptional ::
  "admin_libs \<Rightarrow> 'a decoder \<Rightarrow> 'a \<Rightarrow> admin_request \<Rightarrow> ('v, 'r) admin_reply + 'a" where
  "decodeAdminJSONOptional lib d zero rq = decodeAdminBody lib True d zero rq"

definition decodeEnabled :: "admin_libs \<Rightarrow> admin_request \<Rightarrow> ('v, 'r) admin_reply + bool" where
  "decodeEnabled lib rq =
     (case decodeAdminJSON lib (dec_strict [(''enabled'', field (\<lambda>x. x) (\<lambda>f x. f x) (dec_pointer False dec_bool))]) None rq of
        Inl rep \<Rightarrow> Inl rep
      | Inr None \<Rightarrow> Inl (Rejected 400 ''invalid_request'')
      | Inr (Some b) \<Rightarrow> Inr b)"

definition dec_quotas :: "(string \<rightharpoonup> int) decoder" where
  "dec_quotas j old =
     (case j of
        JObj ms \<Rightarrow> (foldl (\<lambda>m (k, e). m(k \<mapsto> fst (dec_int e 0))) old ms, list_all (\<lambda>(k, e). snd (dec_int e 0)) ms)
      | JNull \<Rightarrow> (Map.empty, True)
      | _ \<Rightarrow> (old, False))"

definition zero_override :: limit_override where
  "zero_override = \<lparr>ovRPM = None, ovTPM = None, ovMaxTokens = None, ovMonthlyQuota = None, ovConcurrency = None,
     ovAllowed = None, ovDenied = [], ovQuotas = Map.empty\<rparr>"

definition decodeOverride :: "admin_libs \<Rightarrow> admin_request \<Rightarrow> ('v, 'r) admin_reply + limit_override" where
  "decodeOverride lib rq = decodeAdminJSON lib (dec_strict
     [(''rpm'', field ovRPM ovRPM_update (dec_pointer 0 dec_int)),
      (''tpm'', field ovTPM ovTPM_update (dec_pointer 0 dec_int)),
      (''max_tokens'', field ovMaxTokens ovMaxTokens_update (dec_pointer 0 dec_int)),
      (''monthly_quota'', field ovMonthlyQuota ovMonthlyQuota_update (dec_pointer 0 dec_int)),
      (''concurrency'', field ovConcurrency ovConcurrency_update (dec_pointer 0 dec_int)),
      (''allowed_models'', field ovAllowed ovAllowed_update (dec_pointer [] (dec_slice '''' dec_string))),
      (''denied_models'', field ovDenied ovDenied_update (dec_slice '''' dec_string)),
      (''model_quotas'', field ovQuotas ovQuotas_update dec_quotas)]) zero_override rq"

subsection \<open>Balances, breakers, probes, insights and switches\<close>

definition renderQuotaError :: "quota_error \<Rightarrow> ('v, 'r) admin_reply" where
  "renderQuotaError err =
     (if err = ErrUnknownTenant then Rejected 404 ''tenant_unknown'' else Rejected 503 ''balance_unavailable'')"

definition serveQuota ::
  "('l, 'b, 'i, 'v, 'r) admin \<Rightarrow> string \<Rightarrow> ('l, 'b, 'i) admin_world \<Rightarrow> ('l, 'b, 'i) admin_world \<times> ('v, 'r) admin_reply" where
  "serveQuota a t w =
     (case adBalances a of
        None \<Rightarrow> (w, NotFound)
      | Some look \<Rightarrow>
          (case look t (awLedger w) of
             Inl err \<Rightarrow> (w, renderQuotaError err)
           | Inr n \<Rightarrow> (w, BalanceOf t n)))"

definition balance_body :: "admin_libs \<Rightarrow> admin_request \<Rightarrow> ('v, 'r) admin_reply + int option" where
  "balance_body lib rq =
     decodeAdminJSON lib (dec_strict [(''balance'', field (\<lambda>x. x) (\<lambda>f x. f x) (dec_pointer 0 dec_int))]) None rq"

definition serveQuotaTopUp ::
  "admin_libs \<Rightarrow> ('l, 'b, 'i, 'v, 'r) admin \<Rightarrow> admin_request \<Rightarrow> string \<Rightarrow> ('l, 'b, 'i) admin_world \<Rightarrow>
   ('l, 'b, 'i) admin_world \<times> ('v, 'r) admin_reply" where
  "serveQuotaTopUp lib a rq t w =
     (case adSetBalance a of
        None \<Rightarrow> (w, NotFound)
      | Some wr \<Rightarrow>
          (case balance_body lib rq of
             Inl rep \<Rightarrow> (w, rep)
           | Inr None \<Rightarrow> (w, Rejected 400 ''invalid_request'')
           | Inr (Some n) \<Rightarrow>
               if n < 0 then (w, Rejected 400 ''invalid_request'')
               else case wr t n (awLedger w) of
                      (l, Some err) \<Rightarrow> (w\<lparr>awLedger := l\<rparr>, renderQuotaError err)
                    | (l, None) \<Rightarrow> (w\<lparr>awLedger := l\<rparr>, BalanceOf t n)))"

definition serveTenants ::
  "admin_libs \<Rightarrow> ('l, 'b, 'i, 'v, 'r) admin \<Rightarrow> admin_request \<Rightarrow> string \<Rightarrow> ('l, 'b, 'i) admin_world \<Rightarrow>
   ('l, 'b, 'i) admin_world \<times> ('v, 'r) admin_reply" where
  "serveTenants lib a rq t w =
     (if t = '''' then (w, NotFound)
      else if \<not> validID t then (w, Rejected 400 ''invalid_request'')
      else guardedPair rq ''PUT'' (serveQuota a t) (serveQuotaTopUp lib a rq t) w)"

definition serveBreakers ::
  "('l, 'b, 'i, 'v, 'r) admin \<Rightarrow> ('l, 'b, 'i) admin_world \<Rightarrow> ('l, 'b, 'i) admin_world \<times> ('v, 'r) admin_reply" where
  "serveBreakers a w =
     (case adBreakers a of
        None \<Rightarrow> (w, NotFound)
      | Some f \<Rightarrow> (case f (awBreaker w) of (b, states) \<Rightarrow> (w\<lparr>awBreaker := b\<rparr>, BreakerList states)))"

definition isUnknownUpstreamErr :: "admin_error \<Rightarrow> bool" where
  "isUnknownUpstreamErr err \<longleftrightarrow> err = AdminUnknownUpstream \<or> err = SwitchUnknownUpstream"

definition serveBreakerReset ::
  "('l, 'b, 'i, 'v, 'r) admin \<Rightarrow> string \<Rightarrow> ('l, 'b, 'i) admin_world \<Rightarrow> ('l, 'b, 'i) admin_world \<times> ('v, 'r) admin_reply" where
  "serveBreakerReset a u w =
     (case adBreakerReset a of
        None \<Rightarrow> (w, NotFound)
      | Some act \<Rightarrow>
          if u = '''' then (w, NotFound)
          else case act u (awBreaker w) of
                 (b, None) \<Rightarrow> (w\<lparr>awBreaker := b\<rparr>, BreakerClosed u)
               | (b, Some err) \<Rightarrow>
                   (w\<lparr>awBreaker := b\<rparr>, if isUnknownUpstreamErr err then Rejected 404 ''upstream_unknown''
                                        else Rejected 500 ''breaker_reset_failed''))"

definition serveUpstreamProbe ::
  "('l, 'b, 'i, 'v, 'r) admin \<Rightarrow> string \<Rightarrow> ('l, 'b, 'i) admin_world \<Rightarrow> ('l, 'b, 'i) admin_world \<times> ('v, 'r) admin_reply" where
  "serveUpstreamProbe a u w =
     (case adUpstreamProbe a of
        None \<Rightarrow> (w, NotFound)
      | Some ask \<Rightarrow>
          if u = '''' then (w, NotFound)
          else case ask u of
                 None \<Rightarrow> (w, ProbeOK u)
               | Some err \<Rightarrow>
                   (w, if isUnknownUpstreamErr err then Rejected 404 ''upstream_unknown''
                       else if err = ErrProbeUnconfigured then Rejected 409 ''probe_unconfigured''
                       else Rejected 502 ''probe_failed''))"

definition serveInsights ::
  "('l, 'b, 'i, 'v, 'r) admin \<Rightarrow> admin_request \<Rightarrow> ('l, 'b, 'i) admin_world \<Rightarrow>
   ('l, 'b, 'i) admin_world \<times> ('v, 'r) admin_reply" where
  "serveInsights a rq w =
     (case adInsights a of
        None \<Rightarrow> (w, NotFound)
      | Some report \<Rightarrow>
          (case (if arHours rq = '''' then Some 24
                 else case parse_int64 (arHours rq) of
                        None \<Rightarrow> None
                      | Some h \<Rightarrow> if h < 1 \<or> h > 24 * 30 then None else Some h) of
             None \<Rightarrow> (w, Rejected 400 ''invalid_request'')
           | Some hours \<Rightarrow>
               (case report hours of
                  None \<Rightarrow> (w, Rejected 503 ''insights_unavailable'')
                | Some rep \<Rightarrow> (w, InsightsReport rep))))"

definition serveRouting ::
  "('l, 'b, 'i, 'v, 'r) admin \<Rightarrow> ('l, 'b, 'i) admin_world \<Rightarrow> ('l, 'b, 'i) admin_world \<times> ('v, 'r) admin_reply" where
  "serveRouting a w = (w, if \<not> adRouting a then NotFound else RoutingView (View (awSwitch w)))"

fun switch_set :: "switchTarget \<Rightarrow> switch \<Rightarrow> string \<Rightarrow> bool \<Rightarrow> switch \<times> (router_error + unit)" where
  "switch_set modelSwitch = SetModel"
| "switch_set upstreamSwitch = SetUpstream"

fun switch_error :: "switchTarget \<Rightarrow> router_error \<Rightarrow> ('v, 'r) admin_reply" where
  "switch_error modelSwitch (ErrUnknownModel _) = Rejected 404 ''model_unknown''"
| "switch_error upstreamSwitch (ErrUnknownUpstream _) = Rejected 404 ''upstream_unknown''"
| "switch_error _ _ = Rejected 500 ''routing_switch_failed''"

definition serveRoutingSwitch ::
  "admin_libs \<Rightarrow> ('l, 'b, 'i, 'v, 'r) admin \<Rightarrow> admin_request \<Rightarrow> switchTarget \<Rightarrow> string \<Rightarrow> ('l, 'b, 'i) admin_world \<Rightarrow>
   ('l, 'b, 'i) admin_world \<times> ('v, 'r) admin_reply" where
  "serveRoutingSwitch lib a rq t x w =
     (if \<not> adRouting a \<or> x = '''' then (w, NotFound)
      else case decodeEnabled lib rq of
             Inl rep \<Rightarrow> (w, rep)
           | Inr enabled \<Rightarrow>
               (case switch_set t (awSwitch w) x enabled of
                  (s, Inl err) \<Rightarrow> (w\<lparr>awSwitch := s\<rparr>, switch_error t err)
                | (s, Inr _) \<Rightarrow> (w\<lparr>awSwitch := s\<rparr>, Switched t x enabled)))"

subsection \<open>Identities\<close>

definition renderIdentityError :: "identity_error \<Rightarrow> ('v, 'r) admin_reply" where
  "renderIdentityError err =
     (case err of
        ErrTooManyKeys \<Rightarrow> Rejected 409 ''key_limit_reached''
      | IdentityStoreFailed \<Rightarrow> Rejected 503 ''identity_store_unavailable''
      | _ \<Rightarrow> Rejected 404 ''identity_unknown'')"

definition identity_reply ::
  "('l, 'b, 'i) admin_world \<Rightarrow> 'i \<times> (identity_error + 'x) \<Rightarrow> ('x \<Rightarrow> ('v, 'r) admin_reply) \<Rightarrow>
   ('l, 'b, 'i) admin_world \<times> ('v, 'r) admin_reply" where
  "identity_reply w res f =
     (case res of
        (i, Inl err) \<Rightarrow> (w\<lparr>awIdentity := i\<rparr>, renderIdentityError err)
      | (i, Inr x) \<Rightarrow> (w\<lparr>awIdentity := i\<rparr>, f x))"

record user_body =
  ubName :: string
  ubRole :: string
  ubTier :: string

definition serveCreateUser ::
  "admin_libs \<Rightarrow> ('l, 'b, 'i, 'v, 'r) admin \<Rightarrow> admin_request \<Rightarrow> ('l, 'b, 'i) admin_world \<Rightarrow>
   ('l, 'b, 'i) admin_world \<times> ('v, 'r) admin_reply" where
  "serveCreateUser lib a rq w =
     (case adIdentity a of
        None \<Rightarrow> (w, NotFound)
      | Some ops \<Rightarrow>
          (case decodeAdminJSON lib (dec_strict
                  [(''name'', field ubName ubName_update dec_string), (''role'', field ubRole ubRole_update dec_string),
                   (''tier'', field ubTier ubTier_update dec_string)]) \<lparr>ubName = '''', ubRole = '''', ubTier = ''''\<rparr> rq of
             Inl rep \<Rightarrow> (w, rep)
           | Inr body \<Rightarrow>
               if ubName body = '''' \<or> ubTier body = '''' then (w, Rejected 400 ''invalid_request'')
               else if ubRole body \<notin> {'''', RoleUser, RoleAdmin} then (w, Rejected 400 ''invalid_request'')
               else let role = (if ubRole body = '''' then RoleUser else ubRole body)
                    in identity_reply w (ioCreateUser ops (ubName body) role (ubTier body) (awIdentity w))
                         (\<lambda>uid. UserCreated uid (ubName body) role (ubTier body))))"

definition serveListUsers ::
  "('l, 'b, 'i, 'v, 'r) admin \<Rightarrow> ('l, 'b, 'i) admin_world \<Rightarrow> ('l, 'b, 'i) admin_world \<times> ('v, 'r) admin_reply" where
  "serveListUsers a w =
     (case adIdentity a of
        None \<Rightarrow> (w, NotFound)
      | Some ops \<Rightarrow> identity_reply w (ioUsers ops (awIdentity w)) Listing)"

definition serveLimitsReplace ::
  "admin_libs \<Rightarrow> ('l, 'b, 'i, 'v, 'r) admin \<Rightarrow> admin_request \<Rightarrow> override_layer \<Rightarrow> string \<Rightarrow> ('l, 'b, 'i) admin_world \<Rightarrow>
   ('l, 'b, 'i) admin_world \<times> ('v, 'r) admin_reply" where
  "serveLimitsReplace lib a rq kind x w =
     (case adIdentity a of
        None \<Rightarrow> (w, NotFound)
      | Some ops \<Rightarrow>
          if x = '''' then (w, NotFound)
          else case decodeOverride lib rq of
                 Inl rep \<Rightarrow> (w, rep)
               | Inr ov \<Rightarrow>
                   identity_reply w
                     (case kind of UserLayer \<Rightarrow> ioSetUserLimits ops x ov (awIdentity w)
                      | KeyLayer \<Rightarrow> ioSetKeyLimits ops x ov (awIdentity w))
                     (\<lambda>_. LimitsReplaced kind x ov))"

definition serveCreateKey ::
  "admin_libs \<Rightarrow> ('l, 'b, 'i, 'v, 'r) admin \<Rightarrow> admin_request \<Rightarrow> string \<Rightarrow> ('l, 'b, 'i) admin_world \<Rightarrow>
   ('l, 'b, 'i) admin_world \<times> ('v, 'r) admin_reply" where
  "serveCreateKey lib a rq uid w =
     (case adIdentity a of
        None \<Rightarrow> (w, NotFound)
      | Some ops \<Rightarrow>
          if uid = '''' then (w, NotFound)
          else case decodeAdminJSONOptional lib (dec_strict [(''name'', field (\<lambda>x. x) (\<lambda>f x. f x) dec_string)]) '''' rq of
                 Inl rep \<Rightarrow> (w, rep)
               | Inr name \<Rightarrow> identity_reply w (ioCreateKey ops uid name (awIdentity w)) KeyIssued)"

definition serveListKeys ::
  "('l, 'b, 'i, 'v, 'r) admin \<Rightarrow> string \<Rightarrow> ('l, 'b, 'i) admin_world \<Rightarrow> ('l, 'b, 'i) admin_world \<times> ('v, 'r) admin_reply" where
  "serveListKeys a uid w =
     (case adIdentity a of
        None \<Rightarrow> (w, NotFound)
      | Some ops \<Rightarrow>
          if uid = '''' then (w, NotFound) else identity_reply w (ioKeys ops uid (awIdentity w)) Listing)"

definition serveKeyStatus ::
  "admin_libs \<Rightarrow> ('l, 'b, 'i, 'v, 'r) admin \<Rightarrow> admin_request \<Rightarrow> string \<Rightarrow> ('l, 'b, 'i) admin_world \<Rightarrow>
   ('l, 'b, 'i) admin_world \<times> ('v, 'r) admin_reply" where
  "serveKeyStatus lib a rq k w =
     (case adIdentity a of
        None \<Rightarrow> (w, NotFound)
      | Some ops \<Rightarrow>
          if k = '''' then (w, NotFound)
          else case decodeEnabled lib rq of
                 Inl rep \<Rightarrow> (w, rep)
               | Inr active \<Rightarrow> identity_reply w (ioSetKeyStatus ops k active (awIdentity w)) (\<lambda>_. KeyStatus k active))"

definition serveIdentity ::
  "admin_libs \<Rightarrow> ('l, 'b, 'i, 'v, 'r) admin \<Rightarrow> admin_request \<Rightarrow> ('l, 'b, 'i) admin_world \<Rightarrow>
   ('l, 'b, 'i) admin_world \<times> ('v, 'r) admin_reply" where
  "serveIdentity lib a rq w =
     (let path = arPath rq in
      if path = ''/admin/users'' then guardedPair rq ''POST'' (serveListUsers a) (serveCreateUser lib a rq) w
      else if has_prefix path ''/admin/users/''
      then let rest = trim_prefix path ''/admin/users/''
           in if has_suffix rest ''/limits''
              then guarded rq ''PUT'' (serveLimitsReplace lib a rq UserLayer (trim_suffix rest ''/limits'')) w
              else if has_suffix rest ''/keys''
              then guardedPair rq ''POST'' (serveListKeys a (trim_suffix rest ''/keys''))
                     (serveCreateKey lib a rq (trim_suffix rest ''/keys'')) w
              else (w, NotFound)
      else if has_prefix path ''/admin/keys/''
      then let rest = trim_prefix path ''/admin/keys/''
           in if has_suffix rest ''/limits''
              then guarded rq ''PUT'' (serveLimitsReplace lib a rq KeyLayer (trim_suffix rest ''/limits'')) w
              else if has_suffix rest ''/status''
              then guarded rq ''PUT'' (serveKeyStatus lib a rq (trim_suffix rest ''/status'')) w
              else (w, NotFound)
      else (w, NotFound))"

subsection \<open>The handler and its bindings\<close>

definition path_id :: "string \<Rightarrow> string \<Rightarrow> string \<Rightarrow> string" where
  "path_id path pre suf = trim_suffix (trim_prefix path pre) suf"

definition admin_ServeHTTP ::
  "admin_libs \<Rightarrow> ('l, 'b, 'i, 'v, 'r) admin \<Rightarrow> admin_request \<Rightarrow> ('l, 'b, 'i) admin_world \<Rightarrow>
   ('l, 'b, 'i) admin_world \<times> ('v, 'r) admin_reply" where
  "admin_ServeHTTP lib a rq w =
     (let path = arPath rq in
      if \<not> admin_authorized lib (adToken a) rq then (w, Unauthorized)
      else if path = ''/admin/breakers'' then guarded rq ''GET'' (serveBreakers a) w
      else if has_prefix path ''/admin/breakers/'' \<and> has_suffix path ''/reset''
      then guarded rq ''POST'' (serveBreakerReset a (path_id path ''/admin/breakers/'' ''/reset'')) w
      else if path = ''/admin/routing'' then guarded rq ''GET'' (serveRouting a) w
      else if path = ''/admin/insights'' then guarded rq ''GET'' (serveInsights a rq) w
      else if path = ''/admin/users'' \<or> has_prefix path ''/admin/users/'' \<or> has_prefix path ''/admin/keys/''
      then serveIdentity lib a rq w
      else if has_prefix path ''/admin/upstreams/'' \<and> has_suffix path ''/probe''
      then guarded rq ''POST'' (serveUpstreamProbe a (path_id path ''/admin/upstreams/'' ''/probe'')) w
      else if has_prefix path ''/admin/models/''
      then guarded rq ''PUT'' (serveRoutingSwitch lib a rq modelSwitch (trim_prefix path ''/admin/models/'')) w
      else if has_prefix path ''/admin/upstreams/''
      then guarded rq ''PUT'' (serveRoutingSwitch lib a rq upstreamSwitch (trim_prefix path ''/admin/upstreams/'')) w
      else if has_prefix path ''/admin/tenants/'' \<and> has_suffix path ''/quota''
      then serveTenants lib a rq (path_id path ''/admin/tenants/'' ''/quota'') w
      else (w, NotFound))"

text \<open>
  The bindings hold the process's ledger and breaker by their ports, so either ledger and any
  of the breakers; \<open>abClock\<close> has the clock readings of each breaker call.  \<open>adapters\<close> are the
  configured upstreams, \<open>healthy\<close> the verdict of an upstream's health exchange.
\<close>

record ('l, 'b) admin_bindings =
  abBalance :: "string \<Rightarrow> 'l \<Rightarrow> quota_error + int"
  abSetBalance :: "string \<Rightarrow> int \<Rightarrow> 'l \<Rightarrow> 'l \<times> quota_error option"
  abStateOf :: "'b \<Rightarrow> string \<Rightarrow> call_env \<Rightarrow> 'b \<times> cstate"
  abReset :: "'b \<Rightarrow> string \<Rightarrow> call_env \<Rightarrow> 'b"
  abClock :: "string \<Rightarrow> call_env"

fun breaker_views :: "('l, 'b) admin_bindings \<Rightarrow> string list \<Rightarrow> 'b \<Rightarrow> 'b \<times> (string \<times> cstate) list" where
  "breaker_views ab [] b = (b, [])"
| "breaker_views ab (u # us) b =
     (case abStateOf ab b u (abClock ab u) of
        (b1, s) \<Rightarrow> (case breaker_views ab us b1 of (b2, views) \<Rightarrow> (b2, (u, s) # views)))"

definition reset_binding :: "('l, 'b) admin_bindings \<Rightarrow> string list \<Rightarrow> string \<Rightarrow> 'b \<Rightarrow> 'b \<times> admin_error option" where
  "reset_binding ab adapters u b =
     (if u \<notin> set adapters then (b, Some AdminUnknownUpstream) else (abReset ab b u (abClock ab u), None))"

definition probes :: "upstream_cfg list \<Rightarrow> string list" where
  "probes cfgs = map upID (filter (\<lambda>c. upProbeURL c \<noteq> '''') cfgs)"

definition probe_binding :: "(string \<Rightarrow> bool) \<Rightarrow> upstream_cfg list \<Rightarrow> string \<Rightarrow> admin_error option" where
  "probe_binding healthy cfgs u =
     (if u \<notin> set (probes cfgs)
      then (if u \<in> upID ` set cfgs then Some ErrProbeUnconfigured else Some AdminUnknownUpstream)
      else if healthy u then None else Some ActionFailed)"

definition upstreamIDs :: "upstream_cfg list \<Rightarrow> string list" where
  "upstreamIDs cfgs = map upID cfgs"

definition buildAdmin ::
  "gateway_config \<Rightarrow> ('l, 'b) admin_bindings \<Rightarrow> (string \<Rightarrow> bool) \<Rightarrow> ('i, 'v) identity_ops option \<Rightarrow>
   (int \<Rightarrow> 'r option) option \<Rightarrow> ('l, 'b, 'i, 'v, 'r) admin" where
  "buildAdmin cfg ab healthy idops insights =
     (let mounted = (scAdminToken (cfSecurity cfg) \<noteq> '''' \<or> scAllowUnauthenticated (cfSecurity cfg));
          adapters = upstreamIDs (cfUpstreams cfg)
      in \<lparr>adToken = scAdminToken (cfSecurity cfg),
          adBalances = (if mounted then Some (abBalance ab) else None),
          adSetBalance = (if mounted then Some (abSetBalance ab) else None),
          adBreakers = Some (breaker_views ab adapters),
          adBreakerReset = Some (reset_binding ab adapters),
          adUpstreamProbe = Some (probe_binding healthy (cfUpstreams cfg)),
          adRouting = True, adIdentity = idops, adInsights = insights\<rparr>)"

subsection \<open>What the surface relies on\<close>

text \<open>
  The balances of a ledger as the surface uses them: a write that succeeds is what is read
  next, and a write of one tenant, failed or not, leaves the others alone.
\<close>

locale balance_port =
  fixes look :: "string \<Rightarrow> 'l \<Rightarrow> quota_error + int"
    and put :: "string \<Rightarrow> int \<Rightarrow> 'l \<Rightarrow> 'l \<times> quota_error option"
  assumes put_reads: "put t n l = (l', None) \<Longrightarrow> look t l' = Inr n"
    and put_frame: "u \<noteq> t \<Longrightarrow> look u (fst (put t n l)) = look u l"
begin

lemma put_others:
  assumes "l' = l \<or> (\<exists>n e. put t n l = (l', e))" and "u \<noteq> t"
  shows "look u l' = look u l"
  using assms put_frame [of u t _ l] by (metis fst_conv)

lemma put_told: "put t n l = (l', None) \<Longrightarrow> look u l' = (if u = t then Inr n else look u l)"
  using put_reads put_others by (metis (full_types))

end

definition mem_put :: "string \<Rightarrow> int \<Rightarrow> mem_ledger \<Rightarrow> mem_ledger \<times> quota_error option" where
  "mem_put t n l = (mem_SetBalance l t n, None)"

definition mem_look :: "string \<Rightarrow> mem_ledger \<Rightarrow> quota_error + int" where
  "mem_look t l = mem_Balance l t"

definition redis_put :: "string \<Rightarrow> int \<Rightarrow> redis_ledger \<Rightarrow> redis_ledger \<times> quota_error option" where
  "redis_put t n l = redis_SetBalance l t n"

definition redis_look :: "string \<Rightarrow> redis_ledger \<Rightarrow> quota_error + int" where
  "redis_look t l = redis_Balance l t"

interpretation mem_bal: balance_port mem_look mem_put
  by unfold_locales (auto simp: mem_look_def mem_put_def mem_Balance_def mem_SetBalance_def)

interpretation rds_bal: balance_port redis_look redis_put
  by unfold_locales
    (auto simp: redis_look_def redis_put_def redis_Balance_def redis_SetBalance_def Let_def split: option.splits)

text \<open>A write that fails may have been made: the transaction's first command stands.\<close>

lemma redis_failed_put_applied:
  "let l = demo_redis\<lparr>repoch := [''t'' \<mapsto> MaxInt64]\<rparr> in
     snd (redis_put ''t'' 7 l) = Some ErrBackend \<and> redis_look ''t'' (fst (redis_put ''t'' 7 l)) = Inr 7 \<and>
     redis_look ''t'' l = Inr 100"
  unfolding demo_redis_def by code_simp

subsection \<open>What a reply tells\<close>

text \<open>
  A request to put a balance: the tenant its path names and the number its body has.
\<close>

definition puts ::
  "admin_libs \<Rightarrow> admin_request \<Rightarrow> ('v, 'r) admin_reply itself \<Rightarrow> string \<Rightarrow> int \<Rightarrow> bool" where
  "puts lib rq ty t n \<longleftrightarrow> arMethod rq = ''PUT'' \<and> t = path_id (arPath rq) ''/admin/tenants/'' ''/quota'' \<and>
     validID t \<and> 0 \<le> n \<and> (balance_body lib rq :: ('v, 'r) admin_reply + int option) = Inr (Some n)"

text \<open>
  The world after a request, read off the reply: a balance that was put is the write's
  success, a closed breaker was reset, a switched model or upstream is what the reply says,
  and a reply of any other kind changed none of them; only a refused write may have
  left its mark on the ledger, and its refusal is the write's error.
\<close>

definition effect ::
  "gateway_config \<Rightarrow> admin_libs \<Rightarrow> ('l, 'b) admin_bindings \<Rightarrow> admin_request \<Rightarrow> ('l, 'b, 'i) admin_world \<Rightarrow>
   ('l, 'b, 'i) admin_world \<Rightarrow> ('v, 'r) admin_reply \<Rightarrow> bool" where
  "effect cfg lib ab rq w w' rep \<longleftrightarrow>
     (case rep of
        BalanceOf t n \<Rightarrow>
          if arMethod rq = ''PUT''
          then puts lib rq TYPE(('v, 'r) admin_reply) t n \<and> abSetBalance ab t n (awLedger w) = (awLedger w', None)
          else awLedger w' = awLedger w
      | Rejected _ _ \<Rightarrow>
          awLedger w' = awLedger w \<or>
          (\<exists>t n err. puts lib rq TYPE(('v, 'r) admin_reply) t n \<and>
             abSetBalance ab t n (awLedger w) = (awLedger w', Some err) \<and> rep = renderQuotaError err)
      | _ \<Rightarrow> awLedger w' = awLedger w) \<and>
     awBreaker w' =
       (case rep of
          BreakerClosed u \<Rightarrow> abReset ab (awBreaker w) u (abClock ab u)
        | BreakerList _ \<Rightarrow> fst (breaker_views ab (upstreamIDs (cfUpstreams cfg)) (awBreaker w))
        | _ \<Rightarrow> awBreaker w) \<and>
     awSwitch w' =
       (case rep of Switched t x b \<Rightarrow> fst (switch_set t (awSwitch w) x b) | _ \<Rightarrow> awSwitch w)"

text \<open>What a reply shows is what the components answer.\<close>

definition shows_state ::
  "gateway_config \<Rightarrow> ('l, 'b) admin_bindings \<Rightarrow> admin_request \<Rightarrow> ('l, 'b, 'i) admin_world \<Rightarrow>
   ('l, 'b, 'i) admin_world \<Rightarrow> ('v, 'r) admin_reply \<Rightarrow> bool" where
  "shows_state cfg ab rq w w' rep \<longleftrightarrow>
     (case rep of
        BalanceOf t n \<Rightarrow>
          validID t \<and> abBalance ab t (awLedger w') = Inr n \<and>
          (scAdminToken (cfSecurity cfg) \<noteq> '''' \<or> scAllowUnauthenticated (cfSecurity cfg))
      | BreakerList views \<Rightarrow>
          map fst views = upstreamIDs (cfUpstreams cfg) \<and>
          (distinct (map fst views) \<longrightarrow>
             (\<forall>(u, s) \<in> set views. s = snd (abStateOf ab (awBreaker w) u (abClock ab u))))
      | BreakerClosed u \<Rightarrow>
          u \<in> set (upstreamIDs (cfUpstreams cfg)) \<and> (\<forall>e. snd (abStateOf ab (awBreaker w') u e) = StateClosed)
      | RoutingView v \<Rightarrow> v = View (awSwitch w')
      | Switched modelSwitch m b \<Rightarrow> ModelEnabled (awSwitch w') m = b
      | Switched upstreamSwitch u b \<Rightarrow> UpstreamEnabled (awSwitch w') u = b
      | _ \<Rightarrow> True)"

lemmas told_defs = effect_def shows_state_def

lemma breaker_views_ids: "map fst (snd (breaker_views ab us b)) = us"
  by (induction us arbitrary: b) (simp_all add: case_prod_beta)

text \<open>Reading one upstream's state does not change what is read of another.\<close>

lemma breaker_views_exact:
  assumes "\<And>b u v e e'. u \<noteq> v \<Longrightarrow> snd (abStateOf ab (fst (abStateOf ab b v e)) u e') = snd (abStateOf ab b u e')"
    and "distinct us" and "(u, s) \<in> set (snd (breaker_views ab us b))"
  shows "s = snd (abStateOf ab b u (abClock ab u))"
  using assms(2,3)
proof (induction us arbitrary: b)
  case (Cons v us)
  let ?b = "fst (abStateOf ab b v (abClock ab v))"
  show ?case
  proof (cases "u = v")
    case True
    have "(u, s) \<notin> set (snd (breaker_views ab us ?b))"
      using Cons.prems(1) True breaker_views_ids [of ab us ?b] by (metis distinct.simps(2) fst_conv image_eqI set_map)
    then show ?thesis using Cons.prems(2) True by (auto simp: case_prod_beta)
  next
    case False
    then have "(u, s) \<in> set (snd (breaker_views ab us ?b))" using Cons.prems(2) by (auto simp: case_prod_beta)
    then show ?thesis using Cons.IH [of ?b] Cons.prems(1) assms(1) [OF False] by simp
  qed
qed simp

lemma decode_rejects: "decodeAdminBody lib opt d zero rq = Inl rep \<Longrightarrow> rep = Rejected 400 ''invalid_request''"
  by (auto simp: decodeAdminBody_def Let_def split: if_splits json_head.splits prod.splits)

lemma decodeEnabled_rejects: "decodeEnabled lib rq = Inl rep \<Longrightarrow> rep = Rejected 400 ''invalid_request''"
  by (auto simp: decodeEnabled_def decodeAdminJSON_def dest: decode_rejects split: sum.splits option.splits)

lemma switch_set_error:
  "switch_set t s x b = (s', Inl err) \<Longrightarrow> s' = s"
  by (cases t) (auto simp: SetModel_def SetUpstream_def split: if_splits)

lemma switch_set_shows:
  assumes "switch_set t s x b = (s', Inr u)"
  shows "case t of modelSwitch \<Rightarrow> ModelEnabled s' x = b | upstreamSwitch \<Rightarrow> UpstreamEnabled s' x = b"
  using assms by (cases t) (auto simp: SetModel_def SetUpstream_def ModelEnabled_def UpstreamEnabled_def split: if_splits)

fun silent :: "('v, 'r) admin_reply \<Rightarrow> bool" where
  "silent (BalanceOf _ _) = False"
| "silent (BreakerList _) = False"
| "silent (BreakerClosed _) = False"
| "silent (RoutingView _) = False"
| "silent (Switched _ _ _) = False"
| "silent _ = True"

lemma silent_told:
  assumes "silent rep"
  shows "effect cfg lib ab rq w (w\<lparr>awIdentity := i\<rparr>) rep \<and> shows_state cfg ab rq w (w\<lparr>awIdentity := i\<rparr>) rep"
    and "effect cfg lib ab rq w w rep \<and> shows_state cfg ab rq w w rep"
  using assms by (cases rep; simp add: told_defs)+

lemma switch_error_silent: "silent (switch_error t err)"
  by (cases t; cases err) simp_all

lemma serveQuotaTopUp_cases:
  fixes a :: "('l, 'b, 'i, 'v, 'r) admin"
  assumes "serveQuotaTopUp lib a rq t w = (w', rep)"
  obtains (silent) "w' = w" "silent rep"
  | (put) wr n e where "adSetBalance a = Some wr" "(balance_body lib rq :: ('v, 'r) admin_reply + int option) = Inr (Some n)"
      "0 \<le> n" "wr t n (awLedger w) = (awLedger w', e)" "w' = w\<lparr>awLedger := awLedger w'\<rparr>"
      "rep = (case e of None \<Rightarrow> BalanceOf t n | Some err \<Rightarrow> renderQuotaError err)"
proof (cases "adSetBalance a")
  case None
  then show ?thesis using assms silent by (simp add: serveQuotaTopUp_def)
next
  case (Some wr)
  show ?thesis
  proof (cases "balance_body lib rq :: ('v, 'r) admin_reply + int option")
    case (Inl r)
    then have "r = Rejected 400 ''invalid_request''"
      by (auto simp: balance_body_def decodeAdminJSON_def dest: decode_rejects)
    then have "w' = w" "silent rep" using assms Inl Some by (auto simp: serveQuotaTopUp_def)
    then show ?thesis by (rule silent)
  next
    case (Inr m)
    show ?thesis
    proof (cases "m = None \<or> the m < 0")
      case True
      then have "w' = w" "silent rep" using assms Inr Some by (auto simp: serveQuotaTopUp_def split: option.splits)
      then show ?thesis by (rule silent)
    next
      case False
      then obtain n where n: "m = Some n" "0 \<le> n" by auto
      obtain l e where wr: "wr t n (awLedger w) = (l, e)" by fastforce
      then have "w' = w\<lparr>awLedger := l\<rparr>" "rep = (case e of None \<Rightarrow> BalanceOf t n | Some err \<Rightarrow> renderQuotaError err)"
        using assms Inr Some n by (cases e; simp add: serveQuotaTopUp_def)+
      then show ?thesis using put [OF Some, of n e] Inr n wr by simp
    qed
  qed
qed

lemma serveTenants_told:
  fixes rep :: "('v, 'r) admin_reply"
  assumes "balance_port (abBalance ab) (abSetBalance ab)" and "t = path_id (arPath rq) ''/admin/tenants/'' ''/quota''"
    and "serveTenants lib (buildAdmin cfg ab healthy idops insights) rq t w = (w', rep)"
  shows "effect cfg lib ab rq w w' rep \<and> shows_state cfg ab rq w w' rep \<and> awIdentity w' = awIdentity w"
proof (cases "t = '''' \<or> \<not> validID t \<or> arMethod rq \<noteq> ''PUT''")
  case True
  then show ?thesis
    using assms(3)
    by (auto simp: serveTenants_def guardedPair_def serveQuota_def buildAdmin_def Let_def renderQuotaError_def told_defs
        split: if_splits sum.splits)
next
  case False
  then have t: "validID t" "arMethod rq = ''PUT''" by simp_all
  have "serveQuotaTopUp lib (buildAdmin cfg ab healthy idops insights) rq t w = (w', rep)"
    using assms(3) False by (simp add: serveTenants_def guardedPair_def)
  then show ?thesis
  proof (cases rule: serveQuotaTopUp_cases)
    case silent
    then show ?thesis using silent_told(2) by blast
  next
    case (put wr n e)
    have wr: "wr = abSetBalance ab" "scAdminToken (cfSecurity cfg) \<noteq> '''' \<or> scAllowUnauthenticated (cfSecurity cfg)"
      using put(1) by (auto simp: buildAdmin_def Let_def split: if_splits)
    have "puts lib rq TYPE(('v, 'r) admin_reply) t n" using t put(2,3) assms(2) by (simp add: puts_def)
    moreover have "abBalance ab t (awLedger w') = Inr n" if "e = None"
      using balance_port.put_reads [OF assms(1)] put(4) wr(1) that by blast
    moreover have "awBreaker w' = awBreaker w" "awSwitch w' = awSwitch w" "awIdentity w' = awIdentity w"
      using arg_cong [OF put(5), of awBreaker] arg_cong [OF put(5), of awSwitch] arg_cong [OF put(5), of awIdentity] by simp_all
    ultimately show ?thesis
      using put(4,6) wr t by (cases e) (auto simp: told_defs renderQuotaError_def)
  qed
qed

lemma serveBreakers_told:
  assumes "breaker_port allow (abStateOf ab) (abReset ab) report invar"
    and "serveBreakers (buildAdmin cfg ab healthy idops insights) w = (w', rep)"
  shows "effect cfg lib ab rq w w' rep \<and> shows_state cfg ab rq w w' rep \<and> awIdentity w' = awIdentity w"
proof -
  let ?ids = "upstreamIDs (cfUpstreams cfg)"
  obtain b views where v: "breaker_views ab ?ids (awBreaker w) = (b, views)" by fastforce
  then have "w' = w\<lparr>awBreaker := b\<rparr>" "rep = BreakerList views"
    using assms(2) by (simp_all add: serveBreakers_def buildAdmin_def Let_def)
  moreover have "map fst views = ?ids" using breaker_views_ids [of ab ?ids "awBreaker w"] v by simp
  moreover have "s = snd (abStateOf ab (awBreaker w) u (abClock ab u))" if "distinct ?ids" "(u, s) \<in> set views" for u s
    using breaker_views_exact [OF breaker_port.state_of_frame [OF assms(1)] that(1)] that(2) v by simp
  ultimately show ?thesis using v by (auto simp: told_defs)
qed

lemma serveBreakerReset_told:
  assumes "breaker_port allow (abStateOf ab) (abReset ab) report invar" and "invar (awBreaker w)"
    and "serveBreakerReset (buildAdmin cfg ab healthy idops insights) u w = (w', rep)"
  shows "effect cfg lib ab rq w w' rep \<and> shows_state cfg ab rq w w' rep \<and> awIdentity w' = awIdentity w"
  using assms(3) breaker_port.reset_closed [OF assms(1,2)]
  by (auto simp: serveBreakerReset_def buildAdmin_def reset_binding_def isUnknownUpstreamErr_def Let_def told_defs
      split: if_splits)

lemma serveUpstreamProbe_told:
  assumes "serveUpstreamProbe a u w = (w', rep)"
  shows "effect cfg lib ab rq w w' rep \<and> shows_state cfg ab rq w w' rep \<and> awIdentity w' = awIdentity w"
  using assms by (auto simp: serveUpstreamProbe_def told_defs split: if_splits option.splits)

lemma serveInsights_told:
  assumes "serveInsights a rq w = (w', rep)"
  shows "effect cfg lib ab rq w w' rep \<and> shows_state cfg ab rq w w' rep \<and> awIdentity w' = awIdentity w"
  using assms by (auto simp: serveInsights_def told_defs split: if_splits option.splits)

lemma serveRouting_told:
  assumes "serveRouting a w = (w', rep)"
  shows "effect cfg lib ab rq w w' rep \<and> shows_state cfg ab rq w w' rep \<and> awIdentity w' = awIdentity w"
  using assms by (auto simp: serveRouting_def told_defs split: if_splits)

lemma serveRoutingSwitch_told:
  fixes a :: "('l, 'b, 'i, 'v, 'r) admin"
  assumes "serveRoutingSwitch lib a rq t x w = (w', rep)"
  shows "effect cfg lib ab rq w w' rep \<and> shows_state cfg ab rq w w' rep \<and> awIdentity w' = awIdentity w"
proof -
  consider (refused) "w' = w" "rep = NotFound \<or> rep = Rejected 400 ''invalid_request''"
    | (failed) b s err where "switch_set t (awSwitch w) x b = (s, Inl err)" "w' = w\<lparr>awSwitch := s\<rparr>" "rep = switch_error t err"
    | (fine) b s u where "switch_set t (awSwitch w) x b = (s, Inr u)" "w' = w\<lparr>awSwitch := s\<rparr>" "rep = Switched t x b"
  proof (cases "decodeEnabled lib rq :: ('v, 'r) admin_reply + bool")
    case (Inl r)
    then have "w' = w" "rep = NotFound \<or> rep = Rejected 400 ''invalid_request''"
      using assms decodeEnabled_rejects [OF Inl] by (auto simp: serveRoutingSwitch_def split: if_splits)
    then show ?thesis by (rule refused)
  next
    case (Inr b)
    obtain s res where s: "switch_set t (awSwitch w) x b = (s, res)" by fastforce
    then show ?thesis
      using assms Inr refused failed [of b s] fine [of b s]
      by (cases res) (simp_all add: serveRoutingSwitch_def split: if_splits)
  qed
  then show ?thesis
  proof cases
    case refused
    then show ?thesis by (auto simp: told_defs)
  next
    case failed
    then have "w' = w" "silent rep"
      using switch_set_error [OF failed(1)] by (simp_all add: switch_error_silent)
    then show ?thesis using silent_told(2) by blast
  next
    case fine
    then show ?thesis using switch_set_shows [OF fine(1)] by (cases t) (auto simp: told_defs)
  qed
qed

lemma identity_reply_told:
  assumes "identity_reply w res f = (w', rep)"
    and "\<And>x. silent (f x)"
  shows "effect cfg lib ab rq w w' rep \<and> shows_state cfg ab rq w w' rep"
proof -
  obtain i where i: "w' = w\<lparr>awIdentity := i\<rparr>" and "silent rep"
    using assms
    by (auto simp: identity_reply_def renderIdentityError_def split: sum.splits prod.splits identity_error.splits)
  from silent_told(1) [OF \<open>silent rep\<close>] show ?thesis unfolding i .
qed

lemma serveIdentity_told:
  assumes "serveIdentity lib a rq w = (w', rep)"
  shows "effect cfg lib ab rq w w' rep \<and> shows_state cfg ab rq w w' rep"
proof -
  have silent: "effect cfg lib ab rq w w NotFound \<and> shows_state cfg ab rq w w NotFound"
    "effect cfg lib ab rq w w (MethodNotAllowed ms) \<and> shows_state cfg ab rq w w (MethodNotAllowed ms)"
    "effect cfg lib ab rq w w (Rejected n s) \<and> shows_state cfg ab rq w w (Rejected n s)" for ms n s
    by (simp_all add: told_defs)
  have "serveListUsers a w = (w', rep) \<Longrightarrow> ?thesis" "serveCreateUser lib a rq w = (w', rep) \<Longrightarrow> ?thesis"
    "serveLimitsReplace lib a rq k x w = (w', rep) \<Longrightarrow> ?thesis" "serveListKeys a x w = (w', rep) \<Longrightarrow> ?thesis"
    "serveCreateKey lib a rq x w = (w', rep) \<Longrightarrow> ?thesis" "serveKeyStatus lib a rq x w = (w', rep) \<Longrightarrow> ?thesis" for k x
    using silent
    by (auto simp: serveListUsers_def serveCreateUser_def serveLimitsReplace_def serveListKeys_def serveCreateKey_def
        serveKeyStatus_def decodeOverride_def decodeAdminJSON_def decodeAdminJSONOptional_def Let_def
        dest!: decode_rejects decodeEnabled_rejects dest: identity_reply_told
        split: option.splits sum.splits if_splits)
  then show ?thesis
    using assms silent by (auto simp: serveIdentity_def guarded_def guardedPair_def Let_def split: if_splits)
qed

lemma serveIdentity_path:
  assumes "serveIdentity lib a rq w = (w', rep)" and "awIdentity w' \<noteq> awIdentity w"
  shows "arPath rq = ''/admin/users'' \<or> has_prefix (arPath rq) ''/admin/users/'' \<or> has_prefix (arPath rq) ''/admin/keys/''"
  using assms by (auto simp: serveIdentity_def Let_def split: if_splits)

text \<open>
  C16: An operator can trust the reply.  On the surface as it is assembled, on any ledger whose
  successful writes are read back and any breaker of the port, whatever the request:
  without the configured bearer token the answer is 401 and nothing changes.  Otherwise the
  reply tells exactly what happened: the ledger, the breakers and the switches are as before
  unless the reply is the success of the one write it names, and then the balance, the breaker
  or the switch is what the reply says and what is read from now on; the list of breakers
  names every configured upstream with the state its breaker answers.  An answer of 400 and
  above left the breakers and the switches alone, and the ledger too, unless the request was
  the top-up of a tenant whose write itself reported the error, which may have been made.
  Whatever the answer, the balance of a tenant the path does not name is as it was.
  Only the identity paths reach the identity store, and without a token and
  without the explicit opt-in no balance is shown or written.
\<close>

theorem admin_reply_tells:
  fixes rep :: "('v, 'r) admin_reply"
  assumes "admin_ServeHTTP lib (buildAdmin cfg ab healthy idops insights) rq w = (w', rep)"
    and "balance_port (abBalance ab) (abSetBalance ab)"
    and "breaker_port allow (abStateOf ab) (abReset ab) report invar" and "invar (awBreaker w)"
  shows "(\<not> admin_authorized lib (scAdminToken (cfSecurity cfg)) rq \<longrightarrow> w' = w \<and> reply_status rep = 401) \<and>
    effect cfg lib ab rq w w' rep \<and> shows_state cfg ab rq w w' rep \<and>
    (awIdentity w' \<noteq> awIdentity w \<longrightarrow>
      arPath rq = ''/admin/users'' \<or> has_prefix (arPath rq) ''/admin/users/'' \<or> has_prefix (arPath rq) ''/admin/keys/'') \<and>
    (\<forall>u. u \<noteq> path_id (arPath rq) ''/admin/tenants/'' ''/quota'' \<longrightarrow>
      abBalance ab u (awLedger w') = abBalance ab u (awLedger w)) \<and>
    (400 \<le> reply_status rep \<longrightarrow> awBreaker w' = awBreaker w \<and> awSwitch w' = awSwitch w \<and>
      (awLedger w' = awLedger w \<or>
       (\<exists>t n err. puts lib rq TYPE(('v, 'r) admin_reply) t n \<and>
          abSetBalance ab t n (awLedger w) = (awLedger w', Some err) \<and> rep = renderQuotaError err)))"
proof -
  let ?a = "buildAdmin cfg ab healthy idops insights"
  have tok: "adToken ?a = scAdminToken (cfSecurity cfg)" by (simp add: buildAdmin_def Let_def)
  have low: "awBreaker w' = awBreaker w \<and> awSwitch w' = awSwitch w \<and>
      (awLedger w' = awLedger w \<or>
       (\<exists>t n err. puts lib rq TYPE(('v, 'r) admin_reply) t n \<and>
          abSetBalance ab t n (awLedger w) = (awLedger w', Some err) \<and> rep = renderQuotaError err))"
    if "effect cfg lib ab rq w w' rep" "400 \<le> reply_status rep"
    using that by (cases rep) (simp_all add: effect_def)
  have "awLedger w' = awLedger w \<or>
      (\<exists>n e. abSetBalance ab (path_id (arPath rq) ''/admin/tenants/'' ''/quota'') n (awLedger w) = (awLedger w', e))"
    if "effect cfg lib ab rq w w' rep"
    using that by (cases rep) (auto simp: effect_def puts_def split: if_splits)
  then have others: "\<forall>u. u \<noteq> path_id (arPath rq) ''/admin/tenants/'' ''/quota'' \<longrightarrow>
      abBalance ab u (awLedger w') = abBalance ab u (awLedger w)" if "effect cfg lib ab rq w w' rep"
    using that balance_port.put_others [OF assms(2)] by blast
  have same: "effect cfg lib ab rq w w NotFound" "shows_state cfg ab rq w w NotFound"
    "effect cfg lib ab rq w w Unauthorized" "shows_state cfg ab rq w w Unauthorized"
    "effect cfg lib ab rq w w (MethodNotAllowed ms)" "shows_state cfg ab rq w w (MethodNotAllowed ms)" for ms
    by (simp_all add: told_defs)
  note told = serveTenants_told [OF assms(2) refl] serveBreakers_told [OF assms(3)] serveBreakerReset_told [OF assms(3,4)]
    serveUpstreamProbe_told serveInsights_told serveRouting_told serveRoutingSwitch_told
  have "(effect cfg lib ab rq w w' rep \<and> shows_state cfg ab rq w w' rep) \<and>
    (awIdentity w' \<noteq> awIdentity w \<longrightarrow>
      arPath rq = ''/admin/users'' \<or> has_prefix (arPath rq) ''/admin/users/'' \<or> has_prefix (arPath rq) ''/admin/keys/'')"
    using assms(1) same
    unfolding admin_ServeHTTP_def guarded_def Let_def
    by (fastforce dest: told serveIdentity_told split: if_splits)
  moreover have "w' = w \<and> reply_status rep = 401" if "\<not> admin_authorized lib (scAdminToken (cfSecurity cfg)) rq"
    using assms(1) that by (simp add: admin_ServeHTTP_def tok Let_def)
  ultimately show ?thesis using low others by blast
qed

text \<open>A balance is put with the right token.\<close>

definition demo_admin_cfg :: gateway_config where
  "demo_admin_cfg = defaultConfig (demo_env [(''BREAKWATER_ADMIN_TOKEN'', ''s'')])"

definition demo_admin_libs :: admin_libs where
  "demo_admin_libs = \<lparr>alJSON = (\<lambda>_. FirstValue (JObj [(''balance'', JInt 7)]) True), alSha256 = (\<lambda>s. s)\<rparr>"

definition demo_put :: admin_request where
  "demo_put = \<lparr>arMethod = ''PUT'', arPath = ''/admin/tenants/t/quota'', arHours = '''',
     arHeader = [(''Authorization'', ''Bearer s'')], arBody = ''body'', arBroken = False\<rparr>"

definition demo_admin_world :: "(mem_ledger, registry, unit) admin_world" where
  "demo_admin_world = \<lparr>awLedger = NewMemory, awBreaker = NewRegistry \<lparr>FailThreshold = 3, Cooldown = 30, ProbeTimeout = 5, SlowRatio = 1\<rparr>,
     awSwitch = NewSwitch [] [] False, awIdentity = ()\<rparr>"

definition demo_bindings :: "(mem_ledger, registry) admin_bindings" where
  "demo_bindings = \<lparr>abBalance = mem_look, abSetBalance = mem_put, abStateOf = StateOf, abReset = Reset,
     abClock = (\<lambda>_. \<lparr>born = 0, now = 0, stamp = 0, draw = 0\<rparr>)\<rparr>"

definition demo_admin where
  "demo_admin = admin_ServeHTTP demo_admin_libs
     (buildAdmin demo_admin_cfg demo_bindings (\<lambda>_. True)
        (None :: (unit, unit) identity_ops option) (None :: (int \<Rightarrow> unit option) option))
     demo_put demo_admin_world"

definition demo_balance :: "(string \<times> int) option" where
  "demo_balance = (case snd demo_admin of BalanceOf t n \<Rightarrow> Some (t, n) | _ \<Rightarrow> None)"

lemma demo_balance_value: "demo_balance = Some (''t'', 7)"
  by code_simp

theorem admin_reply_tells_witness:
  "snd demo_admin = BalanceOf ''t'' 7 \<and> mem_look ''t'' (awLedger (fst demo_admin)) = Inr 7 \<and>
   awLedger (fst demo_admin) = mem_SetBalance NewMemory ''t'' 7"
proof -
  have r: "snd demo_admin = BalanceOf ''t'' 7"
    using demo_balance_value by (simp add: demo_balance_def split: admin_reply.splits)
  obtain w' where d: "demo_admin = (w', BalanceOf ''t'' 7)" using r by (metis prod.collapse)
  have port: "balance_port (abBalance demo_bindings) (abSetBalance demo_bindings)"
    "breaker_port Allow (abStateOf demo_bindings) (abReset demo_bindings) Report registry_ok"
    by (simp_all add: demo_bindings_def mem_bal.balance_port_axioms reg.breaker_port_axioms)
  have "registry_ok (awBreaker demo_admin_world)" by (simp add: demo_admin_world_def NewRegistry_ok)
  note admin_reply_tells [OF d [unfolded demo_admin_def] port this]
  then have "abSetBalance demo_bindings ''t'' 7 (awLedger demo_admin_world) = (awLedger w', None)"
    "abBalance demo_bindings ''t'' (awLedger w') = Inr 7"
    by (simp_all add: told_defs demo_put_def)
  moreover have "awLedger demo_admin_world = NewMemory" by (simp add: demo_admin_world_def)
  ultimately show ?thesis unfolding d by (simp add: demo_bindings_def mem_put_def)
qed

text \<open>
  The suffix of the probe endpoint is tested before the switch endpoint: an upstream whose id is
  the valid name \<open>probe\<close> can be configured and probed, but no request switches it.
\<close>

lemma upstream_probe_unswitchable:
  assumes "admin_authorized lib (adToken a) rq" and "arPath rq = ''/admin/upstreams/probe''" and "arMethod rq = ''PUT''"
  shows "validID ''probe'' \<and> admin_ServeHTTP lib a rq w = (w, MethodNotAllowed [''POST''])"
  using assms by (simp add: admin_ServeHTTP_def guarded_def Let_def has_prefix_def has_suffix_def validID_def id_char_def byte_def)

end
