(* ===== verification/Spec2Isabelle.thy ===== *)
theory Spec2Isabelle
  imports Rejection Protocol_Stream Recovery Relay_Lease Quota_Redis Cache_Flight Admin
begin

text \<open>
  Breakwater is a gateway in front of large-language-model upstreams.  A request of one of
  three client formats enters a chain of stages: identity, model authorization, in-flight
  ceiling, rate limit, token quota, response cache.  At the chain's end the router orders
  the upstreams that may serve the model, and the relay walks them with retries, circuit
  breakers and fallback models until one reply has been delivered.  Around the chain run the
  lease sweeper, the quota reconciler and the recovery prober.

  \<^bold>\<open>Conventions.\<close>  Theory \<open>Prelude\<close> has Go's 64-bit integers (a HOL integer, with the
  wrap-around \<open>i64\<close> written where the source can overflow), durations and instants in
  nanoseconds, and \<open>time.Sub\<close>'s saturation.  \<open>Float64\<close> is round-to-nearest-even binary64
  over the rationals.  \<open>Go_Strings\<close> has the string functions of the Go library the gateway
  calls, \<open>Go_Json\<close> the decoding of a JSON tree into a struct (case-folded names, the last
  member wins, a repeated array decoded over the elements already there, ranges of the
  number types) and the encoding of maps, \<open>Go_Time\<close> the parser of
  durations.  Every clock reading, random draw, map iteration order, and the answer of a service
  or library outside the repository (the JSON codec, HMAC, FNV's seed, the HTTP transport,
  the system of record) is an argument of the definition that uses it.  A struct the source
  mutates through a pointer is a record returned updated; where the identity of a pointer
  matters (probe grants, elements of a list, flights) it is an address in a heap.  Critical
  sections under a lock are single steps; where a property speaks of concurrency the model
  has an inductive relation over the interleavings of those steps.

  \<^bold>\<open>Circuit breakers\<close> (\<^verbatim>\<open>internal/circuit\<close>).  \<open>Circuit_Machine\<close> is the shared
  three-state machine of \<^verbatim>\<open>machine.go\<close>.  \<open>Circuit_Port\<close> states the interface of
  \<^verbatim>\<open>circuit.go\<close> as the locale \<open>breaker_port\<close>, proves the active prober
  (\<^verbatim>\<open>prober.go\<close>) once against it and interprets it on the breaker that never trips
  (\<^verbatim>\<open>nop.go\<close>).  \<open>Circuit_Breaker\<close> is the consecutive-failure registry
  (\<^verbatim>\<open>breaker.go\<close>): a probe has one owner, the observer hears a legal chain of
  transitions, the breaker opens on exactly the configured run of failures, the probe's owner
  decides, an open breaker recovers.  \<open>Circuit_Window\<close> is the ring of buckets of the two
  sampling strategies, shown equal to a log of the last ten seconds; \<open>Circuit_Slow\<close> and
  \<open>Circuit_Ratio\<close> are \<^verbatim>\<open>slow.go\<close> and \<^verbatim>\<open>ratio.go\<close> on it.

  \<^bold>\<open>Limits and quota\<close> (\<^verbatim>\<open>internal/limiter\<close>, \<^verbatim>\<open>internal/quota\<close>).  \<open>Limiter\<close> is
  the in-process token bucket in float64: the admitted rate net of refunds, the range of a bucket, the
  invisibility of the idle sweep, the advertised wait.  \<open>Limiter_Gate\<close> is the in-flight
  gate and the wait of the Redis script.  \<open>Quota_Port\<close> states the ledger of
  \<^verbatim>\<open>quota.go\<close> as the locale \<open>ledger\<close> and proves the quota stage
  (\<^verbatim>\<open>middleware.go\<close>) against it; \<open>Quota_Memory\<close> and \<open>Quota_Redis\<close> interpret it on
  \<^verbatim>\<open>memory.go\<close> and on \<^verbatim>\<open>redis.go\<close> with its three Lua scripts, and prove
  conservation of tokens, the end of every lease, the sweep and the reconciler.  A Redis
  counter has 64 bits: an \<open>INCRBY\<close> that would leave them fails, and the script stops there with
  its earlier writes made.  The locale's parameter \<open>room\<close> says when a reservation cannot meet
  such a failure; the in-process ledger always has room.

  \<^bold>\<open>Identity\<close> (\<^verbatim>\<open>internal/auth\<close>).  \<open>Auth\<close> is the model check, the merge of limit
  layers and the configured identity set; \<open>Auth_Cache\<close> is the process-local LRU with its
  pointers, refined to an association list.

  \<^bold>\<open>Response cache\<close> (\<^verbatim>\<open>internal/cache\<close>).  \<open>Cache_Admission\<close> is the packed
  count-min sketch with its doorkeeper at word width, \<open>Cache\<close> the store,
  \<open>Cache_Flight\<close> the singleflight as an interleaving of atomic steps and the cache stage.

  \<^bold>\<open>Routing\<close> (\<^verbatim>\<open>internal/router\<close>, \<^verbatim>\<open>internal/affinity\<close>,
  \<^verbatim>\<open>internal/upstream\<close>).  \<open>Router_Switch\<close> is the runtime switch, refined to a
  three-state rotation per upstream; \<open>Router\<close> the candidate list and the latency order;
  \<open>Affinity\<close> the prompt-prefix tries; \<open>Upstream\<close> the credential ring and the adapter.

  \<^bold>\<open>Relay\<close> (\<^verbatim>\<open>internal/retry\<close>, \<^verbatim>\<open>internal/relay\<close>).  \<open>Retry\<close> is the attempt
  loop with its budget, backoff and classifier.  \<open>Relay_Plan\<close> is the fallback plan and the
  fatal conditions, \<open>Relay_Stream\<close> the pumps, \<open>Relay\<close> the engine over all of them:
  one response per request, with the status the renderers of \<open>Protocol\<close> hand to
  \<open>net/http\<close>, and a trail that is the walk over candidates and fallbacks.

  \<open>Relay_Lease\<close> is the timer set of a streaming attempt as a step relation: a cut context
  has the flag of a configured timer set.

  \<^bold>\<open>Client formats\<close> (\<^verbatim>\<open>internal/protocol\<close>).  \<open>Protocol\<close> decodes the three request
  formats into the canonical request, with every refusal, and renders replies: the body a
  translated format forwards reads back as the request that was governed, and no reply can
  be opened as a document.  \<open>Protocol_Stream\<close> states what the pump needs of a stream
  translator as the locale \<open>stream_wire\<close>, interprets it on the Messages and the Responses
  translator, and shows that both send the upstream's text so far and claim completion
  only for a complete stream.

  \<^bold>\<open>The request chain\<close> (\<^verbatim>\<open>internal/pipeline\<close>, the stages of limiter and quota,
  \<^verbatim>\<open>internal/server/inference.go\<close>, the wiring in \<^verbatim>\<open>cmd/breakwater/serve.go\<close>).
  \<open>Pipeline\<close> has the per-request carrier, the token estimate and the stages up to the model
  check as handlers that call the next one; \<open>Governance\<close> the in-flight, rate and quota
  stages and the whole chain, proved inside the locale \<open>ledger\<close> and so for both ledgers;
  \<open>Inference\<close> the endpoint over router, affinity index and relay.  Its two theorems span the
  program: the bill follows the delivery, and no attempt leaves what the tenant may use.
  \<open>Rejection\<close> shows that the code a refusal records is the code the client was told.  These
  theorems follow one request; the other requests of the process act through the shared
  components, whose invariants are proved over all interleavings in their own theories.

  \<^bold>\<open>Recovery\<close> (\<^verbatim>\<open>cmd/breakwater/recovery.go\<close>).  \<open>Recovery\<close> is the prober: a
  tick puts an upstream back in rotation exactly when that was earned, a manual disable
  stands, the ladder of waits is a capped power of two.

  \<^bold>\<open>Configuration and management\<close> (\<^verbatim>\<open>internal/config\<close>, \<^verbatim>\<open>internal/server/admin.go\<close>,
  \<^verbatim>\<open>identityadmin.go\<close>, \<^verbatim>\<open>cmd/breakwater/adminassembly.go\<close>).  \<open>Config\<close> is the schema with
  its defaults, the loaders and validators in load order and the posture guard; it is shown to
  accept exactly the environments whose fields are sound, a specification that has no order,
  and to keep the reclaim horizon of a lease above the longest bounded request.  \<open>Admin\<close> is the
  management surface on the live ledger and breakers, any that keep the locales
  \<open>balance_port\<close> and \<open>breaker_port\<close>, the switches and the identity store: the reply tells what
  changed, and a refusal changed nothing, unless it reports the error of the ledger's own
  write, which may have been made.

  \<^bold>\<open>Bounds and fuel.\<close>  Loops are structural or come with a measure.  The one loop that
  need not end in the source's own types, the sizing of the sketch, is a partial function
  into \<open>option\<close>, proved to return.

  \<^bold>\<open>Not modelled.\<close>  Logging and metrics, the health and model-list handlers, the HTTP
  server, usage reports and PostgreSQL statements, failures of the Redis server other than an
  overflowing counter, the construction of
  the process, and the mock upstream: input and output around the operations above, or text
  in another language than Go.  Of the chain, the observation stage only records and the
  recovery stage acts on a panic, which the model does not have; a chain without an identity
  store has no governance stage and is not stated.
\<close>

end
